(* ===== verification/Prelude.thy ===== *)
theory Prelude
  imports Main "HOL-Library.Word"
begin

text \<open>
  The shared vocabulary of the development: the C integer types of \<open>kernel/types.h\<close>, the
  outcomes a kernel routine can have, and the lemma collections and generic facts on lists and
  words that the component theories use.

  A kernel routine is a function on an explicit state. It either returns (\<open>Ok\<close>), calls
  \<open>panic\<close> (\<open>Panic\<close> with the message of the source), or reaches a \<open>sleep\<close> that it has
  to wait in (\<open>Blocks\<close> with the channel). \<open>bnd\<close> sequences two routines.
\<close>

section \<open>Integer types\<close>

type_synonym u8 = "8 word"
type_synonym u16 = "16 word"
type_synonym u32 = "32 word"
type_synonym u64 = "64 word"

section \<open>Wait channels and outcomes\<close>

text \<open>
  The source uses the address of a variable or of a structure as a wait channel. Each kind of
  address that the kernel sleeps on is a constructor.
\<close>

datatype chan =
    ChProc nat            \<comment> \<open>a \<open>struct proc\<close>, in \<open>kwait\<close>\<close>
  | ChTicks               \<comment> \<open>\<open>&ticks\<close>\<close>
  | ChLog                 \<comment> \<open>\<open>&log\<close>\<close>
  | ChBuf nat             \<comment> \<open>the sleep lock of a buffer\<close>
  | ChInode nat           \<comment> \<open>the sleep lock of an in-memory inode\<close>
  | ChPipeRead u64        \<comment> \<open>\<open>&pi->nread\<close> of the pipe at this page\<close>
  | ChPipeWrite u64       \<comment> \<open>\<open>&pi->nwrite\<close> of the pipe at this page\<close>
  | ChConsR               \<comment> \<open>\<open>&cons.r\<close>\<close>
  | ChUartTx              \<comment> \<open>\<open>&tx_chan\<close>\<close>
  | ChDiskFree            \<comment> \<open>\<open>&disk.free[0]\<close>\<close>
  | ChDisk nat            \<comment> \<open>a buffer that the disk owns, in \<open>virtio_disk_rw\<close>\<close>

datatype 'a res = Ok 'a | Panic string | Blocks chan

fun bnd :: "'a res \<Rightarrow> ('a \<Rightarrow> 'b res) \<Rightarrow> 'b res" where
  "bnd (Ok x) f = f x"
| "bnd (Panic m) f = Panic m"
| "bnd (Blocks c) f = Blocks c"

lemma bnd_eq_Ok [simp]: "bnd r f = Ok y \<longleftrightarrow> (\<exists>x. r = Ok x \<and> f x = Ok y)"
  by (cases r) auto

lemma bnd_assoc: "bnd (bnd r f) g = bnd r (\<lambda>x. bnd (f x) g)"
  by (cases r) auto

lemma bnd_Ok_right [simp]: "bnd r Ok = r"
  by (cases r) auto

lemma bnd_split:
  "P (bnd r f) \<longleftrightarrow>
     (\<forall>x. r = Ok x \<longrightarrow> P (f x)) \<and> (\<forall>m. r = Panic m \<longrightarrow> P (Panic m)) \<and>
     (\<forall>c. r = Blocks c \<longrightarrow> P (Blocks c))"
  by (cases r) auto

lemma bnd_cong [fundef_cong]:
  "r = r' \<Longrightarrow> (\<And>x. r' = Ok x \<Longrightarrow> f x = g x) \<Longrightarrow> bnd r f = bnd r' g"
  by (cases r') auto

text \<open>A loop over a list of indices whose body can panic or block.\<close>

fun fold_res :: "('i \<Rightarrow> 's \<Rightarrow> 's res) \<Rightarrow> 'i list \<Rightarrow> 's \<Rightarrow> 's res" where
  "fold_res f [] s = Ok s"
| "fold_res f (i # is) s = bnd (f i s) (fold_res f is)"

lemma fold_res_cong [fundef_cong]:
  "is = is' \<Longrightarrow> s = s' \<Longrightarrow> (\<And>i s. i \<in> set is' \<Longrightarrow> f i s = g i s) \<Longrightarrow> fold_res f is s = fold_res g is' s'"
proof (induction "is" arbitrary: is' s s')
  case (Cons i ks)
  then have "fold_res f ks t = fold_res g ks t" for t by auto
  then have "fold_res f ks = fold_res g ks" by auto
  with Cons.prems show ?case by auto
qed auto

lemma fold_res_append: "fold_res f (xs @ ys) s = bnd (fold_res f xs s) (fold_res f ys)"
proof (induction xs arbitrary: s)
  case (Cons x xs)
  then have "fold_res f (xs @ ys) = (\<lambda>s. bnd (fold_res f xs s) (fold_res f ys))" by auto
  then show ?case by (simp add: bnd_assoc)
qed simp

lemma fold_frame: "(\<And>x s. f (g x s) = f s) \<Longrightarrow> f (fold g xs s) = f s"
  by (induction xs arbitrary: s) simp_all

lemma fold_res_inv:
  assumes "fold_res f is s = Ok t" "P s" "\<And>i s t. i \<in> set is \<Longrightarrow> P s \<Longrightarrow> f i s = Ok t \<Longrightarrow> P t"
  shows "P t"
  using assms
proof (induction "is" arbitrary: s)
  case (Cons i ks)
  from Cons.prems(1) obtain u where u: "f i s = Ok u" "fold_res f ks u = Ok t" by auto
  have "P u" by (rule Cons.prems(3) [OF _ Cons.prems(2) u(1)]) simp
  from Cons.IH [OF u(2) this] show ?case
    using Cons.prems(3) [OF list.set_intros(2)] by blast
qed simp

definition is_Ok :: "'a res \<Rightarrow> bool" where
  "is_Ok r = (case r of Ok _ \<Rightarrow> True | _ \<Rightarrow> False)"

lemma is_Ok_simps [simp]: "is_Ok (Ok x)" "\<not> is_Ok (Panic m)" "\<not> is_Ok (Blocks c)"
  by (simp_all add: is_Ok_def)

lemma is_Ok_iff: "is_Ok r \<longleftrightarrow> (\<exists>x. r = Ok x)"
  by (cases r) auto

section \<open>Lemma collections\<close>

named_theorems param_defs \<open>constants of the headers\<close>
named_theorems frame_simps \<open>what an operation leaves unchanged\<close>
named_theorems inv_intros \<open>preservation of the invariants\<close>

section \<open>First index of a list with a property\<close>

text \<open>
  The scans over the fixed tables of the kernel (\<open>for (p = proc; p < &proc[NPROC]; p++)\<close> with
  an early exit) look for the first entry that satisfies a condition.
\<close>

fun find_index :: "('a \<Rightarrow> bool) \<Rightarrow> 'a list \<Rightarrow> nat option" where
  "find_index P [] = None"
| "find_index P (x # xs) = (if P x then Some 0 else map_option Suc (find_index P xs))"

lemma find_index_None_iff: "find_index P xs = None \<longleftrightarrow> (\<forall>x\<in>set xs. \<not> P x)"
  by (induction xs) auto

lemma find_index_cong:
  "length xs = length ys \<Longrightarrow> (\<And>j. j < length ys \<Longrightarrow> P (xs ! j) = Q (ys ! j)) \<Longrightarrow> find_index P xs = find_index Q ys"
proof (induction xs ys rule: list_induct2)
  case (Cons x xs y ys)
  have "P x = Q y" using Cons.prems [of 0] by simp
  moreover have "find_index P xs = find_index Q ys" using Cons.prems [of "Suc _"] by (intro Cons.IH) simp
  ultimately show ?case by simp
qed simp

lemma find_index_Some_iff:
  "find_index P xs = Some i \<longleftrightarrow> i < length xs \<and> P (xs ! i) \<and> (\<forall>j<i. \<not> P (xs ! j))"
proof (induction xs arbitrary: i)
  case Nil
  then show ?case by simp
next
  case (Cons x xs)
  show ?case
  proof (cases i)
    case 0
    then show ?thesis by simp
  next
    case (Suc k)
    then show ?thesis
      using Cons.IH [of k] by (auto simp: less_Suc_eq_0_disj)
  qed
qed

lemma find_index_SomeD:
  assumes "find_index P xs = Some i"
  shows "i < length xs" "P (xs ! i)" "\<And>j. j < i \<Longrightarrow> \<not> P (xs ! j)"
  using assms by (auto simp: find_index_Some_iff)

lemma find_index_exists: "i < length xs \<Longrightarrow> P (xs ! i) \<Longrightarrow> \<exists>k. find_index P xs = Some k"
  by (cases "find_index P xs") (auto simp: find_index_None_iff)

section \<open>Words\<close>

lemma unat_sub_if_le: "(b :: 'a::len word) \<le> a \<Longrightarrow> unat (a - b) = unat a - unat b"
  by (simp add: unat_sub)

lemma unat_lt_exp: "unat (x :: 'a::len word) < 2 ^ LENGTH('a)"
  by (rule unsigned_less)

lemma unat_of_nat_small [simp]:
  "i < 2 ^ LENGTH('a) \<Longrightarrow> unat (of_nat i :: 'a::len word) = i"
  by (simp add: unsigned_of_nat take_bit_nat_eq_self)

lemma word_add_of_nat_eq_iff:
  assumes "i < 2 ^ LENGTH('a)" "j < 2 ^ LENGTH('a)"
  shows "(p :: 'a::len word) + of_nat i = p + of_nat j \<longleftrightarrow> i = j"
proof
  assume "p + of_nat i = p + of_nat j"
  then have "unat (of_nat i :: 'a word) = unat (of_nat j :: 'a word)" by simp
  then show "i = j"
    using assms by simp
qed simp

lemma unat_diff_add_of_nat:
  assumes "i < 2 ^ LENGTH('a)"
  shows "unat ((p + of_nat i) - (p :: 'a::len word)) = i"
  using assms by simp

lemma unat_neg:
  assumes "(x :: 'a::len word) \<noteq> 0"
  shows "unat (- x) = 2 ^ LENGTH('a) - unat x"
proof -
  have "\<not> unat x \<le> unat (0 :: 'a word)" using assms by (simp add: unat_eq_0)
  then have "unat (0 - x) = unat (0 :: 'a word) + 2 ^ LENGTH('a) - unat x"
    by (simp only: unat_sub_if' if_False)
  then show ?thesis by simp
qed

lemma sint32_small:
  assumes "- (2 ^ 31) \<le> k" "k < 2 ^ 31"
  shows "sint (word_of_int k :: u32) = k"
  using assms by (simp add: sint_sbintrunc' signed_take_bit_int_eq_self)

section \<open>Division\<close>

lemma nat_div_eq_iff:
  assumes "0 < (n :: nat)"
  shows "a div n = i \<longleftrightarrow> i * n \<le> a \<and> a < i * n + n"
proof -
  have "a div n = i \<longleftrightarrow> i \<le> a div n \<and> a div n < Suc i" by auto
  then show ?thesis
    using assms by (simp add: less_eq_div_iff_mult_less_eq div_less_iff_less_mult add.commute)
qed

section \<open>Bounded queues\<close>

text \<open>What a bounded queue promises, and what follows for a run of insertions or removals. The rings of
  the pipes and of the disk driver are such queues.\<close>

locale fifo_queue =
  fixes invar :: "'q \<Rightarrow> bool" and items :: "'q \<Rightarrow> 'e list" and cap :: nat
    and full :: "'q \<Rightarrow> bool" and empty :: "'q \<Rightarrow> bool" and put :: "'e \<Rightarrow> 'q \<Rightarrow> 'q" and peek :: "'q \<Rightarrow> 'e" and dropq :: "'q \<Rightarrow> 'q"
  assumes full: "invar q \<Longrightarrow> full q \<longleftrightarrow> length (items q) = cap"
    and empty: "invar q \<Longrightarrow> empty q \<longleftrightarrow> items q = []"
    and bound: "invar q \<Longrightarrow> length (items q) \<le> cap"
    and put: "invar q \<Longrightarrow> length (items q) < cap \<Longrightarrow> invar (put x q) \<and> items (put x q) = items q @ [x]"
    and peek: "invar q \<Longrightarrow> items q \<noteq> [] \<Longrightarrow> peek q = hd (items q)"
    and dropq: "invar q \<Longrightarrow> items q \<noteq> [] \<Longrightarrow> invar (dropq q) \<and> items (dropq q) = tl (items q)"
begin

lemma put_all:
  "invar q \<Longrightarrow> length (items q) + length xs \<le> cap \<Longrightarrow> invar (fold put xs q) \<and> items (fold put xs q) = items q @ xs"
proof (induction xs arbitrary: q)
  case (Cons x xs)
  then have "invar (put x q) \<and> items (put x q) = items q @ [x]" using put [of q x] by simp
  then show ?case using Cons.IH [of "put x q"] Cons.prems by simp
qed simp

lemma drop_all:
  "invar q \<Longrightarrow> n \<le> length (items q) \<Longrightarrow> invar ((dropq ^^ n) q) \<and> items ((dropq ^^ n) q) = drop n (items q)"
proof (induction n)
  case (Suc n)
  then have "invar ((dropq ^^ n) q)" "items ((dropq ^^ n) q) = drop n (items q)" "drop n (items q) \<noteq> []" by auto
  then show ?case using dropq [of "(dropq ^^ n) q"] by (simp add: tl_drop drop_Suc)
qed simp

lemma peek_nth:
  "invar q \<Longrightarrow> n < length (items q) \<Longrightarrow> peek ((dropq ^^ n) q) = items q ! n"
  using drop_all [of q n] peek [of "(dropq ^^ n) q"] by (simp add: hd_drop_conv_nth)

text \<open>First in, first out: what is put in comes out in the same order, after what was there before.\<close>

lemma fifo:
  assumes "invar q" "length (items q) + length xs \<le> cap" "i < length xs"
  shows "peek ((dropq ^^ (length (items q) + i)) (fold put xs q)) = xs ! i"
  using put_all [OF assms(1,2)] peek_nth [of "fold put xs q" "length (items q) + i"] assms(3) by (simp add: nth_append)

end

end
