(* ===== verification/CString.thy ===== *)
theory CString
  imports Prelude
begin

text \<open>
  The byte and string routines of \<open>kernel/string.c\<close> over a byte-addressed memory. A pointer is a
  64-bit word, a pointer increment wraps as the machine's does, and each loop is the recursion
  that the source's \<open>while\<close> or \<open>for\<close> performs, with the count that the loop decrements as the
  recursion argument. \<open>strlen\<close> has no bound in the source, so it is a partial function.
\<close>

unbundle bit_operations_syntax

type_synonym memory = "u64 \<Rightarrow> u8"

section \<open>Definitions\<close>

subsection \<open>Filling, comparing and moving bytes\<close>

function memset_loop :: "memory \<Rightarrow> u64 \<Rightarrow> u8 \<Rightarrow> nat \<Rightarrow> nat \<Rightarrow> memory" where
  "memset_loop m dst c i n =
     (if i < n then memset_loop (m(dst + of_nat i := c)) dst c (Suc i) n else m)"
  by pat_completeness auto
termination
  by (relation "measure (\<lambda>(m, dst, c, i, n). n - i)") auto

declare memset_loop.simps [simp del]

definition memset :: "memory \<Rightarrow> u64 \<Rightarrow> u8 \<Rightarrow> nat \<Rightarrow> memory" where
  "memset m dst c n = memset_loop m dst c 0 n"

fun memcmp :: "memory \<Rightarrow> u64 \<Rightarrow> u64 \<Rightarrow> nat \<Rightarrow> int" where
  "memcmp m s1 s2 0 = 0"
| "memcmp m s1 s2 (Suc n) =
     (if m s1 \<noteq> m s2 then uint (m s1) - uint (m s2)
      else memcmp m (s1 + 1) (s2 + 1) n)"

fun memmove_fwd :: "memory \<Rightarrow> u64 \<Rightarrow> u64 \<Rightarrow> nat \<Rightarrow> memory" where
  "memmove_fwd m d s 0 = m"
| "memmove_fwd m d s (Suc n) = memmove_fwd (m(d := m s)) (d + 1) (s + 1) n"

fun memmove_bwd :: "memory \<Rightarrow> u64 \<Rightarrow> u64 \<Rightarrow> nat \<Rightarrow> memory" where
  "memmove_bwd m d s 0 = m"
| "memmove_bwd m d s (Suc n) = memmove_bwd (m(d - 1 := m (s - 1))) (d - 1) (s - 1) n"

definition memmove :: "memory \<Rightarrow> u64 \<Rightarrow> u64 \<Rightarrow> nat \<Rightarrow> memory" where
  "memmove m dst src n =
     (if n = 0 then m
      else if src < dst \<and> src + of_nat n > dst
           then memmove_bwd m (dst + of_nat n) (src + of_nat n) n
           else memmove_fwd m dst src n)"

definition memcpy :: "memory \<Rightarrow> u64 \<Rightarrow> u64 \<Rightarrow> nat \<Rightarrow> memory" where
  "memcpy m dst src n = memmove m dst src n"

subsection \<open>NUL-terminated strings\<close>

fun strncmp :: "memory \<Rightarrow> u64 \<Rightarrow> u64 \<Rightarrow> nat \<Rightarrow> int" where
  "strncmp m p q 0 = 0"
| "strncmp m p q (Suc n) =
     (if m p \<noteq> 0 \<and> m p = m q then strncmp m (p + 1) (q + 1) n
      else uint (m p) - uint (m q))"

fun strncpy_copy :: "memory \<Rightarrow> u64 \<Rightarrow> u64 \<Rightarrow> nat \<Rightarrow> memory \<times> u64 \<times> nat" where
  "strncpy_copy m s t 0 = (m, s, 0)"
| "strncpy_copy m s t (Suc n) =
     (if m t \<noteq> 0 then strncpy_copy (m(s := m t)) (s + 1) (t + 1) n
      else (m(s := m t), s + 1, n))"

fun strncpy_pad :: "memory \<Rightarrow> u64 \<Rightarrow> nat \<Rightarrow> memory" where
  "strncpy_pad m s 0 = m"
| "strncpy_pad m s (Suc n) = strncpy_pad (m(s := 0)) (s + 1) n"

definition strncpy :: "memory \<Rightarrow> u64 \<Rightarrow> u64 \<Rightarrow> int \<Rightarrow> memory" where
  "strncpy m s t n =
     (case strncpy_copy m s t (nat n) of (m', s', n') \<Rightarrow> strncpy_pad m' s' n')"

fun safestrcpy_loop :: "memory \<Rightarrow> u64 \<Rightarrow> u64 \<Rightarrow> nat \<Rightarrow> memory" where
  "safestrcpy_loop m s t 0 = m(s := 0)"
| "safestrcpy_loop m s t (Suc n) =
     (if m t \<noteq> 0 then safestrcpy_loop (m(s := m t)) (s + 1) (t + 1) n
      else m(s := m t, s + 1 := 0))"

definition safestrcpy :: "memory \<Rightarrow> u64 \<Rightarrow> u64 \<Rightarrow> int \<Rightarrow> memory" where
  "safestrcpy m s t n = (if n \<le> 0 then m else safestrcpy_loop m s t (nat n - 1))"

partial_function (option) strlen_loop :: "memory \<Rightarrow> u64 \<Rightarrow> nat \<Rightarrow> nat option" where
  "strlen_loop m s n =
     (if m (s + of_nat n) \<noteq> 0 then strlen_loop m s (Suc n) else Some n)"

definition strlen :: "memory \<Rightarrow> u64 \<Rightarrow> nat option" where
  "strlen m s = strlen_loop m s 0"

section \<open>Views of memory used by the specifications\<close>

text \<open>\<open>bytes_at m a n\<close> is the list of the \<open>n\<close> bytes from \<open>a\<close>; \<open>cstr_at m a bs\<close> says that the
  bytes \<open>bs\<close>, none of them NUL, stand at \<open>a\<close> and are followed by a NUL.\<close>

definition bytes_at :: "memory \<Rightarrow> u64 \<Rightarrow> nat \<Rightarrow> u8 list" where
  "bytes_at m a n = map (\<lambda>i. m (a + of_nat i)) [0..<n]"

definition cstr_at :: "memory \<Rightarrow> u64 \<Rightarrow> u8 list \<Rightarrow> bool" where
  "cstr_at m a bs \<longleftrightarrow> bytes_at m a (length bs) = bs \<and> 0 \<notin> set bs \<and> m (a + of_nat (length bs)) = 0"

lemma length_bytes_at [simp]: "length (bytes_at m a n) = n"
  by (simp add: bytes_at_def)

lemma nth_bytes_at [simp]: "i < n \<Longrightarrow> bytes_at m a n ! i = m (a + of_nat i)"
  by (simp add: bytes_at_def)

lemma bytes_at_0 [simp]: "bytes_at m a 0 = []"
  by (simp add: bytes_at_def)

lemma bytes_at_Suc: "bytes_at m a (Suc n) = m a # bytes_at m (a + 1) n"
  by (rule nth_equalityI) (auto simp: nth_Cons' less_Suc_eq_0_disj algebra_simps)

lemma bytes_at_eq_iff:
  "bytes_at m a n = bytes_at m' a' n \<longleftrightarrow> (\<forall>i<n. m (a + of_nat i) = m' (a' + of_nat i))"
  by (auto simp: list_eq_iff_nth_eq)

section \<open>The loops write exactly their range\<close>

text \<open>Membership of the range of \<open>n\<close> bytes from \<open>p\<close> is \<open>unat (a - p) < n\<close>.\<close>

lemma in_range_Suc_iff:
  fixes a p :: u64
  assumes "Suc n \<le> 2 ^ 64"
  shows "unat (a - p) < Suc n \<longleftrightarrow> a = p \<or> unat (a - (p + 1)) < n"
proof (cases "a = p")
  case True
  then show ?thesis by simp
next
  case False
  then have "a - p \<noteq> 0" by simp
  then have "unat (a - p - 1) = unat (a - p) - 1" and "0 < unat (a - p)"
    by (auto simp: unat_minus_one unat_gt_0)
  with False show ?thesis by (auto simp: algebra_simps)
qed

lemma in_range_eq_iff:
  fixes a p :: u64
  assumes "i < 2 ^ 64"
  shows "a = p + of_nat i \<longleftrightarrow> unat (a - p) = i"
proof
  assume "a = p + of_nat i"
  with assms show "unat (a - p) = i" by simp
next
  assume "unat (a - p) = i"
  then have "of_nat i = a - p" by (metis of_nat_unat ucast_id)
  then show "a = p + of_nat i" by simp
qed

lemma in_range_Suc_last:
  fixes a p :: u64
  assumes "n < 2 ^ 64"
  shows "unat (a - p) < Suc n \<longleftrightarrow> unat (a - p) < n \<or> a = p + of_nat n"
  using in_range_eq_iff [OF assms] by (auto simp: less_Suc_eq)

lemma memset_loop_apply:
  assumes "n \<le> 2 ^ 64"
  shows "memset_loop m dst c i n a =
           (if i \<le> unat (a - dst) \<and> unat (a - dst) < n then c else m a)"
  using assms
proof (induction m dst c i n rule: memset_loop.induct)
  case (1 m dst c i n)
  show ?case
  proof (cases "i < n")
    case True
    with "1.prems" have eq: "a = dst + of_nat i \<longleftrightarrow> unat (a - dst) = i"
      by (intro in_range_eq_iff) simp
    have "memset_loop m dst c i n a = memset_loop (m(dst + of_nat i := c)) dst c (Suc i) n a"
      using True by (simp add: memset_loop.simps [of m dst c i n])
    also have "\<dots> = (if Suc i \<le> unat (a - dst) \<and> unat (a - dst) < n then c
                     else (m(dst + of_nat i := c)) a)"
      by (rule "1.IH" [OF True "1.prems"])
    finally show ?thesis
      using True eq by (auto simp: Suc_le_eq)
  next
    case False
    then show ?thesis by (auto simp: memset_loop.simps [of m dst c i n])
  qed
qed

lemma memset_apply:
  "n \<le> 2 ^ 64 \<Longrightarrow> memset m dst c n a = (if unat (a - dst) < n then c else m a)"
  by (simp add: memset_def memset_loop_apply)

text \<open>
  A forward copy is right when the destination does not start inside the source range, a backward
  copy when the source does not start inside the destination range.
\<close>

lemma memmove_fwd_apply:
  assumes "n \<le> 2 ^ 64" and "d = s \<or> n \<le> unat (d - s)"
  shows "memmove_fwd m d s n a = (if unat (a - d) < n then m (s + (a - d)) else m a)"
  using assms
proof (induction n arbitrary: m d s)
  case 0
  then show ?case by simp
next
  case (Suc n)
  let ?m = "m(d := m s)"
  have cond: "d + 1 = s + 1 \<or> n \<le> unat ((d + 1) - (s + 1))"
    using Suc.prems(2) by auto
  have "memmove_fwd m d s (Suc n) a = memmove_fwd ?m (d + 1) (s + 1) n a" by simp
  also have "\<dots> = (if unat (a - (d + 1)) < n then ?m (s + 1 + (a - (d + 1))) else ?m a)"
    using Suc.prems(1) by (intro Suc.IH [OF _ cond]) simp
  also have "s + 1 + (a - (d + 1)) = s + (a - d)" by simp
  finally have step: "memmove_fwd m d s (Suc n) a =
      (if unat (a - (d + 1)) < n then ?m (s + (a - d)) else ?m a)" .
  have src: "?m (s + (a - d)) = m (s + (a - d))" if "unat (a - d) < Suc n"
  proof (cases "s + (a - d) = d")
    case True
    then have "a - d = d - s" by (simp add: algebra_simps)
    with that Suc.prems(2) have "d = s" by auto
    with True show ?thesis by simp
  next
    case False
    then show ?thesis by simp
  qed
  from in_range_Suc_iff [OF Suc.prems(1), of a d] step src show ?case by auto
qed

lemma memmove_bwd_apply:
  assumes "n < 2 ^ 64" and "d = s \<or> n \<le> unat (s - d)"
  shows "memmove_bwd m d s n a =
           (if unat (a - (d - of_nat n)) < n then m (s + (a - d)) else m a)"
  using assms
proof (induction n arbitrary: m d s)
  case 0
  then show ?case by simp
next
  case (Suc n)
  let ?m = "m(d - 1 := m (s - 1))" and ?p = "d - of_nat (Suc n)"
  have cond: "d - 1 = s - 1 \<or> n \<le> unat ((s - 1) - (d - 1))"
    using Suc.prems(2) by auto
  have p: "d - 1 - of_nat n = ?p" "?p + of_nat n = d - 1" by simp_all
  have "memmove_bwd m d s (Suc n) a = memmove_bwd ?m (d - 1) (s - 1) n a" by simp
  also have "\<dots> = (if unat (a - (d - 1 - of_nat n)) < n
                     then ?m (s - 1 + (a - (d - 1))) else ?m a)"
    using Suc.prems(1) by (intro Suc.IH [OF _ cond]) simp
  also have "s - 1 + (a - (d - 1)) = s + (a - d)" by simp
  finally have step: "memmove_bwd m d s (Suc n) a =
      (if unat (a - ?p) < n then ?m (s + (a - d)) else ?m a)"
    by (simp only: p)
  have src: "?m (s + (a - d)) = m (s + (a - d))" if r: "unat (a - ?p) < n"
  proof (cases "s + (a - d) = d - 1")
    case True
    define x where "x = unat (a - ?p)"
    have "a - ?p = of_nat x" by (simp add: x_def)
    then have a: "a - d = of_nat x - of_nat (Suc n)" by (simp add: algebra_simps)
    from True have "s - d = - 1 - (a - d)" by (simp add: algebra_simps)
    then have "s - d = of_nat n - of_nat x" by (simp add: a)
    also have "\<dots> = (of_nat (n - x) :: u64)"
      using r by (simp add: x_def of_nat_diff)
    finally have "unat (s - d) = n - x"
      using Suc.prems(1) by simp
    with Suc.prems(2) r have "d = s" by (auto simp: x_def)
    with True show ?thesis by simp
  next
    case False
    then show ?thesis by simp
  qed
  have last: "unat (a - ?p) < Suc n \<longleftrightarrow> unat (a - ?p) < n \<or> a = d - 1"
    using in_range_Suc_last [of n a ?p] Suc.prems(1) p(2) by simp
  have neq: "a \<noteq> d - 1" if "unat (a - ?p) < n"
    using that in_range_eq_iff [of n a ?p] Suc.prems(1) p(2) by auto
  show ?case
    unfolding step last using src neq by auto
qed

lemma memmove_apply:
  assumes src: "unat s + n < 2 ^ 64" and dst: "unat d + n < 2 ^ 64"
  shows "memmove m d s n a = (if unat (a - d) < n then m (s + (a - d)) else m a)"
proof -
  have n: "n < 2 ^ 64" using src by simp
  have sn: "unat (s + of_nat n) = unat s + n"
    using src by (simp add: unat_word_ariths)
  show ?thesis
  proof (cases "n = 0")
    case True
    then show ?thesis by (simp add: memmove_def)
  next
    case n0: False
    show ?thesis
    proof (cases "s < d \<and> s + of_nat n > d")
      case True
      have "unat (s - d) = 2 ^ 64 - (unat d - unat s)"
        using True by (simp add: word_less_nat_alt unat_sub_if')
      then have "n \<le> unat (s - d)" using dst by simp
      then show ?thesis
        using True n n0 by (simp add: memmove_def memmove_bwd_apply)
    next
      case False
      have "d = s \<or> n \<le> unat (d - s)"
      proof (cases "s < d")
        case True
        with False sn have "unat s + n \<le> unat d" by (simp add: word_less_nat_alt)
        with True show ?thesis by (simp add: unat_sub_if_le) arith
      next
        case s: False
        show ?thesis
        proof (cases "d = s")
          case False
          with s have "d < s" by (simp add: not_less less_le)
          then have "unat d < unat s" by (simp add: word_less_nat_alt)
          then have "unat (d - s) = 2 ^ 64 - (unat s - unat d)"
            by (simp add: unat_sub_if')
          with src show ?thesis by simp arith
        qed simp
      qed
      with False n n0 show ?thesis by (auto simp: memmove_def memmove_fwd_apply)
    qed
  qed
qed

lemma bytes_at_memmove:
  assumes "unat s + n < 2 ^ 64" and "unat d + n < 2 ^ 64"
  shows "bytes_at (memmove m d s n) d n = bytes_at m s n"
  using assms by (auto simp: bytes_at_eq_iff memmove_apply)

section \<open>Comparison\<close>

lemma uint_eq_iff [simp]: "uint (a :: 'a::len word) = uint b \<longleftrightarrow> a = b"
  by (simp add: word_uint_eq_iff)

lemma uint_eq_0_iff [simp]: "uint (a :: 'a::len word) = 0 \<longleftrightarrow> a = 0"
  using uint_eq_iff [of a 0] by simp

lemma memcmp_eq_0_iff: "memcmp m s1 s2 n = 0 \<longleftrightarrow> bytes_at m s1 n = bytes_at m s2 n"
  by (induction n arbitrary: s1 s2) (auto simp: bytes_at_Suc)

text \<open>\<open>name_of m p n\<close> is the name that a fixed-size field of \<open>n\<close> bytes holds: its bytes up to the
  first NUL, or all of them.\<close>

definition name_of :: "memory \<Rightarrow> u64 \<Rightarrow> nat \<Rightarrow> u8 list" where
  "name_of m p n = takeWhile (\<lambda>b. b \<noteq> 0) (bytes_at m p n)"

lemma name_of_0 [simp]: "name_of m p 0 = []"
  by (simp add: name_of_def)

lemma name_of_Suc:
  "name_of m p (Suc n) = (if m p = 0 then [] else m p # name_of m (p + 1) n)"
  by (simp add: name_of_def bytes_at_Suc)

lemma strncmp_eq_0_iff: "strncmp m p q n = 0 \<longleftrightarrow> name_of m p n = name_of m q n"
  by (induction n arbitrary: p q) (auto simp: name_of_Suc)

section \<open>Copying strings\<close>

lemma strncpy_pad_apply:
  assumes "n \<le> 2 ^ 64"
  shows "strncpy_pad m s n a = (if unat (a - s) < n then 0 else m a)"
  using assms
proof (induction n arbitrary: m s)
  case (Suc n)
  then show ?case using in_range_Suc_iff [OF Suc.prems, of a s] by auto
qed simp

definition disjoint_ranges :: "u64 \<Rightarrow> u64 \<Rightarrow> nat \<Rightarrow> bool" where
  "disjoint_ranges s t n \<longleftrightarrow> (\<forall>i<n. n \<le> unat (t + of_nat i - s))"

lemma disjoint_rangesI:
  assumes "unat t + n \<le> unat s" and "unat s + n \<le> 2 ^ 64"
  shows "disjoint_ranges s t n"
  unfolding disjoint_ranges_def
proof (intro allI impI)
  fix i
  assume i: "i < n"
  then have "unat (t + of_nat i) = unat t + i"
    using assms unat_lt_exp [of s] by (simp add: unat_word_ariths)
  then have "unat (t + of_nat i - s) = 2 ^ 64 + (unat t + i) - unat s"
    using assms(1) i unat_lt_exp [of s] by (simp add: unat_sub_if')
  with assms show "n \<le> unat (t + of_nat i - s)" by simp
qed

lemma disjoint_ranges_step:
  assumes "disjoint_ranges s t (Suc n)" and "Suc n \<le> 2 ^ 64"
  shows "disjoint_ranges (s + 1) (t + 1) n" and "\<And>i. i \<le> n \<Longrightarrow> t + of_nat i \<noteq> s"
proof -
  have le: "Suc n \<le> unat (t + of_nat i - s)" if "i \<le> n" for i
    using assms(1) that by (simp add: disjoint_ranges_def)
  show "t + of_nat i \<noteq> s" if "i \<le> n" for i
    using le [OF that] by auto
  have "n \<le> unat (t + 1 + of_nat i - (s + 1))" if "i < n" for i
    using le [of i] that by (simp add: algebra_simps)
  then show "disjoint_ranges (s + 1) (t + 1) n"
    by (simp add: disjoint_ranges_def)
qed

lemma name_of_upd_other:
  "(\<And>i. i < n \<Longrightarrow> t + of_nat i \<noteq> s) \<Longrightarrow> name_of (m(s := v)) t n = name_of m t n"
  by (auto simp: name_of_def bytes_at_eq_iff intro!: arg_cong [where f = "takeWhile _"])

definition strncpy_nat :: "memory \<Rightarrow> u64 \<Rightarrow> u64 \<Rightarrow> nat \<Rightarrow> memory" where
  "strncpy_nat m s t n = (case strncpy_copy m s t n of (m', s', n') \<Rightarrow> strncpy_pad m' s' n')"

lemma strncpy_nat_simps:
  "strncpy_nat m s t 0 = m"
  "strncpy_nat m s t (Suc n) =
     (if m t \<noteq> 0 then strncpy_nat (m(s := m t)) (s + 1) (t + 1) n
      else strncpy_pad (m(s := m t)) (s + 1) n)"
  by (simp_all add: strncpy_nat_def)

lemma strncpy_nat_outside:
  assumes "n \<le> 2 ^ 64" and "n \<le> unat (a - s)"
  shows "strncpy_nat m s t n a = m a"
  using assms
proof (induction n arbitrary: m s t)
  case 0
  then show ?case by (simp add: strncpy_nat_simps)
next
  case (Suc n)
  then have "a \<noteq> s" and "n \<le> unat (a - (s + 1))"
    using in_range_Suc_iff [OF Suc.prems(1), of a s] by auto
  with Suc show ?case
    by (simp add: strncpy_nat_simps strncpy_pad_apply)
qed

lemma bytes_at_pad:
  assumes "n \<le> 2 ^ 64"
  shows "bytes_at (strncpy_pad m s n) s n = replicate n 0"
  using assms by (intro nth_equalityI) (auto simp: strncpy_pad_apply)

lemma bytes_at_strncpy_nat:
  assumes "n < 2 ^ 64" and "disjoint_ranges s t n"
  shows "bytes_at (strncpy_nat m s t n) s n =
           name_of m t n @ replicate (n - length (name_of m t n)) 0"
  using assms
proof (induction n arbitrary: m s t)
  case 0
  then show ?case by simp
next
  case (Suc n)
  have far: "n \<le> unat (s - (s + 1))"
    using Suc.prems(1) by (simp add: unsigned_minus_1_eq_mask mask_eq_exp_minus_1)
  note step = disjoint_ranges_step [OF Suc.prems(2)]
  show ?case
  proof (cases "m t = 0")
    case True
    have "strncpy_pad (m(s := 0)) (s + 1) n s = 0"
      using Suc.prems(1) by (simp add: strncpy_pad_apply)
    with True show ?thesis
      using Suc.prems(1)
      by (simp add: strncpy_nat_simps bytes_at_Suc name_of_Suc bytes_at_pad)
  next
    case False
    have same: "name_of (m(s := m t)) (t + 1) n = name_of m (t + 1) n"
    proof (rule name_of_upd_other)
      fix i assume "i < n"
      then show "t + 1 + of_nat i \<noteq> s"
        using step(2) [of "Suc i"] Suc.prems(1) by (simp add: algebra_simps)
    qed
    have "bytes_at (strncpy_nat (m(s := m t)) (s + 1) (t + 1) n) (s + 1) n =
            name_of m (t + 1) n @ replicate (n - length (name_of m (t + 1) n)) 0"
      using Suc.IH [of "s + 1" "t + 1" "m(s := m t)"] step(1) Suc.prems(1)
      by (simp add: same del: fun_upd_apply)
    with False far Suc.prems(1) show ?thesis
      by (simp add: strncpy_nat_simps bytes_at_Suc name_of_Suc strncpy_nat_outside)
  qed
qed

lemma safestrcpy_loop_outside:
  assumes "n < 2 ^ 64" and "n < unat (a - s)"
  shows "safestrcpy_loop m s t n a = m a"
  using assms
proof (induction n arbitrary: m s t)
  case 0
  then have "a \<noteq> s" by auto
  then show ?case by simp
next
  case (Suc n)
  then have a: "a \<noteq> s" and "\<not> unat (a - s) < Suc (Suc n)" by auto
  with Suc.prems(1) have b: "n < unat (a - (s + 1))"
    using in_range_Suc_iff [of "Suc n" a s] by auto
  then have "a \<noteq> s + 1" by auto
  with a b Suc show ?case by simp
qed

lemma cstr_at_Cons:
  "cstr_at m s (b # bs) \<longleftrightarrow> m s = b \<and> b \<noteq> 0 \<and> cstr_at m (s + 1) bs"
  by (auto simp: cstr_at_def bytes_at_Suc algebra_simps)

lemma cstr_at_Nil [simp]: "cstr_at m s [] \<longleftrightarrow> m s = 0"
  by (simp add: cstr_at_def)

lemma cstr_at_safestrcpy_loop:
  assumes "Suc n < 2 ^ 64" and "disjoint_ranges s t (Suc n)"
  shows "cstr_at (safestrcpy_loop m s t n) s (name_of m t n)"
  using assms
proof (induction n arbitrary: m s t)
  case 0
  then show ?case by simp
next
  case (Suc n)
  note step = disjoint_ranges_step [OF Suc.prems(2)]
  show ?case
  proof (cases "m t = 0")
    case True
    then show ?thesis by (simp add: name_of_Suc)
  next
    case False
    have same: "name_of (m(s := m t)) (t + 1) n = name_of m (t + 1) n"
    proof (rule name_of_upd_other)
      fix i assume "i < n"
      then show "t + 1 + of_nat i \<noteq> s"
        using step(2) [of "Suc i"] Suc.prems(1) by (simp add: algebra_simps)
    qed
    have "cstr_at (safestrcpy_loop (m(s := m t)) (s + 1) (t + 1) n) (s + 1) (name_of m (t + 1) n)"
      using Suc.IH [of "s + 1" "t + 1" "m(s := m t)"] step(1) Suc.prems(1)
      by (simp add: same del: fun_upd_apply)
    moreover have "safestrcpy_loop (m(s := m t)) (s + 1) (t + 1) n s = m t"
      using Suc.prems(1)
      by (subst safestrcpy_loop_outside) (simp_all add: unsigned_minus_1_eq_mask mask_eq_exp_minus_1)
    ultimately show ?thesis
      using False by (simp add: name_of_Suc cstr_at_Cons)
  qed
qed

section \<open>String length\<close>

lemma strlen_loop_cstr:
  assumes "\<And>i. i < k \<Longrightarrow> m (s + of_nat i) \<noteq> 0" and "m (s + of_nat k) = 0" and "n \<le> k"
  shows "strlen_loop m s n = Some k"
  using assms(3)
proof (induction "k - n" arbitrary: n)
  case 0
  then show ?case using assms(2) by (simp add: strlen_loop.simps [of m s n])
next
  case (Suc d)
  then have "n < k" by simp
  with Suc assms(1) show ?case by (simp add: strlen_loop.simps [of m s n])
qed

lemma strlen_cstr: "cstr_at m s bs \<Longrightarrow> strlen m s = Some (length bs)"
  unfolding strlen_def
  by (rule strlen_loop_cstr)
    (auto simp: cstr_at_def in_set_conv_nth list_eq_iff_nth_eq)

section \<open>Properties\<close>

text \<open>
  C13: \<open>memmove\<close> copies the bytes the source range held before the call to the destination and
  leaves every other byte of memory alone, whether or not the two ranges overlap: the direction
  test of the source picks a copy that never reads a byte it has overwritten.
\<close>

theorem memmove_correct:
  assumes "unat s + n < 2 ^ 64" and "unat d + n < 2 ^ 64"
  shows "bytes_at (memmove m d s n) d n = bytes_at m s n \<and>
         (\<forall>a. \<not> unat (a - d) < n \<longrightarrow> memmove m d s n a = m a)"
  using bytes_at_memmove [OF assms] memmove_apply [OF assms] by simp

text \<open>
  \<open>strncmp\<close> returns zero exactly when the two fields hold the same name, where a name is what
  stands before the first NUL, or the whole field when it has none; \<open>memcmp\<close> returns zero exactly
  when the bytes are the same.
\<close>

theorem string_comparison:
  "(strncmp m p q n = 0 \<longleftrightarrow> name_of m p n = name_of m q n) \<and>
   (memcmp m p q n = 0 \<longleftrightarrow> bytes_at m p n = bytes_at m q n)"
  by (simp add: strncmp_eq_0_iff memcmp_eq_0_iff)

text \<open>
  C14: on ranges that do not overlap, \<open>safestrcpy\<close> with a positive size leaves a NUL-terminated
  string, the source's name cut to \<open>n - 1\<close> bytes, and \<open>strncpy\<close> leaves the source's name cut
  to \<open>n\<close> bytes and padded with NULs; neither writes outside its \<open>n\<close> bytes.
\<close>

theorem string_copy:
  assumes "0 < n" and "n < 2 ^ 31" and "disjoint_ranges s t (nat n)"
  shows "cstr_at (safestrcpy m s t n) s (name_of m t (nat n - 1)) \<and>
         bytes_at (strncpy m s t n) s (nat n) =
           name_of m t (nat n) @ replicate (nat n - length (name_of m t (nat n))) 0 \<and>
         (\<forall>a. nat n \<le> unat (a - s) \<longrightarrow> safestrcpy m s t n a = m a \<and> strncpy m s t n a = m a)"
proof -
  obtain k where k: "nat n = Suc k" using assms(1) by (cases "nat n") auto
  have b: "Suc k < 2 ^ 64" using assms(2) k by simp
  have safe: "safestrcpy m s t n = safestrcpy_loop m s t k" and str: "strncpy m s t n = strncpy_nat m s t (Suc k)"
    using assms(1) k by (simp_all add: safestrcpy_def strncpy_def strncpy_nat_def)
  show ?thesis
    unfolding safe str k using assms(3) b
    by (simp add: cstr_at_safestrcpy_loop bytes_at_strncpy_nat strncpy_nat_outside
        safestrcpy_loop_outside k del: strncpy_nat_simps)
qed

section \<open>Witnesses\<close>

theorem memmove_correct_witness:
  "bytes_at (memmove (\<lambda>a. ucast a) 102 100 8) 102 8 = bytes_at (\<lambda>a. ucast a) 100 8"
proof -
  have "unat (100 :: u64) + 8 < 2 ^ 64" "unat (102 :: u64) + 8 < 2 ^ 64" by simp_all
  from memmove_correct [OF this, of "\<lambda>a. ucast a"] show ?thesis by blast
qed

theorem string_copy_witness:
  "cstr_at (safestrcpy (\<lambda>a. ucast a) 100 1 (16 :: int)) 100 (name_of (\<lambda>a. ucast a) 1 15)"
proof -
  have "disjoint_ranges 100 1 (nat (16 :: int))"
    by (rule disjoint_rangesI) simp_all
  from string_copy [OF _ _ this, of "\<lambda>a. ucast a"] show ?thesis by simp
qed

end
