(* ===== verification/Kalloc.thy ===== *)
theory Kalloc
  imports CString
begin

text \<open>
  The physical page allocator of \<open>kernel/kalloc.c\<close>. The free list is kept the way the source
  keeps it: threaded through the free pages themselves, the first eight bytes of a free page
  holding the address of the next one. \<open>kend\<close> is the linker's symbol \<open>end\<close>, the first address
  after the kernel image; it is a field of the state that no operation writes.

  The lock of the allocator is not part of the state: \<open>kalloc\<close> and \<open>kfree\<close> hold it around the
  whole list operation, so each is one atomic step on the list.
\<close>

unbundle bit_operations_syntax

section \<open>Definitions\<close>

subsection \<open>Page geometry\<close>

definition PGSIZE :: nat where [param_defs]: "PGSIZE = 4096"

definition PGROUNDUP :: "u64 \<Rightarrow> u64" where
  "PGROUNDUP sz = (sz + of_nat PGSIZE - 1) AND NOT (of_nat PGSIZE - 1)"

definition PGROUNDDOWN :: "u64 \<Rightarrow> u64" where
  "PGROUNDDOWN a = a AND NOT (of_nat PGSIZE - 1)"

definition KERNBASE :: u64 where [param_defs]: "KERNBASE = 0x80000000"

definition PHYSTOP :: u64 where [param_defs]: "PHYSTOP = KERNBASE + 128 * 1024 * 1024"

subsection \<open>Eight-byte loads and stores (little endian)\<close>

definition load64 :: "memory \<Rightarrow> u64 \<Rightarrow> u64" where
  "load64 m a =
     ucast (m a) OR push_bit 8 (ucast (m (a + 1))) OR push_bit 16 (ucast (m (a + 2))) OR
     push_bit 24 (ucast (m (a + 3))) OR push_bit 32 (ucast (m (a + 4))) OR
     push_bit 40 (ucast (m (a + 5))) OR push_bit 48 (ucast (m (a + 6))) OR
     push_bit 56 (ucast (m (a + 7)))"

definition store64 :: "memory \<Rightarrow> u64 \<Rightarrow> u64 \<Rightarrow> memory" where
  "store64 m a v =
     m(a := ucast v, a + 1 := ucast (drop_bit 8 v), a + 2 := ucast (drop_bit 16 v),
       a + 3 := ucast (drop_bit 24 v), a + 4 := ucast (drop_bit 32 v),
       a + 5 := ucast (drop_bit 40 v), a + 6 := ucast (drop_bit 48 v),
       a + 7 := ucast (drop_bit 56 v))"

subsection \<open>The allocator\<close>

record kmem =
  mem :: memory
  freelist :: u64
  kend :: u64

definition kfree :: "kmem \<Rightarrow> u64 \<Rightarrow> kmem res" where
  "kfree s pa =
     (if unat pa mod PGSIZE \<noteq> 0 \<or> pa < kend s \<or> pa \<ge> PHYSTOP then Panic ''kfree''
      else let m = memset (mem s) pa 1 PGSIZE in
           Ok (s\<lparr>mem := store64 m pa (freelist s), freelist := pa\<rparr>))"

definition kalloc :: "kmem \<Rightarrow> u64 \<times> kmem" where
  "kalloc s =
     (let r = freelist s in
      if r \<noteq> 0
      then (r, s\<lparr>mem := memset (mem s) r 5 PGSIZE, freelist := load64 (mem s) r\<rparr>)
      else (0, s))"

function freerange_loop :: "kmem \<Rightarrow> u64 \<Rightarrow> u64 \<Rightarrow> kmem res" where
  "freerange_loop s p pa_end =
     (if unat p + PGSIZE \<le> unat pa_end
      then bnd (kfree s p) (\<lambda>s. freerange_loop s (p + of_nat PGSIZE) pa_end)
      else Ok s)"
  by pat_completeness auto
termination
proof (relation "measure (\<lambda>(s, p, e). unat e - unat p)")
  show "wf (measure (\<lambda>(s :: kmem, p :: u64, e :: u64). unat e - unat p))" by simp
next
  fix s s' :: kmem and p e :: u64
  assume le: "unat p + PGSIZE \<le> unat e"
  then have "unat (p + of_nat PGSIZE) = unat p + PGSIZE"
    using unat_lt_exp [of e] by (simp add: unat_word_ariths PGSIZE_def)
  with le show "((s', p + of_nat PGSIZE, e), s, p, e)
      \<in> measure (\<lambda>(s, p, e). unat e - unat p)"
    by (simp add: PGSIZE_def)
qed

declare freerange_loop.simps [simp del]

definition freerange :: "kmem \<Rightarrow> u64 \<Rightarrow> u64 \<Rightarrow> kmem res" where
  "freerange s pa_start pa_end = freerange_loop s (PGROUNDUP pa_start) pa_end"

definition kinit :: "kmem \<Rightarrow> kmem res" where
  "kinit s = freerange s (kend s) PHYSTOP"

section \<open>Loads and stores\<close>

lemma load64_store64 [simp]: "load64 (store64 m a v) a = v"
proof (rule bit_word_eqI)
  fix n
  assume "n < LENGTH(64)"
  then consider "n < 8" | "8 \<le> n" "n < 16" | "16 \<le> n" "n < 24" | "24 \<le> n" "n < 32"
    | "32 \<le> n" "n < 40" | "40 \<le> n" "n < 48" | "48 \<le> n" "n < 56" | "56 \<le> n" "n < 64"
    by fastforce
  then show "bit (load64 (store64 m a v) a) n = bit v n"
    by cases (auto simp: load64_def store64_def bit_simps less_diff_conv2)
qed

lemma unat_lt_8D: "unat (x :: u64) < 8 \<Longrightarrow> x \<in> {0, 1, 2, 3, 4, 5, 6, 7}"
  by (simp add: word_unat_eq_iff) arith

lemma store64_outside:
  assumes "8 \<le> unat (b - a)"
  shows "store64 m a v b = m b"
proof -
  have "b \<noteq> a" "b \<noteq> a + 1" "b \<noteq> a + 2" "b \<noteq> a + 3" "b \<noteq> a + 4" "b \<noteq> a + 5"
      "b \<noteq> a + 6" "b \<noteq> a + 7"
    using assms by auto
  then show ?thesis by (simp add: store64_def)
qed

lemma load64_cong:
  assumes "\<And>b. unat (b - a) < 8 \<Longrightarrow> m b = m' b"
  shows "load64 m a = load64 m' a"
  using assms [of a] assms [of "a + 1"] assms [of "a + 2"] assms [of "a + 3"]
    assms [of "a + 4"] assms [of "a + 5"] assms [of "a + 6"] assms [of "a + 7"]
  by (simp add: load64_def)

section \<open>Pages\<close>

lemma PGSIZE_pos [simp]: "0 < PGSIZE"
  by (simp add: PGSIZE_def)

definition page_aligned :: "u64 \<Rightarrow> bool" where
  "page_aligned p \<longleftrightarrow> unat p mod PGSIZE = 0"

definition in_page :: "u64 \<Rightarrow> u64 \<Rightarrow> bool" where
  "in_page p a \<longleftrightarrow> unat (a - p) < PGSIZE"

lemma in_page_iff:
  assumes "page_aligned p"
  shows "in_page p a \<longleftrightarrow> unat a div PGSIZE = unat p div PGSIZE"
proof -
  define i where "i = unat p div PGSIZE"
  have p: "unat p = i * PGSIZE"
    using assms by (simp add: i_def page_aligned_def mod_0_imp_dvd)
  have "i * 4096 < 2 ^ 52 * 4096" using unat_lt_exp [of p] p by (simp add: PGSIZE_def)
  then have i: "i * 4096 + 4096 \<le> 2 ^ 64" by simp
  have div: "unat a div PGSIZE = i \<longleftrightarrow> i * PGSIZE \<le> unat a \<and> unat a < i * PGSIZE + PGSIZE"
    by (rule nat_div_eq_iff) (simp add: PGSIZE_def)
  show ?thesis
  proof (cases "p \<le> a")
    case True
    then have le: "unat p \<le> unat a" by (simp add: word_le_nat_alt)
    have "unat (a - p) = unat a - unat p" using True by (simp add: unat_sub_if_le)
    with le p show ?thesis
      unfolding in_page_def i_def [symmetric] div by linarith
  next
    case False
    then have lt: "unat a < unat p" by (simp add: word_le_nat_alt)
    then have "unat (a - p) = 2 ^ 64 + unat a - unat p"
      using unat_lt_exp [of p] by (simp add: unat_sub_if')
    then have "\<not> unat (a - p) < PGSIZE"
      using lt p i by (simp add: PGSIZE_def)
    with lt p div show ?thesis
      by (simp add: in_page_def i_def [symmetric])
  qed
qed

lemma in_page_self [simp]: "in_page p p"
  by (simp add: in_page_def PGSIZE_def)

lemma in_page_8: "unat (b - p) < 8 \<Longrightarrow> in_page p b"
  by (simp add: in_page_def PGSIZE_def)

lemma pages_disjoint:
  assumes "page_aligned p" "page_aligned q" "p \<noteq> q" "in_page p a"
  shows "\<not> in_page q a"
proof
  assume "in_page q a"
  with assms have "unat p div PGSIZE = unat q div PGSIZE" by (simp add: in_page_iff)
  moreover have "unat p mod PGSIZE = unat q mod PGSIZE"
    using assms by (simp add: page_aligned_def)
  ultimately have "unat p = unat q" by (metis div_mult_mod_eq)
  with assms(3) show False by (simp add: word_unat_eq_iff)
qed

lemma and_not_mask12: "unat ((x :: u64) AND NOT (of_nat PGSIZE - 1)) = unat x div PGSIZE * PGSIZE"
proof -
  have "(of_nat PGSIZE - 1 :: u64) = mask 12"
    by (simp add: PGSIZE_def mask_eq_exp_minus_1)
  then have "x AND NOT (of_nat PGSIZE - 1) = push_bit 12 (drop_bit 12 x)"
    by (auto intro!: bit_word_eqI simp: bit_simps)
  moreover have "unat x div 4096 * 4096 \<le> unat x" by simp
  then have "unat x div 4096 * 4096 < 2 ^ 64" using unat_lt_exp [of x] by simp
  then have "unat (push_bit 12 (drop_bit 12 x)) = unat x div 4096 * 4096"
    by (simp add: push_bit_eq_mult drop_bit_eq_div unat_word_ariths unat_div)
  ultimately show ?thesis by (simp add: PGSIZE_def)
qed

lemma page_aligned_PGROUNDDOWN: "page_aligned (PGROUNDDOWN a)"
  by (simp add: page_aligned_def PGROUNDDOWN_def and_not_mask12)

lemma page_aligned_PGROUNDUP: "page_aligned (PGROUNDUP a)"
  by (simp add: page_aligned_def PGROUNDUP_def and_not_mask12)

lemma page_alignedE:
  assumes "page_aligned q"
  obtains i where "unat q = i * PGSIZE"
proof -
  have "unat q = unat q div PGSIZE * PGSIZE"
    using assms by (simp add: page_aligned_def mod_0_imp_dvd)
  then show ?thesis by (rule that)
qed

lemma unat_PGROUNDUP:
  assumes "unat sz + PGSIZE \<le> 2 ^ 64"
  shows "unat (PGROUNDUP sz) = (unat sz + (PGSIZE - 1)) div PGSIZE * PGSIZE"
proof -
  have "unat (sz + of_nat PGSIZE - 1) = unat (sz + of_nat (PGSIZE - 1))"
    by (simp add: PGSIZE_def add.commute)
  also have "\<dots> = unat sz + (PGSIZE - 1)"
    using assms by (simp add: unat_word_ariths PGSIZE_def)
  finally show ?thesis
    unfolding PGROUNDUP_def and_not_mask12 by simp
qed

lemma PGROUNDUP_le_iff:
  assumes "unat sz + PGSIZE \<le> 2 ^ 64" "page_aligned q"
  shows "PGROUNDUP sz \<le> q \<longleftrightarrow> sz \<le> q"
proof -
  obtain i where q: "unat q = i * PGSIZE" using assms(2) by (rule page_alignedE)
  have "(unat sz + (PGSIZE - 1)) div PGSIZE \<le> i \<longleftrightarrow> unat sz + (PGSIZE - 1) < Suc i * PGSIZE"
    using div_less_iff_less_mult [OF PGSIZE_pos, of "unat sz + (PGSIZE - 1)" "Suc i"]
    by (simp add: less_Suc_eq_le)
  also have "\<dots> \<longleftrightarrow> unat sz \<le> i * PGSIZE" by (simp add: PGSIZE_def) arith
  finally have "(unat sz + (PGSIZE - 1)) div PGSIZE * PGSIZE \<le> i * PGSIZE \<longleftrightarrow> unat sz \<le> i * PGSIZE"
    by simp
  then show ?thesis
    using unat_PGROUNDUP [OF assms(1)] q by (simp add: word_le_nat_alt)
qed

lemma memset_page: "memset m p c PGSIZE a = (if in_page p a then c else m a)"
  by (simp add: memset_apply in_page_def PGSIZE_def)

section \<open>The free list\<close>

fun free_chain :: "memory \<Rightarrow> u64 \<Rightarrow> u64 list \<Rightarrow> bool" where
  "free_chain m p [] \<longleftrightarrow> p = 0"
| "free_chain m p (q # qs) \<longleftrightarrow> p = q \<and> p \<noteq> 0 \<and> free_chain m (load64 m p) qs"

definition page_ok :: "kmem \<Rightarrow> u64 \<Rightarrow> bool" where
  "page_ok s p \<longleftrightarrow> page_aligned p \<and> kend s \<le> p \<and> p < PHYSTOP"

definition kmem_inv :: "kmem \<Rightarrow> u64 list \<Rightarrow> bool" where
  "kmem_inv s ps \<longleftrightarrow>
     free_chain (mem s) (freelist s) ps \<and> distinct ps \<and> (\<forall>p\<in>set ps. page_ok s p) \<and> 0 < kend s"

lemma free_chain_cong:
  assumes "\<And>q b. q \<in> set ps \<Longrightarrow> unat (b - q) < 8 \<Longrightarrow> m b = m' b"
  shows "free_chain m p ps \<longleftrightarrow> free_chain m' p ps"
  using assms
proof (induction ps arbitrary: p)
  case (Cons q qs)
  have "load64 m q = load64 m' q"
    using Cons.prems by (intro load64_cong) auto
  moreover have "free_chain m r qs \<longleftrightarrow> free_chain m' r qs" for r
    using Cons.prems by (intro Cons.IH) auto
  ultimately show ?case by (simp cong: conj_cong)
qed simp

lemma free_chain_other_page:
  assumes "\<And>b. \<not> in_page p b \<Longrightarrow> m b = m' b" and "page_aligned p"
    and "\<forall>q\<in>set ps. page_aligned q" and "p \<notin> set ps"
  shows "free_chain m r ps \<longleftrightarrow> free_chain m' r ps"
proof (rule free_chain_cong)
  fix q b
  assume "q \<in> set ps" "unat (b - q) < 8"
  with assms show "m b = m' b"
    using pages_disjoint [of q p b] in_page_8 [of b q] by blast
qed

lemma page_ok_aligned: "page_ok s p \<Longrightarrow> page_aligned p"
  by (simp add: page_ok_def)

lemma kalloc_empty: "kmem_inv s [] \<Longrightarrow> kalloc s = (0, s)"
  by (simp add: kmem_inv_def kalloc_def)

lemma kalloc_page:
  assumes "kmem_inv s (p # ps)"
  obtains s' where "kalloc s = (p, s')" "kmem_inv s' ps" "kend s' = kend s"
    "\<And>a. mem s' a = (if in_page p a then 5 else mem s a)"
proof -
  let ?s = "s\<lparr>mem := memset (mem s) p 5 PGSIZE, freelist := load64 (mem s) p\<rparr>"
  have chain: "freelist s = p" "p \<noteq> 0" "free_chain (mem s) (load64 (mem s) p) ps"
      "distinct (p # ps)" "\<forall>q\<in>set (p # ps). page_ok s q" "0 < kend s"
    using assms by (auto simp: kmem_inv_def)
  have "free_chain (memset (mem s) p 5 PGSIZE) (load64 (mem s) p) ps"
    using chain by (subst free_chain_other_page [where m' = "mem s" and p = p])
      (auto simp: memset_page page_ok_aligned)
  with chain have "kmem_inv ?s ps" by (auto simp: kmem_inv_def page_ok_def)
  moreover have "kalloc s = (p, ?s)" using chain by (simp add: kalloc_def)
  ultimately show ?thesis using that [of ?s] by (simp add: memset_page)
qed

lemma kfree_page:
  assumes inv: "kmem_inv s ps" and p: "page_ok s p" "p \<notin> set ps"
  obtains s' where "kfree s p = Ok s'" "kmem_inv s' (p # ps)" "kend s' = kend s"
    "\<And>a. \<not> in_page p a \<Longrightarrow> mem s' a = mem s a"
proof -
  let ?m = "store64 (memset (mem s) p 1 PGSIZE) p (freelist s)"
  let ?s = "s\<lparr>mem := ?m, freelist := p\<rparr>"
  have same: "?m a = mem s a" if "\<not> in_page p a" for a
    using that by (simp add: store64_outside memset_apply in_page_def PGSIZE_def)
  have "free_chain ?m (freelist s) ps"
    using inv p same by (subst free_chain_other_page [where m' = "mem s" and p = p])
      (auto simp: kmem_inv_def page_ok_aligned)
  with inv p have "kmem_inv ?s (p # ps)"
    by (auto simp: kmem_inv_def page_ok_def word_gt_0)
  moreover have "kfree s p = Ok ?s"
    using p by (auto simp: kfree_def page_ok_def page_aligned_def)
  ultimately show ?thesis using that [of ?s] same by simp
qed

lemma freerange_loop_adds:
  assumes "kmem_inv s ps" "page_aligned p" "kend s \<le> p" "\<forall>q\<in>set ps. q < p" "e \<le> PHYSTOP"
  shows "\<exists>s' qs. freerange_loop s p e = Ok s' \<and> kmem_inv s' qs \<and> kend s' = kend s \<and>
           set qs = set ps \<union> {q. page_aligned q \<and> p \<le> q \<and> unat q + PGSIZE \<le> unat e}"
  using assms
proof (induction s p e arbitrary: ps rule: freerange_loop.induct)
  case (1 s p e)
  show ?case
  proof (cases "unat p + PGSIZE \<le> unat e")
    case False
    then have none: "{q. page_aligned q \<and> p \<le> q \<and> unat q + PGSIZE \<le> unat e} = {}"
      by (auto simp: word_le_nat_alt)
    show ?thesis
      unfolding none using "1.prems" False by (auto simp: freerange_loop.simps [of s p e])
  next
    case True
    let ?p' = "p + of_nat PGSIZE"
    have up: "unat ?p' = unat p + PGSIZE"
      using True unat_lt_exp [of e] by (simp add: unat_word_ariths PGSIZE_def)
    have "p < PHYSTOP" using True "1.prems"(5) by (simp add: word_le_nat_alt word_less_nat_alt PGSIZE_def)
    then have "page_ok s p" using "1.prems" by (simp add: page_ok_def)
    moreover have "p \<notin> set ps" using "1.prems"(4) by auto
    ultimately obtain s1 where s1: "kfree s p = Ok s1" "kmem_inv s1 (p # ps)" "kend s1 = kend s"
      using "1.prems"(1) kfree_page by blast
    have al: "page_aligned ?p'" using up "1.prems"(2) by (simp add: page_aligned_def)
    have le: "p < ?p'" using up by (simp add: word_less_nat_alt)
    have ke: "kend s1 \<le> ?p'" using s1(3) "1.prems"(3) le by simp
    have "\<forall>q\<in>set (p # ps). q < ?p'" using le "1.prems"(4) by auto
    then obtain s' qs where s': "freerange_loop s1 ?p' e = Ok s'" "kmem_inv s' qs"
        "kend s' = kend s1"
        "set qs = set (p # ps) \<union> {q. page_aligned q \<and> ?p' \<le> q \<and> unat q + PGSIZE \<le> unat e}"
      using "1.IH" [OF True, of s1 "p # ps"] s1 al ke "1.prems"(5) by blast
    have gap: "p \<le> q \<longleftrightarrow> q = p \<or> ?p' \<le> q" if q: "page_aligned q" for q
    proof -
      obtain i j where "unat p = i * PGSIZE" "unat q = j * PGSIZE"
        using "1.prems"(2) q by (metis page_alignedE)
      then show ?thesis
        using up by (auto simp: word_le_nat_alt word_unat_eq_iff PGSIZE_def)
    qed
    have "set qs = set ps \<union> {q. page_aligned q \<and> p \<le> q \<and> unat q + PGSIZE \<le> unat e}"
      unfolding s'(4) using gap True "1.prems"(2) by auto
    then show ?thesis
      using s' s1 True by (auto simp: freerange_loop.simps [of s p e])
  qed
qed
section \<open>The allocator interface\<close>

text \<open>
  What the clients of the allocator rely on: \<open>invar s ps\<close> says that \<open>ps\<close> are the free pages.
  An allocation takes a page off the list or reports that there is none; freeing a page that is
  not on the list puts it there.
\<close>

locale page_allocator =
  fixes alloc :: "'s \<Rightarrow> u64 \<times> 's"
    and free :: "'s \<Rightarrow> u64 \<Rightarrow> 's res"
    and invar :: "'s \<Rightarrow> u64 list \<Rightarrow> bool"
    and good :: "'s \<Rightarrow> u64 \<Rightarrow> bool"
  assumes invar_distinct: "invar s ps \<Longrightarrow> distinct ps \<and> 0 \<notin> set ps"
    and invar_good: "invar s ps \<Longrightarrow> p \<in> set ps \<Longrightarrow> good s p"
    and alloc_none: "invar s [] \<Longrightarrow> alloc s = (0, s)"
    and alloc_some: "invar s (p # ps) \<Longrightarrow>
          \<exists>s'. alloc s = (p, s') \<and> invar s' ps \<and> (\<forall>q. good s' q = good s q)"
    and free_some: "invar s ps \<Longrightarrow> good s p \<Longrightarrow> p \<notin> set ps \<Longrightarrow>
          \<exists>s'. free s p = Ok s' \<and> invar s' (p # ps) \<and> (\<forall>q. good s' q = good s q)"
begin

fun alloc_n :: "nat \<Rightarrow> 's \<Rightarrow> u64 list \<times> 's" where
  "alloc_n 0 s = ([], s)"
| "alloc_n (Suc n) s = (let (p, s1) = alloc s; (qs, s2) = alloc_n n s1 in (p # qs, s2))"

lemma alloc_n_take:
  assumes "invar s ps" and "n \<le> length ps"
  shows "\<exists>s'. alloc_n n s = (take n ps, s') \<and> invar s' (drop n ps)"
  using assms
proof (induction n arbitrary: s ps)
  case 0
  then show ?case by simp
next
  case (Suc n)
  then obtain p qs where ps: "ps = p # qs" by (cases ps) auto
  with Suc.prems(1) obtain s1 where "alloc s = (p, s1)" and s1: "invar s1 qs"
    using alloc_some by blast
  with Suc.IH [OF s1] Suc.prems(2) ps show ?case by auto
qed

lemma free_then_alloc:
  assumes "invar s ps" "good s p" "p \<notin> set ps" "free s p = Ok s1"
  shows "\<exists>s2. alloc s1 = (p, s2) \<and> invar s2 ps"
proof -
  have "invar s1 (p # ps)" using free_some [OF assms(1-3)] assms(4) by auto
  then show ?thesis using alloc_some by blast
qed

end

interpretation kpages: page_allocator kalloc kfree kmem_inv page_ok
proof unfold_locales
  fix s ps
  assume inv: "kmem_inv s ps"
  then have "p \<noteq> 0" if "p \<in> set ps" for p
    using that by (auto simp: kmem_inv_def page_ok_def)
  with inv show "distinct ps \<and> 0 \<notin> set ps" by (auto simp: kmem_inv_def)
next
  fix s ps p
  assume "kmem_inv s ps" "p \<in> set ps"
  then show "page_ok s p" by (simp add: kmem_inv_def)
next
  fix s
  assume "kmem_inv s []"
  then show "kalloc s = (0, s)" by (rule kalloc_empty)
next
  fix s p ps
  assume "kmem_inv s (p # ps)"
  then obtain s' where "kalloc s = (p, s')" "kmem_inv s' ps" "kend s' = kend s"
    by (rule kalloc_page)
  then show "\<exists>s'. kalloc s = (p, s') \<and> kmem_inv s' ps \<and> (\<forall>q. page_ok s' q = page_ok s q)"
    by (auto simp: page_ok_def)
next
  fix s ps p
  assume "kmem_inv s ps" "page_ok s p" "p \<notin> set ps"
  then obtain s' where "kfree s p = Ok s'" "kmem_inv s' (p # ps)" "kend s' = kend s"
    by (rule kfree_page)
  then show "\<exists>s'. kfree s p = Ok s' \<and> kmem_inv s' (p # ps) \<and> (\<forall>q. page_ok s' q = page_ok s q)"
    by (auto simp: page_ok_def)
qed

section \<open>Properties\<close>

text \<open>
  C10: after \<open>kinit\<close> the free list holds exactly the page-aligned addresses between the end of the
  kernel image and the top of physical memory, each once.
\<close>

theorem kinit_free_pages:
  assumes "freelist s = 0" and "0 < kend s" and "kend s \<le> PHYSTOP"
  shows "\<exists>s' ps. kinit s = Ok s' \<and> kmem_inv s' ps \<and> set ps = {p. page_ok s p}"
proof -
  have small: "unat (kend s) + PGSIZE \<le> 2 ^ 64"
    using assms(3) by (simp add: word_le_nat_alt param_defs)
  have inv: "kmem_inv s []" using assms by (simp add: kmem_inv_def)
  have le: "kend s \<le> PGROUNDUP (kend s)"
    using PGROUNDUP_le_iff [OF small page_aligned_PGROUNDUP] by blast
  obtain s' qs where s': "freerange_loop s (PGROUNDUP (kend s)) PHYSTOP = Ok s'" "kmem_inv s' qs"
      "set qs = {q. page_aligned q \<and> PGROUNDUP (kend s) \<le> q \<and> unat q + PGSIZE \<le> unat PHYSTOP}"
    using freerange_loop_adds [OF inv page_aligned_PGROUNDUP le, of PHYSTOP] by auto
  have top: "unat q + PGSIZE \<le> unat PHYSTOP \<longleftrightarrow> q < PHYSTOP" if "page_aligned q" for q
  proof -
    obtain i where "unat q = i * PGSIZE" using \<open>page_aligned q\<close> by (rule page_alignedE)
    then show ?thesis by (auto simp: word_less_nat_alt param_defs)
  qed
  have "set qs = {p. page_ok s p}"
    unfolding s'(3) using PGROUNDUP_le_iff [OF small] top by (auto simp: page_ok_def)
  with s' show ?thesis by (auto simp: kinit_def freerange_def)
qed

text \<open>
  C11: an allocation returns null exactly when no page is free; otherwise it returns a page that
  was free and is no longer, and it writes to no other page.
\<close>

theorem kalloc_correct:
  assumes "kmem_inv s ps" and "kalloc s = (p, s')"
  shows "(p = 0 \<longleftrightarrow> ps = []) \<and>
         (p \<noteq> 0 \<longrightarrow> p \<in> set ps \<and> page_ok s p \<and> kmem_inv s' (tl ps) \<and> p \<notin> set (tl ps)) \<and>
         (\<forall>a. p = 0 \<or> \<not> in_page p a \<longrightarrow> mem s' a = mem s a)"
proof (cases ps)
  case Nil
  with assms show ?thesis using kalloc_empty by auto
next
  case (Cons q qs)
  with assms(1) obtain t where t: "kalloc s = (q, t)" "kmem_inv t qs"
      "\<And>a. mem t a = (if in_page q a then 5 else mem s a)"
    using kalloc_page by blast
  have "distinct ps \<and> 0 \<notin> set ps" using assms(1) by (rule kpages.invar_distinct)
  with t Cons assms show ?thesis by (auto simp: kpages.invar_good)
qed

text \<open>
  C12: freeing a page that is in range and not already free succeeds, the next allocation returns
  that same page, and the free pages are then as they were before the two calls.
\<close>

theorem kfree_kalloc_roundtrip:
  assumes "kmem_inv s ps" and "page_ok s p" and "p \<notin> set ps"
  shows "\<exists>s1 s2. kfree s p = Ok s1 \<and> kmem_inv s1 (p # ps) \<and> kalloc s1 = (p, s2) \<and> kmem_inv s2 ps"
proof -
  obtain s1 where "kfree s p = Ok s1" "kmem_inv s1 (p # ps)"
    using kpages.free_some [OF assms] by blast
  with kpages.free_then_alloc [OF assms] show ?thesis by blast
qed

section \<open>Witnesses\<close>

definition kmem_ex :: kmem where
  "kmem_ex = \<lparr>mem = (\<lambda>_. 0), freelist = 0x80100000, kend = 0x80021000\<rparr>"

lemma kmem_ex_inv: "kmem_inv kmem_ex [0x80100000]"
  by (simp add: kmem_inv_def kmem_ex_def page_ok_def page_aligned_def param_defs load64_def)

theorem kinit_free_pages_witness:
  "\<exists>s' ps. kinit (kmem_ex\<lparr>freelist := 0\<rparr>) = Ok s' \<and> kmem_inv s' ps \<and>
     set ps = {p. page_ok (kmem_ex\<lparr>freelist := 0\<rparr>) p}"
  by (rule kinit_free_pages) (simp_all add: kmem_ex_def param_defs)

theorem kalloc_correct_witness:
  "fst (kalloc kmem_ex) = 0x80100000 \<and> kmem_inv (snd (kalloc kmem_ex)) []"
proof -
  have k: "kalloc kmem_ex = (0x80100000, snd (kalloc kmem_ex))"
    by (simp add: kalloc_def kmem_ex_def)
  show ?thesis
    using kalloc_correct [OF kmem_ex_inv k] k by (metis fst_conv list.sel(3) list.distinct(1))
qed

theorem kfree_kalloc_roundtrip_witness:
  "\<exists>s1 s2. kfree kmem_ex 0x80200000 = Ok s1 \<and> kmem_inv s1 [0x80200000, 0x80100000] \<and>
     kalloc s1 = (0x80200000, s2) \<and> kmem_inv s2 [0x80100000]"
  by (rule kfree_kalloc_roundtrip [OF kmem_ex_inv])
    (simp_all add: page_ok_def page_aligned_def kmem_ex_def param_defs)

end
