(* ===== verification/Vm.thy ===== *)
theory Vm
  imports Kalloc "HOL-Library.Sublist"
begin

text \<open>
  Sv39 page tables (\<open>kernel/vm.c\<close>, the PTE macros of \<open>kernel/riscv.h\<close>, the layout constants of
  \<open>kernel/memlayout.h\<close>, and \<open>proc_mapstacks\<close> of \<open>kernel/proc.c\<close>). Page tables live in the
  byte memory of the page allocator, as in the source: a page-table page is 512 eight-byte entries,
  and \<open>walk\<close> follows physical addresses.

  A kernel buffer that is the source of \<open>copyout\<close> or the target of \<open>copyin\<close> is its list of
  bytes. \<open>myproc()\<close> enters \<open>vmfault\<close> as the size and page table of the current process.
  The linker's symbols \<open>etext\<close> and \<open>trampoline\<close> are arguments of \<open>kvmmake\<close>.

  The lemmas read a page table as a tree of table pages (\<open>tbl\<close>, invariant \<open>pt_inv\<close>) and as the map
  from virtual pages to entries that it describes (\<open>pmap\<close>); the locale \<open>address_space\<close> is that map
  as an interface, interpreted by \<open>mappages\<close> and \<open>uvmunmap\<close>.
\<close>

section \<open>Definitions\<close>

subsection \<open>Entries and layout\<close>

definition PTE_V :: u64 where "PTE_V = 1"
definition PTE_R :: u64 where "PTE_R = 2"
definition PTE_W :: u64 where "PTE_W = 4"
definition PTE_X :: u64 where "PTE_X = 8"
definition PTE_U :: u64 where "PTE_U = 16"

lemmas pte_bits = PTE_V_def PTE_R_def PTE_W_def PTE_X_def PTE_U_def

definition PA2PTE :: "u64 \<Rightarrow> u64" where "PA2PTE pa = push_bit 10 (drop_bit 12 pa)"
definition PTE2PA :: "u64 \<Rightarrow> u64" where "PTE2PA pte = push_bit 12 (drop_bit 10 pte)"
definition PTE_FLAGS :: "u64 \<Rightarrow> u64" where "PTE_FLAGS pte = pte AND 0x3FF"

definition PX :: "nat \<Rightarrow> u64 \<Rightarrow> u64" where
  "PX level va = drop_bit (12 + 9 * level) va AND 0x1FF"

definition MAXVA :: u64 where "MAXVA = push_bit (9 + 9 + 9 + 12 - 1) 1"
definition TRAMPOLINE :: u64 where "TRAMPOLINE = MAXVA - of_nat PGSIZE"
definition TRAPFRAME :: u64 where "TRAPFRAME = TRAMPOLINE - of_nat PGSIZE"
definition KSTACK :: "nat \<Rightarrow> u64" where
  "KSTACK p = TRAMPOLINE - (of_nat p + 1) * 2 * of_nat PGSIZE"
definition UART0 :: u64 where "UART0 = 0x10000000"
definition VIRTIO0 :: u64 where "VIRTIO0 = 0x10001000"
definition PLIC :: u64 where "PLIC = 0x0c000000"
definition NPROC :: nat where [param_defs]: "NPROC = 64"

definition pte_has :: "u64 \<Rightarrow> u64 \<Rightarrow> bool" where
  "pte_has pte bits \<longleftrightarrow> pte AND bits \<noteq> 0"

subsection \<open>Walking the table\<close>

fun walk_loop :: "nat \<Rightarrow> kmem \<Rightarrow> u64 \<Rightarrow> u64 \<Rightarrow> bool \<Rightarrow> u64 \<times> kmem" where
  "walk_loop 0 s pagetable va alloc = (pagetable + 8 * PX 0 va, s)"
| "walk_loop (Suc l) s pagetable va alloc =
     (let pte = pagetable + 8 * PX (Suc l) va; v = load64 (mem s) pte in
      if pte_has v PTE_V then walk_loop l s (PTE2PA v) va alloc
      else if \<not> alloc then (0, s)
      else case kalloc s of (pg, s1) \<Rightarrow>
        if pg = 0 then (0, s1)
        else walk_loop l (s1\<lparr>mem := store64 (memset (mem s1) pg 0 PGSIZE) pte (PA2PTE pg OR PTE_V)\<rparr>)
               pg va alloc)"

definition walk :: "kmem \<Rightarrow> u64 \<Rightarrow> u64 \<Rightarrow> bool \<Rightarrow> (u64 \<times> kmem) res" where
  "walk s pagetable va alloc =
     (if va \<ge> MAXVA then Panic ''walk'' else Ok (walk_loop 2 s pagetable va alloc))"

definition walkaddr :: "kmem \<Rightarrow> u64 \<Rightarrow> u64 \<Rightarrow> u64" where
  "walkaddr s pagetable va =
     (if va \<ge> MAXVA then 0
      else let pte = fst (walk_loop 2 s pagetable va False); v = load64 (mem s) pte in
        if pte = 0 then 0
        else if \<not> pte_has v PTE_V then 0
        else if \<not> pte_has v PTE_U then 0
        else PTE2PA v)"

definition ismapped :: "kmem \<Rightarrow> u64 \<Rightarrow> u64 \<Rightarrow> bool res" where
  "ismapped s pagetable va =
     bnd (walk s pagetable va False)
       (\<lambda>(pte, _). Ok (pte \<noteq> 0 \<and> pte_has (load64 (mem s) pte) PTE_V))"

subsection \<open>Mapping and unmapping\<close>

lemma walk_Ok_lt: "walk s pt va al = Ok r \<Longrightarrow> unat va < 2 ^ 38"
  by (auto simp: walk_def MAXVA_def word_less_nat_alt not_le split: if_splits)

lemma unat_add_PGSIZE: "unat (a :: u64) < 2 ^ 38 \<Longrightarrow> unat (a + of_nat PGSIZE) = unat a + PGSIZE"
  by (simp add: PGSIZE_def unat_word_ariths)

lemma page_loop_dec:
  "unat (a :: u64) < 274877906944 \<Longrightarrow>
     549755813888 - unat (a + of_nat PGSIZE) < 549755813888 - unat a"
  using unat_add_PGSIZE [of a] by (simp add: PGSIZE_def)

function mappages_loop :: "kmem \<Rightarrow> u64 \<Rightarrow> u64 \<Rightarrow> u64 \<Rightarrow> u64 \<Rightarrow> u64 \<Rightarrow> (int \<times> kmem) res" where
  "mappages_loop s pagetable a lst pa perm =
     bnd (walk s pagetable a True) (\<lambda>(pte, s1).
       if pte = 0 then Ok (-1, s1)
       else if pte_has (load64 (mem s1) pte) PTE_V then Panic ''mappages: remap''
       else let s2 = s1\<lparr>mem := store64 (mem s1) pte (PA2PTE pa OR perm OR PTE_V)\<rparr> in
         if a = lst then Ok (0, s2)
         else mappages_loop s2 pagetable (a + of_nat PGSIZE) lst (pa + of_nat PGSIZE) perm)"
  by pat_completeness auto
termination
proof (relation "measure (\<lambda>(s, pt, a, l, pa, perm). 2 ^ 39 - unat a)")
  show "wf (measure (\<lambda>(s :: kmem, pt :: u64, a :: u64, l :: u64, pa :: u64, perm :: u64).
          2 ^ 39 - unat a))" by simp
qed (auto dest!: walk_Ok_lt intro: page_loop_dec)

declare mappages_loop.simps [simp del]

definition mappages :: "kmem \<Rightarrow> u64 \<Rightarrow> u64 \<Rightarrow> u64 \<Rightarrow> u64 \<Rightarrow> u64 \<Rightarrow> (int \<times> kmem) res" where
  "mappages s pagetable va sz pa perm =
     (if unat va mod PGSIZE \<noteq> 0 then Panic ''mappages: va not aligned''
      else if unat sz mod PGSIZE \<noteq> 0 then Panic ''mappages: size not aligned''
      else if sz = 0 then Panic ''mappages: size''
      else mappages_loop s pagetable va (va + sz - of_nat PGSIZE) pa perm)"

definition uvmcreate :: "kmem \<Rightarrow> u64 \<times> kmem" where
  "uvmcreate s =
     (case kalloc s of (pg, s1) \<Rightarrow>
        if pg = 0 then (0, s1) else (pg, s1\<lparr>mem := memset (mem s1) pg 0 PGSIZE\<rparr>))"

function uvmunmap_loop :: "kmem \<Rightarrow> u64 \<Rightarrow> u64 \<Rightarrow> u64 \<Rightarrow> bool \<Rightarrow> kmem res" where
  "uvmunmap_loop s pagetable a e do_free =
     (if a < e then
        bnd (walk s pagetable a False) (\<lambda>(pte, _).
          let v = load64 (mem s) pte in
          if pte = 0 \<or> \<not> pte_has v PTE_V then uvmunmap_loop s pagetable (a + of_nat PGSIZE) e do_free
          else bnd (if do_free then kfree s (PTE2PA v) else Ok s) (\<lambda>s1.
            uvmunmap_loop (s1\<lparr>mem := store64 (mem s1) pte 0\<rparr>) pagetable (a + of_nat PGSIZE) e do_free))
      else Ok s)"
  by pat_completeness auto
termination
proof (relation "measure (\<lambda>(s, pt, a, e, fr). 2 ^ 39 - unat a)")
  show "wf (measure (\<lambda>(s :: kmem, pt :: u64, a :: u64, e :: u64, fr :: bool). 2 ^ 39 - unat a))" by simp
qed (auto dest!: walk_Ok_lt intro: page_loop_dec)

declare uvmunmap_loop.simps [simp del]

definition uvmunmap :: "kmem \<Rightarrow> u64 \<Rightarrow> u64 \<Rightarrow> u64 \<Rightarrow> bool \<Rightarrow> kmem res" where
  "uvmunmap s pagetable va npages do_free =
     (if unat va mod PGSIZE \<noteq> 0 then Panic ''uvmunmap: not aligned''
      else uvmunmap_loop s pagetable va (va + npages * of_nat PGSIZE) do_free)"

subsection \<open>User memory\<close>

definition uvmdealloc :: "kmem \<Rightarrow> u64 \<Rightarrow> u64 \<Rightarrow> u64 \<Rightarrow> (u64 \<times> kmem) res" where
  "uvmdealloc s pagetable oldsz newsz =
     (if newsz \<ge> oldsz then Ok (oldsz, s)
      else if PGROUNDUP newsz < PGROUNDUP oldsz then
        let npages = scast (ucast ((PGROUNDUP oldsz - PGROUNDUP newsz) div of_nat PGSIZE) :: u32) in
        bnd (uvmunmap s pagetable (PGROUNDUP newsz) npages True) (\<lambda>s1. Ok (newsz, s1))
      else Ok (newsz, s))"

lemma mappages_Ok_lt: "mappages s pt va sz pa perm = Ok r \<Longrightarrow> unat va < 2 ^ 38"
  by (auto simp: mappages_def mappages_loop.simps [of s pt va] dest!: walk_Ok_lt split: if_splits)

function uvmalloc_loop :: "kmem \<Rightarrow> u64 \<Rightarrow> u64 \<Rightarrow> u64 \<Rightarrow> u64 \<Rightarrow> u64 \<Rightarrow> (u64 \<times> kmem) res" where
  "uvmalloc_loop s pagetable oldsz a newsz xperm =
     (if a < newsz then
        (case kalloc s of (pg, s1) \<Rightarrow>
           if pg = 0 then bnd (uvmdealloc s1 pagetable a oldsz) (\<lambda>(_, s2). Ok (0, s2))
           else bnd (mappages (s1\<lparr>mem := memset (mem s1) pg 0 PGSIZE\<rparr>) pagetable a (of_nat PGSIZE) pg
                       (PTE_R OR PTE_U OR xperm)) (\<lambda>(r, s2).
             if r \<noteq> 0 then bnd (kfree s2 pg) (\<lambda>s3.
               bnd (uvmdealloc s3 pagetable a oldsz) (\<lambda>(_, s4). Ok (0, s4)))
             else uvmalloc_loop s2 pagetable oldsz (a + of_nat PGSIZE) newsz xperm))
      else Ok (newsz, s))"
  by pat_completeness auto
termination
proof (relation "measure (\<lambda>(s, pt, ol, a, nw, xp). 2 ^ 39 - unat a)")
  show "wf (measure (\<lambda>(s :: kmem, pt :: u64, ol :: u64, a :: u64, nw :: u64, xp :: u64).
          2 ^ 39 - unat a))" by simp
qed (auto dest!: mappages_Ok_lt intro: page_loop_dec)

declare uvmalloc_loop.simps [simp del]

definition uvmalloc :: "kmem \<Rightarrow> u64 \<Rightarrow> u64 \<Rightarrow> u64 \<Rightarrow> u64 \<Rightarrow> (u64 \<times> kmem) res" where
  "uvmalloc s pagetable oldsz newsz xperm =
     (if newsz < oldsz then Ok (oldsz, s)
      else uvmalloc_loop s pagetable (PGROUNDUP oldsz) (PGROUNDUP oldsz) newsz xperm)"

text \<open>\<open>freewalk\<close> recurses as deep as the table it is given; a table of the three Sv39 levels needs
  depth 3. The bound stands for the kernel stack: recursion deeper than it hits the guard page below
  the stack, and the trap panics.\<close>

fun freewalk_depth :: "nat \<Rightarrow> kmem \<Rightarrow> u64 \<Rightarrow> kmem res" where
  "freewalk_depth 0 s pagetable = Panic ''kerneltrap''"
| "freewalk_depth (Suc d) s pagetable =
     bnd (fold_res (\<lambda>i s.
            let slot = pagetable + 8 * of_nat i; pte = load64 (mem s) slot in
            if pte_has pte PTE_V \<and> \<not> pte_has pte (PTE_R OR PTE_W OR PTE_X)
            then bnd (freewalk_depth d s (PTE2PA pte)) (\<lambda>s. Ok (s\<lparr>mem := store64 (mem s) slot 0\<rparr>))
            else if pte_has pte PTE_V then Panic ''freewalk: leaf''
            else Ok s) [0..<512] s)
       (\<lambda>s. kfree s pagetable)"

definition freewalk :: "kmem \<Rightarrow> u64 \<Rightarrow> kmem res" where
  "freewalk s pagetable = freewalk_depth 64 s pagetable"

definition uvmfree :: "kmem \<Rightarrow> u64 \<Rightarrow> u64 \<Rightarrow> kmem res" where
  "uvmfree s pagetable sz =
     bnd (if sz > 0 then uvmunmap s pagetable 0 (PGROUNDUP sz div of_nat PGSIZE) True else Ok s)
       (\<lambda>s. freewalk s pagetable)"

function uvmcopy_loop :: "kmem \<Rightarrow> u64 \<Rightarrow> u64 \<Rightarrow> u64 \<Rightarrow> u64 \<Rightarrow> (int \<times> kmem) res" where
  "uvmcopy_loop s old new i sz =
     (if i < sz then
        bnd (walk s old i False) (\<lambda>(pte, _).
          let v = load64 (mem s) pte in
          if pte = 0 \<or> \<not> pte_has v PTE_V then uvmcopy_loop s old new (i + of_nat PGSIZE) sz
          else (case kalloc s of (pg, s1) \<Rightarrow>
            if pg = 0 then bnd (uvmunmap s1 new 0 (i div of_nat PGSIZE) True) (\<lambda>s2. Ok (-1, s2))
            else bnd (mappages (s1\<lparr>mem := memmove (mem s1) pg (PTE2PA v) PGSIZE\<rparr>) new i (of_nat PGSIZE)
                        pg (PTE_FLAGS v)) (\<lambda>(r, s2).
              if r \<noteq> 0 then bnd (kfree s2 pg) (\<lambda>s3.
                bnd (uvmunmap s3 new 0 (i div of_nat PGSIZE) True) (\<lambda>s4. Ok (-1, s4)))
              else uvmcopy_loop s2 old new (i + of_nat PGSIZE) sz)))
      else Ok (0, s))"
  by pat_completeness auto
termination
proof (relation "measure (\<lambda>(s, old, new, i, sz). 2 ^ 39 - unat i)")
  show "wf (measure (\<lambda>(s :: kmem, old :: u64, new :: u64, i :: u64, sz :: u64). 2 ^ 39 - unat i))" by simp
qed (auto dest!: walk_Ok_lt intro: page_loop_dec)

declare uvmcopy_loop.simps [simp del]

definition uvmcopy :: "kmem \<Rightarrow> u64 \<Rightarrow> u64 \<Rightarrow> u64 \<Rightarrow> (int \<times> kmem) res" where
  "uvmcopy s old new sz = uvmcopy_loop s old new 0 sz"

definition uvmclear :: "kmem \<Rightarrow> u64 \<Rightarrow> u64 \<Rightarrow> kmem res" where
  "uvmclear s pagetable va =
     bnd (walk s pagetable va False) (\<lambda>(pte, _).
       if pte = 0 then Panic ''uvmclear''
       else Ok (s\<lparr>mem := store64 (mem s) pte (load64 (mem s) pte AND NOT PTE_U)\<rparr>))"

subsection \<open>Copying between kernel and user\<close>

fun write_bytes :: "memory \<Rightarrow> u64 \<Rightarrow> u8 list \<Rightarrow> memory" where
  "write_bytes m a [] = m"
| "write_bytes m a (b # bs) = write_bytes (m(a := b)) (a + 1) bs"

definition vmfault :: "kmem \<Rightarrow> u64 \<Rightarrow> u64 \<Rightarrow> u64 \<Rightarrow> u64 \<Rightarrow> (u64 \<times> kmem) res" where
  "vmfault s p_sz p_pagetable pagetable va0 =
     (if va0 \<ge> p_sz then Ok (0, s)
      else let va = PGROUNDDOWN va0 in
        bnd (ismapped s pagetable va) (\<lambda>mapped.
          if mapped then Ok (0, s)
          else case kalloc s of (pg, s1) \<Rightarrow>
            if pg = 0 then Ok (0, s1)
            else bnd (mappages (s1\<lparr>mem := memset (mem s1) pg 0 PGSIZE\<rparr>) p_pagetable va (of_nat PGSIZE)
                        pg (PTE_W OR PTE_U OR PTE_R)) (\<lambda>(r, s2).
              if r \<noteq> 0 then bnd (kfree s2 pg) (\<lambda>s3. Ok (0, s3)) else Ok (pg, s2))))"

text \<open>The page lookup shared by \<open>copyout\<close> and \<open>copyin\<close>: \<open>walkaddr\<close>, then \<open>vmfault\<close>.\<close>

definition user_page :: "kmem \<Rightarrow> u64 \<Rightarrow> u64 \<Rightarrow> u64 \<Rightarrow> u64 \<Rightarrow> (u64 \<times> kmem) res" where
  "user_page s p_sz p_pagetable pagetable va0 =
     (let pa0 = walkaddr s pagetable va0 in
      if pa0 = 0 then vmfault s p_sz p_pagetable pagetable va0 else Ok (pa0, s))"

text \<open>How many bytes of the current page a transfer of \<open>len\<close> bytes at \<open>va\<close> takes.\<close>

definition page_chunk :: "u64 \<Rightarrow> nat \<Rightarrow> nat" where
  "page_chunk va len = min (PGSIZE - unat (va - PGROUNDDOWN va)) len"

lemma unat_page_offset: "unat (va - PGROUNDDOWN va) = unat va mod PGSIZE"
proof -
  have "unat (PGROUNDDOWN va) = unat va div PGSIZE * PGSIZE"
    by (simp add: PGROUNDDOWN_def and_not_mask12)
  moreover from this have "PGROUNDDOWN va \<le> va" by (simp add: word_le_nat_alt)
  ultimately show ?thesis by (simp add: unat_sub_if_le minus_div_mult_eq_mod)
qed

lemma page_chunk_pos: "0 < len \<Longrightarrow> 0 < page_chunk va len"
  by (simp add: page_chunk_def unat_page_offset)

lemma page_chunk_le: "page_chunk va len \<le> len"
  by (simp add: page_chunk_def)

function copyout :: "kmem \<Rightarrow> u64 \<Rightarrow> u64 \<Rightarrow> u64 \<Rightarrow> u64 \<Rightarrow> u8 list \<Rightarrow> (int \<times> kmem) res" where
  "copyout s p_sz p_pagetable pagetable dstva src =
     (if src = [] then Ok (0, s)
      else let va0 = PGROUNDDOWN dstva in
        if va0 \<ge> MAXVA then Ok (-1, s)
        else bnd (user_page s p_sz p_pagetable pagetable va0) (\<lambda>(pa0, s1).
          if pa0 = 0 then Ok (-1, s1)
          else bnd (walk s1 pagetable va0 False) (\<lambda>(pte, _).
            if pte = 0 then Panic ''kerneltrap''
            else if \<not> pte_has (load64 (mem s1) pte) PTE_W then Ok (-1, s1)
            else let n = page_chunk dstva (length src) in
              copyout (s1\<lparr>mem := write_bytes (mem s1) (pa0 + (dstva - va0)) (take n src)\<rparr>)
                p_sz p_pagetable pagetable (va0 + of_nat PGSIZE) (drop n src))))"
  by pat_completeness auto
termination
  by (relation "measure (\<lambda>(s, psz, ppt, pt, d, src). length src)")
    (auto intro!: diff_less page_chunk_pos)

declare copyout.simps [simp del]

text \<open>The copy reads the entry through the pointer that \<open>walk\<close> returns; were it null (\<open>vmfault\<close>
  maps into the table of the current process, whatever table it was given) the load would fault and
  the trap handler panic.\<close>

text \<open>\<open>copyin\<close> gives the bytes it stores at \<open>dst\<close>, \<open>None\<close> when it returns -1.\<close>

function copyin :: "kmem \<Rightarrow> u64 \<Rightarrow> u64 \<Rightarrow> u64 \<Rightarrow> u64 \<Rightarrow> nat \<Rightarrow> (u8 list option \<times> kmem) res" where
  "copyin s p_sz p_pagetable pagetable srcva len =
     (if len = 0 then Ok (Some [], s)
      else let va0 = PGROUNDDOWN srcva in
        bnd (user_page s p_sz p_pagetable pagetable va0) (\<lambda>(pa0, s1).
          if pa0 = 0 then Ok (None, s1)
          else let n = page_chunk srcva len in
            bnd (copyin s1 p_sz p_pagetable pagetable (va0 + of_nat PGSIZE) (len - n)) (\<lambda>(r, s2).
              Ok (map_option (\<lambda>bs. bytes_at (mem s1) (pa0 + (srcva - va0)) n @ bs) r, s2))))"
  by pat_completeness auto
termination
  by (relation "measure (\<lambda>(s, psz, ppt, pt, d, len). len)")
    (auto intro!: diff_less page_chunk_pos)

declare copyin.simps [simp del]

text \<open>\<open>copyinstr\<close> gives the string without its terminator. \<open>str_chunk\<close> is its inner loop: the bytes
  before a zero among the first \<open>n\<close>, and whether there was one.\<close>

fun str_chunk :: "memory \<Rightarrow> u64 \<Rightarrow> nat \<Rightarrow> u8 list \<times> bool" where
  "str_chunk m p 0 = ([], False)"
| "str_chunk m p (Suc n) =
     (if m p = 0 then ([], True)
      else case str_chunk m (p + 1) n of (bs, z) \<Rightarrow> (m p # bs, z))"

function copyinstr :: "kmem \<Rightarrow> u64 \<Rightarrow> u64 \<Rightarrow> nat \<Rightarrow> u8 list option" where
  "copyinstr s pagetable srcva mx =
     (if mx = 0 then None
      else let va0 = PGROUNDDOWN srcva; pa0 = walkaddr s pagetable va0 in
        if pa0 = 0 then None
        else let n = page_chunk srcva mx in
          case str_chunk (mem s) (pa0 + (srcva - va0)) n of (bs, got_null) \<Rightarrow>
            if got_null then Some bs
            else map_option (\<lambda>cs. bs @ cs) (copyinstr s pagetable (va0 + of_nat PGSIZE) (mx - n)))"
  by pat_completeness auto
termination
  by (relation "measure (\<lambda>(s, pt, d, mx). mx)")
    (auto intro!: diff_less page_chunk_pos)

declare copyinstr.simps [simp del]

subsection \<open>The kernel's own page table\<close>

definition kvmmap :: "kmem \<Rightarrow> u64 \<Rightarrow> u64 \<Rightarrow> u64 \<Rightarrow> u64 \<Rightarrow> u64 \<Rightarrow> kmem res" where
  "kvmmap s kpgtbl va pa sz perm =
     bnd (mappages s kpgtbl va sz pa perm) (\<lambda>(r, s1). if r \<noteq> 0 then Panic ''kvmmap'' else Ok s1)"

definition proc_mapstacks :: "kmem \<Rightarrow> u64 \<Rightarrow> kmem res" where
  "proc_mapstacks s kpgtbl =
     fold_res (\<lambda>i s. case kalloc s of (pa, s1) \<Rightarrow>
         if pa = 0 then Panic ''kalloc''
         else kvmmap s1 kpgtbl (KSTACK i) pa (of_nat PGSIZE) (PTE_R OR PTE_W)) [0..<NPROC] s"

definition kvmmake :: "kmem \<Rightarrow> u64 \<Rightarrow> u64 \<Rightarrow> (u64 \<times> kmem) res" where
  "kvmmake s etext trampoline =
     (case kalloc s of (kpgtbl, s) \<Rightarrow>
      let s = s\<lparr>mem := memset (mem s) kpgtbl 0 PGSIZE\<rparr> in
      bnd (kvmmap s kpgtbl UART0 UART0 (of_nat PGSIZE) (PTE_R OR PTE_W)) (\<lambda>s.
      bnd (kvmmap s kpgtbl VIRTIO0 VIRTIO0 (of_nat PGSIZE) (PTE_R OR PTE_W)) (\<lambda>s.
      bnd (kvmmap s kpgtbl PLIC PLIC 0x4000000 (PTE_R OR PTE_W)) (\<lambda>s.
      bnd (kvmmap s kpgtbl KERNBASE KERNBASE (etext - KERNBASE) (PTE_R OR PTE_X)) (\<lambda>s.
      bnd (kvmmap s kpgtbl etext etext (PHYSTOP - etext) (PTE_R OR PTE_W)) (\<lambda>s.
      bnd (kvmmap s kpgtbl TRAMPOLINE trampoline (of_nat PGSIZE) (PTE_R OR PTE_X)) (\<lambda>s.
      bnd (proc_mapstacks s kpgtbl) (\<lambda>s. Ok (kpgtbl, s)))))))))"

section \<open>Entries\<close>

definition pte_ok :: "u64 \<Rightarrow> u64 \<Rightarrow> bool" where
  "pte_ok pa perm \<longleftrightarrow> page_aligned pa \<and> unat pa < 2 ^ 56 \<and> unat perm < 2 ^ 10"

lemma bit_high_False:
  fixes x :: "'a::len word"
  assumes "unat x < 2 ^ k" "k \<le> n"
  shows "\<not> bit x n"
proof -
  have "\<not> bit (unat x) n"
    using assms by (metis bit_take_bit_iff not_le take_bit_nat_eq_self_iff)
  then show ?thesis
    by (metis bit_imp_le_length bit_unsigned_iff possible_bit_nat)
qed

lemma page_aligned_bits: "page_aligned pa \<Longrightarrow> n < 12 \<Longrightarrow> \<not> bit pa n"
proof -
  assume a: "page_aligned pa" "n < 12"
  have "take_bit 12 (unat pa) = 0" using a(1) by (simp add: page_aligned_def take_bit_eq_mod PGSIZE_def)
  then have "\<not> bit (unat pa) n" using a(2) by (metis bit_take_bit_iff bit_0_eq bot_apply bot_bool_def)
  then show ?thesis by (metis bit_imp_le_length bit_unsigned_iff possible_bit_nat)
qed

lemma pte_has_V: "pte_has v PTE_V \<longleftrightarrow> bit v 0"
  by (simp add: pte_has_def PTE_V_def and_one_eq bit_0 even_iff_mod_2_eq_zero)

lemma pte_has_U: "pte_has v PTE_U \<longleftrightarrow> bit v 4"
  using and_exp_eq_0_iff_not_bit [of v 4] by (simp add: pte_has_def PTE_U_def)

lemma PTE2PA_PA2PTE:
  assumes "pte_ok pa perm"
  shows "PTE2PA (PA2PTE pa OR perm OR PTE_V) = pa" "PTE_FLAGS (PA2PTE pa OR perm OR PTE_V) = perm OR PTE_V"
    "pte_has (PA2PTE pa OR perm OR PTE_V) PTE_V"
proof -
  have lo: "n < 12 \<Longrightarrow> \<not> bit pa n" and hi: "56 \<le> n \<Longrightarrow> \<not> bit pa n" and fl: "10 \<le> n \<Longrightarrow> \<not> bit perm n" for n
    using assms page_aligned_bits bit_high_False [of pa 56] bit_high_False [of perm 10] by (auto simp: pte_ok_def)
  show "PTE2PA (PA2PTE pa OR perm OR PTE_V) = pa"
  proof (rule bit_word_eqI)
    fix n
    show "bit (PTE2PA (PA2PTE pa OR perm OR PTE_V)) n = bit pa n" if "n < LENGTH(64)"
      using that lo [of n] hi [of n] fl by (cases "n < 12") (auto simp: PTE2PA_def PA2PTE_def PTE_V_def bit_simps)
  qed
  show "PTE_FLAGS (PA2PTE pa OR perm OR PTE_V) = perm OR PTE_V"
  proof (rule bit_word_eqI)
    fix n
    have "bit (0x3FF :: u64) n \<longleftrightarrow> n < 10" using bit_mask_iff [of 10 n, where 'a = "64 word"] by (simp add: mask_eq_exp_minus_1) auto
    then show "bit (PTE_FLAGS (PA2PTE pa OR perm OR PTE_V)) n = bit (perm OR PTE_V) n" if "n < LENGTH(64)"
      using that fl [of n] by (cases "n < 10") (auto simp: PTE_FLAGS_def PA2PTE_def PTE_V_def bit_simps)
  qed
  show "pte_has (PA2PTE pa OR perm OR PTE_V) PTE_V"
    unfolding pte_has_V by (simp add: PTE_V_def bit_simps)
qed


section \<open>The tables as a tree\<close>

text \<open>Entry \<open>i\<close> of the table page \<open>pg\<close>, and the table page at the end of a path of indices.\<close>

definition pte_at :: "memory \<Rightarrow> u64 \<Rightarrow> nat \<Rightarrow> u64" where
  "pte_at m pg i = load64 m (pg + 8 * of_nat i)"

definition step_table :: "memory \<Rightarrow> u64 \<Rightarrow> nat \<Rightarrow> u64 option" where
  "step_table m pg i = (if pte_has (pte_at m pg i) PTE_V then Some (PTE2PA (pte_at m pg i)) else None)"

definition tbl :: "memory \<Rightarrow> u64 \<Rightarrow> nat list \<Rightarrow> u64 option" where
  "tbl m root p = foldl (\<lambda>pg i. Option.bind pg (\<lambda>pg. step_table m pg i)) (Some root) p"

lemma tbl_Nil [simp]: "tbl m root [] = Some root"
  by (simp add: tbl_def)

lemma tbl_snoc: "tbl m root (p @ [i]) = Option.bind (tbl m root p) (\<lambda>pg. step_table m pg i)"
  by (simp add: tbl_def)

definition path_ok :: "nat list \<Rightarrow> bool" where
  "path_ok p \<longleftrightarrow> length p \<le> 2 \<and> (\<forall>i\<in>set p. i < 512)"

text \<open>A page table: every table page is a page of memory that is not free, and no two paths share one.\<close>

definition pt_inv :: "kmem \<Rightarrow> u64 list \<Rightarrow> u64 \<Rightarrow> bool" where
  "pt_inv s ps root \<longleftrightarrow> kmem_inv s ps \<and>
     (\<forall>p pg. path_ok p \<longrightarrow> tbl (mem s) root p = Some pg \<longrightarrow> page_ok s pg \<and> pg \<notin> set ps) \<and>
     (\<forall>p q pg. path_ok p \<longrightarrow> path_ok q \<longrightarrow> tbl (mem s) root p = Some pg \<longrightarrow> tbl (mem s) root q = Some pg \<longrightarrow> p = q)"

text \<open>What the table maps: the entry at indices \<open>i\<close>, \<open>j\<close>, \<open>k\<close>, zero when its table page does not exist.\<close>

definition leaf :: "memory \<Rightarrow> u64 \<Rightarrow> nat \<Rightarrow> nat \<Rightarrow> nat \<Rightarrow> u64" where
  "leaf m root i j k = (case tbl m root [i, j] of None \<Rightarrow> 0 | Some pg \<Rightarrow> pte_at m pg k)"

lemma slot_apart:
  assumes "i < 512" "j < 512" "i \<noteq> j"
  shows "8 \<le> unat ((pg + 8 * of_nat i) - (pg + 8 * of_nat j :: u64))"
proof (cases "j < i")
  case True
  then have "(pg + 8 * of_nat i) - (pg + 8 * of_nat j :: u64) = of_nat (8 * (i - j))"
    by (simp add: of_nat_diff)
  moreover have "unat (of_nat (8 * (i - j)) :: u64) = 8 * (i - j)"
    using assms by (intro unat_of_nat_small) simp
  ultimately show ?thesis using True by simp
next
  case False
  then have e: "(pg + 8 * of_nat i) - (pg + 8 * of_nat j :: u64) = - of_nat (8 * (j - i))"
    using assms by (simp add: of_nat_diff)
  have u: "unat (of_nat (8 * (j - i)) :: u64) = 8 * (j - i)"
    using assms by (intro unat_of_nat_small) simp
  have "of_nat (8 * (j - i)) \<noteq> (0 :: u64)"
  proof
    assume "of_nat (8 * (j - i)) = (0 :: u64)"
    with u have "8 * (j - i) = 0" by (simp only: unat_0)
    with False assms show False by simp
  qed
  then have "unat (- of_nat (8 * (j - i)) :: u64) = 2 ^ LENGTH(64) - 8 * (j - i)"
    using unat_neg u by metis
  then show ?thesis using False assms unfolding e by simp
qed

lemma slot_in_page:
  assumes "i < 512" "unat (b - (pg + 8 * of_nat i)) < 8"
  shows "in_page pg b"
proof -
  have o: "unat (8 * of_nat i :: u64) = 8 * i" using assms(1) by (simp add: unat_word_ariths)
  have "b - pg = (b - (pg + 8 * of_nat i)) + 8 * of_nat i" by simp
  then have "unat (b - pg) = unat (b - (pg + 8 * of_nat i)) + 8 * i"
    using assms o by (simp only: unat_word_ariths(1)) simp
  then show ?thesis using assms by (simp add: in_page_def PGSIZE_def)
qed

lemma pte_at_cong:
  assumes "i < 512" "\<And>b. in_page pg b \<Longrightarrow> m b = m' b"
  shows "pte_at m pg i = pte_at m' pg i"
  unfolding pte_at_def using assms slot_in_page by (intro load64_cong) blast


lemma load64_store64_apart:
  assumes "8 \<le> unat (b - a)" "8 \<le> unat (a - b)"
  shows "load64 (store64 m a v) b = load64 m b"
proof (rule load64_cong)
  fix c
  assume c: "unat (c - b) < 8"
  have x: "unat (b - a) + 8 \<le> 2 ^ 64"
  proof -
    have "a - b = - (b - a)" by simp
    moreover have "b - a \<noteq> 0" using assms by auto
    ultimately have "unat (a - b) = 2 ^ LENGTH(64) - unat (b - a)"
      using unat_neg [of "b - a"] by simp
    then show ?thesis using assms by simp
  qed
  have "c - a = (c - b) + (b - a)" by simp
  then have "unat (c - a) = unat (c - b) + unat (b - a)"
    using c x by (simp only: unat_word_ariths(1)) simp
  then have "8 \<le> unat (c - a)" using assms by simp
  then show "store64 m a v c = m c" by (rule store64_outside)
qed

lemma store64_slot_outside:
  assumes "i < 512" "\<not> in_page pg b"
  shows "store64 m (pg + 8 * of_nat i) v b = m b"
proof -
  have "\<not> unat (b - (pg + 8 * of_nat i)) < 8" using slot_in_page [OF assms(1), of b pg] assms(2) by blast
  then show ?thesis by (intro store64_outside) simp
qed

lemma pte_at_store:
  assumes "page_aligned pg" "page_aligned pg'" "i < 512" "j < 512"
  shows "pte_at (store64 m (pg + 8 * of_nat i) v) pg' j = (if pg = pg' \<and> i = j then v else pte_at m pg' j)"
proof (cases "pg = pg'")
  case True
  then show ?thesis
    using assms slot_apart [of i j pg] slot_apart [of j i pg]
    by (auto simp: pte_at_def intro: load64_store64_apart)
next
  case False
  then show ?thesis
    using assms pages_disjoint [of pg' pg] store64_slot_outside [OF assms(3), of pg] by (auto intro!: pte_at_cong)
qed

lemma pt_invD:
  assumes "pt_inv s ps root"
  shows "kmem_inv s ps"
    and "path_ok p \<Longrightarrow> tbl (mem s) root p = Some pg \<Longrightarrow> page_ok s pg \<and> pg \<notin> set ps"
    and "path_ok p \<Longrightarrow> path_ok q \<Longrightarrow> tbl (mem s) root p = Some pg \<Longrightarrow> tbl (mem s) root q = Some pg \<Longrightarrow> p = q"
  using assms unfolding pt_inv_def by blast+

lemma path_ok_snocD: "path_ok (p @ [i]) \<Longrightarrow> path_ok p \<and> length p < 2 \<and> i < 512"
  by (auto simp: path_ok_def)

lemma tbl_cong:
  assumes "\<And>q pg j. path_ok (q @ [j]) \<Longrightarrow> prefix (q @ [j]) p \<Longrightarrow> tbl m root q = Some pg \<Longrightarrow> pte_at m' pg j = pte_at m pg j"
    and "path_ok p"
  shows "tbl m' root p = tbl m root p"
  using assms
proof (induction p rule: rev_induct)
  case (snoc i p)
  have "tbl m' root p = tbl m root p"
    using snoc by (metis path_ok_snocD prefix_order.trans prefixI)
  moreover have "step_table m' pg i = step_table m pg i" if "tbl m root p = Some pg" for pg
    using snoc.prems that by (simp add: step_table_def)
  ultimately show ?case by (cases "tbl m root p") (simp_all add: tbl_snoc)
qed simp

lemma kmem_inv_write:
  assumes "kmem_inv s ps" "page_aligned pg" "pg \<notin> set ps" "\<And>b. \<not> in_page pg b \<Longrightarrow> m' b = mem s b"
  shows "kmem_inv (s\<lparr>mem := m'\<rparr>) ps"
proof -
  have "free_chain m' (freelist s) ps \<longleftrightarrow> free_chain (mem s) (freelist s) ps"
    using assms by (intro free_chain_other_page [of pg]) (auto simp: kmem_inv_def page_ok_def)
  then show ?thesis using assms(1) by (auto simp: kmem_inv_def page_ok_def)
qed

lemma leaf_eq: "leaf m root i j k = (case tbl m root ([i] @ [j]) of None \<Rightarrow> 0 | Some pg \<Rightarrow> pte_at m pg k)"
  by (simp add: leaf_def)

text \<open>Writing a last-level entry changes what is mapped there and nothing else.\<close>

lemma store_leaf:
  fixes v :: u64
  assumes inv: "pt_inv s ps root" and p: "tbl (mem s) root [i, j] = Some pg" "i < 512" "j < 512" "k < 512"
  defines "m' \<equiv> store64 (mem s) (pg + 8 * of_nat k) v"
  shows "pt_inv (s\<lparr>mem := m'\<rparr>) ps root"
    and "\<And>q. path_ok q \<Longrightarrow> tbl m' root q = tbl (mem s) root q"
    and "\<And>i' j' k'. i' < 512 \<Longrightarrow> j' < 512 \<Longrightarrow> k' < 512 \<Longrightarrow>
       leaf m' root i' j' k' = (if (i', j', k') = (i, j, k) then v else leaf (mem s) root i' j' k')"
proof -
  have pok: "path_ok [i, j]" using p by (simp add: path_ok_def)
  have pg: "page_ok s pg" "pg \<notin> set ps" using pt_invD(2) [OF inv pok p(1)] by auto
  have al: "page_aligned pg'" if "path_ok q" "tbl (mem s) root q = Some pg'" for q pg'
    using pt_invD(2) [OF inv that] by (simp add: page_ok_def)
  have ent: "pte_at m' pg' l = (if pg = pg' \<and> k = l then v else pte_at (mem s) pg' l)"
    if "path_ok q" "tbl (mem s) root q = Some pg'" "l < 512" for q pg' l
    unfolding m'_def using al [OF pok p(1)] al [OF that(1,2)] p(4) that(3) by (rule pte_at_store)
  show same: "tbl m' root q = tbl (mem s) root q" if "path_ok q" for q
  proof (rule tbl_cong [OF _ that])
    fix r pg' l
    assume r: "path_ok (r @ [l])" "tbl (mem s) root r = Some pg'"
    then have r': "path_ok r" "length r < 2" "l < 512" using path_ok_snocD by blast+
    have "pg \<noteq> pg'" using pt_invD(3) [OF inv pok r'(1), of pg] p(1) r(2) r'(2) by auto
    then show "pte_at m' pg' l = pte_at (mem s) pg' l" using ent [OF r'(1) r(2) r'(3)] by simp
  qed
  have "\<And>b. \<not> in_page pg b \<Longrightarrow> m' b = mem s b"
    unfolding m'_def using store64_slot_outside [OF p(4)] by blast
  then have "kmem_inv (s\<lparr>mem := m'\<rparr>) ps"
    using pg pt_invD(1) [OF inv] by (intro kmem_inv_write) (auto simp: page_ok_def)
  then show "pt_inv (s\<lparr>mem := m'\<rparr>) ps root"
    using inv unfolding pt_inv_def by (simp add: same page_ok_def)
  show "leaf m' root i' j' k' = (if (i', j', k') = (i, j, k) then v else leaf (mem s) root i' j' k')"
    if b: "i' < 512" "j' < 512" "k' < 512" for i' j' k'
  proof -
    have q: "path_ok [i', j']" using b by (simp add: path_ok_def)
    show ?thesis
    proof (cases "tbl (mem s) root [i', j']")
      case None
      then show ?thesis using p(1) same [OF q] by (auto simp: leaf_def)
    next
      case (Some pg')
      then have "pg = pg' \<longleftrightarrow> [i', j'] = [i, j]" using pt_invD(3) [OF inv q pok, of pg'] p(1) by auto
      then show ?thesis using Some same [OF q] ent [OF q Some b(3)] by (auto simp: leaf_def)
    qed
  qed
qed


lemma page_ok_pte: "page_ok s pg \<Longrightarrow> pte_ok pg 0"
  by (simp add: page_ok_def pte_ok_def PHYSTOP_def KERNBASE_def word_less_nat_alt)

lemma pte_at_zero_page:
  assumes "i < 512" "\<And>b. in_page pg b \<Longrightarrow> m b = 0"
  shows "pte_at m pg i = 0"
proof -
  have "pte_at m pg i = pte_at (\<lambda>_. 0) pg i" using assms by (intro pte_at_cong) auto
  then show ?thesis by (simp add: pte_at_def load64_def)
qed

text \<open>Hooking a fresh zeroed page into an empty interior entry adds one table page and maps nothing new.\<close>

lemma new_table:
  assumes inv: "pt_inv s (new # ps) root" and p: "tbl (mem s) root p = Some pg" "path_ok (p @ [i])"
    and none: "tbl (mem s) root (p @ [i]) = None" and al: "kalloc s = (new, s1)"
  defines "m' \<equiv> store64 (memset (mem s1) new 0 PGSIZE) (pg + 8 * of_nat i) (PA2PTE new OR PTE_V)"
  shows "pt_inv (s1\<lparr>mem := m'\<rparr>) ps root"
    and "tbl m' root (p @ [i]) = Some new"
    and "\<And>q. path_ok q \<Longrightarrow> \<not> prefix (p @ [i]) q \<Longrightarrow> tbl m' root q = tbl (mem s) root q"
    and "\<And>i j k. i < 512 \<Longrightarrow> j < 512 \<Longrightarrow> k < 512 \<Longrightarrow> leaf m' root i j k = leaf (mem s) root i j k"
proof -
  have p': "path_ok p" "length p < 2" "i < 512" using path_ok_snocD [OF p(2)] by auto
  have k: "kmem_inv s (new # ps)" using pt_invD(1) [OF inv] .
  obtain s1' where "kalloc s = (new, s1')" and s1': "kmem_inv s1' ps" "kend s1' = kend s"
      "\<And>a. mem s1' a = (if in_page new a then 5 else mem s a)"
    using kalloc_page [OF k] by blast
  then have s1: "kmem_inv s1 ps" "kend s1 = kend s" "\<And>a. mem s1 a = (if in_page new a then 5 else mem s a)"
    using al by auto
  have nw: "page_ok s new" "new \<notin> set ps" using k by (auto simp: kmem_inv_def)
  have pg: "page_ok s pg" "pg \<noteq> new" "pg \<notin> set ps" using pt_invD(2) [OF inv p'(1) p(1)] by auto
  have al: "page_aligned new" "page_aligned pg" using nw pg by (auto simp: page_ok_def)
  let ?m = "memset (mem s1) new 0 PGSIZE"
  have m: "?m a = (if in_page new a then 0 else mem s a)" for a by (simp add: memset_page s1(3))
  have ent: "pte_at m' pg' l = (if pg' = pg \<and> l = i then PA2PTE new OR PTE_V
                               else if pg' = new then 0 else pte_at (mem s) pg' l)"
    if "page_aligned pg'" "l < 512" for pg' l
  proof -
    have "pte_at ?m pg' l = (if pg' = new then 0 else pte_at (mem s) pg' l)"
      using that al pages_disjoint [OF that(1) al(1)] by (auto simp: m intro!: pte_at_cong pte_at_zero_page)
    then show ?thesis unfolding m'_def using pte_at_store [OF al(2) that(1) p'(3) that(2)] by auto
  qed
  show other: "tbl m' root q = tbl (mem s) root q" if q: "path_ok q" "\<not> prefix (p @ [i]) q" for q
  proof (rule tbl_cong [OF _ q(1)])
    fix r pg' l
    assume r: "path_ok (r @ [l])" "prefix (r @ [l]) q" "tbl (mem s) root r = Some pg'"
    then have r': "path_ok r" "l < 512" using path_ok_snocD by blast+
    have "page_ok s pg'" "pg' \<noteq> new" using pt_invD(2) [OF inv r'(1) r(3)] by auto
    moreover have "\<not> (pg' = pg \<and> l = i)" using pt_invD(3) [OF inv p'(1) r'(1) p(1)] r q(2) by auto
    ultimately show "pte_at m' pg' l = pte_at (mem s) pg' l" using ent [of pg' l] r'(2) by (auto simp: page_ok_def)
  qed
  have pt: "PTE2PA (PA2PTE new OR PTE_V) = new" "pte_has (PA2PTE new OR PTE_V) PTE_V"
    using PTE2PA_PA2PTE [OF page_ok_pte [OF nw(1)]] by simp_all
  have "tbl m' root p = Some pg" using other [OF p'(1)] p(1) by (simp add: prefix_def)
  then show new: "tbl m' root (p @ [i]) = Some new"
    using ent [OF al(2) p'(3)] pt by (simp add: tbl_snoc step_table_def)
  have below: "tbl m' root (p @ [i] @ [j]) = None" if "j < 512" for j
    using tbl_snoc [of m' root "p @ [i]" j] new ent [OF al(1) that] pg(2) by (simp add: step_table_def pte_has_def)
  have ext: "tbl (mem s) root (p @ [i] @ [j]) = None" for j
    using tbl_snoc [of "mem s" root "p @ [i]" j] none by simp
  have cases: "q = p @ [i] \<or> (\<exists>j<512. q = p @ [i] @ [j]) \<or> tbl m' root q = tbl (mem s) root q" if q: "path_ok q" for q
  proof (cases "prefix (p @ [i]) q")
    case True
    then obtain r where r: "q = p @ [i] @ r" by (auto simp: prefix_def)
    show ?thesis using q r by (cases r rule: rev_cases) (auto simp: path_ok_def)
  qed (use other q in auto)
  show "pt_inv (s1\<lparr>mem := m'\<rparr>) ps root"
  proof -
    have w: "kmem_inv (s1\<lparr>mem := ?m\<rparr>) ps" using s1 nw al by (intro kmem_inv_write [of _ _ new]) (auto simp: m)
    have km: "kmem_inv (s1\<lparr>mem := m'\<rparr>) ps"
      using kmem_inv_write [OF w al(2) pg(3), of m'] store64_slot_outside [OF p'(3)] by (simp add: m'_def)
    have tb: "pg' = new \<and> q = p @ [i] \<or> tbl (mem s) root q = Some pg'" if "path_ok q" "tbl m' root q = Some pg'" for q pg'
      using cases [OF that(1)] that new below by auto
    show ?thesis
      unfolding pt_inv_def
    proof (intro conjI allI impI km)
      fix q pg'
      assume q: "path_ok q" "tbl (mem (s1\<lparr>mem := m'\<rparr>)) root q = Some pg'"
      then show "page_ok (s1\<lparr>mem := m'\<rparr>) pg'" "pg' \<notin> set ps"
        using tb [of q pg'] pt_invD(2) [OF inv q(1), of pg'] nw s1(2) by (auto simp: page_ok_def)
    next
      fix q r pg'
      assume q: "path_ok q" "path_ok r" "tbl (mem (s1\<lparr>mem := m'\<rparr>)) root q = Some pg'"
        "tbl (mem (s1\<lparr>mem := m'\<rparr>)) root r = Some pg'"
      then show "q = r"
        using tb [of q pg'] tb [of r pg'] pt_invD(2) [OF inv q(1), of pg'] pt_invD(2) [OF inv q(2), of pg']
          pt_invD(3) [OF inv q(1,2), of pg'] by auto
    qed
  qed
  show "leaf m' root a b c = leaf (mem s) root a b c" if abc: "a < 512" "b < 512" "c < 512" for a b c
  proof -
    have q: "path_ok [a, b]" using abc by (simp add: path_ok_def)
    show ?thesis
    proof (cases "[a, b] = p @ [i]")
      case True
      show ?thesis unfolding leaf_def True using new none ent [OF al(1) abc(3)] pg(2) by simp
    next
      case False
      show ?thesis
      proof (cases "tbl m' root [a, b] = tbl (mem s) root [a, b]")
        case True
        have "pte_at m' pg' c = pte_at (mem s) pg' c" if "tbl (mem s) root [a, b] = Some pg'" for pg'
        proof -
          have "page_ok s pg'" "pg' \<noteq> new" using pt_invD(2) [OF inv q that] by auto
          moreover have "pg' \<noteq> pg" using pt_invD(3) [OF inv p'(1) q p(1)] that p'(2) by auto
          ultimately show ?thesis using ent [OF _ abc(3), of pg'] by (auto simp: page_ok_def)
        qed
        then show ?thesis using True by (auto simp: leaf_def split: option.splits)
      next
        case no: False
        then obtain j where "[a, b] = p @ [i] @ [j]" "j < 512" using cases [OF q] False by auto
        then show ?thesis using below ext by (simp add: leaf_def)
      qed
    qed
  qed
qed


section \<open>Walking\<close>

definition idx :: "nat \<Rightarrow> u64 \<Rightarrow> nat" where
  "idx l va = unat va div 2 ^ (12 + 9 * l) mod 512"

lemma idx_less [simp]: "idx l va < 512"
  by (simp add: idx_def)

lemma PX_idx: "PX l va = of_nat (idx l va)"
proof -
  have "(0x1FF :: u64) = mask 9" by (simp add: mask_eq_exp_minus_1)
  then have "PX l va = take_bit 9 (drop_bit (12 + 9 * l) va)" by (simp add: PX_def take_bit_eq_mask)
  also have "\<dots> = of_nat (unat (take_bit 9 (drop_bit (12 + 9 * l) va)))" by simp
  also have "unat (take_bit 9 (drop_bit (12 + 9 * l) va)) = idx l va"
    by (simp add: unsigned_take_bit_eq unat_drop_bit_eq) (simp add: idx_def take_bit_eq_mod drop_bit_eq_div)
  finally show ?thesis .
qed

definition va_path :: "u64 \<Rightarrow> nat list" where
  "va_path va = [idx 2 va, idx 1 va]"

lemma va_path_ok: "path_ok (va_path va)" "path_ok [idx 2 va]" "path_ok []"
  by (simp_all add: va_path_def path_ok_def)

lemma walk_lookup:
  "walk_loop 2 s root va False =
     (case tbl (mem s) root (va_path va) of None \<Rightarrow> (0, s) | Some pg \<Rightarrow> (pg + 8 * of_nat (idx 0 va), s))"
proof -
  have "walk_loop 2 s root va False = walk_loop (Suc (Suc 0)) s root va False" by (simp add: numeral_2_eq_2)
  moreover have "tbl (mem s) root (va_path va) =
      Option.bind (step_table (mem s) root (idx 2 va)) (\<lambda>pg. step_table (mem s) pg (idx 1 va))"
    using tbl_snoc [of "mem s" root "[idx 2 va]" "idx 1 va"] tbl_snoc [of "mem s" root "[]" "idx 2 va"]
    by (simp add: va_path_def)
  ultimately show ?thesis
    by (simp add: PX_idx step_table_def pte_at_def Let_def numeral_2_eq_2)
qed

text \<open>The address space that a table describes: the entry of each virtual page, zero when there is none.\<close>

definition pmap :: "memory \<Rightarrow> u64 \<Rightarrow> nat \<Rightarrow> u64" where
  "pmap m root n = leaf m root (n div 512 ^ 2 mod 512) (n div 512 mod 512) (n mod 512)"

abbreviation vpn :: "u64 \<Rightarrow> nat" where
  "vpn va \<equiv> unat va div PGSIZE"

lemma idx_vpn: "idx 2 va = vpn va div 512 ^ 2 mod 512" "idx 1 va = vpn va div 512 mod 512" "idx 0 va = vpn va mod 512"
  by (simp_all add: idx_def PGSIZE_def div_mult2_eq [symmetric])

lemma pmap_vpn: "pmap m root (vpn va) = leaf m root (idx 2 va) (idx 1 va) (idx 0 va)"
  unfolding pmap_def idx_vpn ..

lemma index_eq_iff:
  fixes n n' :: nat
  assumes "n < 2 ^ 26" "n' < 2 ^ 26"
  shows "(n div 512 ^ 2 mod 512, n div 512 mod 512, n mod 512) = (n' div 512 ^ 2 mod 512, n' div 512 mod 512, n' mod 512)
    \<longleftrightarrow> n = n'"
proof
  have e: "n = n div 512 ^ 2 mod 512 * 512 ^ 2 + n div 512 mod 512 * 512 + n mod 512" if "n < 2 ^ 26" for n :: nat
  proof -
    have "n div 512 ^ 2 < 512" using that by (simp add: div_less_iff_less_mult)
    then have a: "n div 512 ^ 2 mod 512 = n div 512 div 512" by (simp add: div_mult2_eq [symmetric])
    have b: "n div 512 = n div 512 div 512 * 512 + n div 512 mod 512" "n = n div 512 * 512 + n mod 512"
      by (rule div_mult_mod_eq [symmetric])+
    have "x * 512 + w = y * 512 ^ 2 + z * 512 + w" if "x = y * 512 + z" for x y z w :: nat
      using that by (simp add: algebra_simps)
    from this [OF b(1)] b(2) show ?thesis unfolding a by simp
  qed
  show "n = n'" if "(n div 512 ^ 2 mod 512, n div 512 mod 512, n mod 512) = (n' div 512 ^ 2 mod 512, n' div 512 mod 512, n' mod 512)"
    using that e [OF assms(1)] e [OF assms(2)] by (metis prod.inject)
qed simp

lemma pmap_cong:
  "(\<And>i j k. i < 512 \<Longrightarrow> j < 512 \<Longrightarrow> k < 512 \<Longrightarrow> leaf m' root i j k = leaf m root i j k) \<Longrightarrow> pmap m' root n = pmap m root n"
  by (simp add: pmap_def)

lemma vpn_less: "unat va < 2 ^ 38 \<Longrightarrow> vpn va < 2 ^ 26"
  by (simp add: PGSIZE_def div_less_iff_less_mult)

lemma descend:
  assumes inv: "pt_inv s ps root" and p: "tbl (mem s) root p = Some pg" "path_ok (p @ [idx (Suc l) va])"
    and free: "ps \<noteq> []"
  obtains s' pg' ps' where "walk_loop (Suc l) s pg va True = walk_loop l s' pg' va True"
    "pt_inv s' ps' root" "tbl (mem s') root (p @ [idx (Suc l) va]) = Some pg'" "ps' = ps \<or> ps' = tl ps"
    "\<And>i j k. i < 512 \<Longrightarrow> j < 512 \<Longrightarrow> k < 512 \<Longrightarrow> leaf (mem s') root i j k = leaf (mem s) root i j k"
proof (cases "tbl (mem s) root (p @ [idx (Suc l) va])")
  case (Some pg')
  then have "step_table (mem s) pg (idx (Suc l) va) = Some pg'" using p(1) by (simp add: tbl_snoc)
  then have "walk_loop (Suc l) s pg va True = walk_loop l s pg' va True"
    by (auto simp: step_table_def pte_at_def PX_idx Let_def split: if_splits)
  then show ?thesis using that inv Some by blast
next
  case None
  then have no: "\<not> pte_has (load64 (mem s) (pg + 8 * of_nat (idx (Suc l) va))) PTE_V"
    using p(1) by (auto simp: tbl_snoc step_table_def pte_at_def split: if_splits)
  obtain new qs where ps: "ps = new # qs" using free by (cases ps) auto
  have inv': "pt_inv s (new # qs) root" using inv ps by simp
  obtain s1 where al: "kalloc s = (new, s1)"
    using kalloc_page [OF pt_invD(1) [OF inv']] by blast
  have nz: "new \<noteq> 0" using kpages.invar_distinct [OF pt_invD(1) [OF inv']] by auto
  have "walk_loop (Suc l) s pg va True =
     walk_loop l (s1\<lparr>mem := store64 (memset (mem s1) new 0 PGSIZE) (pg + 8 * of_nat (idx (Suc l) va)) (PA2PTE new OR PTE_V)\<rparr>)
       new va True"
    using no al nz by (simp add: PX_idx Let_def)
  then show ?thesis using that new_table [OF inv' p None al] ps by simp
qed

lemma walk_alloc:
  assumes inv: "pt_inv s ps root" and free: "2 \<le> length ps"
  obtains s' pg ps' where "walk_loop 2 s root va True = (pg + 8 * of_nat (idx 0 va), s')"
    "pt_inv s' ps' root" "tbl (mem s') root (va_path va) = Some pg" "\<exists>n\<le>2. ps' = drop n ps"
    "\<And>i j k. i < 512 \<Longrightarrow> j < 512 \<Longrightarrow> k < 512 \<Longrightarrow> leaf (mem s') root i j k = leaf (mem s) root i j k"
proof -
  obtain s1 pg1 ps1 where 1: "walk_loop (Suc 1) s root va True = walk_loop 1 s1 pg1 va True"
    "pt_inv s1 ps1 root" "tbl (mem s1) root ([] @ [idx (Suc 1) va]) = Some pg1" "ps1 = ps \<or> ps1 = tl ps"
    "\<And>i j k. i < 512 \<Longrightarrow> j < 512 \<Longrightarrow> k < 512 \<Longrightarrow> leaf (mem s1) root i j k = leaf (mem s) root i j k"
    using descend [OF inv, of "[]" root 1 va] va_path_ok(2) free by (metis append_Nil length_0_conv not_numeral_le_zero Suc_1 tbl_Nil)
  have "ps1 \<noteq> []" using 1(4) free by (cases ps) auto
  then obtain s2 pg2 ps2 where 2: "walk_loop (Suc 0) s1 pg1 va True = walk_loop 0 s2 pg2 va True"
    "pt_inv s2 ps2 root" "tbl (mem s2) root ([idx (Suc 1) va] @ [idx (Suc 0) va]) = Some pg2" "ps2 = ps1 \<or> ps2 = tl ps1"
    "\<And>i j k. i < 512 \<Longrightarrow> j < 512 \<Longrightarrow> k < 512 \<Longrightarrow> leaf (mem s2) root i j k = leaf (mem s1) root i j k"
    using descend [OF 1(2), of "[idx (Suc 1) va]" pg1 0 va] 1(3) va_path_ok(1)
    by (metis (no_types) One_nat_def Suc_1 append_Cons append_Nil va_path_def)
  show ?thesis
  proof (rule that [of pg2 s2 ps2])
    show "walk_loop 2 s root va True = (pg2 + 8 * of_nat (idx 0 va), s2)"
      using 1(1) 2(1) by (simp add: numeral_2_eq_2 PX_idx)
    show "tbl (mem s2) root (va_path va) = Some pg2" using 2(3) by (simp add: va_path_def numeral_2_eq_2)
    show "\<exists>n\<le>2. ps2 = drop n ps"
      using 1(4) 2(4) by (metis One_nat_def drop0 drop_Suc nat_le_linear numeral_2_eq_2 le_SucI le_refl le0)
  qed (use 1 2 in auto)
qed


lemma load_leaf:
  assumes "tbl m root (va_path va) = Some pg"
  shows "load64 m (pg + 8 * of_nat (idx 0 va)) = pmap m root (vpn va)"
  using assms by (simp add: pmap_vpn leaf_def va_path_def pte_at_def)

lemma store_pmap:
  fixes v :: u64
  assumes inv: "pt_inv s ps root" and p: "tbl (mem s) root (va_path va) = Some pg" "unat va < 2 ^ 38"
  defines "m' \<equiv> store64 (mem s) (pg + 8 * of_nat (idx 0 va)) v"
  shows "pt_inv (s\<lparr>mem := m'\<rparr>) ps root"
    and "n < 2 ^ 26 \<Longrightarrow> pmap m' root n = (if n = vpn va then v else pmap (mem s) root n)"
proof -
  note st = store_leaf [OF inv p(1) [unfolded va_path_def] idx_less idx_less idx_less [of 0 va], where v = v, folded m'_def]
  show "pt_inv (s\<lparr>mem := m'\<rparr>) ps root" by (rule st(1))
  show "pmap m' root n = (if n = vpn va then v else pmap (mem s) root n)" if "n < 2 ^ 26"
    using st(3) [of "n div 512 ^ 2 mod 512" "n div 512 mod 512" "n mod 512"] index_eq_iff [OF that vpn_less [OF p(2)]]
    unfolding pmap_def idx_vpn by simp
qed

lemma table_slot_nonzero:
  assumes "pt_inv s ps root" "tbl (mem s) root p = Some pg" "path_ok p" "k < 512"
  shows "pg + 8 * of_nat k \<noteq> 0"
proof
  assume z: "pg + 8 * of_nat k = 0"
  have pg: "page_ok s pg" "0 < kend s" using pt_invD [OF assms(1)] assms(2,3) by (auto simp: kmem_inv_def)
  have "unat (8 * of_nat k :: u64) = 8 * k" using assms(4) by (simp add: unat_word_ariths)
  moreover have "unat pg < PHYSTOP_n" if "PHYSTOP_n = unat PHYSTOP" for PHYSTOP_n
    using pg that by (simp add: page_ok_def word_less_nat_alt)
  ultimately have "unat (pg + 8 * of_nat k) = unat pg + 8 * k"
    using assms(4) by (simp add: unat_word_ariths PHYSTOP_def KERNBASE_def)
  then have "unat pg = 0" using z by simp
  then show False using pg by (simp add: page_ok_def word_le_nat_alt word_less_nat_alt)
qed


section \<open>Mapping\<close>

lemma map_one:
  assumes inv: "pt_inv s ps root" and free: "2 \<le> length ps" and va: "unat a < 2 ^ 38"
    and unm: "\<not> pte_has (pmap (mem s) root (vpn a)) PTE_V"
  obtains s' ps' where
    "\<And>lst. mappages_loop s root a lst pa perm =
       (if a = lst then Ok (0, s') else mappages_loop s' root (a + of_nat PGSIZE) lst (pa + of_nat PGSIZE) perm)"
    "pt_inv s' ps' root" "\<exists>k\<le>2. ps' = drop k ps"
    "\<And>n. n < 2 ^ 26 \<Longrightarrow> pmap (mem s') root n = (if n = vpn a then PA2PTE pa OR perm OR PTE_V else pmap (mem s) root n)"
proof -
  obtain s1 pg ps1 where w: "walk_loop 2 s root a True = (pg + 8 * of_nat (idx 0 a), s1)"
    and inv1: "pt_inv s1 ps1 root" and tb: "tbl (mem s1) root (va_path a) = Some pg" and ps1: "\<exists>k\<le>2. ps1 = drop k ps"
    and lf: "\<And>i j k. i < 512 \<Longrightarrow> j < 512 \<Longrightarrow> k < 512 \<Longrightarrow> leaf (mem s1) root i j k = leaf (mem s) root i j k"
    by (rule walk_alloc [OF inv free, of a]) blast
  have same: "pmap (mem s1) root n = pmap (mem s) root n" for n using lf by (rule pmap_cong)
  have nz: "pg + 8 * of_nat (idx 0 a) \<noteq> 0" using table_slot_nonzero [OF inv1 tb va_path_ok(1)] by simp
  have "walk s root a True = Ok (pg + 8 * of_nat (idx 0 a), s1)"
    using va w by (simp add: walk_def MAXVA_def word_le_nat_alt)
  then have "mappages_loop s root a lst pa perm =
      (let s2 = s1\<lparr>mem := store64 (mem s1) (pg + 8 * of_nat (idx 0 a)) (PA2PTE pa OR perm OR PTE_V)\<rparr> in
       if a = lst then Ok (0, s2) else mappages_loop s2 root (a + of_nat PGSIZE) lst (pa + of_nat PGSIZE) perm)" for lst
    using nz unm load_leaf [OF tb] by (subst mappages_loop.simps) (simp add: same)
  then show ?thesis
    using that [OF _ store_pmap(1) [OF inv1 tb va] ps1] store_pmap(2) [OF inv1 tb va] by (simp add: Let_def same)
qed

lemma vpn_add: "unat a < 2 ^ 38 \<Longrightarrow> vpn (a + of_nat PGSIZE) = vpn a + 1"
  using unat_add_PGSIZE [of a] by (simp add: PGSIZE_def)

lemma mappages_loop_ok:
  assumes "pt_inv s ps root" and "0 < n" and "2 * n \<le> length ps" and "page_aligned a"
    and "unat a + n * PGSIZE \<le> 2 ^ 38"
    and "\<And>i. i < n \<Longrightarrow> \<not> pte_has (pmap (mem s) root (vpn a + i)) PTE_V"
  shows "\<exists>s' ps' k. mappages_loop s root a (a + of_nat ((n - 1) * PGSIZE)) pa perm = Ok (0, s') \<and>
     pt_inv s' ps' root \<and> k \<le> 2 * n \<and> ps' = drop k ps \<and>
     (\<forall>v<2 ^ 26. pmap (mem s') root v =
        (if vpn a \<le> v \<and> v < vpn a + n then PA2PTE (pa + of_nat ((v - vpn a) * PGSIZE)) OR perm OR PTE_V
         else pmap (mem s) root v))"
  using assms
proof (induction n arbitrary: s ps a pa)
  case (Suc n)
  have va: "unat a < 2 ^ 38" using Suc.prems(5) by (simp add: PGSIZE_def)
  obtain s1 ps1 where st: "\<And>lst. mappages_loop s root a lst pa perm =
       (if a = lst then Ok (0, s1) else mappages_loop s1 root (a + of_nat PGSIZE) lst (pa + of_nat PGSIZE) perm)"
    and inv1: "pt_inv s1 ps1 root" and ps1: "\<exists>k\<le>2. ps1 = drop k ps"
    and pm: "\<And>v. v < 2 ^ 26 \<Longrightarrow> pmap (mem s1) root v = (if v = vpn a then PA2PTE pa OR perm OR PTE_V else pmap (mem s) root v)"
    by (rule map_one [OF Suc.prems(1) _ va, where pa = pa and perm = perm])
      (use Suc.prems(3) Suc.prems(6) [of 0] in \<open>simp, simp, blast\<close>)
  show ?case
  proof (cases n)
    case 0
    then show ?thesis using st [of a] inv1 ps1 pm by fastforce
  next
    case (Suc n')
    let ?a = "a + of_nat PGSIZE" and ?lst = "a + of_nat (n * PGSIZE)"
    have va': "vpn ?a = vpn a + 1" "unat ?a = unat a + PGSIZE" using vpn_add [OF va] unat_add_PGSIZE [OF va] by auto
    have lst: "?a + of_nat ((n - 1) * PGSIZE) = ?lst" using Suc by simp
    have "a \<noteq> ?lst"
    proof -
      have "unat (of_nat (n * PGSIZE) :: u64) = n * PGSIZE"
        using Suc.prems(5) by (intro unat_of_nat_small) simp
      then show ?thesis using Suc by (auto simp: PGSIZE_def)
    qed
    obtain k1 where k1: "k1 \<le> 2" "ps1 = drop k1 ps" using ps1 by blast
    have "\<exists>s' ps' k. mappages_loop s1 root ?a (?a + of_nat ((n - 1) * PGSIZE)) (pa + of_nat PGSIZE) perm = Ok (0, s') \<and>
     pt_inv s' ps' root \<and> k \<le> 2 * n \<and> ps' = drop k ps1 \<and>
     (\<forall>v<2 ^ 26. pmap (mem s') root v =
        (if vpn ?a \<le> v \<and> v < vpn ?a + n then PA2PTE (pa + of_nat PGSIZE + of_nat ((v - vpn ?a) * PGSIZE)) OR perm OR PTE_V
         else pmap (mem s1) root v))"
    proof (rule Suc.IH [OF inv1])
      show "0 < n" using Suc by simp
      show "2 * n \<le> length ps1" using Suc.prems(3) k1 by simp
      show "page_aligned ?a" using Suc.prems(4) va'(2) by (simp add: page_aligned_def)
      show "unat ?a + n * PGSIZE \<le> 2 ^ 38" using Suc.prems(5) va'(2) by simp
      show "\<not> pte_has (pmap (mem s1) root (vpn ?a + i)) PTE_V" if "i < n" for i
      proof -
        have "unat a = vpn a * PGSIZE" using Suc.prems(4) by (simp add: page_aligned_def mod_0_imp_dvd)
        then have "vpn a + Suc n \<le> 2 ^ 26" using Suc.prems(5) by (simp add: PGSIZE_def)
        then show ?thesis using pm [of "vpn ?a + i"] Suc.prems(6) [of "Suc i"] that by (simp add: va'(1))
      qed
    qed
    then obtain s' k where s': "mappages_loop s1 root ?a ?lst (pa + of_nat PGSIZE) perm = Ok (0, s')"
      "pt_inv s' (drop k ps1) root" "k \<le> 2 * n"
      "\<forall>v<2 ^ 26. pmap (mem s') root v =
        (if vpn ?a \<le> v \<and> v < vpn ?a + n then PA2PTE (pa + of_nat PGSIZE + of_nat ((v - vpn ?a) * PGSIZE)) OR perm OR PTE_V
         else pmap (mem s1) root v)" unfolding lst by blast
    have "pmap (mem s') root v = (if vpn a \<le> v \<and> v < vpn a + Suc n
        then PA2PTE (pa + of_nat ((v - vpn a) * PGSIZE)) OR perm OR PTE_V else pmap (mem s) root v)" if v: "v < 2 ^ 26" for v
    proof (cases "v = vpn a")
      case True
      then show ?thesis using s'(4) pm v by (simp add: va'(1))
    next
      case False
      show ?thesis
      proof (cases "vpn a < v")
        case True
        then have "(v - vpn a) * PGSIZE = PGSIZE + (v - vpn ?a) * PGSIZE" unfolding va'(1)
          by (metis Suc_diff_Suc Suc_eq_plus1 mult_Suc)
        then have "pa + of_nat ((v - vpn a) * PGSIZE) = pa + of_nat PGSIZE + of_nat ((v - vpn ?a) * PGSIZE)" by simp
        then show ?thesis using s'(4) pm v False True by (simp add: va'(1) Suc_le_eq add.assoc)
      next
        case nl: False
        then show ?thesis using s'(4) pm v False by (simp add: va'(1))
      qed
    qed
    moreover have "mappages_loop s root a ?lst pa perm = Ok (0, s')" using st [of ?lst] \<open>a \<noteq> ?lst\<close> s'(1) by simp
    ultimately show ?thesis using s'(2,3) k1 by (intro exI [of _ s'] exI [of _ "drop (k + k1) ps"] exI [of _ "k + k1"]) simp
  qed
qed simp


lemma mappages_ok:
  assumes "pt_inv s ps root" and "0 < n" and "2 * n \<le> length ps" and "page_aligned a"
    and "unat a + n * PGSIZE \<le> 2 ^ 38"
    and "\<And>i. i < n \<Longrightarrow> \<not> pte_has (pmap (mem s) root (vpn a + i)) PTE_V"
  shows "\<exists>s' ps' k. mappages s root a (of_nat (n * PGSIZE)) pa perm = Ok (0, s') \<and>
     pt_inv s' ps' root \<and> k \<le> 2 * n \<and> ps' = drop k ps \<and>
     (\<forall>v<2 ^ 26. pmap (mem s') root v =
        (if vpn a \<le> v \<and> v < vpn a + n then PA2PTE (pa + of_nat ((v - vpn a) * PGSIZE)) OR perm OR PTE_V
         else pmap (mem s) root v))"
proof -
  have u: "unat (of_nat (n * PGSIZE) :: u64) = n * PGSIZE"
    using assms(5) by (intro unat_of_nat_small) simp
  have "of_nat (n * PGSIZE) - of_nat PGSIZE = (of_nat ((n - 1) * PGSIZE) :: u64)"
    using assms(2) by (cases n) simp_all
  then have l: "a + of_nat (n * PGSIZE) - of_nat PGSIZE = a + of_nat ((n - 1) * PGSIZE)"
    by (simp only: add_diff_eq [symmetric])
  have nz: "of_nat (n * PGSIZE) \<noteq> (0 :: u64)"
  proof
    assume "of_nat (n * PGSIZE) = (0 :: u64)"
    with u have "n * PGSIZE = 0" by (simp only: unat_0)
    with assms(2) show False by (simp add: PGSIZE_def)
  qed
  have "mappages s root a (of_nat (n * PGSIZE)) pa perm =
      mappages_loop s root a (a + of_nat ((n - 1) * PGSIZE)) pa perm"
    unfolding mappages_def u l using assms(4) nz by (simp add: page_aligned_def)
  then show ?thesis using mappages_loop_ok [OF assms, where pa = pa and perm = perm] by simp
qed

lemma walkaddr_pmap:
  assumes "pt_inv s ps root" "unat va < 2 ^ 38"
  shows "walkaddr s root va =
    (let v = pmap (mem s) root (vpn va) in if pte_has v PTE_V \<and> pte_has v PTE_U then PTE2PA v else 0)"
proof (cases "tbl (mem s) root (va_path va)")
  case None
  then have "pmap (mem s) root (vpn va) = 0" by (simp add: pmap_vpn leaf_def va_path_def)
  then show ?thesis using None assms(2) by (simp add: walkaddr_def walk_lookup MAXVA_def word_le_nat_alt pte_has_def)
next
  case (Some pg)
  have "pg + 8 * of_nat (idx 0 va) \<noteq> 0" using table_slot_nonzero [OF assms(1) Some va_path_ok(1)] by simp
  then show ?thesis using Some assms(2) load_leaf [OF Some]
    by (simp add: walkaddr_def walk_lookup MAXVA_def word_le_nat_alt Let_def)
qed

lemma uvmunmap_loop_ok:
  assumes "pt_inv s ps root" and "page_aligned a" and "unat a + n * PGSIZE \<le> 2 ^ 38"
  shows "\<exists>s'. uvmunmap_loop s root a (a + of_nat (n * PGSIZE)) False = Ok s' \<and> pt_inv s' ps root \<and>
     (\<forall>v<2 ^ 26. pmap (mem s') root v =
        (if vpn a \<le> v \<and> v < vpn a + n \<and> pte_has (pmap (mem s) root v) PTE_V then 0 else pmap (mem s) root v))"
  using assms
proof (induction n arbitrary: s a)
  case 0
  then show ?case by (auto simp: uvmunmap_loop.simps)
next
  case (Suc n)
  let ?a = "a + of_nat PGSIZE" and ?e = "a + of_nat (Suc n * PGSIZE)"
  have va: "unat a < 2 ^ 38" using Suc.prems(3) by (simp add: PGSIZE_def)
  have va': "vpn ?a = vpn a + 1" "unat ?a = unat a + PGSIZE" using vpn_add [OF va] unat_add_PGSIZE [OF va] by auto
  have e: "?e = ?a + of_nat (n * PGSIZE)" by simp
  have "unat ?e = unat a + Suc n * PGSIZE"
    using Suc.prems(3) by (simp add: unat_word_ariths del: of_nat_mult of_nat_Suc mult_Suc)
  then have lt: "a < ?e" by (simp add: word_less_nat_alt PGSIZE_def)
  have w: "walk s root a False = Ok (walk_loop 2 s root a False)"
    using va by (simp add: walk_def MAXVA_def word_le_nat_alt)
  define s1 where "s1 = (case tbl (mem s) root (va_path a) of None \<Rightarrow> s | Some pg \<Rightarrow>
     if pte_has (pmap (mem s) root (vpn a)) PTE_V then s\<lparr>mem := store64 (mem s) (pg + 8 * of_nat (idx 0 a)) 0\<rparr> else s)"
  have s1: "uvmunmap_loop s root a ?e False = uvmunmap_loop s1 root ?a ?e False \<and> pt_inv s1 ps root \<and>
     (\<forall>v<2 ^ 26. pmap (mem s1) root v = (if v = vpn a \<and> pte_has (pmap (mem s) root v) PTE_V then 0 else pmap (mem s) root v))"
  proof (cases "tbl (mem s) root (va_path a)")
    case None
    then have "pmap (mem s) root (vpn a) = 0" by (simp add: pmap_vpn leaf_def va_path_def)
    with None show ?thesis using lt w Suc.prems(1) 
      by (subst uvmunmap_loop.simps) (simp add: s1_def walk_lookup pte_has_def Let_def)
  next
    case (Some pg)
    have nz: "pg + 8 * of_nat (idx 0 a) \<noteq> 0" using table_slot_nonzero [OF Suc.prems(1) Some va_path_ok(1)] by simp
    show ?thesis
      using lt w Some nz load_leaf [OF Some] Suc.prems(1) store_pmap [OF Suc.prems(1) Some va, where v = 0]
      by (subst uvmunmap_loop.simps) (simp add: s1_def walk_lookup Let_def)
  qed
  then have inv1: "pt_inv s1 ps root" by simp
  have "\<exists>s'. uvmunmap_loop s1 root ?a (?a + of_nat (n * PGSIZE)) False = Ok s' \<and> pt_inv s' ps root \<and>
     (\<forall>v<2 ^ 26. pmap (mem s') root v =
        (if vpn ?a \<le> v \<and> v < vpn ?a + n \<and> pte_has (pmap (mem s1) root v) PTE_V then 0 else pmap (mem s1) root v))"
    using Suc.prems va' by (intro Suc.IH [OF inv1]) (simp_all add: page_aligned_def)
  then obtain s' where s': "uvmunmap_loop s1 root ?a ?e False = Ok s'" "pt_inv s' ps root"
     "\<forall>v<2 ^ 26. pmap (mem s') root v =
        (if vpn ?a \<le> v \<and> v < vpn ?a + n \<and> pte_has (pmap (mem s1) root v) PTE_V then 0 else pmap (mem s1) root v)"
    unfolding e by blast
  show ?case
  proof (intro exI [of _ s'] conjI allI impI)
    show "uvmunmap_loop s root a ?e False = Ok s'" using s1 s'(1) by simp
    show "pt_inv s' ps root" by (rule s'(2))
    fix v :: nat
    assume v: "v < 2 ^ 26"
    have "\<not> pte_has 0 PTE_V" by (simp add: pte_has_def)
    with s1 s'(3) v show "pmap (mem s') root v =
        (if vpn a \<le> v \<and> v < vpn a + Suc n \<and> pte_has (pmap (mem s) root v) PTE_V then 0 else pmap (mem s) root v)"
      by (auto simp: va'(1))
  qed
qed


text \<open>A zeroed page is an empty page table.\<close>

lemma pt_inv_fresh:
  assumes "kmem_inv s ps" "page_ok s root" "root \<notin> set ps" "\<And>b. in_page root b \<Longrightarrow> mem s b = 0"
  shows "pt_inv s ps root" and "pmap (mem s) root n = 0"
proof -
  have one: "tbl (mem s) root [i] = None" if "i < 512" for i
    using tbl_snoc [of "mem s" root "[]" i] pte_at_zero_page [OF that, of root "mem s"] assms(4)
    by (simp add: step_table_def pte_has_def)
  have none: "tbl (mem s) root p = None" if pp: "path_ok p" "p \<noteq> []" for p
  proof -
    obtain q j where p: "p = q @ [j]" using pp(2) by (cases p rule: rev_cases) auto
    show ?thesis
    proof (cases q)
      case Nil
      then show ?thesis using one p pp(1) by (simp add: path_ok_def)
    next
      case (Cons i r)
      then have "r = []" "i < 512" using p pp(1) by (auto simp: path_ok_def)
      then show ?thesis using one [of i] p Cons tbl_snoc [of "mem s" root "[i]" j] by simp
    qed
  qed
  then show "pt_inv s ps root"
    unfolding pt_inv_def using assms(1-3) by (metis option.distinct(1) option.inject tbl_Nil)
  show "pmap (mem s) root n = 0"
    using none [of "[n div 512 ^ 2 mod 512, n div 512 mod 512]"] by (simp add: pmap_def leaf_def path_ok_def)
qed

section \<open>Address spaces as an interface\<close>

text \<open>
  What a user of page tables relies on: \<open>view\<close> gives the pte_at of each virtual page, mapping a range
  of unmapped pages sets exactly their entries, and unmapping a range clears exactly its valid
  entries. \<open>ok s f\<close> is the invariant, with \<open>f\<close> pages free for new table pages.
\<close>

locale address_space =
  fixes ok :: "'s \<Rightarrow> nat \<Rightarrow> bool"
    and view :: "'s \<Rightarrow> nat \<Rightarrow> u64"
    and map_at :: "'s \<Rightarrow> nat \<Rightarrow> nat \<Rightarrow> u64 \<Rightarrow> u64 \<Rightarrow> 's option"
    and unmap_at :: "'s \<Rightarrow> nat \<Rightarrow> nat \<Rightarrow> 's option"
    and valid :: "u64 \<Rightarrow> bool"
    and pte :: "u64 \<Rightarrow> u64 \<Rightarrow> nat \<Rightarrow> u64"
    and limit :: nat
  assumes map_at: "ok s f \<Longrightarrow> 0 < k \<Longrightarrow> n + k \<le> limit \<Longrightarrow> 2 * k \<le> f \<Longrightarrow>
        (\<And>i. i < k \<Longrightarrow> \<not> valid (view s (n + i))) \<Longrightarrow>
        \<exists>s'. map_at s n k pa perm = Some s' \<and> ok s' (f - 2 * k) \<and>
          (\<forall>v<limit. view s' v = (if n \<le> v \<and> v < n + k then pte pa perm (v - n) else view s v))"
    and unmap_at: "ok s f \<Longrightarrow> n + k \<le> limit \<Longrightarrow>
        \<exists>s'. unmap_at s n k = Some s' \<and> ok s' f \<and>
          (\<forall>v<limit. view s' v = (if n \<le> v \<and> v < n + k \<and> valid (view s v) then 0 else view s v))"
    and pte_valid: "valid (pte pa perm i)"
begin

text \<open>Mapping a range and unmapping it again leaves every other page as it was and the range empty.\<close>

lemma map_unmap:
  assumes "ok s f" "0 < k" "n + k \<le> limit" "2 * k \<le> f" "\<And>i. i < k \<Longrightarrow> \<not> valid (view s (n + i))"
  shows "\<exists>s1 s2. map_at s n k pa perm = Some s1 \<and> unmap_at s1 n k = Some s2 \<and> ok s2 (f - 2 * k) \<and>
    (\<forall>v<limit. view s2 v = (if n \<le> v \<and> v < n + k then 0 else view s v))"
proof -
  obtain s1 where s1: "map_at s n k pa perm = Some s1" "ok s1 (f - 2 * k)"
    "\<forall>v<limit. view s1 v = (if n \<le> v \<and> v < n + k then pte pa perm (v - n) else view s v)"
    using map_at [OF assms, of pa perm] by blast
  obtain s2 where s2: "unmap_at s1 n k = Some s2" "ok s2 (f - 2 * k)"
    "\<forall>v<limit. view s2 v = (if n \<le> v \<and> v < n + k \<and> valid (view s1 v) then 0 else view s1 v)"
    using unmap_at [OF s1(2) assms(3)] by blast
  have "\<forall>v<limit. view s2 v = (if n \<le> v \<and> v < n + k then 0 else view s v)"
    using s1(3) s2(3) pte_valid by auto
  then show ?thesis using s1(1) s2(1,2) by blast
qed

text \<open>Two mappings of disjoint ranges are both in force afterwards.\<close>

lemma map_two:
  assumes "ok s f" "0 < k" "n + k \<le> limit" "0 < k'" "n' + k' \<le> limit" "2 * k + 2 * k' \<le> f"
    and "n + k \<le> n' \<or> n' + k' \<le> n"
    and "\<And>i. i < k \<Longrightarrow> \<not> valid (view s (n + i))" "\<And>i. i < k' \<Longrightarrow> \<not> valid (view s (n' + i))"
  shows "\<exists>s1 s2. map_at s n k pa perm = Some s1 \<and> map_at s1 n' k' pa' perm' = Some s2 \<and>
    (\<forall>v<limit. view s2 v = (if n' \<le> v \<and> v < n' + k' then pte pa' perm' (v - n')
        else if n \<le> v \<and> v < n + k then pte pa perm (v - n) else view s v))"
proof -
  obtain s1 where s1: "map_at s n k pa perm = Some s1" "ok s1 (f - 2 * k)"
    "\<forall>v<limit. view s1 v = (if n \<le> v \<and> v < n + k then pte pa perm (v - n) else view s v)"
    using map_at [OF assms(1-3) _ assms(8), of pa perm] assms(6) by auto
  have "\<not> valid (view s1 (n' + i))" if "i < k'" for i
  proof -
    have "n' + i < limit" using that assms(5) by simp
    then show ?thesis using s1(3) assms(7,9) that by auto
  qed
  moreover have "2 * k' \<le> f - 2 * k" using assms(6) by simp
  ultimately obtain s2 where s2: "map_at s1 n' k' pa' perm' = Some s2"
    "\<forall>v<limit. view s2 v = (if n' \<le> v \<and> v < n' + k' then pte pa' perm' (v - n') else view s1 v)"
    using map_at [OF s1(2) assms(4,5), of pa' perm'] by blast
  then show ?thesis using s1 by auto
qed

end

definition pages_addr :: "nat \<Rightarrow> u64" where
  "pages_addr n = of_nat (n * PGSIZE)"

definition vm_map :: "u64 \<Rightarrow> kmem \<Rightarrow> nat \<Rightarrow> nat \<Rightarrow> u64 \<Rightarrow> u64 \<Rightarrow> kmem option" where
  "vm_map root s n k pa perm =
     (case mappages s root (pages_addr n) (pages_addr k) pa perm of Ok (r, s') \<Rightarrow> if r = 0 then Some s' else None | _ \<Rightarrow> None)"

definition vm_unmap :: "u64 \<Rightarrow> kmem \<Rightarrow> nat \<Rightarrow> nat \<Rightarrow> kmem option" where
  "vm_unmap root s n k =
     (case uvmunmap s root (pages_addr n) (of_nat k) False of Ok s' \<Rightarrow> Some s' | _ \<Rightarrow> None)"

lemma vm_ops_eq_Some:
  "vm_map root s n k pa perm = Some s' \<longleftrightarrow> mappages s root (pages_addr n) (pages_addr k) pa perm = Ok (0, s')"
  "vm_unmap root s n k = Some s' \<longleftrightarrow> uvmunmap s root (pages_addr n) (of_nat k) False = Ok s'"
  by (auto simp: vm_map_def vm_unmap_def split: res.splits if_splits)

lemma pages_addr:
  assumes "n \<le> 2 ^ 26"
  shows "unat (pages_addr n) = n * PGSIZE" "page_aligned (pages_addr n)" "vpn (pages_addr n) = n"
proof -
  show u: "unat (pages_addr n) = n * PGSIZE"
    unfolding pages_addr_def using assms by (intro unat_of_nat_small) (simp add: PGSIZE_def)
  then show "page_aligned (pages_addr n)" "vpn (pages_addr n) = n" by (simp_all add: page_aligned_def PGSIZE_def)
qed

interpretation vmspace: address_space "\<lambda>s f. \<exists>ps. pt_inv s ps root \<and> f \<le> length ps" "\<lambda>s. pmap (mem s) root"
  "vm_map root" "vm_unmap root" "\<lambda>v. pte_has v PTE_V" "\<lambda>pa perm i. PA2PTE (pa + of_nat (i * PGSIZE)) OR perm OR PTE_V"
  "2 ^ 26" for root
proof unfold_locales
  fix s f k n pa perm
  assume "\<exists>ps. pt_inv s ps root \<and> f \<le> length ps" and k: "0 < k" "n + k \<le> 2 ^ 26" "2 * k \<le> f"
    and un: "\<And>i. i < k \<Longrightarrow> \<not> pte_has (pmap (mem s) root (n + i)) PTE_V"
  then obtain ps where inv: "pt_inv s ps root" "f \<le> length ps" by blast
  have a: "unat (pages_addr n) = n * PGSIZE" "page_aligned (pages_addr n)" "vpn (pages_addr n) = n"
    using k by (intro pages_addr; simp)+
  have "\<exists>s' ps' j. mappages s root (pages_addr n) (of_nat (k * PGSIZE)) pa perm = Ok (0, s') \<and>
     pt_inv s' ps' root \<and> j \<le> 2 * k \<and> ps' = drop j ps \<and>
     (\<forall>v<2 ^ 26. pmap (mem s') root v =
        (if vpn (pages_addr n) \<le> v \<and> v < vpn (pages_addr n) + k
         then PA2PTE (pa + of_nat ((v - vpn (pages_addr n)) * PGSIZE)) OR perm OR PTE_V
         else pmap (mem s) root v))"
    using k inv(2) un a by (intro mappages_ok [OF inv(1)]) (simp_all add: PGSIZE_def)
  then obtain s' j where s': "mappages s root (pages_addr n) (pages_addr k) pa perm = Ok (0, s')"
      "pt_inv s' (drop j ps) root" "j \<le> 2 * k"
     "\<forall>v<2 ^ 26. pmap (mem s') root v =
        (if n \<le> v \<and> v < n + k then PA2PTE (pa + of_nat ((v - n) * PGSIZE)) OR perm OR PTE_V
         else pmap (mem s) root v)" unfolding a(3) pages_addr_def [of k, symmetric] by blast
  have "f - 2 * k \<le> length (drop j ps)" using inv(2) s'(3) by simp
  with s' show "\<exists>s'. vm_map root s n k pa perm = Some s' \<and> (\<exists>ps. pt_inv s' ps root \<and> f - 2 * k \<le> length ps) \<and>
     (\<forall>v<2 ^ 26. pmap (mem s') root v =
        (if n \<le> v \<and> v < n + k then PA2PTE (pa + of_nat ((v - n) * PGSIZE)) OR perm OR PTE_V else pmap (mem s) root v))"
    by (intro exI [of _ s']) (auto simp: vm_map_def)
next
  fix s f and n k :: nat
  assume "\<exists>ps. pt_inv s ps root \<and> f \<le> length ps" and k: "n + k \<le> 2 ^ 26"
  then obtain ps where inv: "pt_inv s ps root" "f \<le> length ps" by blast
  have a: "unat (pages_addr n) = n * PGSIZE" "page_aligned (pages_addr n)" "vpn (pages_addr n) = n"
    using k by (intro pages_addr; simp)+
  have "uvmunmap s root (pages_addr n) (of_nat k) False =
      uvmunmap_loop s root (pages_addr n) (pages_addr n + of_nat (k * PGSIZE)) False"
    using a(2) by (simp add: uvmunmap_def page_aligned_def)
  with uvmunmap_loop_ok [OF inv(1) a(2), of k] k a(1,3) inv
  show "\<exists>s'. vm_unmap root s n k = Some s' \<and> (\<exists>ps. pt_inv s' ps root \<and> f \<le> length ps) \<and>
     (\<forall>v<2 ^ 26. pmap (mem s') root v =
        (if n \<le> v \<and> v < n + k \<and> pte_has (pmap (mem s) root v) PTE_V then 0 else pmap (mem s) root v))"
    by (auto simp: vm_unmap_def PGSIZE_def)
next
  show "pte_has (PA2PTE (pa + of_nat (i * PGSIZE)) OR perm OR PTE_V) PTE_V" for pa perm i
    unfolding pte_has_V by (simp add: PTE_V_def bit_simps)
qed


section \<open>Properties\<close>

text \<open>
  C31: \<open>mappages\<close> refines the update of a map from virtual pages to entries. On a well-formed table
  with enough free pages and an unmapped range it returns 0, sets the entries of the range to
  consecutive physical pages with the given permissions, leaves every other pte_at alone although
  it may have added table pages, and keeps the table well-formed; \<open>walkaddr\<close> then translates the
  range, when it is mapped for the user, to those physical pages.
\<close>

theorem mappages_correct:
  assumes "pt_inv s ps root" and "0 < n" and "2 * n \<le> length ps" and "page_aligned a"
    and "unat a + n * PGSIZE \<le> 2 ^ 38"
    and "\<And>i. i < n \<Longrightarrow> \<not> pte_has (pmap (mem s) root (vpn a + i)) PTE_V"
    and pa: "page_aligned pa" "unat pa + n * PGSIZE \<le> 2 ^ 56" "unat perm < 2 ^ 10" "pte_has perm PTE_U"
  shows "\<exists>s' ps'. mappages s root a (of_nat (n * PGSIZE)) pa perm = Ok (0, s') \<and> pt_inv s' ps' root \<and>
     (\<forall>v<2 ^ 26. pmap (mem s') root v =
        (if vpn a \<le> v \<and> v < vpn a + n then PA2PTE (pa + of_nat ((v - vpn a) * PGSIZE)) OR perm OR PTE_V
         else pmap (mem s) root v)) \<and>
     (\<forall>va. unat va < 2 ^ 38 \<longrightarrow> walkaddr s' root va =
        (if vpn a \<le> vpn va \<and> vpn va < vpn a + n then pa + of_nat ((vpn va - vpn a) * PGSIZE)
         else walkaddr s root va))"
proof -
  obtain s' ps' where s': "mappages s root a (of_nat (n * PGSIZE)) pa perm = Ok (0, s')" "pt_inv s' ps' root"
     "\<forall>v<2 ^ 26. pmap (mem s') root v =
        (if vpn a \<le> v \<and> v < vpn a + n then PA2PTE (pa + of_nat ((v - vpn a) * PGSIZE)) OR perm OR PTE_V
         else pmap (mem s) root v)"
    using mappages_ok [OF assms(1-6), where pa = pa and perm = perm] by blast
  have "walkaddr s' root va = (if vpn a \<le> vpn va \<and> vpn va < vpn a + n then pa + of_nat ((vpn va - vpn a) * PGSIZE)
         else walkaddr s root va)" if va: "unat va < 2 ^ 38" for va
  proof (cases "vpn a \<le> vpn va \<and> vpn va < vpn a + n")
    case True
    have pm: "pmap (mem s') root (vpn va) = PA2PTE (pa + of_nat ((vpn va - vpn a) * PGSIZE)) OR perm OR PTE_V"
      using s'(3) vpn_less [OF va] True by simp
    define i where "i = vpn va - vpn a"
    have i: "i < n" unfolding i_def using True by linarith
    then have "i * PGSIZE + PGSIZE \<le> n * PGSIZE" by (metis Suc_leI add.commute mult_Suc mult_le_mono1)
    then have u: "unat (pa + of_nat (i * PGSIZE)) = unat pa + i * PGSIZE" "unat pa + i * PGSIZE < 2 ^ 56"
      using pa(2) by (simp_all add: unat_word_ariths PGSIZE_def del: of_nat_mult)
    have "pte_ok (pa + of_nat (i * PGSIZE)) perm"
      unfolding pte_ok_def page_aligned_def u(1) using pa u(2) by (simp add: page_aligned_def)
    note pt = PTE2PA_PA2PTE [OF this]
    have "pte_has (PA2PTE (pa + of_nat (i * PGSIZE)) OR perm OR PTE_V) PTE_U"
      using pa(4) unfolding pte_has_U by (simp add: bit_simps)
    then show ?thesis
      unfolding if_P [OF True] walkaddr_pmap [OF s'(2) va] pm Let_def i_def [symmetric] using pt by simp
  next
    case False
    have "pmap (mem s') root (vpn va) = pmap (mem s) root (vpn va)"
      using s'(3) vpn_less [OF va] False by (metis (no_types, lifting))
    then show ?thesis
      unfolding if_not_P [OF False] walkaddr_pmap [OF s'(2) va] walkaddr_pmap [OF assms(1) va] by simp
  qed
  with s' show ?thesis by blast
qed


text \<open>
  C32: mapping a range of unmapped pages and unmapping it again gives the address space back: every
  page outside the range has the pte_at it had, and the range is empty; and two mappings of disjoint
  ranges are both in force after the second.
\<close>

theorem map_unmap_roundtrip:
  assumes "pt_inv s ps root" "0 < k" "n + k \<le> 2 ^ 26" "4 * k \<le> length ps"
    and "\<And>i. i < k \<Longrightarrow> \<not> pte_has (pmap (mem s) root (n + i)) PTE_V"
  shows "\<exists>s1 s2. mappages s root (pages_addr n) (pages_addr k) pa perm = Ok (0, s1) \<and>
      uvmunmap s1 root (pages_addr n) (of_nat k) False = Ok s2 \<and>
      (\<forall>v<2 ^ 26. pmap (mem s2) root v = (if n \<le> v \<and> v < n + k then 0 else pmap (mem s) root v))"
proof -
  have ok: "\<exists>qs. pt_inv s qs root \<and> length ps \<le> length qs" using assms(1) by blast
  have "2 * k \<le> length ps" using assms(4) by simp
  from vmspace.map_unmap [OF ok assms(2,3) this assms(5), of pa perm]
  show ?thesis unfolding vm_ops_eq_Some by blast
qed

definition vm_ex_free :: "u64 list" where
  "vm_ex_free = [0x80101000, 0x80102000, 0x80103000, 0x80104000, 0x80105000, 0x80106000]"

definition vm_ex :: kmem where
  "vm_ex = \<lparr>mem = store64 (store64 (store64 (store64 (store64 (\<lambda>_. 0) 0x80101000 0x80102000) 0x80102000 0x80103000)
       0x80103000 0x80104000) 0x80104000 0x80105000) 0x80105000 0x80106000,
     freelist = 0x80101000, kend = 0x80030000\<rparr>"

lemma store64_page_outside: "\<not> in_page a b \<Longrightarrow> store64 m a v b = m b"
  using in_page_8 [of b a] by (intro store64_outside) force

lemma vm_ex_kmem: "kmem_inv vm_ex vm_ex_free"
  unfolding kmem_inv_def
proof (intro conjI ballI)
  show "free_chain (mem vm_ex) (freelist vm_ex) vm_ex_free"
    by (simp add: vm_ex_def vm_ex_free_def load64_def store64_def)
  show "page_ok vm_ex p" if "p \<in> set vm_ex_free" for p
    using that by (auto simp: vm_ex_free_def page_ok_def vm_ex_def page_aligned_def param_defs)
qed (simp_all add: vm_ex_free_def vm_ex_def)

lemma vm_ex_inv: "pt_inv vm_ex vm_ex_free 0x80100000" "pmap (mem vm_ex) 0x80100000 n = 0"
proof -
  have a: "page_aligned 0x80100000" by (simp add: page_aligned_def PGSIZE_def)
  have ok: "page_ok vm_ex 0x80100000" using a by (simp add: page_ok_def vm_ex_def param_defs)
  have nin: "0x80100000 \<notin> set vm_ex_free" by (simp add: vm_ex_free_def)
  have z: "mem vm_ex b = 0" if "in_page 0x80100000 b" for b
  proof -
    have "\<not> in_page q b" if "q \<in> set vm_ex_free" for q
      using that \<open>in_page 0x80100000 b\<close> kpages.invar_good [OF vm_ex_kmem that] nin
      by (intro pages_disjoint [OF a]) (auto simp: page_ok_def)
    then show ?thesis by (simp add: vm_ex_def vm_ex_free_def store64_page_outside)
  qed
  note f = pt_inv_fresh [OF vm_ex_kmem ok nin z]
  show "pt_inv vm_ex vm_ex_free 0x80100000" "pmap (mem vm_ex) 0x80100000 n = 0"
    using f by simp_all
qed

theorem mappages_correct_witness:
  "\<exists>s'. mappages vm_ex 0x80100000 0x3000 (of_nat (2 * PGSIZE)) 0x87000000 (PTE_R OR PTE_U) = Ok (0, s') \<and>
     walkaddr s' 0x80100000 0x3000 = 0x87000000 \<and> walkaddr s' 0x80100000 0x4008 = 0x87001000"
proof -
  let ?s = vm_ex and ?r = "0x80100000 :: u64"
  have v: "vpn 0x3000 = 3" "vpn 0x4008 = 4" by (simp_all add: PGSIZE_def)
  have "\<exists>s' ps'. mappages ?s ?r 0x3000 (of_nat (2 * PGSIZE)) 0x87000000 (PTE_R OR PTE_U) = Ok (0, s') \<and> pt_inv s' ps' ?r \<and>
     (\<forall>v<2 ^ 26. pmap (mem s') ?r v =
        (if vpn 0x3000 \<le> v \<and> v < vpn 0x3000 + 2 then PA2PTE (0x87000000 + of_nat ((v - vpn 0x3000) * PGSIZE)) OR (PTE_R OR PTE_U) OR PTE_V
         else pmap (mem ?s) ?r v)) \<and>
     (\<forall>va. unat va < 2 ^ 38 \<longrightarrow> walkaddr s' ?r va =
        (if vpn 0x3000 \<le> vpn va \<and> vpn va < vpn 0x3000 + 2 then 0x87000000 + of_nat ((vpn va - vpn 0x3000) * PGSIZE)
         else walkaddr ?s ?r va))"
    by (rule mappages_correct [OF vm_ex_inv(1)])
      (simp_all add: vm_ex_inv(2) vm_ex_free_def pte_has_def page_aligned_def PGSIZE_def PTE_R_def PTE_U_def)
  then obtain s' where s': "mappages ?s ?r 0x3000 (of_nat (2 * PGSIZE)) 0x87000000 (PTE_R OR PTE_U) = Ok (0, s')"
    and w: "\<forall>va. unat va < 2 ^ 38 \<longrightarrow> walkaddr s' ?r va =
        (if vpn 0x3000 \<le> vpn va \<and> vpn va < vpn 0x3000 + 2 then 0x87000000 + of_nat ((vpn va - vpn 0x3000) * PGSIZE)
         else walkaddr ?s ?r va)" by blast
  have "walkaddr s' ?r 0x3000 = 0x87000000" "walkaddr s' ?r 0x4008 = 0x87001000"
    using w [rule_format, of "0x3000"] w [rule_format, of "0x4008"] unfolding v by (simp_all add: PGSIZE_def)
  with s' show ?thesis by blast
qed

theorem map_unmap_roundtrip_witness:
  "\<exists>s1 s2. mappages vm_ex 0x80100000 (pages_addr 7) (pages_addr 1) 0x87000000 PTE_R = Ok (0, s1) \<and>
      uvmunmap s1 0x80100000 (pages_addr 7) (of_nat 1) False = Ok s2 \<and> pmap (mem s2) 0x80100000 7 = 0"
proof -
  have "\<exists>s1 s2. mappages vm_ex 0x80100000 (pages_addr 7) (pages_addr 1) 0x87000000 PTE_R = Ok (0, s1) \<and>
      uvmunmap s1 0x80100000 (pages_addr 7) (of_nat 1) False = Ok s2 \<and>
      (\<forall>v<2 ^ 26. pmap (mem s2) 0x80100000 v = (if 7 \<le> v \<and> v < 7 + 1 then 0 else pmap (mem vm_ex) 0x80100000 v))"
    by (rule map_unmap_roundtrip [OF vm_ex_inv(1)]) (simp_all add: vm_ex_inv(2) vm_ex_free_def pte_has_def)
  then show ?thesis by force
qed

end
