(* ===== verification/UserMem.thy ===== *)
theory UserMem
  imports Vm
begin

text \<open>
  User memory as the copies of \<open>kernel/vm.c\<close> see it: the byte at a user address is the one its page
  table translates it to, and \<open>copyin\<close>, \<open>copyinstr\<close> and \<open>copyout\<close>, which work page by page, are
  a read, a read up to a zero and a write of consecutive user bytes.
\<close>

section \<open>User memory\<close>

text \<open>The byte at a user address, through the page table.\<close>

definition user_byte :: "kmem \<Rightarrow> u64 \<Rightarrow> u64 \<Rightarrow> u8" where
  "user_byte s pt va = mem s (walkaddr s pt (PGROUNDDOWN va) + (va - PGROUNDDOWN va))"

definition user_mapped :: "kmem \<Rightarrow> u64 \<Rightarrow> u64 \<Rightarrow> bool" where
  "user_mapped s pt va \<longleftrightarrow> walkaddr s pt (PGROUNDDOWN va) \<noteq> 0"

lemma unat_PGROUNDDOWN: "unat (PGROUNDDOWN va) = unat va div PGSIZE * PGSIZE"
  by (simp add: PGROUNDDOWN_def and_not_mask12)

lemma same_page:
  assumes "unat va mod PGSIZE + i < PGSIZE"
  shows "unat (va + of_nat i) = unat va + i" "PGROUNDDOWN (va + of_nat i) = PGROUNDDOWN va"
proof -
  have "unat va div 4096 < 2 ^ 52" using unat_lt_exp [of va] by (simp add: div_less_iff_less_mult)
  then have "unat va div 4096 * 4096 + 4096 \<le> 2 ^ 64" by simp
  moreover have "unat va = unat va div 4096 * 4096 + unat va mod 4096" by simp
  ultimately have "unat va + i < 2 ^ 64" using assms unfolding PGSIZE_def by linarith
  then show u: "unat (va + of_nat i) = unat va + i" by (simp add: unat_word_ariths)
  have "(unat va + i) div PGSIZE = unat va div PGSIZE"
  proof (rule div_nat_eqI)
    have va: "unat va = unat va div PGSIZE * PGSIZE + unat va mod PGSIZE" by simp
    then show "PGSIZE * (unat va div PGSIZE) \<le> unat va + i" unfolding mult.commute [of PGSIZE] by linarith
    show "unat va + i < PGSIZE * Suc (unat va div PGSIZE)"
      using assms va unfolding mult.commute [of PGSIZE] mult_Suc by linarith
  qed
  then show "PGROUNDDOWN (va + of_nat i) = PGROUNDDOWN va"
    by (simp add: word_unat_eq_iff unat_PGROUNDDOWN u)
qed

lemma next_page:
  assumes "unat va mod PGSIZE + n = PGSIZE"
  shows "PGROUNDDOWN va + of_nat PGSIZE = va + of_nat n"
proof -
  have "va = PGROUNDDOWN va + of_nat (unat va mod PGSIZE)"
    by (simp flip: unat_page_offset)
  then have "va + of_nat n = PGROUNDDOWN va + of_nat (unat va mod PGSIZE + n)" by simp
  then show ?thesis using assms by simp
qed

lemma page_chunk_eq: "page_chunk va len = min (PGSIZE - unat va mod PGSIZE) len"
  by (simp add: page_chunk_def unat_page_offset)

lemma user_byte_chunk:
  assumes "i < page_chunk va len"
  shows "user_byte s pt (va + of_nat i) = mem s (walkaddr s pt (PGROUNDDOWN va) + (va - PGROUNDDOWN va) + of_nat i)"
    "user_mapped s pt (va + of_nat i) = user_mapped s pt va"
proof -
  have "unat va mod PGSIZE + i < PGSIZE" using assms by (simp add: page_chunk_eq less_diff_conv add.commute)
  note p = same_page(2) [OF this]
  show "user_byte s pt (va + of_nat i) = mem s (walkaddr s pt (PGROUNDDOWN va) + (va - PGROUNDDOWN va) + of_nat i)"
    "user_mapped s pt (va + of_nat i) = user_mapped s pt va"
    unfolding user_byte_def user_mapped_def p by (simp_all add: algebra_simps)
qed

lemma copyin_mapped:
  assumes "\<forall>i<len. user_mapped s pt (va + of_nat i)"
  shows "copyin s psz ppt pt va len = Ok (Some (map (\<lambda>i. user_byte s pt (va + of_nat i)) [0..<len]), s)"
  using assms
proof (induction len arbitrary: va rule: less_induct)
  case (less len)
  show ?case
  proof (cases "len = 0")
    case True
    then show ?thesis by (subst copyin.simps) simp
  next
    case False
    let ?n = "page_chunk va len" and ?va' = "PGROUNDDOWN va + of_nat PGSIZE"
    have n: "0 < ?n" "?n \<le> len" using False page_chunk_pos page_chunk_le by auto
    have "user_mapped s pt va" using less.prems [rule_format, of 0] False by simp
    then have pa: "walkaddr s pt (PGROUNDDOWN va) \<noteq> 0" by (simp add: user_mapped_def)
    have rest: "copyin s psz ppt pt ?va' (len - ?n) =
        Ok (Some (map (\<lambda>i. user_byte s pt (va + of_nat i)) [?n..<len]), s)"
    proof (cases "?n = len")
      case True
      then show ?thesis by (subst copyin.simps) simp
    next
      case no: False
      then have v: "?va' = va + of_nat ?n" by (intro next_page) (auto simp: page_chunk_eq)
      have "\<forall>i<len - ?n. user_mapped s pt (?va' + of_nat i)"
      proof (intro allI impI)
        fix i
        assume "i < len - ?n"
        then have "user_mapped s pt (va + of_nat (?n + i))"
          using less.prems [rule_format, of "?n + i"] by (simp add: less_diff_conv add.commute)
        then show "user_mapped s pt (?va' + of_nat i)" by (simp add: v add.assoc)
      qed
      from less.IH [OF _ this] n
      have "copyin s psz ppt pt ?va' (len - ?n) = Ok (Some (map (\<lambda>i. user_byte s pt (?va' + of_nat i)) [0..<len - ?n]), s)"
        by simp
      moreover have "map (\<lambda>i. user_byte s pt (?va' + of_nat i)) [0..<len - ?n] =
          map (\<lambda>i. user_byte s pt (va + of_nat i)) [?n..<len]"
        by (rule nth_equalityI) (simp_all add: v add.assoc)
      ultimately show ?thesis by simp
    qed
    have "bytes_at (mem s) (walkaddr s pt (PGROUNDDOWN va) + (va - PGROUNDDOWN va)) ?n =
        map (\<lambda>i. user_byte s pt (va + of_nat i)) [0..<?n]"
      by (rule nth_equalityI) (simp_all add: user_byte_chunk)
    moreover have "[0..<len] = [0..<?n] @ [?n..<len]" using n upt_add_eq_append [of 0 ?n "len - ?n"] by simp
    ultimately show ?thesis
      using pa rest False by (subst copyin.simps) (simp add: Let_def user_page_def)
  qed
qed


subsection \<open>Strings\<close>

lemma str_chunk_spec:
  "str_chunk m p n = (bs, z) \<Longrightarrow>
     length bs \<le> n \<and> (\<forall>i<length bs. bs ! i = m (p + of_nat i) \<and> bs ! i \<noteq> 0) \<and>
     (z \<longleftrightarrow> length bs < n) \<and> (z \<longrightarrow> m (p + of_nat (length bs)) = 0)"
proof (induction n arbitrary: p bs z)
  case (Suc n)
  show ?case
  proof (cases "m p = 0")
    case False
    obtain cs y where cs: "str_chunk m (p + 1) n = (cs, y)" by fastforce
    with Suc.prems False have bs: "bs = m p # cs" "z = y" by auto
    note ih = Suc.IH [OF cs]
    have "\<forall>i<length bs. bs ! i = m (p + of_nat i) \<and> bs ! i \<noteq> 0"
    proof (intro allI impI)
      fix i
      assume "i < length bs"
      then show "bs ! i = m (p + of_nat i) \<and> bs ! i \<noteq> 0"
        using ih False bs by (cases i) (auto simp: add.assoc)
    qed
    then show ?thesis using ih bs by (auto simp: add.assoc)
  qed (use Suc.prems in auto)
qed simp

text \<open>\<open>bs\<close> is the string that the bytes \<open>f\<close> hold, its terminator within \<open>mx\<close> bytes and all of it mapped
  (\<open>g\<close>); and the string at a user address.\<close>

definition str_in :: "(nat \<Rightarrow> u8) \<Rightarrow> (nat \<Rightarrow> bool) \<Rightarrow> nat \<Rightarrow> u8 list \<Rightarrow> bool" where
  "str_in f g mx bs \<longleftrightarrow> length bs < mx \<and> (\<forall>i\<le>length bs. g i) \<and> (\<forall>i<length bs. f i = bs ! i \<and> bs ! i \<noteq> 0) \<and> f (length bs) = 0"

definition user_string :: "kmem \<Rightarrow> u64 \<Rightarrow> u64 \<Rightarrow> nat \<Rightarrow> u8 list \<Rightarrow> bool" where
  "user_string s pt va mx bs \<longleftrightarrow>
     str_in (\<lambda>i. user_byte s pt (va + of_nat i)) (\<lambda>i. user_mapped s pt (va + of_nat i)) mx bs"

lemma str_in_unique:
  assumes "str_in f g mx bs" "str_in f g mx cs"
  shows "bs = cs"
proof -
  have "length bs = length cs"
    using assms unfolding str_in_def by (metis nat_neq_iff)
  then show ?thesis using assms unfolding str_in_def by (metis nth_equalityI)
qed

lemma str_in_append:
  assumes "\<forall>i<length cs. f i = cs ! i \<and> cs ! i \<noteq> 0" "\<forall>i<length cs. g i" "length cs < mx"
  shows "str_in f g mx bs \<longleftrightarrow>
     (\<exists>ds. bs = cs @ ds \<and> str_in (\<lambda>i. f (length cs + i)) (\<lambda>i. g (length cs + i)) (mx - length cs) ds)"
proof
  let ?n = "length cs"
  assume u: "str_in f g mx bs"
  then have le: "?n \<le> length bs" using assms(1) unfolding str_in_def by (metis not_le)
  have "take ?n bs = cs"
    using u assms(1) le unfolding str_in_def by (intro nth_equalityI) auto
  then have "bs = cs @ drop ?n bs" by (metis append_take_drop_id)
  moreover have "str_in (\<lambda>i. f (?n + i)) (\<lambda>i. g (?n + i)) (mx - ?n) (drop ?n bs)"
    using u le unfolding str_in_def by (auto simp: less_diff_conv add.commute)
  ultimately show "\<exists>ds. bs = cs @ ds \<and> str_in (\<lambda>i. f (?n + i)) (\<lambda>i. g (?n + i)) (mx - ?n) ds" by blast
next
  let ?n = "length cs"
  assume "\<exists>ds. bs = cs @ ds \<and> str_in (\<lambda>i. f (?n + i)) (\<lambda>i. g (?n + i)) (mx - ?n) ds"
  then obtain ds where ds: "bs = cs @ ds" and u: "str_in (\<lambda>i. f (?n + i)) (\<lambda>i. g (?n + i)) (mx - ?n) ds" by blast
  have "g i" if "i \<le> length bs" for i
  proof (cases "i < ?n")
    case False
    then obtain k where "i = ?n + k" by (metis le_Suc_ex not_less)
    then show ?thesis using u that ds unfolding str_in_def by simp
  qed (use assms(2) in simp)
  moreover have "f i = bs ! i \<and> bs ! i \<noteq> 0" if "i < length bs" for i
  proof (cases "i < ?n")
    case False
    then obtain k where "i = ?n + k" by (metis le_Suc_ex not_less)
    then show ?thesis using u that ds unfolding str_in_def by (simp add: nth_append)
  qed (use assms(1) ds in \<open>simp add: nth_append\<close>)
  ultimately show "str_in f g mx bs" using u ds unfolding str_in_def by auto
qed

lemma copyinstr_iff:
  "copyinstr s pt va mx = Some bs \<longleftrightarrow> user_string s pt va mx bs"
proof (induction mx arbitrary: va bs rule: less_induct)
  case (less mx)
  let ?f = "\<lambda>i. user_byte s pt (va + of_nat i)" and ?g = "\<lambda>i. user_mapped s pt (va + of_nat i)"
  show ?case
  proof (cases "mx = 0 \<or> \<not> user_mapped s pt va")
    case True
    have "\<not> user_string s pt va mx bs"
    proof
      assume u: "user_string s pt va mx bs"
      then have "user_mapped s pt (va + of_nat 0)" "mx \<noteq> 0" unfolding user_string_def str_in_def by auto
      with True show False by simp
    qed
    then show ?thesis using True by (subst copyinstr.simps) (auto simp: user_mapped_def Let_def)
  next
    case False
    let ?n = "page_chunk va mx" and ?p = "walkaddr s pt (PGROUNDDOWN va) + (va - PGROUNDDOWN va)"
      and ?va' = "PGROUNDDOWN va + of_nat PGSIZE"
    have n: "0 < ?n" "?n \<le> mx" using False page_chunk_pos page_chunk_le by auto
    obtain cs z where cs: "str_chunk (mem s) ?p ?n = (cs, z)" by fastforce
    note sp = str_chunk_spec [OF cs]
    have step: "copyinstr s pt va mx = (if z then Some cs else map_option (\<lambda>ds. cs @ ds) (copyinstr s pt ?va' (mx - ?n)))"
      using False cs by (subst copyinstr.simps) (simp add: user_mapped_def Let_def)
    have ub: "?f i = mem s (?p + of_nat i)" "?g i" if "i < ?n" for i
      using user_byte_chunk [OF that, of s pt] False by auto
    show ?thesis
    proof (cases z)
      case True
      then have "user_string s pt va mx cs"
        using sp n ub unfolding user_string_def str_in_def by auto
      then show ?thesis using step True str_in_unique unfolding user_string_def by auto
    next
      case nz: False
      then have len: "length cs = ?n" using sp by auto
      have first: "\<forall>i<length cs. ?f i = cs ! i \<and> cs ! i \<noteq> 0" "\<forall>i<length cs. ?g i"
        using sp ub len by metis+
      show ?thesis
      proof (cases "?n = mx")
        case True
        have "copyinstr s pt ?va' (mx - ?n) = None" using True by (subst copyinstr.simps) simp
        moreover have "\<not> user_string s pt va mx bs"
          unfolding user_string_def str_in_def using first len True by metis
        ultimately show ?thesis using step nz by simp
      next
        case m: False
        then have lt: "mx - ?n < mx" "length cs < mx" using n len by auto
        have va': "?va' = va + of_nat ?n" using m by (intro next_page) (auto simp: page_chunk_eq)
        have "user_string s pt va mx bs \<longleftrightarrow> (\<exists>ds. bs = cs @ ds \<and> user_string s pt (va + of_nat ?n) (mx - ?n) ds)"
          unfolding user_string_def str_in_append [OF first lt(2)] len by (simp add: add.assoc)
        then show ?thesis using step nz less.IH [OF lt(1), of "va + of_nat ?n"] by (auto simp: va')
      qed
    qed
  qed
qed


subsection \<open>Writing user memory\<close>

text \<open>The frames that a table maps for the user are whole pages apart from the table's own pages and
  from each other.\<close>

definition frame_of :: "memory \<Rightarrow> u64 \<Rightarrow> nat \<Rightarrow> u64 option" where
  "frame_of m root v = (let e = pmap m root v in if pte_has e PTE_V \<and> pte_has e PTE_U then Some (PTE2PA e) else None)"

definition frames_ok :: "kmem \<Rightarrow> u64 list \<Rightarrow> u64 \<Rightarrow> bool" where
  "frames_ok s ps root \<longleftrightarrow>
     (\<forall>v<2 ^ 26. \<forall>F. frame_of (mem s) root v = Some F \<longrightarrow> F \<noteq> 0 \<and> page_aligned F \<and> F \<notin> set ps \<and>
        (\<forall>p. path_ok p \<longrightarrow> tbl (mem s) root p \<noteq> Some F)) \<and>
     (\<forall>v<2 ^ 26. \<forall>w<2 ^ 26. \<forall>F. frame_of (mem s) root v = Some F \<longrightarrow> frame_of (mem s) root w = Some F \<longrightarrow> v = w)"

lemma frames_okD:
  assumes "frames_ok s ps root" "v < 2 ^ 26" "frame_of (mem s) root v = Some F"
  shows "F \<noteq> 0" "page_aligned F" "F \<notin> set ps" "\<forall>p. path_ok p \<longrightarrow> tbl (mem s) root p \<noteq> Some F"
    and "w < 2 ^ 26 \<Longrightarrow> frame_of (mem s) root w = Some F \<Longrightarrow> w = v"
  using assms unfolding frames_ok_def by blast+

lemma write_frame:
  assumes inv: "pt_inv s ps root" and F: "page_aligned F" "\<forall>p. path_ok p \<longrightarrow> tbl (mem s) root p \<noteq> Some F"
    and m: "\<And>b. \<not> in_page F b \<Longrightarrow> m' b = mem s b"
  shows "\<And>p. path_ok p \<Longrightarrow> tbl m' root p = tbl (mem s) root p"
    and "pmap m' root n = pmap (mem s) root n"
proof -
  have ent: "pte_at m' pg j = pte_at (mem s) pg j" if "path_ok q" "tbl (mem s) root q = Some pg" "j < 512" for q pg j
  proof (rule pte_at_cong [OF that(3)])
    have pg: "page_aligned pg" "pg \<noteq> F" using pt_invD(2) [OF inv that(1,2)] F(2) that by (auto simp: page_ok_def)
    show "m' b = mem s b" if "in_page pg b" for b
      using pages_disjoint [OF pg(1) F(1) pg(2) that] m by blast
  qed
  show tb: "tbl m' root p = tbl (mem s) root p" if "path_ok p" for p
  proof (rule tbl_cong [OF _ that])
    show "pte_at m' pg j = pte_at (mem s) pg j" if "path_ok (q @ [j])" "tbl (mem s) root q = Some pg" for q pg j
      using ent that path_ok_snocD [OF that(1)] by blast
  qed
  show "pmap m' root n = pmap (mem s) root n"
  proof (rule pmap_cong)
    fix i j k :: nat
    assume b: "i < 512" "j < 512" "k < 512"
    then have "path_ok [i, j]" by (simp add: path_ok_def)
    then show "leaf m' root i j k = leaf (mem s) root i j k"
      using tb ent b by (auto simp: leaf_def split: option.splits)
  qed
qed


lemma write_bytes_apply:
  "length bs \<le> 2 ^ 64 \<Longrightarrow> write_bytes m a bs b = (if unat (b - a) < length bs then bs ! unat (b - a) else m b)"
proof (induction bs arbitrary: m a)
  case (Cons x bs)
  have "write_bytes (m(a := x)) (a + 1) bs b =
      (if unat (b - (a + 1)) < length bs then bs ! unat (b - (a + 1)) else (m(a := x)) b)"
    using Cons by simp
  moreover have "unat (b - a) = (if b = a then 0 else Suc (unat (b - (a + 1))))"
  proof (cases "b = a")
    case False
    then have "b - a \<noteq> 0" by simp
    then have "unat (b - a - 1) = unat (b - a) - 1" by (simp add: unat_minus_one)
    moreover have "0 < unat (b - a)" using \<open>b - a \<noteq> 0\<close> by (simp add: unat_gt_0)
    ultimately show ?thesis using False by (simp add: diff_diff_eq)
  qed simp
  moreover have "b = a \<Longrightarrow> \<not> unat (b - (a + 1)) < length bs"
    using Cons.prems by (simp add: unsigned_minus_1_eq_mask mask_eq_exp_minus_1)
  ultimately show ?case by auto
qed simp

lemma walkaddr_frame:
  assumes "pt_inv s ps root" "unat va < 2 ^ 38"
  shows "walkaddr s root (PGROUNDDOWN va) = (case frame_of (mem s) root (vpn va) of None \<Rightarrow> 0 | Some F \<Rightarrow> F)"
proof -
  have "unat (PGROUNDDOWN va) \<le> unat va" unfolding unat_PGROUNDDOWN by simp
  moreover have "vpn (PGROUNDDOWN va) = vpn va" unfolding unat_PGROUNDDOWN by (simp add: PGSIZE_def)
  ultimately show ?thesis
    using walkaddr_pmap [OF assms(1), of "PGROUNDDOWN va"] assms(2) by (simp add: frame_of_def Let_def)
qed

lemma va_split: "va = PGROUNDDOWN va + of_nat (unat va mod PGSIZE)"
  by (simp flip: unat_page_offset)

text \<open>One page's worth of \<open>copyout\<close>.\<close>

lemma copyout_chunk:
  assumes inv: "pt_inv s ps root" and fr: "frames_ok s ps root" and va: "unat va < 2 ^ 38"
    and F: "frame_of (mem s) root (vpn va) = Some F" and bs: "unat va mod PGSIZE + length bs \<le> PGSIZE"
  defines "s1 \<equiv> s\<lparr>mem := write_bytes (mem s) (F + (va - PGROUNDDOWN va)) bs\<rparr>"
  shows "pt_inv s1 ps root" "frames_ok s1 ps root" "\<And>n. pmap (mem s1) root n = pmap (mem s) root n"
    and "unat a < 2 ^ 38 \<Longrightarrow> user_mapped s root a \<Longrightarrow>
      user_byte s1 root a = (if unat va \<le> unat a \<and> unat a < unat va + length bs then bs ! (unat a - unat va) else user_byte s root a)"
proof -
  note fo = frames_okD [OF fr vpn_less [OF va] F]
  let ?off = "unat va mod PGSIZE" and ?p = "F + (va - PGROUNDDOWN va)"
  have off: "va - PGROUNDDOWN va = of_nat ?off" by (simp flip: unat_page_offset)
  have uoff: "unat (of_nat i :: u64) = i" if "i < PGSIZE" for i
    using that by (intro unat_of_nat_small) (simp add: PGSIZE_def)
  have len: "length bs \<le> 2 ^ 64" using bs by (simp add: PGSIZE_def)
  have wr: "mem s1 b = (if unat (b - ?p) < length bs then bs ! unat (b - ?p) else mem s b)" for b
    unfolding s1_def using write_bytes_apply [OF len] by simp
  have out: "mem s1 b = mem s b" if "\<not> in_page F b" for b
  proof -
    have "in_page F b" if lt: "unat (b - ?p) < length bs"
    proof -
      have "b - F = (b - ?p) + of_nat ?off" by (simp add: off)
      then have "unat (b - F) = unat (b - ?p) + ?off"
        using lt bs uoff [of ?off] by (simp only: unat_word_ariths(1)) (simp add: PGSIZE_def)
      then show ?thesis using lt bs by (simp add: in_page_def)
    qed
    then show ?thesis using wr that by auto
  qed
  note wf = write_frame [OF inv fo(2,4) out]
  show pm: "pmap (mem s1) root n = pmap (mem s) root n" for n by (rule wf(2))
  have ke: "kend s1 = kend s" by (simp add: s1_def)
  have k: "kmem_inv s1 ps"
    using kmem_inv_write [OF pt_invD(1) [OF inv] fo(2,3), of "mem s1"] out by (simp add: s1_def)
  show inv1: "pt_inv s1 ps root"
    using inv k ke unfolding pt_inv_def by (simp add: wf(1) page_ok_def)
  have fm: "frame_of (mem s1) root n = frame_of (mem s) root n" for n by (simp add: frame_of_def pm)
  show "frames_ok s1 ps root" using fr unfolding frames_ok_def by (simp add: fm wf(1))
  show "user_byte s1 root a = (if unat va \<le> unat a \<and> unat a < unat va + length bs then bs ! (unat a - unat va) else user_byte s root a)"
    if a: "unat a < 2 ^ 38" "user_mapped s root a"
  proof -
    let ?oa = "unat a mod PGSIZE"
    obtain G where G: "frame_of (mem s) root (vpn a) = Some G"
      using a(2) walkaddr_frame [OF inv a(1)] by (auto simp: user_mapped_def split: option.splits)
    have offa: "a - PGROUNDDOWN a = of_nat ?oa" by (simp flip: unat_page_offset)
    have ub: "user_byte s root a = mem s (G + of_nat ?oa)" "user_byte s1 root a = mem s1 (G + of_nat ?oa)"
      using walkaddr_frame [OF inv a(1)] walkaddr_frame [OF inv1 a(1)] G by (simp_all add: user_byte_def fm offa)
    have split: "unat a = vpn a * PGSIZE + ?oa" "unat va = vpn va * PGSIZE + ?off" by simp_all
    have oa: "?oa < PGSIZE" "?off < PGSIZE" by simp_all
    show ?thesis
    proof (cases "vpn a = vpn va")
      case True
      then have GF: "G = F" using G F by simp
      have d: "G + of_nat ?oa - ?p = of_nat ?oa - of_nat ?off" by (simp add: GF off)
      show ?thesis
      proof (cases "?off \<le> ?oa")
        case le: True
        have "of_nat ?oa - of_nat ?off = (of_nat (?oa - ?off) :: u64)" using le by (simp add: of_nat_diff)
        then have "unat (G + of_nat ?oa - ?p) = ?oa - ?off" using d uoff [OF less_imp_diff_less [OF oa(1), of ?off]] by simp
        moreover have dd: "unat a - unat va = ?oa - ?off" "unat va \<le> unat a"
          using split(1) [unfolded True] split(2) le by linarith+
        moreover have "?oa - ?off < length bs \<longleftrightarrow> unat a < unat va + length bs" using dd by linarith
        ultimately show ?thesis using ub wr by simp
      next
        case nle: False
        then have "of_nat ?oa - of_nat ?off = (- of_nat (?off - ?oa) :: u64)" by (simp add: of_nat_diff)
        moreover have "of_nat (?off - ?oa) \<noteq> (0 :: u64)" using nle uoff [of "?off - ?oa"] oa by (metis diff_is_0_eq less_imp_diff_less unat_0 not_le)
        ultimately have "unat (G + of_nat ?oa - ?p) = 2 ^ 64 - (?off - ?oa)"
          using d unat_neg [of "of_nat (?off - ?oa) :: u64"] uoff [OF less_imp_diff_less [OF oa(2), of ?oa]] by simp
        then have "\<not> unat (G + of_nat ?oa - ?p) < length bs"
          using bs less_imp_diff_less [OF oa(2), of ?oa] by (simp add: PGSIZE_def) arith
        moreover have "\<not> unat va \<le> unat a" using split(1) [unfolded True] split(2) nle by linarith
        ultimately show ?thesis using ub wr by simp
      qed
    next
      case False
      then have ne: "G \<noteq> F" using fo(5) [OF vpn_less [OF a(1)]] G by auto
      have "in_page G (G + of_nat ?oa)" using uoff [OF oa(1)] oa(1) by (simp add: in_page_def)
      then have "\<not> in_page F (G + of_nat ?oa)"
        using pages_disjoint [OF frames_okD(2) [OF fr vpn_less [OF a(1)] G] fo(2) ne] by blast
      then have "user_byte s1 root a = user_byte s root a" using ub out by simp
      moreover have "\<not> (unat va \<le> unat a \<and> unat a < unat va + length bs)"
      proof
        assume r: "unat va \<le> unat a \<and> unat a < unat va + length bs"
        then have "unat a < vpn va * PGSIZE + PGSIZE" using bs split(2) by linarith
        moreover have "vpn va * PGSIZE \<le> unat a" using r split(2) by linarith
        ultimately have "vpn a = vpn va" by (simp add: nat_div_eq_iff)
        with False show False by simp
      qed
      ultimately show ?thesis by auto
    qed
  qed
qed


lemma copyout_ok:
  assumes "pt_inv s ps root" "frames_ok s ps root" "unat va + length src \<le> 2 ^ 38"
    and "\<forall>i<length src. user_mapped s root (va + of_nat i) \<and> pte_has (pmap (mem s) root (vpn (va + of_nat i))) PTE_W"
  shows "\<exists>s'. copyout s psz ppt root va src = Ok (0, s') \<and> pt_inv s' ps root \<and> frames_ok s' ps root \<and>
    (\<forall>n. pmap (mem s') root n = pmap (mem s) root n) \<and>
    (\<forall>a. unat a < 2 ^ 38 \<longrightarrow> user_mapped s root a \<longrightarrow> user_byte s' root a =
       (if unat va \<le> unat a \<and> unat a < unat va + length src then src ! (unat a - unat va) else user_byte s root a))"
  using assms
proof (induction "length src" arbitrary: s va src rule: less_induct)
  case less
  show ?case
  proof (cases "src = []")
    case True
    then show ?thesis using less.prems by (subst copyout.simps) auto
  next
    case False
    let ?va0 = "PGROUNDDOWN va" and ?n = "page_chunk va (length src)"
    have n: "0 < ?n" "?n \<le> length src" using False page_chunk_pos page_chunk_le by auto
    have va: "unat va < 2 ^ 38" using less.prems(3) False by (cases src) auto
    have m0: "user_mapped s root va" "pte_has (pmap (mem s) root (vpn va)) PTE_W"
      using less.prems(4) [rule_format, of 0] False by auto
    then obtain F where F: "frame_of (mem s) root (vpn va) = Some F" and wa: "walkaddr s root ?va0 = F"
      using walkaddr_frame [OF less.prems(1) va] by (auto simp: user_mapped_def split: option.splits)
    have Fz: "F \<noteq> 0" using m0(1) wa by (simp add: user_mapped_def)
    define s1 where "s1 = s\<lparr>mem := write_bytes (mem s) (F + (va - ?va0)) (take ?n src)\<rparr>"
    have ln: "length (take ?n src) = ?n" using n by simp
    have fit: "unat va mod PGSIZE + length (take ?n src) \<le> PGSIZE"
      unfolding ln by (simp add: page_chunk_eq) (metis PGSIZE_pos le_add_diff_inverse min.cobounded1 mod_less_divisor nat_add_left_cancel_le less_imp_le)
    note ch = copyout_chunk [OF less.prems(1,2) va F fit, folded s1_def]
    have lt0: "unat ?va0 \<le> unat va" unfolding unat_PGROUNDDOWN by simp
    have "walk s root ?va0 False = Ok (walk_loop 2 s root ?va0 False)"
      using va lt0 by (simp add: walk_def MAXVA_def word_le_nat_alt)
    moreover obtain pg where tb: "tbl (mem s) root (va_path ?va0) = Some pg"
    proof -
      have "pmap (mem s) root (vpn ?va0) \<noteq> 0"
        using m0(2) by (auto simp: unat_PGROUNDDOWN pte_has_def PGSIZE_def)
      then show ?thesis using that by (cases "tbl (mem s) root (va_path ?va0)") (auto simp: pmap_vpn leaf_def va_path_def)
    qed
    moreover have "pg + 8 * of_nat (idx 0 ?va0) \<noteq> 0"
      using table_slot_nonzero [OF less.prems(1) tb va_path_ok(1)] by simp
    moreover have "load64 (mem s) (pg + 8 * of_nat (idx 0 ?va0)) = pmap (mem s) root (vpn va)"
      using load_leaf [OF tb] by (simp add: unat_PGROUNDDOWN PGSIZE_def)
    ultimately have step: "copyout s psz ppt root va src = copyout s1 psz ppt root (?va0 + of_nat PGSIZE) (drop ?n src)"
      using False va lt0 wa Fz m0(2)
      by (subst copyout.simps) (simp add: Let_def user_page_def walk_lookup s1_def MAXVA_def word_le_nat_alt)
    show ?thesis
    proof (cases "?n = length src")
      case True
      then have "copyout s psz ppt root va src = Ok (0, s1)" unfolding step by (subst copyout.simps) simp
      then show ?thesis using ch True by auto
    next
      case m: False
      then have nx: "?va0 + of_nat PGSIZE = va + of_nat ?n" by (intro next_page) (auto simp: page_chunk_eq)
      have uva: "unat (va + of_nat i) = unat va + i" if "i \<le> length src" for i
        using less.prems(3) that by (simp add: unat_word_ariths)
      have mp: "user_mapped s1 root a = user_mapped s root a" if "unat a < 2 ^ 38" for a
        using walkaddr_frame [OF ch(1) that] walkaddr_frame [OF less.prems(1) that]
        by (simp add: user_mapped_def frame_of_def ch(3))
      have "\<exists>s'. copyout s1 psz ppt root (va + of_nat ?n) (drop ?n src) = Ok (0, s') \<and> pt_inv s' ps root \<and> frames_ok s' ps root \<and>
        (\<forall>n. pmap (mem s') root n = pmap (mem s1) root n) \<and>
        (\<forall>a. unat a < 2 ^ 38 \<longrightarrow> user_mapped s1 root a \<longrightarrow> user_byte s' root a =
           (if unat (va + of_nat ?n) \<le> unat a \<and> unat a < unat (va + of_nat ?n) + length (drop ?n src)
            then drop ?n src ! (unat a - unat (va + of_nat ?n)) else user_byte s1 root a))"
      proof (rule less.hyps [OF _ ch(1,2)])
        show "length (drop ?n src) < length src" using n False by simp
        show "unat (va + of_nat ?n) + length (drop ?n src) \<le> 2 ^ 38" using less.prems(3) uva [OF n(2)] n by simp
        show "\<forall>i<length (drop ?n src). user_mapped s1 root (va + of_nat ?n + of_nat i) \<and>
            pte_has (pmap (mem s1) root (vpn (va + of_nat ?n + of_nat i))) PTE_W"
        proof (intro allI impI)
          fix i
          assume "i < length (drop ?n src)"
          then have i: "?n + i < length src" by simp
          have e: "va + of_nat ?n + of_nat i = va + of_nat (?n + i)" by simp
          have "unat (va + of_nat (?n + i)) < 2 ^ 38" using uva [of "?n + i"] i less.prems(3) by simp
          then show "user_mapped s1 root (va + of_nat ?n + of_nat i) \<and>
            pte_has (pmap (mem s1) root (vpn (va + of_nat ?n + of_nat i))) PTE_W"
            using less.prems(4) [rule_format, OF i] unfolding e by (simp add: mp ch(3) del: of_nat_add)
        qed
      qed
      then obtain s' where s': "copyout s1 psz ppt root (va + of_nat ?n) (drop ?n src) = Ok (0, s')"
        "pt_inv s' ps root" "frames_ok s' ps root" "\<forall>n. pmap (mem s') root n = pmap (mem s1) root n"
        and byt: "\<And>a. unat a < 2 ^ 38 \<Longrightarrow> user_mapped s1 root a \<Longrightarrow> user_byte s' root a =
           (if unat (va + of_nat ?n) \<le> unat a \<and> unat a < unat (va + of_nat ?n) + length (drop ?n src)
            then drop ?n src ! (unat a - unat (va + of_nat ?n)) else user_byte s1 root a)" by blast
      have "user_byte s' root a = (if unat va \<le> unat a \<and> unat a < unat va + length src then src ! (unat a - unat va)
          else user_byte s root a)" if a: "unat a < 2 ^ 38" "user_mapped s root a" for a
      proof -
        have "user_mapped s1 root a" using mp a by simp
        from byt [OF a(1) this] ch(4) [OF a] n show ?thesis
          unfolding uva [OF n(2)] ln by (auto simp: nth_append)
      qed
      then show ?thesis unfolding step nx using s' ch(3) by (intro exI [of _ s']) simp
    qed
  qed
qed


lemma copyout_bytes:
  assumes "pt_inv s ps root" "frames_ok s ps root" "unat va + length src \<le> 2 ^ 38"
    and "\<forall>i<length src. user_mapped s root (va + of_nat i) \<and> pte_has (pmap (mem s) root (vpn (va + of_nat i))) PTE_W"
  obtains s' where "copyout s psz ppt root va src = Ok (0, s')" "pt_inv s' ps root"
    "\<forall>n. pmap (mem s') root n = pmap (mem s) root n"
    "\<And>i. i < length src \<Longrightarrow> user_mapped s' root (va + of_nat i) \<and> user_byte s' root (va + of_nat i) = src ! i"
    "\<And>a. unat a < 2 ^ 38 \<Longrightarrow> user_mapped s root a \<Longrightarrow> \<not> (unat va \<le> unat a \<and> unat a < unat va + length src) \<Longrightarrow>
       user_byte s' root a = user_byte s root a"
proof -
  obtain s' where s': "copyout s psz ppt root va src = Ok (0, s')" "pt_inv s' ps root"
    "\<forall>n. pmap (mem s') root n = pmap (mem s) root n"
    and ub: "\<forall>a. unat a < 2 ^ 38 \<longrightarrow> user_mapped s root a \<longrightarrow> user_byte s' root a =
       (if unat va \<le> unat a \<and> unat a < unat va + length src then src ! (unat a - unat va) else user_byte s root a)"
    using copyout_ok [OF assms] by blast
  have "user_mapped s' root (va + of_nat i) \<and> user_byte s' root (va + of_nat i) = src ! i" if i: "i < length src" for i
  proof -
    have u: "unat (va + of_nat i) = unat va + i" using assms(3) that by (simp add: unat_word_ariths)
    then have lt: "unat (va + of_nat i) < 2 ^ 38" using assms(3) that by simp
    have "walkaddr s' root (PGROUNDDOWN (va + of_nat i)) = walkaddr s root (PGROUNDDOWN (va + of_nat i))"
      unfolding walkaddr_frame [OF s'(2) lt] walkaddr_frame [OF assms(1) lt] frame_of_def s'(3) [rule_format] ..
    then show ?thesis using assms(4) ub lt i u by (simp add: user_mapped_def)
  qed
  with s' ub show ?thesis by (intro that [of s']) auto
qed

text \<open>A table with two writable user pages, at \<open>0x3000\<close> and \<open>0x4000\<close>.\<close>

lemma user_ex:
  obtains s ps where "pt_inv s ps 0x80100000" "frames_ok s ps 0x80100000"
    "\<And>a. unat a < 2 ^ 38 \<Longrightarrow> vpn a = 3 \<or> vpn a = 4 \<Longrightarrow>
       user_mapped s 0x80100000 a \<and> pte_has (pmap (mem s) 0x80100000 (vpn a)) PTE_W"
proof -
  let ?r = "0x80100000 :: u64" and ?perm = "PTE_R OR PTE_W OR PTE_U"
  have v: "vpn 0x3000 = 3" by (simp add: PGSIZE_def)
  have "\<exists>s ps k. mappages vm_ex ?r 0x3000 (of_nat (2 * PGSIZE)) 0x90000000 ?perm = Ok (0, s) \<and>
     pt_inv s ps ?r \<and> k \<le> 2 * 2 \<and> ps = drop k vm_ex_free \<and>
     (\<forall>v<2 ^ 26. pmap (mem s) ?r v =
        (if vpn 0x3000 \<le> v \<and> v < vpn 0x3000 + 2 then PA2PTE (0x90000000 + of_nat ((v - vpn 0x3000) * PGSIZE)) OR ?perm OR PTE_V
         else pmap (mem vm_ex) ?r v))"
    by (rule mappages_ok [OF vm_ex_inv(1)]) (simp_all add: vm_ex_inv(2) vm_ex_free_def pte_has_def page_aligned_def PGSIZE_def)
  then obtain s ps k where inv: "pt_inv s ps ?r" and ps: "ps = drop k vm_ex_free"
    and pm: "\<And>v. v < 2 ^ 26 \<Longrightarrow> pmap (mem s) ?r v =
        (if 3 \<le> v \<and> v < 5 then PA2PTE (0x90000000 + of_nat ((v - 3) * PGSIZE)) OR ?perm OR PTE_V else 0)"
    unfolding v vm_ex_inv(2) by auto
  have fr: "frame_of (mem s) ?r v = (if v = 3 then Some 0x90000000 else if v = 4 then Some 0x90001000 else None)"
    if "v < 2 ^ 26" for v
  proof -
    have "v = 3 \<or> v = 4 \<or> \<not> (3 \<le> v \<and> v < 5)" by auto
    then show ?thesis
      by (elim disjE) (use pm [OF that] in \<open>simp_all add: frame_of_def PGSIZE_def pte_has_def PTE2PA_def PA2PTE_def pte_bits\<close>)
  qed
  have F: "F \<in> {0x90000000, 0x90001000}" if "v < 2 ^ 26" "frame_of (mem s) ?r v = Some F" for v F
    using fr [OF that(1)] that(2) by (auto split: if_splits)
  have no: "\<not> page_ok s F" if "F \<in> {0x90000000, 0x90001000}" for F
    using that by (auto simp: page_ok_def PHYSTOP_def KERNBASE_def)
  have fo: "frames_ok s ps ?r"
    unfolding frames_ok_def
  proof (intro conjI allI impI)
    fix v :: nat and G
    assume v: "v < 2 ^ 26" "frame_of (mem s) ?r v = Some G"
    note G = F [OF v]
    show "G \<noteq> 0" "page_aligned G" using G by (auto simp: page_aligned_def PGSIZE_def)
    show "G \<notin> set ps" using no [OF G] pt_invD(1) [OF inv] by (auto simp: kmem_inv_def)
    show "tbl (mem s) ?r p \<noteq> Some G" if "path_ok p" for p using no [OF G] pt_invD(2) [OF inv that, of G] by auto
  next
    fix v w :: nat and G
    assume "v < 2 ^ 26" "w < 2 ^ 26" "frame_of (mem s) ?r v = Some G" "frame_of (mem s) ?r w = Some G"
    then show "v = w" using fr [of v] fr [of w] by (auto split: if_splits)
  qed
  have mp: "user_mapped s ?r a \<and> pte_has (pmap (mem s) ?r (vpn a)) PTE_W" if "unat a < 2 ^ 38" "vpn a = 3 \<or> vpn a = 4" for a
  proof
    show "user_mapped s ?r a"
      using walkaddr_frame [OF inv that(1)] fr [of "vpn a"] that(2) by (auto simp: user_mapped_def)
    show "pte_has (pmap (mem s) ?r (vpn a)) PTE_W"
      using pm [of "vpn a"] that(2) by (auto simp: pte_has_def PA2PTE_def pte_bits PGSIZE_def)
  qed
  show ?thesis by (rule that [OF inv fo mp])
qed

lemma user_ex_copyout:
  assumes "length bs = 3"
  shows "\<exists>s ps. pt_inv s ps 0x80100000 \<and> frames_ok s ps 0x80100000 \<and> (\<forall>i<length bs. user_mapped s 0x80100000 (0x3fff + of_nat i) \<and>
        pte_has (pmap (mem s) 0x80100000 (vpn (0x3fff + of_nat i))) PTE_W)"
proof -
  obtain s ps where s: "pt_inv s ps 0x80100000" "frames_ok s ps 0x80100000"
    and mp: "\<And>a. unat a < 2 ^ 38 \<Longrightarrow> vpn a = 3 \<or> vpn a = 4 \<Longrightarrow>
       user_mapped s 0x80100000 a \<and> pte_has (pmap (mem s) 0x80100000 (vpn a)) PTE_W"
    by (rule user_ex) blast
  have "user_mapped s 0x80100000 (0x3fff + of_nat i) \<and> pte_has (pmap (mem s) 0x80100000 (vpn (0x3fff + of_nat i))) PTE_W"
    if "i < length bs" for i
  proof -
    have "i = 0 \<or> i = 1 \<or> i = 2" using that assms by auto
    then show ?thesis by (intro mp) (auto simp: PGSIZE_def)
  qed
  with s show ?thesis by blast
qed

subsection \<open>Properties of the copies\<close>

text \<open>
  C33: what \<open>copyout\<close> writes is what \<open>copyin\<close> reads back, across page boundaries. On a range of mapped,
  writable user pages \<open>copyout\<close> succeeds and leaves the page table as it was, a \<open>copyin\<close> of the range
  then gives the bytes written, and every user byte outside the range keeps its value.
\<close>

theorem copyout_copyin:
  assumes "pt_inv s ps root" "frames_ok s ps root" "unat va + length src \<le> 2 ^ 38"
    and "\<forall>i<length src. user_mapped s root (va + of_nat i) \<and> pte_has (pmap (mem s) root (vpn (va + of_nat i))) PTE_W"
  shows "\<exists>s'. copyout s psz ppt root va src = Ok (0, s') \<and> pt_inv s' ps root \<and>
    copyin s' psz ppt root va (length src) = Ok (Some src, s') \<and>
    (\<forall>n. pmap (mem s') root n = pmap (mem s) root n) \<and>
    (\<forall>a. unat a < 2 ^ 38 \<longrightarrow> user_mapped s root a \<longrightarrow> \<not> (unat va \<le> unat a \<and> unat a < unat va + length src) \<longrightarrow>
       user_byte s' root a = user_byte s root a)"
proof -
  obtain s' where s': "copyout s psz ppt root va src = Ok (0, s')" "pt_inv s' ps root"
    "\<forall>n. pmap (mem s') root n = pmap (mem s) root n"
    and ub: "\<And>i. i < length src \<Longrightarrow> user_mapped s' root (va + of_nat i) \<and> user_byte s' root (va + of_nat i) = src ! i"
    "\<And>a. unat a < 2 ^ 38 \<Longrightarrow> user_mapped s root a \<Longrightarrow> \<not> (unat va \<le> unat a \<and> unat a < unat va + length src) \<Longrightarrow>
       user_byte s' root a = user_byte s root a"
    by (rule copyout_bytes [OF assms, of psz ppt]) blast
  have "map (\<lambda>i. user_byte s' root (va + of_nat i)) [0..<length src] = src"
    using ub(1) by (intro nth_equalityI) simp_all
  then have "copyin s' psz ppt root va (length src) = Ok (Some src, s')"
    using copyin_mapped [of "length src" s' root va psz ppt] ub(1) by simp
  with s' ub(2) show ?thesis by blast
qed

theorem copyout_copyin_witness:
  "\<exists>s s'. copyout s 0 0 0x80100000 0x3fff [7, 8, 9] = Ok (0, s') \<and>
     copyin s' 0 0 0x80100000 0x3fff 3 = Ok (Some [7, 8, 9], s')"
proof -
  obtain s ps where s: "pt_inv s ps 0x80100000" "frames_ok s ps 0x80100000"
      "\<forall>i<length [7, 8, 9 :: u8]. user_mapped s 0x80100000 (0x3fff + of_nat i) \<and>
        pte_has (pmap (mem s) 0x80100000 (vpn (0x3fff + of_nat i))) PTE_W"
    using user_ex_copyout [of "[7, 8, 9]"] by auto
  have "\<exists>s'. copyout s 0 0 0x80100000 0x3fff [7, 8, 9] = Ok (0, s') \<and>
      copyin s' 0 0 0x80100000 0x3fff (length [7, 8, 9 :: u8]) = Ok (Some [7, 8, 9], s')"
    using copyout_copyin [OF s(1,2) _ s(3), of 0 0] by auto
  then show ?thesis by (simp add: numeral_3_eq_3) blast
qed

text \<open>
  C34: \<open>copyinstr\<close> returns a string exactly when the user memory at the address holds it: every byte up
  to and including the terminating zero is mapped, the zero is among the first \<open>max\<close> bytes, and none
  of the bytes before it is zero. In every other case it reports an error.
\<close>

theorem copyinstr_correct:
  "copyinstr s pt va mx = Some bs \<longleftrightarrow>
     length bs < mx \<and> (\<forall>i\<le>length bs. user_mapped s pt (va + of_nat i)) \<and>
     (\<forall>i<length bs. user_byte s pt (va + of_nat i) = bs ! i \<and> bs ! i \<noteq> 0) \<and>
     user_byte s pt (va + of_nat (length bs)) = 0"
  unfolding copyinstr_iff user_string_def str_in_def ..

theorem copyinstr_correct_witness:
  "\<exists>s. copyinstr s 0x80100000 0x3fff 16 = Some [104, 105]"
proof -
  obtain s ps where s: "pt_inv s ps 0x80100000" "frames_ok s ps 0x80100000"
      "\<forall>i<length [104, 105, 0 :: u8]. user_mapped s 0x80100000 (0x3fff + of_nat i) \<and>
        pte_has (pmap (mem s) 0x80100000 (vpn (0x3fff + of_nat i))) PTE_W"
    using user_ex_copyout [of "[104, 105, 0]"] by auto
  obtain s' where s': "\<And>i. i < length [104, 105, 0 :: u8] \<Longrightarrow> user_mapped s' 0x80100000 (0x3fff + of_nat i) \<and>
      user_byte s' 0x80100000 (0x3fff + of_nat i) = [104, 105, 0] ! i"
    using copyout_bytes [OF s(1,2) _ s(3), of 0 0 thesis] by fastforce
  have "copyinstr s' 0x80100000 0x3fff 16 = Some [104, 105]"
    unfolding copyinstr_correct
  proof (intro conjI allI impI)
    show "user_mapped s' 0x80100000 (0x3fff + of_nat i)" if "i \<le> length [104, 105 :: u8]" for i using s' [of i] that by simp
    show "user_byte s' 0x80100000 (0x3fff + of_nat i) = [104, 105] ! i" if "i < length [104, 105 :: u8]" for i
      using s' [of i] that by (auto simp: less_Suc_eq)
    show "user_byte s' 0x80100000 (0x3fff + of_nat (length [104, 105 :: u8])) = 0" using s' [of 2] by simp
  qed (auto simp: less_Suc_eq)
  then show ?thesis by blast
qed

end
