(* ===== verification/Sched.thy ===== *)
theory Sched
  imports UserMem
begin

text \<open>
  The process table (\<open>kernel/proc.h\<close>), the primitives of \<open>kernel/proc.c\<close> that only touch it
  (process ids, \<open>sleep\<close>, \<open>wakeup\<close>, \<open>kkill\<close>, \<open>killed\<close>, \<open>yield\<close>, the scheduler's choice)
  and sleep locks (\<open>kernel/sleeplock.c\<close>).

  A process is its index in the table; \<open>myproc()\<close> is an index argument \<open>me\<close>. Registers saved in a
  trap frame are kept where the source keeps them, in the page that \<open>p->trapframe\<close> points to.
  A critical section under a process's lock is one step.
\<close>

section \<open>Definitions\<close>

subsection \<open>The structures of proc.h\<close>

datatype procstate = UNUSED | USED | SLEEPING | RUNNABLE | RUNNING | ZOMBIE

datatype tfreg =
    Tkernel_satp | Tkernel_sp | Tkernel_trap | Tepc | Tkernel_hartid | Tra | Tsp | Tgp | Ttp
  | Tt0 | Tt1 | Tt2 | Ts0 | Ts1 | Ta0 | Ta1 | Ta2 | Ta3 | Ta4 | Ta5 | Ta6 | Ta7
  | Ts2 | Ts3 | Ts4 | Ts5 | Ts6 | Ts7 | Ts8 | Ts9 | Ts10 | Ts11 | Tt3 | Tt4 | Tt5 | Tt6

fun tf_index :: "tfreg \<Rightarrow> nat" where
  "tf_index Tkernel_satp = 0" | "tf_index Tkernel_sp = 1" | "tf_index Tkernel_trap = 2"
| "tf_index Tepc = 3" | "tf_index Tkernel_hartid = 4" | "tf_index Tra = 5" | "tf_index Tsp = 6"
| "tf_index Tgp = 7" | "tf_index Ttp = 8" | "tf_index Tt0 = 9" | "tf_index Tt1 = 10"
| "tf_index Tt2 = 11" | "tf_index Ts0 = 12" | "tf_index Ts1 = 13" | "tf_index Ta0 = 14"
| "tf_index Ta1 = 15" | "tf_index Ta2 = 16" | "tf_index Ta3 = 17" | "tf_index Ta4 = 18"
| "tf_index Ta5 = 19" | "tf_index Ta6 = 20" | "tf_index Ta7 = 21" | "tf_index Ts2 = 22"
| "tf_index Ts3 = 23" | "tf_index Ts4 = 24" | "tf_index Ts5 = 25" | "tf_index Ts6 = 26"
| "tf_index Ts7 = 27" | "tf_index Ts8 = 28" | "tf_index Ts9 = 29" | "tf_index Ts10 = 30"
| "tf_index Ts11 = 31" | "tf_index Tt3 = 32" | "tf_index Tt4 = 33" | "tf_index Tt5 = 34"
| "tf_index Tt6 = 35"

definition tf_get :: "memory \<Rightarrow> u64 \<Rightarrow> tfreg \<Rightarrow> u64" where
  "tf_get m trapframe r = load64 m (trapframe + 8 * of_nat (tf_index r))"

definition tf_set :: "memory \<Rightarrow> u64 \<Rightarrow> tfreg \<Rightarrow> u64 \<Rightarrow> memory" where
  "tf_set m trapframe r v = store64 m (trapframe + 8 * of_nat (tf_index r)) v"

definition TRAPFRAME_SIZE :: nat where "TRAPFRAME_SIZE = 288"

record kcontext =
  ctx_ra :: u64
  ctx_sp :: u64
  ctx_s :: "u64 list"

definition NOFILE :: nat where [param_defs]: "NOFILE = 16"

record proc =
  p_state :: procstate
  p_chan :: "chan option"
  p_killed :: int
  p_xstate :: int
  p_pid :: int
  p_parent :: "nat option"
  p_kstack :: u64
  p_sz :: u64
  p_pagetable :: u64
  p_trapframe :: u64
  p_context :: kcontext
  p_ofile :: "nat option list"
  p_cwd :: "nat option"
  p_name :: "u8 list"
  p_tracing :: int

text \<open>The part of the kernel's state that the process primitives share: physical memory, the table,
  \<open>nextpid\<close>, \<open>initproc\<close> and \<open>ticks\<close>. The components above extend it.\<close>

record pst =
  km :: kmem
  procs :: "proc list"
  nextpid :: int
  initproc :: "nat option"
  ticks :: u32

definition set_proc :: "'a pst_scheme \<Rightarrow> nat \<Rightarrow> (proc \<Rightarrow> proc) \<Rightarrow> 'a pst_scheme" where
  "set_proc s i f = s\<lparr>procs := (procs s)[i := f (procs s ! i)]\<rparr>"

definition set_km :: "'a pst_scheme \<Rightarrow> kmem \<Rightarrow> 'a pst_scheme" where
  "set_km s k = s\<lparr>km := k\<rparr>"

definition procinit_proc :: "nat \<Rightarrow> proc \<Rightarrow> proc" where
  "procinit_proc i p = p\<lparr>p_state := UNUSED, p_kstack := KSTACK i\<rparr>"

definition procinit :: "'a pst_scheme \<Rightarrow> 'a pst_scheme" where
  "procinit s = s\<lparr>procs := map (\<lambda>i. procinit_proc i (procs s ! i)) [0..<NPROC]\<rparr>"

definition allocpid :: "'a pst_scheme \<Rightarrow> int \<times> 'a pst_scheme" where
  "allocpid s = (nextpid s, s\<lparr>nextpid := nextpid s + 1\<rparr>)"

subsection \<open>Sleeping and waking\<close>

text \<open>\<open>sleep\<close> in two halves: up to its \<open>sched\<close>, and after the process runs again.\<close>

definition sleep_enter :: "'a pst_scheme \<Rightarrow> nat \<Rightarrow> chan \<Rightarrow> 'a pst_scheme" where
  "sleep_enter s me ch = set_proc s me (\<lambda>p. p\<lparr>p_chan := Some ch, p_state := SLEEPING\<rparr>)"

definition sleep_exit :: "'a pst_scheme \<Rightarrow> nat \<Rightarrow> 'a pst_scheme" where
  "sleep_exit s me = set_proc s me (\<lambda>p. p\<lparr>p_chan := None\<rparr>)"

definition wakeup :: "'a pst_scheme \<Rightarrow> nat option \<Rightarrow> chan \<Rightarrow> 'a pst_scheme" where
  "wakeup s me ch =
     s\<lparr>procs := map (\<lambda>i. let p = procs s ! i in
         if Some i \<noteq> me \<and> p_state p = SLEEPING \<and> p_chan p = Some ch then p\<lparr>p_state := RUNNABLE\<rparr> else p)
       [0..<length (procs s)]\<rparr>"

definition kkill :: "'a pst_scheme \<Rightarrow> int \<Rightarrow> int \<times> 'a pst_scheme" where
  "kkill s pid =
     (case find_index (\<lambda>p. p_pid p = pid) (procs s) of
        None \<Rightarrow> (-1, s)
      | Some i \<Rightarrow> (0, set_proc s i (\<lambda>p. p\<lparr>p_killed := 1,
                      p_state := if p_state p = SLEEPING then RUNNABLE else p_state p\<rparr>)))"

definition setkilled :: "'a pst_scheme \<Rightarrow> nat \<Rightarrow> 'a pst_scheme" where
  "setkilled s i = set_proc s i (\<lambda>p. p\<lparr>p_killed := 1\<rparr>)"

definition killed :: "'a pst_scheme \<Rightarrow> nat \<Rightarrow> int" where
  "killed s i = p_killed (procs s ! i)"

subsection \<open>Giving up the CPU\<close>

text \<open>The checks of \<open>sched\<close>; what follows them is the switch to the scheduler.\<close>

definition sched :: "bool \<Rightarrow> int \<Rightarrow> bool \<Rightarrow> 'a pst_scheme \<Rightarrow> nat \<Rightarrow> 'a pst_scheme res" where
  "sched holding_p noff_c intr s me =
     (if \<not> holding_p then Panic ''sched p->lock''
      else if noff_c \<noteq> 1 then Panic ''sched locks''
      else if p_state (procs s ! me) = RUNNING then Panic ''sched RUNNING''
      else if intr then Panic ''sched interruptible''
      else Ok s)"

definition yield :: "'a pst_scheme \<Rightarrow> nat \<Rightarrow> 'a pst_scheme res" where
  "yield s me = sched True 1 False (set_proc s me (\<lambda>p. p\<lparr>p_state := RUNNABLE\<rparr>)) me"

text \<open>One turn of the scheduler's scan at table index \<open>i\<close>: a runnable process is chosen.\<close>

definition scheduler_pick :: "'a pst_scheme \<Rightarrow> nat \<Rightarrow> 'a pst_scheme option" where
  "scheduler_pick s i =
     (if p_state (procs s ! i) = RUNNABLE
      then Some (set_proc s i (\<lambda>p. p\<lparr>p_state := RUNNING\<rparr>)) else None)"

subsection \<open>Copying to and from the caller's buffer\<close>

text \<open>
  The destination of a read: a user address (\<open>user_dst = 1\<close>), a kernel address in physical memory,
  or a kernel variable, whose new contents are the bytes the operation reports. Likewise the source
  of a write.
\<close>

datatype dst = UserDst u64 | KernDst u64 | BufDst
datatype src = UserSrc u64 | KernSrc u64 | BufSrc "u8 list"

fun dst_add :: "dst \<Rightarrow> nat \<Rightarrow> dst" where
  "dst_add (UserDst a) n = UserDst (a + of_nat n)"
| "dst_add (KernDst a) n = KernDst (a + of_nat n)"
| "dst_add BufDst n = BufDst"

fun src_add :: "src \<Rightarrow> nat \<Rightarrow> src" where
  "src_add (UserSrc a) n = UserSrc (a + of_nat n)"
| "src_add (KernSrc a) n = KernSrc (a + of_nat n)"
| "src_add (BufSrc bs) n = BufSrc (drop n bs)"

definition copyout_proc :: "'a pst_scheme \<Rightarrow> nat \<Rightarrow> u64 \<Rightarrow> u8 list \<Rightarrow> (int \<times> 'a pst_scheme) res" where
  "copyout_proc s me va bs =
     (let p = procs s ! me in
      bnd (copyout (km s) (p_sz p) (p_pagetable p) (p_pagetable p) va bs) (\<lambda>(r, k). Ok (r, set_km s k)))"

definition copyin_proc :: "'a pst_scheme \<Rightarrow> nat \<Rightarrow> u64 \<Rightarrow> nat \<Rightarrow> (u8 list option \<times> 'a pst_scheme) res" where
  "copyin_proc s me va n =
     (let p = procs s ! me in
      bnd (copyin (km s) (p_sz p) (p_pagetable p) (p_pagetable p) va n) (\<lambda>(r, k). Ok (r, set_km s k)))"

fun either_copyout :: "'a pst_scheme \<Rightarrow> nat \<Rightarrow> dst \<Rightarrow> u8 list \<Rightarrow> (int \<times> 'a pst_scheme) res" where
  "either_copyout s me (UserDst a) bs = copyout_proc s me a bs"
| "either_copyout s me (KernDst a) bs = Ok (0, set_km s ((km s)\<lparr>mem := write_bytes (mem (km s)) a bs\<rparr>))"
| "either_copyout s me BufDst bs = Ok (0, s)"

fun either_copyin :: "'a pst_scheme \<Rightarrow> nat \<Rightarrow> src \<Rightarrow> nat \<Rightarrow> (u8 list option \<times> 'a pst_scheme) res" where
  "either_copyin s me (UserSrc a) n = copyin_proc s me a n"
| "either_copyin s me (KernSrc a) n = Ok (Some (bytes_at (mem (km s)) a n), s)"
| "either_copyin s me (BufSrc bs) n = Ok (Some (take n bs), s)"

subsection \<open>Sleep locks\<close>

record sleeplock =
  sl_locked :: bool
  sl_name :: string
  sl_pid :: int

definition initsleeplock :: "string \<Rightarrow> sleeplock" where
  "initsleeplock name = \<lparr>sl_locked = False, sl_name = name, sl_pid = 0\<rparr>"

text \<open>\<open>acquiresleep\<close> waits while the lock is held: \<open>Blocks\<close>, on the lock's own channel.\<close>

definition acquiresleep :: "'a pst_scheme \<Rightarrow> nat \<Rightarrow> chan \<Rightarrow> sleeplock \<Rightarrow> sleeplock res" where
  "acquiresleep s me ch lk =
     (if sl_locked lk then Blocks ch
      else Ok (lk\<lparr>sl_locked := True, sl_pid := p_pid (procs s ! me)\<rparr>))"

definition releasesleep ::
    "'a pst_scheme \<Rightarrow> nat \<Rightarrow> chan \<Rightarrow> sleeplock \<Rightarrow> sleeplock \<times> 'a pst_scheme" where
  "releasesleep s me ch lk = (lk\<lparr>sl_locked := False, sl_pid := 0\<rparr>, wakeup s (Some me) ch)"

definition holdingsleep :: "'a pst_scheme \<Rightarrow> nat \<Rightarrow> sleeplock \<Rightarrow> bool" where
  "holdingsleep s me lk \<longleftrightarrow> sl_locked lk \<and> sl_pid lk = p_pid (procs s ! me)"

section \<open>Trap frames in memory\<close>

definition tf_regs :: "tfreg list" where
  "tf_regs = [Tkernel_satp, Tkernel_sp, Tkernel_trap, Tepc, Tkernel_hartid, Tra, Tsp, Tgp, Ttp,
     Tt0, Tt1, Tt2, Ts0, Ts1, Ta0, Ta1, Ta2, Ta3, Ta4, Ta5, Ta6, Ta7,
     Ts2, Ts3, Ts4, Ts5, Ts6, Ts7, Ts8, Ts9, Ts10, Ts11, Tt3, Tt4, Tt5, Tt6]"

lemma tf_regs_index: "tf_regs ! tf_index r = r" "tf_index r < 36"
  by (cases r; simp add: tf_regs_def)+

lemma tf_index_inj: "tf_index r = tf_index q \<Longrightarrow> r = q"
  by (metis tf_regs_index(1))

lemma tf_get_set [simp]: "tf_get (tf_set m tf r v) tf r = v"
  by (simp add: tf_get_def tf_set_def)

lemma tf_get_set_other [simp]:
  assumes "r \<noteq> q"
  shows "tf_get (tf_set m tf r v) tf q = tf_get m tf q"
  unfolding tf_get_def tf_set_def
  using assms tf_regs_index(2) tf_index_inj by (intro load64_store64_apart slot_apart) (auto intro: less_trans [of _ 36])

end
