(* ===== verification/Bio.thy ===== *)
theory Bio
  imports Sched
begin

text \<open>
  The buffer cache (\<open>kernel/bio.c\<close>, \<open>kernel/buf.h\<close>). The thirty buffers and the list head are
  one table of structures linked by \<open>prev\<close>/\<open>next\<close> indices, the head being the last entry, and
  \<open>brelse\<close> does the pointer surgery of the source. The disk is a map from block numbers to
  blocks; a transfer (\<open>virtio_disk_rw\<close>) is synchronous, as it is for its caller, which sleeps until
  the device is done. \<open>wtrace\<close> records the blocks written, in order, for the crash argument of
  theory \<open>Log\<close>.
\<close>

section \<open>Definitions\<close>

type_synonym blk = "u8 list"

definition BSIZE :: nat where [param_defs]: "BSIZE = 1024"
definition MAXOPBLOCKS :: nat where [param_defs]: "MAXOPBLOCKS = 10"
definition LOGBLOCKS :: nat where [param_defs]: "LOGBLOCKS = MAXOPBLOCKS * 3"
definition NBUF :: nat where [param_defs]: "NBUF = MAXOPBLOCKS * 3"
definition ROOTDEV :: nat where [param_defs]: "ROOTDEV = 1"

record buf =
  b_valid :: bool
  b_disk :: bool
  b_dev :: nat
  b_blockno :: nat
  b_lock :: sleeplock
  b_refcnt :: u32
  b_prev :: nat
  b_next :: nat
  b_data :: blk

record bst = pst +
  bufs :: "buf list"
  disk :: "nat \<Rightarrow> blk"
  wtrace :: "(nat \<times> blk) list"

text \<open>The index of \<open>bcache.head\<close>.\<close>

definition HEAD :: nat where "HEAD = NBUF"

definition set_buf :: "'a bst_scheme \<Rightarrow> nat \<Rightarrow> (buf \<Rightarrow> buf) \<Rightarrow> 'a bst_scheme" where
  "set_buf s i f = s\<lparr>bufs := (bufs s)[i := f (bufs s ! i)]\<rparr>"

text \<open>Linking a buffer right after the head, the last four assignments of \<open>brelse\<close> and the body of
  \<open>binit\<close>'s loop.\<close>

definition link_first :: "buf list \<Rightarrow> nat \<Rightarrow> buf list" where
  "link_first bs i =
     (let first = b_next (bs ! HEAD);
          bs = bs[i := (bs ! i)\<lparr>b_next := first, b_prev := HEAD\<rparr>];
          bs = bs[first := (bs ! first)\<lparr>b_prev := i\<rparr>]
      in bs[HEAD := (bs ! HEAD)\<lparr>b_next := i\<rparr>])"

definition unlink :: "buf list \<Rightarrow> nat \<Rightarrow> buf list" where
  "unlink bs i =
     (let nx = b_next (bs ! i);
          bs = bs[nx := (bs ! nx)\<lparr>b_prev := b_prev (bs ! i)\<rparr>];
          pv = b_prev (bs ! i)
      in bs[pv := (bs ! pv)\<lparr>b_next := b_next (bs ! i)\<rparr>])"

definition zero_buf :: buf where
  "zero_buf = \<lparr>b_valid = False, b_disk = False, b_dev = 0, b_blockno = 0,
     b_lock = \<lparr>sl_locked = False, sl_name = [], sl_pid = 0\<rparr>, b_refcnt = 0, b_prev = 0, b_next = 0,
     b_data = replicate BSIZE 0\<rparr>"

definition binit :: "'a bst_scheme \<Rightarrow> 'a bst_scheme" where
  "binit s =
     (let bs = replicate NBUF zero_buf @ [zero_buf\<lparr>b_prev := HEAD, b_next := HEAD\<rparr>]
      in s\<lparr>bufs := fold (\<lambda>i bs. link_first (bs[i := (bs ! i)\<lparr>b_lock := initsleeplock ''buffer''\<rparr>]) i)
                     [0..<NBUF] bs\<rparr>)"

text \<open>A scan of the list from \<open>i\<close> along \<open>link\<close>, stopping at the head. The fuel bounds the steps;
  the list has \<open>NBUF\<close> buffers.\<close>

fun bscan :: "(buf \<Rightarrow> nat) \<Rightarrow> (buf \<Rightarrow> bool) \<Rightarrow> buf list \<Rightarrow> nat \<Rightarrow> nat \<Rightarrow> nat option" where
  "bscan link P bs 0 i = None"
| "bscan link P bs (Suc n) i =
     (if i = HEAD then None
      else if P (bs ! i) then Some i
      else bscan link P bs n (link (bs ! i)))"

definition lock_buf :: "'a bst_scheme \<Rightarrow> nat \<Rightarrow> nat \<Rightarrow> (nat \<times> 'a bst_scheme) res" where
  "lock_buf s me i =
     bnd (acquiresleep s me (ChBuf i) (b_lock (bufs s ! i)))
       (\<lambda>lk. Ok (i, set_buf s i (\<lambda>b. b\<lparr>b_lock := lk\<rparr>)))"

definition bget :: "'a bst_scheme \<Rightarrow> nat \<Rightarrow> nat \<Rightarrow> nat \<Rightarrow> (nat \<times> 'a bst_scheme) res" where
  "bget s me dev blockno =
     (case bscan b_next (\<lambda>b. b_dev b = dev \<and> b_blockno b = blockno) (bufs s) (Suc NBUF)
             (b_next (bufs s ! HEAD)) of
        Some i \<Rightarrow> lock_buf (set_buf s i (\<lambda>b. b\<lparr>b_refcnt := b_refcnt b + 1\<rparr>)) me i
      | None \<Rightarrow>
          (case bscan b_prev (\<lambda>b. b_refcnt b = 0) (bufs s) (Suc NBUF) (b_prev (bufs s ! HEAD)) of
             Some i \<Rightarrow> lock_buf (set_buf s i (\<lambda>b. b\<lparr>b_dev := dev, b_blockno := blockno,
                          b_valid := False, b_refcnt := 1\<rparr>)) me i
           | None \<Rightarrow> Panic ''bget: no buffers''))"

text \<open>A transfer between a buffer and the disk.\<close>

definition virtio_rw :: "'a bst_scheme \<Rightarrow> nat \<Rightarrow> bool \<Rightarrow> 'a bst_scheme" where
  "virtio_rw s i wr =
     (let b = bufs s ! i in
      if wr then s\<lparr>disk := (disk s)(b_blockno b := b_data b), wtrace := wtrace s @ [(b_blockno b, b_data b)]\<rparr>
      else set_buf s i (\<lambda>b. b\<lparr>b_data := disk s (b_blockno b)\<rparr>))"

definition bread :: "'a bst_scheme \<Rightarrow> nat \<Rightarrow> nat \<Rightarrow> nat \<Rightarrow> (nat \<times> 'a bst_scheme) res" where
  "bread s me dev blockno =
     bnd (bget s me dev blockno) (\<lambda>(i, s).
       if b_valid (bufs s ! i) then Ok (i, s)
       else Ok (i, set_buf (virtio_rw s i False) i (\<lambda>b. b\<lparr>b_valid := True\<rparr>)))"

definition bwrite :: "'a bst_scheme \<Rightarrow> nat \<Rightarrow> nat \<Rightarrow> 'a bst_scheme res" where
  "bwrite s me i =
     (if \<not> holdingsleep s me (b_lock (bufs s ! i)) then Panic ''bwrite''
      else Ok (virtio_rw s i True))"

definition brelse :: "'a bst_scheme \<Rightarrow> nat \<Rightarrow> nat \<Rightarrow> 'a bst_scheme res" where
  "brelse s me i =
     (if \<not> holdingsleep s me (b_lock (bufs s ! i)) then Panic ''brelse''
      else case releasesleep s me (ChBuf i) (b_lock (bufs s ! i)) of (lk, s) \<Rightarrow>
        let s = set_buf s i (\<lambda>b. b\<lparr>b_lock := lk\<rparr>);
            s = set_buf s i (\<lambda>b. b\<lparr>b_refcnt := b_refcnt b - 1\<rparr>)
        in if b_refcnt (bufs s ! i) = 0
           then Ok (s\<lparr>bufs := link_first (unlink (bufs s) i) i\<rparr>)
           else Ok s)"

definition bpin :: "'a bst_scheme \<Rightarrow> nat \<Rightarrow> 'a bst_scheme" where
  "bpin s i = set_buf s i (\<lambda>b. b\<lparr>b_refcnt := b_refcnt b + 1\<rparr>)"

definition bunpin :: "'a bst_scheme \<Rightarrow> nat \<Rightarrow> 'a bst_scheme" where
  "bunpin s i = set_buf s i (\<lambda>b. b\<lparr>b_refcnt := b_refcnt b - 1\<rparr>)"

definition set_data :: "'a bst_scheme \<Rightarrow> nat \<Rightarrow> (blk \<Rightarrow> blk) \<Rightarrow> 'a bst_scheme" where
  "set_data s i f = set_buf s i (\<lambda>b. b\<lparr>b_data := f (b_data b)\<rparr>)"

abbreviation data_of :: "'a bst_scheme \<Rightarrow> nat \<Rightarrow> blk" where
  "data_of s i \<equiv> b_data (bufs s ! i)"

subsection \<open>Integers in a block (little endian)\<close>

definition get16 :: "blk \<Rightarrow> nat \<Rightarrow> nat" where
  "get16 b o1 = unat (b ! o1) + 256 * unat (b ! (o1 + 1))"

definition put16 :: "blk \<Rightarrow> nat \<Rightarrow> nat \<Rightarrow> blk" where
  "put16 b o1 v = b[o1 := of_nat v, o1 + 1 := of_nat (v div 256)]"

definition get32 :: "blk \<Rightarrow> nat \<Rightarrow> nat" where
  "get32 b o1 = get16 b o1 + 65536 * get16 b (o1 + 2)"

definition put32 :: "blk \<Rightarrow> nat \<Rightarrow> nat \<Rightarrow> blk" where
  "put32 b o1 v = put16 (put16 b o1 v) (o1 + 2) (v div 65536)"

section \<open>Integers in a block\<close>

lemma unat_byte [simp]: "unat (of_nat v :: u8) = v mod 256"
  by (simp add: unat_of_nat)

lemma put_length [simp]: "length (put16 b p v) = length b" "length (put32 b p v) = length b"
  by (simp_all add: put16_def put32_def)

lemma get16_put16:
  "p + 1 < length b \<Longrightarrow> get16 (put16 b p v) p = v mod 65536"
  "q + 1 < p \<or> p + 1 < q \<Longrightarrow> get16 (put16 b p v) q = get16 b q"
proof -
  have "v mod 65536 = v mod 256 + 256 * (v div 256 mod 256)" using mod_mult2_eq [of v 256 256] by simp
  then show "p + 1 < length b \<Longrightarrow> get16 (put16 b p v) p = v mod 65536" by (simp add: get16_def put16_def)
  show "q + 1 < p \<or> p + 1 < q \<Longrightarrow> get16 (put16 b p v) q = get16 b q" by (auto simp: get16_def put16_def)
qed

lemma get32_put32:
  "p + 3 < length b \<Longrightarrow> get32 (put32 b p v) p = v mod 2 ^ 32"
  "q + 3 < p \<or> p + 3 < q \<Longrightarrow> get32 (put32 b p v) q = get32 b q"
proof -
  have "v mod 2 ^ 32 = v mod 65536 + 65536 * (v div 65536 mod 65536)" using mod_mult2_eq [of v 65536 65536] by simp
  then show "p + 3 < length b \<Longrightarrow> get32 (put32 b p v) p = v mod 2 ^ 32"
    by (simp add: get32_def put32_def get16_put16)
  show "q + 3 < p \<or> p + 3 < q \<Longrightarrow> get32 (put32 b p v) q = get32 b q"
    by (auto simp: get32_def put32_def get16_put16)
qed

lemma get16_put32: "q + 1 < p \<or> p + 3 < q \<Longrightarrow> get16 (put32 b p v) q = get16 b q"
  "q + 3 < p \<or> p + 1 < q \<Longrightarrow> get32 (put16 b p v) q = get32 b q"
  by (auto simp: get32_def put32_def get16_put16)

end
