(* ===== verification/BufCache.thy ===== *)
theory BufCache
  imports Bio
begin

text \<open>
  Correctness of the buffer cache of theory \<open>Bio\<close>. The ring of \<open>prev\<close>/\<open>next\<close> links is abstracted
  to the list of its buffers, on which \<open>bget\<close>'s scans are searches and \<open>brelse\<close> is a move to the
  front. On top of it the cache is abstracted to the contents, references and owner of each block
  (record \<open>cache\<close>); the locale \<open>block_cache\<close> is what its clients rely on, with the read-modify-write
  cycles of the log proved once inside it, and the interpretation \<open>bc\<close> shows that the code provides it.
\<close>

section \<open>The list of buffers\<close>

text \<open>\<open>adj bs xs\<close>: neighbours in \<open>xs\<close> are linked both ways. The cache is the ring through the head;
  \<open>lru bs xs\<close> gives its buffers from the most to the least recently used.\<close>

fun adj :: "buf list \<Rightarrow> nat list \<Rightarrow> bool" where
  "adj bs (a # b # cs) = (b_next (bs ! a) = b \<and> b_prev (bs ! b) = a \<and> adj bs (b # cs))"
| "adj bs _ = True"

definition lru :: "buf list \<Rightarrow> nat list \<Rightarrow> bool" where
  "lru bs xs \<longleftrightarrow> length bs = Suc NBUF \<and> distinct xs \<and> set xs = {..<NBUF} \<and> adj bs (HEAD # xs @ [HEAD])"

lemma adj_Cons: "adj bs (a # xs) \<longleftrightarrow> xs = [] \<or> b_next (bs ! a) = hd xs \<and> b_prev (bs ! hd xs) = a \<and> adj bs xs"
  by (cases xs) auto

lemma adj_append: "adj bs (us @ a # vs) \<longleftrightarrow> adj bs (us @ [a]) \<and> adj bs (a # vs)"
proof (induction us)
  case (Cons u us)
  then show ?case by (cases us) (auto simp: adj_Cons)
qed simp

lemma adj_join: "adj bs xs \<Longrightarrow> adj bs (last xs # ys) \<Longrightarrow> xs \<noteq> [] \<Longrightarrow> adj bs (xs @ ys)"
  using adj_append [of bs "butlast xs" "last xs" ys] by (metis append_Cons append_Nil append_assoc append_butlast_last_id)

lemma adj_cong:
  assumes "adj bs xs" "\<And>x. x \<in> set (butlast xs) \<Longrightarrow> b_next (cs ! x) = b_next (bs ! x)"
    "\<And>x. x \<in> set (tl xs) \<Longrightarrow> b_prev (cs ! x) = b_prev (bs ! x)"
  shows "adj cs xs"
  using assms
proof (induction xs)
  case (Cons a xs)
  show ?case
  proof (cases xs)
    case (Cons b ys)
    then have "adj cs xs" using Cons.prems by (intro Cons.IH) auto
    then show ?thesis using Cons Cons.prems by auto
  qed simp
qed simp

lemma bscan_next:
  assumes "adj bs (a # xs @ [HEAD])" "HEAD \<notin> set xs" "length xs < n"
  shows "bscan b_next P bs n (b_next (bs ! a)) = find (\<lambda>i. P (bs ! i)) xs"
  using assms
proof (induction xs arbitrary: a n)
  case Nil
  then show ?case by (cases n) auto
next
  case (Cons x xs)
  then show ?case by (cases n) auto
qed

lemma bscan_prev:
  assumes "adj bs (HEAD # xs @ [a])" "HEAD \<notin> set xs" "length xs < n"
  shows "bscan b_prev P bs n (b_prev (bs ! a)) = find (\<lambda>i. P (bs ! i)) (rev xs)"
  using assms
proof (induction xs arbitrary: a n rule: rev_induct)
  case Nil
  then show ?case by (cases n) auto
next
  case (snoc x xs)
  have "adj bs (HEAD # xs @ [x])" "b_prev (bs ! a) = x" using snoc.prems(1) adj_append [of bs "HEAD # xs" x "[a]"] by auto
  then show ?case using snoc by (cases n) auto
qed

declare bscan.simps(2) [simp del]

lemma HEAD_less: "i < NBUF \<Longrightarrow> i \<noteq> HEAD" "HEAD < Suc NBUF"
  by (simp_all add: HEAD_def)

lemma link_first_links:
  assumes "length bs = Suc NBUF" "i < NBUF" "b_next (bs ! HEAD) \<noteq> i" "b_next (bs ! HEAD) < Suc NBUF"
  shows "b_next (link_first bs i ! x) = (if x = i then b_next (bs ! HEAD) else if x = HEAD then i else b_next (bs ! x))"
    and "b_prev (link_first bs i ! x) = (if x = b_next (bs ! HEAD) then i else if x = i then HEAD else b_prev (bs ! x))"
  using assms HEAD_less by (auto simp: link_first_def Let_def nth_list_update)

lemma unlink_links:
  assumes "length bs = Suc NBUF" "i < NBUF" "b_next (bs ! i) \<noteq> i" "b_prev (bs ! i) \<noteq> i"
    "b_next (bs ! i) < Suc NBUF" "b_prev (bs ! i) < Suc NBUF"
  shows "b_next (unlink bs i ! x) = (if x = b_prev (bs ! i) then b_next (bs ! i) else b_next (bs ! x))"
    and "b_prev (unlink bs i ! x) = (if x = b_next (bs ! i) then b_prev (bs ! i) else b_prev (bs ! x))"
  using assms by (auto simp: unlink_def Let_def nth_list_update)

text \<open>A buffer without its links.\<close>

definition core :: "buf \<Rightarrow> buf" where
  "core b = b\<lparr>b_prev := 0, b_next := 0\<rparr>"

lemma core_fields:
  assumes "core b = core c"
  shows "b_valid b = b_valid c" "b_disk b = b_disk c" "b_dev b = b_dev c" "b_blockno b = b_blockno c"
    "b_lock b = b_lock c" "b_refcnt b = b_refcnt c" "b_data b = b_data c"
  using assms by (cases b, cases c, simp add: core_def)+

lemma core_links:
  "core (link_first bs i ! x) = core (bs ! x)" "core (unlink bs i ! x) = core (bs ! x)"
  "length (link_first bs i) = length bs" "length (unlink bs i) = length bs"
proof -
  have e: "core (bs[i := v] ! x) = core (bs ! x)" if "core v = core (bs ! i)" for bs :: "buf list" and i x v
    using that by (cases "i < length bs") (auto simp: nth_list_update list_update_beyond)
  have u: "core (b\<lparr>b_prev := p\<rparr>) = core b" "core (b\<lparr>b_next := p\<rparr>) = core b" for b p by (simp_all add: core_def)
  show "core (link_first bs i ! x) = core (bs ! x)" "core (unlink bs i ! x) = core (bs ! x)"
    unfolding link_first_def unlink_def Let_def by (simp_all add: e u)
  show "length (link_first bs i) = length bs" "length (unlink bs i) = length bs"
    by (simp_all add: link_first_def unlink_def Let_def)
qed

lemma adj_link_first:
  assumes "length bs = Suc NBUF" "adj bs (HEAD # ys @ [HEAD])" "i < NBUF" "i \<notin> set ys" "set ys \<subseteq> {..<NBUF}" "distinct ys"
  shows "adj (link_first bs i) (HEAD # i # ys @ [HEAD])"
proof -
  have f: "b_next (bs ! HEAD) = hd (ys @ [HEAD])" using assms(2) by (simp add: adj_Cons)
  then have f': "b_next (bs ! HEAD) \<noteq> i" "b_next (bs ! HEAD) < Suc NBUF"
    using assms HEAD_less by (cases ys; force)+
  note l = link_first_links [OF assms(1,3) f']
  have "adj (link_first bs i) (ys @ [HEAD])"
  proof (rule adj_cong)
    show "adj bs (ys @ [HEAD])" using assms(2) by (cases ys) auto
    show "b_next (link_first bs i ! x) = b_next (bs ! x)" if "x \<in> set (butlast (ys @ [HEAD]))" for x
      using that assms HEAD_less by (auto simp: l)
    show "b_prev (link_first bs i ! x) = b_prev (bs ! x)" if "x \<in> set (tl (ys @ [HEAD]))" for x
    proof -
      have "x \<noteq> hd (ys @ [HEAD])" using that assms(5,6) HEAD_less by (cases ys) auto
      moreover have "x \<noteq> i" using that assms(3,4) HEAD_less by (cases ys) auto
      ultimately show ?thesis using f by (simp add: l)
    qed
  qed
  then show ?thesis using f f' HEAD_less(1) [OF assms(3)] by (cases ys) (auto simp: l)
qed

lemma butlast_not_last: "distinct xs \<Longrightarrow> x \<in> set (butlast xs) \<Longrightarrow> x \<noteq> last xs"
  by (induction xs) (auto split: if_splits)

lemma adj_unlink:
  assumes "length bs = Suc NBUF" "adj bs (HEAD # us @ i # vs @ [HEAD])" "i < NBUF" "set us \<union> set vs \<subseteq> {..<NBUF}"
    "distinct (us @ i # vs)"
  shows "adj (unlink bs i) (HEAD # us @ vs @ [HEAD])"
proof -
  let ?p = "last (HEAD # us)" and ?n = "hd (vs @ [HEAD])"
  have p: "HEAD # us = butlast (HEAD # us) @ [?p]" and n: "vs @ [HEAD] = ?n # tl (vs @ [HEAD])" by (simp, cases vs) auto
  have a: "adj bs (HEAD # us)" "b_next (bs ! ?p) = i" "b_prev (bs ! i) = ?p" "b_next (bs ! i) = ?n" "adj bs (vs @ [HEAD])"
  proof -
    have "adj bs (HEAD # us @ [i])" "adj bs (i # vs @ [HEAD])" using assms(2) adj_append [of bs "HEAD # us" i "vs @ [HEAD]"] by auto
    moreover have "adj bs (HEAD # us @ [i]) \<longleftrightarrow> adj bs (HEAD # us) \<and> adj bs [?p, i]"
      using adj_append [of bs "butlast (HEAD # us)" ?p "[i]"] p by (metis append.assoc append_Cons append_Nil)
    ultimately show "adj bs (HEAD # us)" "b_next (bs ! ?p) = i" "b_prev (bs ! i) = ?p" "b_next (bs ! i) = ?n" "adj bs (vs @ [HEAD])"
      by (auto simp: adj_Cons)
  qed
  have pr: "?p \<in> set us \<or> ?p = HEAD" and nr: "?n \<in> set vs \<or> ?n = HEAD" by (auto simp: hd_append)
  have rng: "x < Suc NBUF" "x \<noteq> i" if "x \<in> set us \<or> x \<in> set vs \<or> x = HEAD" for x
    using that assms(3-5) HEAD_less(1) [OF assms(3)] HEAD_less(2) by (auto simp: less_Suc_eq)
  have pr2: "?p < Suc NBUF" "?p \<noteq> i" and nr2: "?n < Suc NBUF" "?n \<noteq> i" using pr nr rng by blast+
  note l = unlink_links [OF assms(1,3), unfolded a(3,4), OF nr2(2) pr2(2) nr2(1) pr2(1)]
  have "adj (unlink bs i) (HEAD # us)"
  proof (rule adj_cong [OF a(1)])
    show "b_next (unlink bs i ! x) = b_next (bs ! x)" if "x \<in> set (butlast (HEAD # us))" for x
    proof -
      have "distinct (HEAD # us)" using assms(4,5) HEAD_less by auto
      then have "x \<noteq> ?p" using that by (rule butlast_not_last)
      then show ?thesis by (simp add: l)
    qed
    show "b_prev (unlink bs i ! x) = b_prev (bs ! x)" if "x \<in> set (tl (HEAD # us))" for x
      using that nr assms(4,5) HEAD_less(1) [of x] by (auto simp: l)
  qed
  moreover have "adj (unlink bs i) (vs @ [HEAD])"
  proof (rule adj_cong [OF a(5)])
    show "b_next (unlink bs i ! x) = b_next (bs ! x)" if "x \<in> set (butlast (vs @ [HEAD]))" for x
      using that pr assms(4,5) HEAD_less(1) [of x] by (auto simp: l)
    show "b_prev (unlink bs i ! x) = b_prev (bs ! x)" if "x \<in> set (tl (vs @ [HEAD]))" for x
    proof -
      have "distinct (vs @ [HEAD])" using assms(4,5) HEAD_less by auto
      then have "x \<noteq> ?n" using that by (cases vs) auto
      then show ?thesis by (simp add: l)
    qed
  qed
  moreover have "b_next (unlink bs i ! ?p) = ?n" "b_prev (unlink bs i ! ?n) = ?p" by (simp_all add: l)
  ultimately show ?thesis using adj_join [of "unlink bs i" "HEAD # us" "vs @ [HEAD]"]
    by (simp only: adj_Cons [of _ ?p] append_Cons list.simps simp_thms)
qed

text \<open>\<open>brelse\<close>'s pointer surgery moves the buffer to the front.\<close>

lemma lru_front:
  assumes "lru bs xs" "i < NBUF"
  shows "lru (link_first (unlink bs i) i) (i # remove1 i xs)"
proof -
  have i: "i \<in> set xs" using assms by (simp add: lru_def)
  then obtain us vs where xs: "xs = us @ i # vs" "i \<notin> set us" by (meson split_list_first)
  have d: "distinct (us @ i # vs)" "set us \<union> set vs \<subseteq> {..<NBUF}" using assms(1) xs by (auto simp: lru_def)
  have r: "remove1 i xs = us @ vs" using xs by (simp add: remove1_append)
  have "adj (unlink bs i) (HEAD # us @ vs @ [HEAD])"
    using assms(1) xs by (intro adj_unlink [OF _ _ assms(2) d(2,1)]) (auto simp: lru_def)
  then have "adj (link_first (unlink bs i) i) (HEAD # i # (us @ vs) @ [HEAD])"
    using d assms(1,2) by (intro adj_link_first) (auto simp: core_links lru_def)
  then show ?thesis using assms(1) xs(1) d unfolding r by (auto simp: lru_def core_links)
qed

lemma binit_lru: "lru (bufs (binit s)) (rev [0..<NBUF])"
proof -
  let ?f = "\<lambda>i bs. link_first (bs[i := (bs ! i)\<lparr>b_lock := initsleeplock ''buffer''\<rparr>]) i"
  let ?b0 = "replicate NBUF zero_buf @ [zero_buf\<lparr>b_prev := HEAD, b_next := HEAD\<rparr>]"
  have "length (fold ?f [0..<n] ?b0) = Suc NBUF \<and> adj (fold ?f [0..<n] ?b0) (HEAD # rev [0..<n] @ [HEAD])" if "n \<le> NBUF" for n
    using that
  proof (induction n)
    case 0
    have "?b0 ! HEAD = zero_buf\<lparr>b_prev := HEAD, b_next := HEAD\<rparr>" by (simp add: HEAD_def nth_append)
    then show ?case by simp
  next
    case (Suc n)
    define bs where "bs = fold ?f [0..<n] ?b0"
    have bs: "length bs = Suc NBUF" "adj bs (HEAD # rev [0..<n] @ [HEAD])" using Suc by (simp_all add: bs_def)
    let ?bs = "bs[n := (bs ! n)\<lparr>b_lock := initsleeplock ''buffer''\<rparr>]"
    have "adj ?bs (HEAD # rev [0..<n] @ [HEAD])" by (rule adj_cong [OF bs(2)]; cases "n < length bs") (auto simp: nth_list_update list_update_beyond)
    then have "adj (link_first ?bs n) (HEAD # n # rev [0..<n] @ [HEAD])" using bs(1) Suc.prems by (intro adj_link_first) auto
    then show ?case using bs(1) by (simp add: bs_def core_links)
  qed
  from this [of NBUF] show ?thesis by (simp add: lru_def binit_def Let_def lessThan_atLeast0)
qed


section \<open>What the cache holds\<close>

text \<open>For the blocks of device \<open>d\<close>: the buffer of a block, its contents as a reader of the block sees
  them, its references and the process that holds its lock; and the number of buffers not in use.\<close>

definition cached :: "nat \<Rightarrow> 'a bst_scheme \<Rightarrow> nat \<Rightarrow> nat option" where
  "cached d s bn = find_index (\<lambda>b. b_dev b = d \<and> b_blockno b = bn) (take NBUF (bufs s))"

definition bview :: "nat \<Rightarrow> 'a bst_scheme \<Rightarrow> nat \<Rightarrow> blk" where
  "bview d s bn = (case cached d s bn of None \<Rightarrow> disk s bn | Some i \<Rightarrow> if b_valid (bufs s ! i) then data_of s i else disk s bn)"

definition pins :: "nat \<Rightarrow> 'a bst_scheme \<Rightarrow> nat \<Rightarrow> u32" where
  "pins d s bn = (case cached d s bn of None \<Rightarrow> 0 | Some i \<Rightarrow> b_refcnt (bufs s ! i))"

definition bholder :: "nat \<Rightarrow> 'a bst_scheme \<Rightarrow> nat \<Rightarrow> int option" where
  "bholder d s bn = (case cached d s bn of None \<Rightarrow> None
     | Some i \<Rightarrow> if sl_locked (b_lock (bufs s ! i)) then Some (sl_pid (b_lock (bufs s ! i))) else None)"

definition nfree :: "'a bst_scheme \<Rightarrow> nat" where
  "nfree s = card {i. i < NBUF \<and> b_refcnt (bufs s ! i) = 0}"

text \<open>The invariant: the list is intact, no block has two buffers, a locked buffer is referenced and a
  buffer that nobody references (and that may be recycled) agrees with the disk.\<close>

definition buf_unique :: "nat \<Rightarrow> buf list \<Rightarrow> bool" where
  "buf_unique d bs \<longleftrightarrow> (\<forall>i<NBUF. \<forall>j<NBUF. b_dev (bs ! i) = d \<longrightarrow> b_dev (bs ! j) = d \<longrightarrow>
        b_blockno (bs ! i) = b_blockno (bs ! j) \<longrightarrow> i = j)"

definition bio_inv :: "nat \<Rightarrow> 'a bst_scheme \<Rightarrow> bool" where
  "bio_inv d s \<longleftrightarrow> (\<exists>xs. lru (bufs s) xs) \<and> buf_unique d (bufs s) \<and>
     (\<forall>i<NBUF. sl_locked (b_lock (bufs s ! i)) \<longrightarrow> b_refcnt (bufs s ! i) \<noteq> 0) \<and>
     (\<forall>bn. pins d s bn = 0 \<longrightarrow> bview d s bn = disk s bn)"

lemma bio_invD:
  assumes "bio_inv d s"
  shows "length (bufs s) = Suc NBUF" "buf_unique d (bufs s)" "pins d s bn = 0 \<Longrightarrow> bview d s bn = disk s bn"
    "i < NBUF \<Longrightarrow> b_refcnt (bufs s ! i) = 0 \<Longrightarrow> \<not> sl_locked (b_lock (bufs s ! i))"
  using assms unfolding bio_inv_def lru_def by blast+

lemma cached_iff:
  assumes "length (bufs s) = Suc NBUF" "buf_unique d (bufs s)"
  shows "cached d s bn = Some i \<longleftrightarrow> i < NBUF \<and> b_dev (bufs s ! i) = d \<and> b_blockno (bufs s ! i) = bn"
proof
  assume i: "i < NBUF \<and> b_dev (bufs s ! i) = d \<and> b_blockno (bufs s ! i) = bn"
  have "\<not> (b_dev (bufs s ! j) = d \<and> b_blockno (bufs s ! j) = bn)" if "j < i" for j
    using assms(2) [unfolded buf_unique_def, rule_format, of j i] i that by auto
  then show "cached d s bn = Some i" unfolding cached_def find_index_Some_iff using assms(1) i by simp
next
  assume "cached d s bn = Some i"
  then have "i < NBUF" "b_dev (take NBUF (bufs s) ! i) = d" "b_blockno (take NBUF (bufs s) ! i) = bn"
    unfolding cached_def find_index_Some_iff using assms(1) by auto
  then show "i < NBUF \<and> b_dev (bufs s ! i) = d \<and> b_blockno (bufs s ! i) = bn" by simp
qed

lemma cached_None:
  "length (bufs s) = Suc NBUF \<Longrightarrow> cached d s bn = None \<longleftrightarrow> (\<forall>i<NBUF. \<not> (b_dev (bufs s ! i) = d \<and> b_blockno (bufs s ! i) = bn))"
  unfolding cached_def find_index_None_iff by (auto simp: all_set_conv_all_nth)

lemma cached_unique: "bio_inv d s \<Longrightarrow> cached d s a = Some i \<Longrightarrow> cached d s b = Some i \<Longrightarrow> a = b"
  using cached_iff [OF bio_invD(1,2)] by fastforce

lemma nfree_update:
  fixes s t :: "'a bst_scheme"
  assumes "i < NBUF" "length (bufs s) = Suc NBUF" "bufs t = (bufs s)[i := b]"
  shows "nfree t + (if b_refcnt (bufs s ! i) = 0 then 1 else 0) = nfree s + (if b_refcnt b = 0 then 1 else 0)"
proof -
  let ?S = "\<lambda>s. {j. j < NBUF \<and> b_refcnt (bufs s ! j) = 0}"
  have eq: "?S t - {i} = ?S s - {i}" using assms by (auto simp: nth_list_update)
  have c: "card (?S u) = card (?S u - {i}) + (if b_refcnt (bufs u ! i) = 0 then 1 else 0)" for u :: "'a bst_scheme"
    using assms(1) card_Suc_Diff1 [of "?S u" i] by auto
  have "bufs t ! i = b" using assms by simp
  then show ?thesis unfolding nfree_def c [of t] c [of s] eq by simp
qed

text \<open>One buffer changes: it keeps its block, or it is an unreferenced one that takes over a block
  that was not cached.\<close>

lemma buf_update:
  fixes s t :: "'a bst_scheme"
  assumes inv: "bio_inv d s" and i: "i < NBUF" and t: "bufs t = (bufs s)[i := b]" "disk t = disk s"
    and b: "b_next b = b_next (bufs s ! i)" "b_prev b = b_prev (bufs s ! i)" "b_dev b = d" "b_blockno b = bn"
    and c: "cached d s bn = Some i \<or> cached d s bn = None \<and> b_refcnt (bufs s ! i) = 0"
    and ok: "sl_locked (b_lock b) \<Longrightarrow> b_refcnt b \<noteq> 0" "b_refcnt b = 0 \<Longrightarrow> b_valid b \<Longrightarrow> b_data b = disk s bn"
  shows "bio_inv d t" "cached d t bn = Some i" "pins d t = (pins d s)(bn := b_refcnt b)"
    "bview d t = (bview d s)(bn := if b_valid b then b_data b else disk s bn)"
    "bholder d t = (bholder d s)(bn := if sl_locked (b_lock b) then Some (sl_pid (b_lock b)) else None)"
proof -
  note s = bio_invD [OF inv]
  have n: "bufs t ! j = (if j = i then b else bufs s ! j)" for j using t(1) i s(1) by (simp add: nth_list_update)
  have len: "length (bufs t) = Suc NBUF" using t(1) s(1) by simp
  have cs: "cached d s a = Some j \<longleftrightarrow> j < NBUF \<and> b_dev (bufs s ! j) = d \<and> b_blockno (bufs s ! j) = a" for a j
    using cached_iff [OF s(1,2)] .
  have other: "\<not> (b_dev (bufs s ! j) = d \<and> b_blockno (bufs s ! j) = bn)" if "j < NBUF" "j \<noteq> i" for j
    using c cs [of bn j] that by (metis option.distinct(1) option.inject)
  have u: "buf_unique d (bufs t)"
    unfolding buf_unique_def
  proof (intro allI impI)
    fix j k
    assume a: "j < NBUF" "k < NBUF" "b_dev (bufs t ! j) = d" "b_dev (bufs t ! k) = d"
      "b_blockno (bufs t ! j) = b_blockno (bufs t ! k)"
    show "j = k"
    proof (cases "j = i \<or> k = i")
      case True
      then show ?thesis using other [of j] other [of k] a b(3,4) n [of j] n [of k] by metis
    next
      case False
      then show ?thesis using a s(2) [unfolded buf_unique_def, rule_format, of j k] by (simp add: n)
    qed
  qed
  have ct: "cached d t a = Some j \<longleftrightarrow> j < NBUF \<and> b_dev (bufs t ! j) = d \<and> b_blockno (bufs t ! j) = a" for a j
    using cached_iff [OF len u] .
  show cb: "cached d t bn = Some i" using ct i b(3,4) by (simp add: n)
  have oth: "cached d t a = (if cached d s a = Some i then None else cached d s a)" if "a \<noteq> bn" for a
  proof (cases "cached d t a")
    case None
    then have "j \<noteq> i \<Longrightarrow> cached d s a \<noteq> Some j" for j using ct [of a j] cs [of a j] by (simp add: n)
    then show ?thesis using None by (cases "cached d s a") auto
  next
    case (Some j)
    then have "j \<noteq> i" using ct [of a j] that b(4) by (auto simp: n)
    then show ?thesis using Some ct [of a j] cs [of a j] by (simp add: n)
  qed
  have ev: "b_refcnt (bufs s ! i) = 0" if "a \<noteq> bn" "cached d s a = Some i" for a
    using c that cached_unique [OF inv, of a i bn] by auto
  have ev2: "pins d s a = 0" "bview d s a = disk s a" "bholder d s a = None" if "a \<noteq> bn" "cached d s a = Some i" for a
  proof -
    show p: "pins d s a = 0" using ev [OF that] that(2) by (simp add: pins_def)
    show "bview d s a = disk s a" using s(3) [OF p] .
    show "bholder d s a = None" using s(4) [OF i ev [OF that]] that(2) by (simp add: bholder_def)
  qed
  have keep: "bufs t ! j = bufs s ! j" if "cached d s a = Some j" "j \<noteq> i" for a j using that n by simp
  show P: "pins d t = (pins d s)(bn := b_refcnt b)"
  proof (rule ext)
    fix a
    show "pins d t a = ((pins d s)(bn := b_refcnt b)) a"
    proof (cases "a = bn")
      case False
      then show ?thesis using oth [OF False] ev2(1) [OF False] by (auto simp: pins_def n split: option.split)
    qed (simp add: pins_def cb n)
  qed
  show V: "bview d t = (bview d s)(bn := if b_valid b then b_data b else disk s bn)"
  proof (rule ext)
    fix a
    show "bview d t a = ((bview d s)(bn := if b_valid b then b_data b else disk s bn)) a"
    proof (cases "a = bn")
      case False
      then show ?thesis using oth [OF False] ev2(2) [OF False] t(2) by (auto simp: bview_def n split: option.split)
    qed (simp add: bview_def cb n t(2))
  qed
  show "bholder d t = (bholder d s)(bn := if sl_locked (b_lock b) then Some (sl_pid (b_lock b)) else None)"
  proof (rule ext)
    fix a
    show "bholder d t a = ((bholder d s)(bn := if sl_locked (b_lock b) then Some (sl_pid (b_lock b)) else None)) a"
    proof (cases "a = bn")
      case False
      then show ?thesis using oth [OF False] ev2(3) [OF False] by (auto simp: bholder_def n split: option.split)
    qed (simp add: bholder_def cb n)
  qed
  have "lru (bufs t) xs" if "lru (bufs s) xs" for xs
    using that len adj_cong [of "bufs s" "HEAD # xs @ [HEAD]" "bufs t"] b(1,2) by (auto simp: lru_def n)
  moreover have "b_refcnt (bufs t ! j) \<noteq> 0" if "j < NBUF" "sl_locked (b_lock (bufs t ! j))" for j
    using that ok(1) s(4) [of j] by (auto simp: n split: if_splits)
  moreover have "bview d t a = disk t a" if "pins d t a = 0" for a
    using that ok(2) s(3) [of a] by (auto simp: P V t(2) split: if_splits)
  ultimately show "bio_inv d t" using inv u unfolding bio_inv_def by blast
qed

section \<open>The cache as its clients see it\<close>

text \<open>The abstract cache: the contents of each block, its references, the process that has it locked,
  the number of buffers not in use, the disk and the writes made so far. The operations below are
  what \<open>bread\<close>, a change of \<open>b->data\<close>, \<open>bwrite\<close>, \<open>brelse\<close>, \<open>bpin\<close> and \<open>bunpin\<close> promise.\<close>

record cache =
  cview :: "nat \<Rightarrow> blk"
  cpin :: "nat \<Rightarrow> u32"
  cown :: "nat \<Rightarrow> int option"
  cfree :: nat
  cdisk :: "nat \<Rightarrow> blk"
  ctrace :: "(nat \<times> blk) list"

definition a_read :: "int \<Rightarrow> nat \<Rightarrow> cache \<Rightarrow> cache" where
  "a_read uid bn c = c\<lparr>cpin := (cpin c)(bn := cpin c bn + 1), cown := (cown c)(bn := Some uid),
     cfree := cfree c - (if cpin c bn = 0 then 1 else 0)\<rparr>"

definition a_set :: "nat \<Rightarrow> (blk \<Rightarrow> blk) \<Rightarrow> cache \<Rightarrow> cache" where
  "a_set bn f c = c\<lparr>cview := (cview c)(bn := f (cview c bn))\<rparr>"

definition a_write :: "nat \<Rightarrow> cache \<Rightarrow> cache" where
  "a_write bn c = c\<lparr>cdisk := (cdisk c)(bn := cview c bn), ctrace := ctrace c @ [(bn, cview c bn)]\<rparr>"

definition a_rel :: "nat \<Rightarrow> cache \<Rightarrow> cache" where
  "a_rel bn c = c\<lparr>cpin := (cpin c)(bn := cpin c bn - 1), cown := (cown c)(bn := None),
     cfree := cfree c + (if cpin c bn = 1 then 1 else 0)\<rparr>"

definition a_pin :: "nat \<Rightarrow> u32 \<Rightarrow> cache \<Rightarrow> cache" where
  "a_pin bn k c = c\<lparr>cpin := (cpin c)(bn := cpin c bn + k)\<rparr>"

locale block_cache =
  fixes inv :: "'s \<Rightarrow> bool" and st :: "'s \<Rightarrow> cache" and rest :: "'s \<Rightarrow> 'r" and has :: "'s \<Rightarrow> nat \<Rightarrow> nat \<Rightarrow> bool"
    and uid :: int and dat :: "'s \<Rightarrow> nat \<Rightarrow> blk" and rd :: "'s \<Rightarrow> nat \<Rightarrow> (nat \<times> 's) res"
    and upd :: "'s \<Rightarrow> nat \<Rightarrow> (blk \<Rightarrow> blk) \<Rightarrow> 's" and wr :: "'s \<Rightarrow> nat \<Rightarrow> 's res" and rel :: "'s \<Rightarrow> nat \<Rightarrow> 's res"
    and unp :: "'s \<Rightarrow> nat \<Rightarrow> 's"
  assumes dat: "inv s \<Longrightarrow> has s bn i \<Longrightarrow> dat s i = cview (st s) bn"
    and clean: "inv s \<Longrightarrow> cpin (st s) bn = 0 \<Longrightarrow> cview (st s) bn = cdisk (st s) bn"
    and rd: "inv s \<Longrightarrow> cown (st s) bn = None \<Longrightarrow> cpin (st s) bn + 1 \<noteq> 0 \<Longrightarrow> cpin (st s) bn \<noteq> 0 \<or> 0 < cfree (st s) \<Longrightarrow>
      \<exists>i t. rd s bn = Ok (i, t) \<and> inv t \<and> rest t = rest s \<and> has t bn i \<and>
        (\<forall>a j. has s a j \<longrightarrow> cpin (st s) a \<noteq> 0 \<longrightarrow> has t a j) \<and> st t = a_read uid bn (st s)"
    and upd: "inv s \<Longrightarrow> has s bn i \<Longrightarrow> cpin (st s) bn \<noteq> 0 \<Longrightarrow>
      inv (upd s i f) \<and> rest (upd s i f) = rest s \<and> (\<forall>a j. has s a j \<longrightarrow> has (upd s i f) a j) \<and>
        st (upd s i f) = a_set bn f (st s)"
    and wr: "inv s \<Longrightarrow> has s bn i \<Longrightarrow> cown (st s) bn = Some uid \<Longrightarrow>
      \<exists>t. wr s i = Ok t \<and> inv t \<and> rest t = rest s \<and> (\<forall>a j. has s a j \<longrightarrow> has t a j) \<and> st t = a_write bn (st s)"
    and rel: "inv s \<Longrightarrow> has s bn i \<Longrightarrow> cown (st s) bn = Some uid \<Longrightarrow>
      (cpin (st s) bn = 1 \<Longrightarrow> cview (st s) bn = cdisk (st s) bn) \<Longrightarrow>
      \<exists>t. rel s i = Ok t \<and> inv t \<and> rest t = rest s \<and> (\<forall>a j. has s a j \<longrightarrow> has t a j) \<and> st t = a_rel bn (st s)"
    and unp: "inv s \<Longrightarrow> has s bn i \<Longrightarrow> cpin (st s) bn \<noteq> 0 \<Longrightarrow> cpin (st s) bn \<noteq> 1 \<Longrightarrow>
      inv (unp s i) \<and> rest (unp s i) = rest s \<and> (\<forall>a j. has s a j \<longrightarrow> has (unp s i) a j) \<and> st (unp s i) = a_pin bn (-1) (st s)"
begin

text \<open>Reading a block, changing it and writing it back, with no reference left behind.\<close>

lemma rewrite:
  assumes "inv s" "cown (st s) bn = None" "cpin (st s) bn + 1 \<noteq> 0" "cpin (st s) bn \<noteq> 0 \<or> 0 < cfree (st s)"
  shows "\<exists>t. bnd (rd s bn) (\<lambda>(i, s). bnd (wr (upd s i f) i) (\<lambda>s. rel s i)) = Ok t \<and> inv t \<and> rest t = rest s \<and>
    st t = (st s)\<lparr>cview := (cview (st s))(bn := f (cview (st s) bn)), cdisk := (cdisk (st s))(bn := f (cview (st s) bn)),
      ctrace := ctrace (st s) @ [(bn, f (cview (st s) bn))]\<rparr>"
proof -
  obtain i t1 where t1: "rd s bn = Ok (i, t1)" "inv t1" "rest t1 = rest s" "has t1 bn i" "st t1 = a_read uid bn (st s)"
    using rd [OF assms] by blast
  have p1: "cpin (st t1) bn \<noteq> 0" "cown (st t1) bn = Some uid" using assms(3) by (simp_all add: t1(5) a_read_def)
  define t2 where "t2 = upd t1 i f"
  have t2: "inv t2" "rest t2 = rest t1" "has t2 bn i" "st t2 = a_set bn f (st t1)"
    using upd [OF t1(2,4) p1(1)] t1(4) by (auto simp: t2_def)
  have p2: "cown (st t2) bn = Some uid" using p1(2) by (simp add: t2(4) a_set_def)
  obtain t3 where t3: "wr t2 i = Ok t3" "inv t3" "rest t3 = rest t2" "has t3 bn i" "st t3 = a_write bn (st t2)"
    using wr [OF t2(1,3) p2] t2(3) by blast
  have p3: "cown (st t3) bn = Some uid" "cview (st t3) bn = cdisk (st t3) bn"
    using p2 by (simp_all add: t3(5) a_write_def)
  obtain t4 where t4: "rel t3 i = Ok t4" "inv t4" "rest t4 = rest t3" "st t4 = a_rel bn (st t3)"
    using rel [OF t3(2,4) p3(1)] p3(2) by blast
  have "st t4 = (st s)\<lparr>cview := (cview (st s))(bn := f (cview (st s) bn)), cdisk := (cdisk (st s))(bn := f (cview (st s) bn)),
      ctrace := ctrace (st s) @ [(bn, f (cview (st s) bn))]\<rparr>"
    unfolding t4(4) t3(5) t2(4) t1(5) using assms(2,4) by (auto simp: a_rel_def a_write_def a_set_def a_read_def fun_upd_idem)
  then show ?thesis using t1(1,3) t2(2) t3(1,3) t4(1-3) by (simp add: t2_def)
qed

definition ready :: "'s \<Rightarrow> nat \<Rightarrow> nat \<Rightarrow> bool" where
  "ready s a b \<longleftrightarrow> inv s \<and> a \<noteq> b \<and> cown (st s) a = None \<and> cown (st s) b = None \<and> cpin (st s) a + 1 \<noteq> 0 \<and>
     cpin (st s) b + 1 \<noteq> 0 \<and> (cpin (st s) a \<noteq> 0 \<or> 0 < cfree (st s)) \<and>
     (cpin (st s) b \<noteq> 0 \<or> (if cpin (st s) a = 0 then 1 else 0) < cfree (st s))"

lemma two:
  assumes "ready s a b"
  obtains i j t where "bnd (rd s a) (\<lambda>(i, s). bnd (rd s b) (\<lambda>(j, s). k i j s)) = k i j t"
    "inv t" "rest t = rest s" "has t a i" "has t b j" "st t = a_read uid b (a_read uid a (st s))"
proof -
  have a: "inv s" "a \<noteq> b" "cown (st s) a = None" "cown (st s) b = None" "cpin (st s) a + 1 \<noteq> 0"
     "cpin (st s) b + 1 \<noteq> 0" "cpin (st s) a \<noteq> 0 \<or> 0 < cfree (st s)"
     "cpin (st s) b \<noteq> 0 \<or> (if cpin (st s) a = 0 then 1 else 0) < cfree (st s)"
    using assms unfolding ready_def by auto
  obtain i t1 where t1: "rd s a = Ok (i, t1)" "inv t1" "rest t1 = rest s" "has t1 a i" "st t1 = a_read uid a (st s)"
    using rd [OF a(1,3,5,7)] by blast
  have p: "cown (st t1) b = None" "cpin (st t1) b + 1 \<noteq> 0" "cpin (st t1) b \<noteq> 0 \<or> 0 < cfree (st t1)" "cpin (st t1) a \<noteq> 0"
    using a by (auto simp: t1(5) a_read_def)
  obtain j t2 where t2: "rd t1 b = Ok (j, t2)" "inv t2" "rest t2 = rest t1" "has t2 b j" "has t2 a i" "st t2 = a_read uid b (st t1)"
    using rd [OF t1(2) p(1-3)] p(4) t1(4) by blast
  show ?thesis using t1 t2 by (intro that [of i j t2]) simp_all
qed

lemmas a_defs = a_read_def a_set_def a_write_def a_rel_def a_pin_def

text \<open>Copying a block into another one, the body of \<open>write_log\<close>'s loop.\<close>

lemma copy_first:
  assumes r: "ready s a b"
  shows "\<exists>t. bnd (rd s a) (\<lambda>(i, s). bnd (rd s b) (\<lambda>(j, s). bnd (wr (upd s i (\<lambda>_. dat s j)) i) (\<lambda>s.
      bnd (rel s j) (\<lambda>s. rel s i)))) = Ok t \<and> inv t \<and> rest t = rest s \<and>
    st t = (st s)\<lparr>cview := (cview (st s))(a := cview (st s) b), cdisk := (cdisk (st s))(a := cview (st s) b),
      ctrace := ctrace (st s) @ [(a, cview (st s) b)]\<rparr>"
proof -
  let ?k = "\<lambda>i j s. bnd (wr (upd s i (\<lambda>_. dat s j)) i) (\<lambda>s. bnd (rel s j) (\<lambda>s. rel s i))"
  obtain i j t where e: "bnd (rd s a) (\<lambda>(i, s). bnd (rd s b) (\<lambda>(j, s). ?k i j s)) = ?k i j t"
    and t: "inv t" "rest t = rest s" "has t a i" "has t b j" "st t = a_read uid b (a_read uid a (st s))"
    by (rule two [OF r, where k = ?k]) blast
  have s: "inv s" "a \<noteq> b" "cpin (st s) a + 1 \<noteq> 0" "cpin (st s) b + 1 \<noteq> 0" using r unfolding ready_def by auto
  have p: "cpin (st t) a \<noteq> 0" using s by (simp add: t(5) a_defs)
  define t1 where "t1 = upd t i (\<lambda>_. dat t j)"
  have t1: "inv t1" "rest t1 = rest t" "has t1 a i" "has t1 b j" "st t1 = a_set a (\<lambda>_. cview (st t) b) (st t)"
    using upd [OF t(1,3) p, of "\<lambda>_. dat t j"] t(3,4) dat [OF t(1,4)] by (auto simp: t1_def)
  have p1: "cown (st t1) a = Some uid" using s(2) by (simp add: t1(5) t(5) a_defs)
  obtain t2 where t2: "wr t1 i = Ok t2" "inv t2" "rest t2 = rest t1" "has t2 a i" "has t2 b j" "st t2 = a_write a (st t1)"
    using wr [OF t1(1,3) p1] t1(3,4) by blast
  have p2: "cown (st t2) b = Some uid" "cpin (st t2) b = 1 \<Longrightarrow> cview (st t2) b = cdisk (st t2) b"
    using s clean [OF s(1), of b] by (auto simp: t2(6) t1(5) t(5) a_defs)
  obtain t3 where t3: "rel t2 j = Ok t3" "inv t3" "rest t3 = rest t2" "has t3 a i" "st t3 = a_rel b (st t2)"
    using rel [OF t2(2,5) p2] t2(4) by blast
  have p3: "cown (st t3) a = Some uid" "cpin (st t3) a = 1 \<Longrightarrow> cview (st t3) a = cdisk (st t3) a"
    using s by (auto simp: t3(5) t2(6) t1(5) t(5) a_defs)
  obtain t4 where t4: "rel t3 i = Ok t4" "inv t4" "rest t4 = rest t3" "st t4 = a_rel a (st t3)"
    using rel [OF t3(2,4) p3] by blast
  have "st t4 = (st s)\<lparr>cview := (cview (st s))(a := cview (st s) b), cdisk := (cdisk (st s))(a := cview (st s) b),
      ctrace := ctrace (st s) @ [(a, cview (st s) b)]\<rparr>"
    unfolding t4(4) t3(5) t2(6) t1(5) t(5) using r unfolding ready_def by (auto simp: a_defs fun_eq_iff)
  then show ?thesis unfolding e using t(2) t1(2) t2(1,3) t3(1,3) t4(1-3) by (simp add: t1_def)
qed

text \<open>Copying a block over its home, the body of \<open>install_trans\<close>'s loop: outside recovery the home block
  loses the reference that \<open>log_write\<close> took.\<close>

lemma copy_second:
  assumes r: "ready s a b" and pinned: "\<not> recov \<Longrightarrow> cpin (st s) b \<noteq> 0"
  shows "\<exists>t. bnd (rd s a) (\<lambda>(i, s). bnd (rd s b) (\<lambda>(j, s). bnd (wr (upd s j (\<lambda>_. dat s i)) j) (\<lambda>s.
      bnd (rel (if recov then s else unp s j) i) (\<lambda>s. rel s j)))) = Ok t \<and> inv t \<and> rest t = rest s \<and>
    st t = (st s)\<lparr>cview := (cview (st s))(b := cview (st s) a), cdisk := (cdisk (st s))(b := cview (st s) a),
      ctrace := ctrace (st s) @ [(b, cview (st s) a)],
      cpin := (cpin (st s))(b := if recov then cpin (st s) b else cpin (st s) b - 1),
      cfree := if \<not> recov \<and> cpin (st s) b = 1 then cfree (st s) + 1 else cfree (st s)\<rparr>"
proof -
  let ?k = "\<lambda>i j s. bnd (wr (upd s j (\<lambda>_. dat s i)) j) (\<lambda>s. bnd (rel (if recov then s else unp s j) i) (\<lambda>s. rel s j))"
  obtain i j t where e: "bnd (rd s a) (\<lambda>(i, s). bnd (rd s b) (\<lambda>(j, s). ?k i j s)) = ?k i j t"
    and t: "inv t" "rest t = rest s" "has t a i" "has t b j" "st t = a_read uid b (a_read uid a (st s))"
    by (rule two [OF r, where k = ?k]) blast
  have s: "inv s" "a \<noteq> b" "cpin (st s) a + 1 \<noteq> 0" "cpin (st s) b + 1 \<noteq> 0" using r unfolding ready_def by auto
  have p: "cpin (st t) b \<noteq> 0" using s by (simp add: t(5) a_defs)
  define t1 where "t1 = upd t j (\<lambda>_. dat t i)"
  have t1: "inv t1" "rest t1 = rest t" "has t1 a i" "has t1 b j" "st t1 = a_set b (\<lambda>_. cview (st t) a) (st t)"
    using upd [OF t(1,4) p, of "\<lambda>_. dat t i"] t(3,4) dat [OF t(1,3)] by (auto simp: t1_def)
  have p1: "cown (st t1) b = Some uid" using s(2) by (simp add: t1(5) t(5) a_defs)
  obtain t2 where t2: "wr t1 j = Ok t2" "inv t2" "rest t2 = rest t1" "has t2 a i" "has t2 b j" "st t2 = a_write b (st t1)"
    using wr [OF t1(1,4) p1] t1(3,4) by blast
  define t3 where "t3 = (if recov then t2 else unp t2 j)"
  have p2: "cpin (st t2) b = cpin (st s) b + 1" using s by (simp add: t2(6) t1(5) t(5) a_defs)
  have t3: "inv t3" "rest t3 = rest t2" "has t3 a i" "has t3 b j" "st t3 = (if recov then st t2 else a_pin b (-1) (st t2))"
    using unp [OF t2(2,5)] p2 s(4) pinned t2(2,4,5) by (auto simp: t3_def)
  have p3: "cown (st t3) a = Some uid" "cpin (st t3) a = 1 \<Longrightarrow> cview (st t3) a = cdisk (st t3) a"
    using s clean [OF s(1), of a] by (cases recov; auto simp: t3(5) t2(6) t1(5) t(5) a_defs)+
  obtain t4 where t4: "rel t3 i = Ok t4" "inv t4" "rest t4 = rest t3" "has t4 b j" "st t4 = a_rel a (st t3)"
    using rel [OF t3(1,3) p3] t3(4) by blast
  have p4: "cown (st t4) b = Some uid" "cpin (st t4) b = 1 \<Longrightarrow> cview (st t4) b = cdisk (st t4) b"
    using s by (auto simp: t4(5) t3(5) t2(6) t1(5) t(5) a_defs)
  obtain t5 where t5: "rel t4 j = Ok t5" "inv t5" "rest t5 = rest t4" "st t5 = a_rel b (st t4)"
    using rel [OF t4(2,4) p4] by blast
  have "st t5 = (st s)\<lparr>cview := (cview (st s))(b := cview (st s) a), cdisk := (cdisk (st s))(b := cview (st s) a),
      ctrace := ctrace (st s) @ [(b, cview (st s) a)],
      cpin := (cpin (st s))(b := if recov then cpin (st s) b else cpin (st s) b - 1),
      cfree := if \<not> recov \<and> cpin (st s) b = 1 then cfree (st s) + 1 else cfree (st s)\<rparr>"
  proof (cases recov)
    case True
    then show ?thesis unfolding t5(4) t4(5) t3(5) t2(6) t1(5) t(5) using r unfolding ready_def
      by (intro cache.equality ext) (auto simp: a_defs)
  next
    case False
    then have "cpin (st s) b \<noteq> 0" using pinned by simp
    with False show ?thesis unfolding t5(4) t4(5) t3(5) t2(6) t1(5) t(5) using r unfolding ready_def
      by (intro cache.equality ext) (auto simp: a_defs)
  qed
  moreover have "?k i j t = Ok t5" using t2(1) t4(1) t5(1) by (simp add: t1_def [symmetric] t3_def [symmetric])
  moreover have "rest t5 = rest s" using t(2) t1(2) t2(3) t3(2) t4(3) t5(3) by simp
  ultimately show ?thesis unfolding e using t5(2) by blast
qed

end

section \<open>The code implements the abstract cache\<close>

definition has_buf :: "nat \<Rightarrow> 'a bst_scheme \<Rightarrow> nat \<Rightarrow> nat \<Rightarrow> bool" where
  "has_buf d s bn i \<longleftrightarrow> cached d s bn = Some i \<and> b_valid (bufs s ! i)"

definition cache_st :: "nat \<Rightarrow> 'a bst_scheme \<Rightarrow> cache" where
  "cache_st d s = \<lparr>cview = bview d s, cpin = pins d s, cown = bholder d s, cfree = nfree s, cdisk = disk s, ctrace = wtrace s\<rparr>"

definition cache_ok :: "nat \<Rightarrow> nat \<Rightarrow> int \<Rightarrow> 'a bst_scheme \<Rightarrow> bool" where
  "cache_ok d me uid s \<longleftrightarrow> bio_inv d s \<and> me < length (procs s) \<and> p_pid (procs s ! me) = uid"

text \<open>The part of the state that the operations of the cache leave alone: all but the buffers, the disk
  and whether a process sleeps.\<close>

definition above :: "'a bst_scheme \<Rightarrow> 'a bst_scheme" where
  "above s = s\<lparr>procs := map (\<lambda>p. p\<lparr>p_state := UNUSED\<rparr>) (procs s), bufs := [], disk := (\<lambda>_. []), wtrace := []\<rparr>"

lemma find_cases:
  obtains "find P xs = None" "\<forall>x\<in>set xs. \<not> P x" | x where "find P xs = Some x" "x \<in> set xs" "P x"
  by (cases "find P xs") (auto simp: find_None_iff find_Some_iff)

lemma lru_scan:
  assumes "lru bs xs"
  shows "bscan b_next P bs (Suc NBUF) (b_next (bs ! HEAD)) = find (\<lambda>i. P (bs ! i)) xs"
    "bscan b_prev P bs (Suc NBUF) (b_prev (bs ! HEAD)) = find (\<lambda>i. P (bs ! i)) (rev xs)"
proof -
  have "length xs = NBUF" "HEAD \<notin> set xs" "adj bs (HEAD # xs @ [HEAD])"
    using assms distinct_card [of xs] by (simp_all add: lru_def HEAD_def)
  then show "bscan b_next P bs (Suc NBUF) (b_next (bs ! HEAD)) = find (\<lambda>i. P (bs ! i)) xs"
    "bscan b_prev P bs (Suc NBUF) (b_prev (bs ! HEAD)) = find (\<lambda>i. P (bs ! i)) (rev xs)"
    by (auto intro: bscan_next bscan_prev)
qed

lemma bscan_cached:
  assumes "bio_inv d s"
  shows "bscan b_next (\<lambda>b. b_dev b = d \<and> b_blockno b = bn) (bufs s) (Suc NBUF) (b_next (bufs s ! HEAD)) = cached d s bn"
proof -
  obtain xs where xs: "lru (bufs s) xs" using assms by (auto simp: bio_inv_def)
  then have set: "set xs = {..<NBUF}" by (simp add: lru_def)
  note c = cached_iff [OF bio_invD(1,2) [OF assms]] cached_None [OF bio_invD(1) [OF assms]]
  show ?thesis
  proof (cases rule: find_cases [of "\<lambda>i. b_dev (bufs s ! i) = d \<and> b_blockno (bufs s ! i) = bn" xs])
    case 1
    then have "cached d s bn = None" unfolding c(2) set by blast
    with 1(1) show ?thesis by (simp add: lru_scan(1) [OF xs])
  next
    case (2 i)
    then have "cached d s bn = Some i" unfolding c(1) set by blast
    with 2(1) show ?thesis by (simp add: lru_scan(1) [OF xs])
  qed
qed

lemma bscan_free:
  assumes "bio_inv d s" "0 < nfree s"
  obtains i where "bscan b_prev (\<lambda>b. b_refcnt b = 0) (bufs s) (Suc NBUF) (b_prev (bufs s ! HEAD)) = Some i"
    "i < NBUF" "b_refcnt (bufs s ! i) = 0"
proof -
  obtain xs where xs: "lru (bufs s) xs" using assms by (auto simp: bio_inv_def)
  then have set: "set (rev xs) = {..<NBUF}" by (simp add: lru_def)
  obtain k where "k < NBUF" "b_refcnt (bufs s ! k) = 0" using assms(2) by (auto simp: nfree_def card_gt_0_iff)
  then obtain i where "find (\<lambda>i. b_refcnt (bufs s ! i) = 0) (rev xs) = Some i" "i \<in> set (rev xs)" "b_refcnt (bufs s ! i) = 0"
    using set by (cases rule: find_cases [of "\<lambda>i. b_refcnt (bufs s ! i) = 0" "rev xs"]) blast+
  then show ?thesis using that unfolding lru_scan(2) [OF xs] set by blast
qed

lemma bread_update:
  assumes inv: "bio_inv d s" and "bholder d s bn = None" "pins d s bn \<noteq> 0 \<or> 0 < nfree s"
  shows "\<exists>i b. i < NBUF \<and> bread s me d bn = Ok (i, s\<lparr>bufs := (bufs s)[i := b]\<rparr>) \<and> b_next b = b_next (bufs s ! i) \<and>
    b_prev b = b_prev (bufs s ! i) \<and> b_dev b = d \<and> b_blockno b = bn \<and> b_valid b \<and> b_data b = bview d s bn \<and>
    b_refcnt b = pins d s bn + 1 \<and> sl_locked (b_lock b) \<and> sl_pid (b_lock b) = p_pid (procs s ! me) \<and>
    (cached d s bn = Some i \<or> cached d s bn = None \<and> b_refcnt (bufs s ! i) = 0)"
proof (cases "cached d s bn")
  case (Some i)
  note len = bio_invD(1) [OF inv]
  have i: "i < NBUF" "b_dev (bufs s ! i) = d" "b_blockno (bufs s ! i) = bn"
    using Some cached_iff [OF bio_invD(1,2) [OF inv]] by blast+
  have l: "\<not> sl_locked (b_lock (bufs s ! i))" using assms(2) Some by (auto simp: bholder_def split: if_splits)
  let ?b = "(bufs s ! i)\<lparr>b_refcnt := b_refcnt (bufs s ! i) + 1,
     b_lock := (b_lock (bufs s ! i))\<lparr>sl_locked := True, sl_pid := p_pid (procs s ! me)\<rparr>\<rparr>"
  have "bget s me d bn = Ok (i, s\<lparr>bufs := (bufs s)[i := ?b]\<rparr>)"
    using i l len by (simp add: bget_def bscan_cached [OF inv] Some lock_buf_def acquiresleep_def set_buf_def)
  then have "bread s me d bn = Ok (i, s\<lparr>bufs := (bufs s)[i := ?b\<lparr>b_data := bview d s bn, b_valid := True\<rparr>]\<rparr>)"
  proof (cases "b_valid (bufs s ! i)")
    case True
    then have "?b\<lparr>b_data := bview d s bn, b_valid := True\<rparr> = ?b" by (intro buf.equality) (simp_all add: bview_def Some)
    with \<open>bget s me d bn = _\<close> True i len show ?thesis by (simp only: bread_def) simp
  qed (use i len in \<open>simp add: bread_def set_buf_def virtio_rw_def bview_def Some Let_def\<close>)
  then show ?thesis using i by (intro exI [of _ i] exI [of _ "?b\<lparr>b_data := bview d s bn, b_valid := True\<rparr>"])
      (simp add: pins_def Some)
next
  case None
  note len = bio_invD(1) [OF inv]
  have z: "pins d s bn = 0" using None by (simp add: pins_def)
  with assms(3) obtain i where i: "bscan b_prev (\<lambda>b. b_refcnt b = 0) (bufs s) (Suc NBUF) (b_prev (bufs s ! HEAD)) = Some i"
    "i < NBUF" "b_refcnt (bufs s ! i) = 0" using bscan_free [OF inv] by blast
  have l: "\<not> sl_locked (b_lock (bufs s ! i))" using bio_invD(4) [OF inv i(2,3)] .
  let ?b = "(bufs s ! i)\<lparr>b_dev := d, b_blockno := bn, b_valid := False, b_refcnt := 1,
     b_lock := (b_lock (bufs s ! i))\<lparr>sl_locked := True, sl_pid := p_pid (procs s ! me)\<rparr>\<rparr>"
  have "bget s me d bn = Ok (i, s\<lparr>bufs := (bufs s)[i := ?b]\<rparr>)"
    using i l len by (simp add: bget_def bscan_cached [OF inv] None lock_buf_def acquiresleep_def set_buf_def)
  then have "bread s me d bn = Ok (i, s\<lparr>bufs := (bufs s)[i := ?b\<lparr>b_data := bview d s bn, b_valid := True\<rparr>]\<rparr>)"
    using i len by (simp add: bread_def set_buf_def virtio_rw_def bview_def None Let_def)
  then show ?thesis using i None z by (intro exI [of _ i] exI [of _ "?b\<lparr>b_data := bview d s bn, b_valid := True\<rparr>"]) simp
qed

lemma cache_st_simps [simp]:
  "cview (cache_st d s) = bview d s" "cpin (cache_st d s) = pins d s" "cown (cache_st d s) = bholder d s"
  "cfree (cache_st d s) = nfree s" "cdisk (cache_st d s) = disk s" "ctrace (cache_st d s) = wtrace s"
  by (simp_all add: cache_st_def)

lemma has_bufD:
  assumes "bio_inv d s" "has_buf d s bn i"
  shows "i < NBUF" "cached d s bn = Some i" "b_dev (bufs s ! i) = d" "b_blockno (bufs s ! i) = bn" "b_valid (bufs s ! i)"
    "data_of s i = bview d s bn" "b_refcnt (bufs s ! i) = pins d s bn"
  using assms cached_iff [OF bio_invD(1,2) [OF assms(1)], of bn i] by (auto simp: has_buf_def bview_def pins_def)

text \<open>A buffer that is in use keeps its block.\<close>

lemma buf_update_has:
  fixes s t :: "'a bst_scheme"
  assumes "bio_inv d s" "i < NBUF" "bufs t = (bufs s)[i := b]" "disk t = disk s"
    "b_next b = b_next (bufs s ! i)" "b_prev b = b_prev (bufs s ! i)" "b_dev b = d" "b_blockno b = bn"
    "cached d s bn = Some i \<or> cached d s bn = None \<and> b_refcnt (bufs s ! i) = 0"
    "sl_locked (b_lock b) \<Longrightarrow> b_refcnt b \<noteq> 0" "b_refcnt b = 0 \<Longrightarrow> b_valid b \<Longrightarrow> b_data b = disk s bn" "b_valid b"
    and h: "has_buf d s a j" "cached d s bn = Some i \<or> pins d s a \<noteq> 0"
  shows "has_buf d t a j"
proof -
  note t = buf_update [OF assms(1-11)]
  note hj = has_bufD [OF assms(1) h(1)]
  have n: "bufs t ! j = (if j = i then b else bufs s ! j)" using assms(2,3) bio_invD(1) [OF assms(1)] by (simp add: nth_list_update)
  have "cached d t a = Some j"
  proof (cases "a = bn")
    case True
    then have "j = i" using hj(2) assms(9) by auto
    then show ?thesis using t(2) True by simp
  next
    case False
    then have "j \<noteq> i" using hj(2,7) h(2) assms(9) cached_unique [OF assms(1), of a i bn] by auto
    then show ?thesis using cached_iff [OF bio_invD(1,2) [OF t(1)], of a j] hj by (simp add: n)
  qed
  then show ?thesis using hj(5) assms(12) by (simp add: has_buf_def n)
qed

lemma cache_rd:
  assumes ok: "cache_ok d me uid s" and pre: "bholder d s bn = None" "pins d s bn + 1 \<noteq> 0" "pins d s bn \<noteq> 0 \<or> 0 < nfree s"
  shows "\<exists>i t. bread s me d bn = Ok (i, t) \<and> cache_ok d me uid t \<and> above t = above s \<and> has_buf d t bn i \<and>
    (\<forall>a j. has_buf d s a j \<longrightarrow> pins d s a \<noteq> 0 \<longrightarrow> has_buf d t a j) \<and> cache_st d t = a_read uid bn (cache_st d s)"
proof -
  have inv: "bio_inv d s" and me: "me < length (procs s)" "p_pid (procs s ! me) = uid" using ok by (auto simp: cache_ok_def)
  obtain i b where i: "i < NBUF" and rd: "bread s me d bn = Ok (i, s\<lparr>bufs := (bufs s)[i := b]\<rparr>)"
    and b: "b_next b = b_next (bufs s ! i)" "b_prev b = b_prev (bufs s ! i)" "b_dev b = d" "b_blockno b = bn" "b_valid b"
      "b_data b = bview d s bn" "b_refcnt b = pins d s bn + 1" "sl_locked (b_lock b)" "sl_pid (b_lock b) = uid"
    and c: "cached d s bn = Some i \<or> cached d s bn = None \<and> b_refcnt (bufs s ! i) = 0"
    using bread_update [OF inv pre(1,3), of me] me(2) by auto
  let ?t = "s\<lparr>bufs := (bufs s)[i := b]\<rparr>"
  have nz: "b_refcnt b \<noteq> 0" using b(7) pre(2) by simp
  have T: "bufs ?t = (bufs s)[i := b]" "disk ?t = disk s" by simp_all
  have t: "bio_inv d ?t" "cached d ?t bn = Some i" "pins d ?t = (pins d s)(bn := pins d s bn + 1)"
    "bview d ?t = bview d s" "bholder d ?t = (bholder d s)(bn := Some uid)"
    using buf_update [OF inv i T b(1-4) c] nz b(5-9) by simp_all
  have r0: "b_refcnt (bufs s ! i) = pins d s bn" using c by (auto simp: pins_def)
  have nf: "nfree ?t = nfree s - (if pins d s bn = 0 then 1 else 0)"
    using nfree_update [OF i bio_invD(1) [OF inv] T(1)] nz r0 by (auto split: if_splits)
  have "cache_st d ?t = a_read uid bn (cache_st d s)"
    by (intro cache.equality) (simp_all add: t(3-5) nf a_read_def)
  moreover have "has_buf d ?t a j" if "has_buf d s a j" "pins d s a \<noteq> 0" for a j
    using that nz b by (intro buf_update_has [OF inv i T b(1-4) c]) auto
  moreover have "has_buf d ?t bn i" using t(2) b(5) i bio_invD(1) [OF inv] by (simp add: has_buf_def)
  moreover have "cache_ok d me uid ?t" "above ?t = above s" using t(1) me by (simp_all add: cache_ok_def above_def)
  ultimately show ?thesis using rd by blast
qed

lemma cache_same:
  fixes s t :: "'a bst_scheme"
  assumes ok: "cache_ok d me uid s" and h: "has_buf d s bn i"
    and t: "t = s\<lparr>bufs := (bufs s)[i := b]\<rparr>"
    and b: "b_next b = b_next (bufs s ! i)" "b_prev b = b_prev (bufs s ! i)" "b_dev b = d" "b_blockno b = bn" "b_valid b"
    and k: "sl_locked (b_lock b) \<Longrightarrow> b_refcnt b \<noteq> 0" "b_refcnt b = 0 \<Longrightarrow> b_data b = disk s bn"
  shows "cache_ok d me uid t" "above t = above s" "has_buf d s a j \<Longrightarrow> has_buf d t a j"
    "cache_st d t = (cache_st d s)\<lparr>cview := (bview d s)(bn := b_data b), cpin := (pins d s)(bn := b_refcnt b),
        cown := (bholder d s)(bn := if sl_locked (b_lock b) then Some (sl_pid (b_lock b)) else None), cfree := nfree t\<rparr>"
    "nfree t + (if pins d s bn = 0 then 1 else 0) = nfree s + (if b_refcnt b = 0 then 1 else 0)"
proof -
  have inv: "bio_inv d s" using ok by (simp add: cache_ok_def)
  note hs = has_bufD [OF inv h]
  have T: "bufs t = (bufs s)[i := b]" "disk t = disk s" by (simp_all add: t)
  have c: "cached d s bn = Some i \<or> cached d s bn = None \<and> b_refcnt (bufs s ! i) = 0" using hs(2) by simp
  note u = buf_update [OF inv hs(1) T b(1-4) c k(1)]
  show "cache_ok d me uid t" using u(1) k(2) ok by (simp add: cache_ok_def t)
  show "above t = above s" by (simp add: above_def t)
  show "has_buf d t a j" if "has_buf d s a j"
    using that hs(2) b(5) k by (intro buf_update_has [OF inv hs(1) T b(1-4) c]) auto
  show "cache_st d t = (cache_st d s)\<lparr>cview := (bview d s)(bn := b_data b), cpin := (pins d s)(bn := b_refcnt b),
        cown := (bholder d s)(bn := if sl_locked (b_lock b) then Some (sl_pid (b_lock b)) else None), cfree := nfree t\<rparr>"
    using u(3-5) k(2) b(5) by (intro cache.equality) (simp_all add: t)
  show "nfree t + (if pins d s bn = 0 then 1 else 0) = nfree s + (if b_refcnt b = 0 then 1 else 0)"
    using nfree_update [OF hs(1) bio_invD(1) [OF inv] T(1)] hs(7) by simp
qed

lemma cache_upd:
  assumes ok: "cache_ok d me uid s" and h: "has_buf d s bn i" and p: "pins d s bn \<noteq> 0"
  shows "cache_ok d me uid (set_data s i f) \<and> above (set_data s i f) = above s \<and>
    (\<forall>a j. has_buf d s a j \<longrightarrow> has_buf d (set_data s i f) a j) \<and> cache_st d (set_data s i f) = a_set bn f (cache_st d s)"
proof -
  have inv: "bio_inv d s" using ok by (simp add: cache_ok_def)
  note hs = has_bufD [OF inv h]
  let ?b = "(bufs s ! i)\<lparr>b_data := f (data_of s i)\<rparr>"
  have e: "set_data s i f = s\<lparr>bufs := (bufs s)[i := ?b]\<rparr>" by (simp add: set_data_def set_buf_def)
  note u = cache_same [OF ok h e]
  have "cache_st d (set_data s i f) = a_set bn f (cache_st d s)"
    using u(4,5) hs p by (intro cache.equality) (auto simp: a_set_def bholder_def)
  moreover have "has_buf d (set_data s i f) a j" if "has_buf d s a j" for a j using u(3) hs p that by simp
  ultimately show ?thesis using u(1,2) hs p by simp
qed

lemma cache_pin:
  assumes ok: "cache_ok d me uid s" and h: "has_buf d s bn i" and p: "pins d s bn \<noteq> 0" "pins d s bn + k \<noteq> 0"
    and t: "t = set_buf s i (\<lambda>b. b\<lparr>b_refcnt := b_refcnt b + k\<rparr>)"
  shows "cache_ok d me uid t \<and> above t = above s \<and> (\<forall>a j. has_buf d s a j \<longrightarrow> has_buf d t a j) \<and>
    cache_st d t = a_pin bn k (cache_st d s)"
proof -
  have inv: "bio_inv d s" using ok by (simp add: cache_ok_def)
  note hs = has_bufD [OF inv h]
  let ?b = "(bufs s ! i)\<lparr>b_refcnt := b_refcnt (bufs s ! i) + k\<rparr>"
  have e: "t = s\<lparr>bufs := (bufs s)[i := ?b]\<rparr>" by (simp add: t set_buf_def)
  note u = cache_same [OF ok h e]
  have "cache_st d t = a_pin bn k (cache_st d s)"
    using u(4,5) hs p by (intro cache.equality) (auto simp: a_pin_def bholder_def)
  moreover have "has_buf d t a j" if "has_buf d s a j" for a j using u(3) hs p that by simp
  ultimately show ?thesis using u(1,2) hs p by simp
qed

lemma cache_unp:
  assumes "cache_ok d me uid s" "has_buf d s bn i" "pins d s bn \<noteq> 0" "pins d s bn \<noteq> 1"
  shows "cache_ok d me uid (bunpin s i) \<and> above (bunpin s i) = above s \<and>
    (\<forall>a j. has_buf d s a j \<longrightarrow> has_buf d (bunpin s i) a j) \<and> cache_st d (bunpin s i) = a_pin bn (-1) (cache_st d s)"
  using assms by (intro cache_pin) (auto simp: bunpin_def)

lemma bview_valid: "cached d s a = Some i \<Longrightarrow> b_valid (bufs s ! i) \<Longrightarrow> bview d s a = data_of s i"
  by (simp add: bview_def)

lemma cache_wr:
  assumes ok: "cache_ok d me uid s" and h: "has_buf d s bn i" and own: "bholder d s bn = Some uid"
  shows "\<exists>t. bwrite s me i = Ok t \<and> cache_ok d me uid t \<and> above t = above s \<and>
    (\<forall>a j. has_buf d s a j \<longrightarrow> has_buf d t a j) \<and> cache_st d t = a_write bn (cache_st d s)"
proof -
  have inv: "bio_inv d s" and me: "p_pid (procs s ! me) = uid" using ok by (auto simp: cache_ok_def)
  note hs = has_bufD [OF inv h]
  define t where "t = s\<lparr>disk := (disk s)(bn := bview d s bn), wtrace := wtrace s @ [(bn, bview d s bn)]\<rparr>"
  have lk: "holdingsleep s me (b_lock (bufs s ! i))"
    using own hs(2) me by (auto simp: bholder_def holdingsleep_def split: if_splits)
  have w: "bwrite s me i = Ok t" using lk hs(4,6) by (simp add: bwrite_def virtio_rw_def Let_def t_def)
  have bt: "bufs t = bufs s" by (simp add: t_def)
  have same: "cached d t = cached d s" "pins d t = pins d s" "bholder d t = bholder d s" "nfree t = nfree s" "has_buf d t = has_buf d s"
    unfolding fun_eq_iff cached_def pins_def bholder_def nfree_def has_buf_def bt by simp_all
  have v: "bview d t = bview d s"
  proof (rule ext)
    fix a
    show "bview d t a = bview d s a"
    proof (cases "a = bn")
      case True
      then show ?thesis using bview_valid [of d t bn i] hs(2,5,6) by (simp add: same(1) bt)
    next
      case False
      then have dd: "disk t a = disk s a" by (simp add: t_def)
      show ?thesis unfolding bview_def same(1) bt dd ..
    qed
  qed
  have st: "cache_st d t = a_write bn (cache_st d s)"
    by (intro cache.equality) (simp_all add: same v a_write_def, simp_all add: t_def)
  have "pins d t a = 0 \<Longrightarrow> bview d t a = disk t a" for a
    using bio_invD(3) [OF inv, of a] by (simp add: same v) (auto simp: t_def)
  then have "bio_inv d t" using inv unfolding bio_inv_def by (simp add: t_def)
  then have "cache_ok d me uid t" "above t = above s" using ok by (simp_all add: cache_ok_def above_def t_def)
  then show ?thesis using w st same(5) by simp
qed

lemma core_same:
  assumes "\<And>j. core (bufs t ! j) = core (bufs s ! j)" "length (bufs t) = length (bufs s)" "disk t = disk s"
  shows "cached d t = cached d s" "pins d t = pins d s" "bview d t = bview d s" "bholder d t = bholder d s"
    "nfree t = nfree s" "has_buf d t = has_buf d s" "buf_unique d (bufs t) = buf_unique d (bufs s)"
proof -
  note f = core_fields [OF assms(1)]
  have "find_index (\<lambda>b. b_dev b = d \<and> b_blockno b = a) (take NBUF (bufs t)) =
      find_index (\<lambda>b. b_dev b = d \<and> b_blockno b = a) (take NBUF (bufs s))" for a
    by (rule find_index_cong) (simp_all add: assms(2) f)
  then show c: "cached d t = cached d s" by (simp add: cached_def fun_eq_iff)
  show "pins d t = pins d s" "bview d t = bview d s" "bholder d t = bholder d s" "has_buf d t = has_buf d s"
    unfolding fun_eq_iff pins_def bview_def bholder_def has_buf_def c f assms(3) by simp_all
  show "nfree t = nfree s" "buf_unique d (bufs t) = buf_unique d (bufs s)" using f by (simp_all add: nfree_def buf_unique_def)
qed

lemma above_wakeup: "above (wakeup s w ch) = above s" "length (procs (wakeup s w ch)) = length (procs s)"
  "j < length (procs s) \<Longrightarrow> p_pid (procs (wakeup s w ch) ! j) = p_pid (procs s ! j)"
proof -
  have "map (\<lambda>p. p\<lparr>p_state := UNUSED\<rparr>) (procs (wakeup s w ch)) = map (\<lambda>p. p\<lparr>p_state := UNUSED\<rparr>) (procs s)"
    by (rule nth_equalityI) (auto simp: wakeup_def Let_def)
  then show "above (wakeup s w ch) = above s" by (simp add: above_def) (simp add: wakeup_def)
  show "length (procs (wakeup s w ch)) = length (procs s)" by (simp add: wakeup_def)
  show "p_pid (procs (wakeup s w ch) ! j) = p_pid (procs s ! j)" if "j < length (procs s)"
    using that by (simp add: wakeup_def Let_def)
qed

lemma above_bufs: "above (s\<lparr>bufs := bs\<rparr>) = above s"
  by (simp add: above_def)

lemma cache_rel:
  assumes ok: "cache_ok d me uid s" and h: "has_buf d s bn i" and own: "bholder d s bn = Some uid"
    and cl: "pins d s bn = 1 \<Longrightarrow> bview d s bn = disk s bn"
  shows "\<exists>t. brelse s me i = Ok t \<and> cache_ok d me uid t \<and> above t = above s \<and>
    (\<forall>a j. has_buf d s a j \<longrightarrow> has_buf d t a j) \<and> cache_st d t = a_rel bn (cache_st d s)"
proof -
  have inv: "bio_inv d s" and me: "me < length (procs s)" "p_pid (procs s ! me) = uid" using ok by (auto simp: cache_ok_def)
  note hs = has_bufD [OF inv h]
  define w where "w = wakeup s (Some me) (ChBuf i)"
  have w: "bufs w = bufs s" "disk w = disk s" "wtrace w = wtrace s" by (simp_all add: w_def wakeup_def)
  have ab: "cached d w = cached d s" "pins d w = pins d s" "bview d w = bview d s" "bholder d w = bholder d s" "nfree w = nfree s"
      "has_buf d w = has_buf d s" "buf_unique d (bufs w) = buf_unique d (bufs s)"
    by (rule core_same; simp add: w)+
  have okw: "cache_ok d me uid w"
    using inv me by (auto simp: cache_ok_def bio_inv_def w ab) (simp_all add: w_def above_wakeup)
  let ?b = "(bufs s ! i)\<lparr>b_lock := (b_lock (bufs s ! i))\<lparr>sl_locked := False, sl_pid := 0\<rparr>, b_refcnt := b_refcnt (bufs s ! i) - 1\<rparr>"
  define u where "u = w\<lparr>bufs := (bufs w)[i := ?b]\<rparr>"
  have hw: "has_buf d w bn i" using h ab(6) by simp
  have lk: "sl_locked (b_lock (bufs s ! i))" "holdingsleep s me (b_lock (bufs s ! i))"
    using own hs(2) me by (auto simp: bholder_def holdingsleep_def split: if_splits)
  have nz: "pins d s bn \<noteq> 0" using bio_invD(4) [OF inv hs(1)] lk(1) hs(7) by auto
  have cl': "b_refcnt ?b = 0 \<Longrightarrow> b_data ?b = disk w bn" using cl hs(6,7) by (simp add: w)
  have "b_next ?b = b_next (bufs w ! i)" "b_prev ?b = b_prev (bufs w ! i)" "b_dev ?b = d" "b_blockno ?b = bn" "b_valid ?b"
    using hs by (simp_all add: w)
  note uu = cache_same [OF okw hw u_def this _ cl']
  have u: "cache_ok d me uid u" "above u = above s" "\<And>a j. has_buf d s a j \<Longrightarrow> has_buf d u a j" "cache_st d u = a_rel bn (cache_st d s)"
  proof -
    show "cache_ok d me uid u" using uu(1) by simp
    show "above u = above s" using uu(2) by (simp add: w_def above_wakeup)
    show "has_buf d u a j" if "has_buf d s a j" for a j using uu(3) that by (simp add: ab)
    show "cache_st d u = a_rel bn (cache_st d s)"
      using uu(4,5) nz hs(6,7) by (intro cache.equality) (auto simp: a_rel_def ab w)
  qed
  have len: "i < length (bufs s)" using hs(1) bio_invD(1) [OF inv] by simp
  have br: "brelse s me i = Ok (if b_refcnt ?b = 0 then u\<lparr>bufs := link_first (unlink (bufs u) i) i\<rparr> else u)"
    using lk len by (simp add: brelse_def releasesleep_def set_buf_def u_def w Let_def flip: w_def)
  show ?thesis
  proof (cases "b_refcnt ?b = 0")
    case True
    define t where "t = u\<lparr>bufs := link_first (unlink (bufs u) i) i\<rparr>"
    have iu: "bio_inv d u" using u(1) by (simp add: cache_ok_def)
    have td: "disk t = disk u" "bufs t = link_first (unlink (bufs u) i) i" by (simp_all add: t_def)
    note cs = core_same [of t u, OF _ _ td(1)]
    have c: "cached d t = cached d u" "pins d t = pins d u" "bview d t = bview d u" "bholder d t = bholder d u" "nfree t = nfree u"
        "has_buf d t = has_buf d u" "buf_unique d (bufs t) = buf_unique d (bufs u)"
      by (rule cs; simp add: td core_links)+
    have "lru (bufs t) (i # remove1 i xs)" if "lru (bufs u) xs" for xs unfolding td using that hs(1) by (rule lru_front)
    moreover have "b_refcnt (bufs t ! j) = b_refcnt (bufs u ! j)" "b_lock (bufs t ! j) = b_lock (bufs u ! j)" for j
      by (rule core_fields; simp add: td core_links)+
    ultimately have "bio_inv d t" using iu unfolding bio_inv_def c td(1) by auto
    then have "cache_ok d me uid t" using u(1) by (simp add: cache_ok_def t_def)
    moreover have "above t = above s" using u(2) by (simp add: t_def above_bufs)
    moreover have "cache_st d t = a_rel bn (cache_st d s)" using u(4) by (simp add: cache_st_def c td(1)) (simp add: t_def)
    ultimately show ?thesis using u(3) c(6) br True by (simp add: t_def)
  next
    case False
    then show ?thesis using br u by simp
  qed
qed

interpretation bc: block_cache "cache_ok d me uid" "cache_st d" above "has_buf d" uid data_of "\<lambda>s. bread s me d" set_data
    "\<lambda>s. bwrite s me" "\<lambda>s. brelse s me" bunpin for d me uid
proof unfold_locales
  fix s :: "'a bst_scheme" and bn i
  assume ok: "cache_ok d me uid s"
  then have inv: "bio_inv d s" by (simp add: cache_ok_def)
  show "data_of s i = cview (cache_st d s) bn" if "has_buf d s bn i" using has_bufD(6) [OF inv that] by simp
  show "cview (cache_st d s) bn = cdisk (cache_st d s) bn" if "cpin (cache_st d s) bn = 0"
    using bio_invD(3) [OF inv] that by simp
qed (simp_all add: cache_rd cache_upd cache_wr cache_rel cache_unp)

lemma binit_bufs:
  assumes "j < NBUF"
  shows "b_dev (bufs (binit s) ! j) = 0" "b_refcnt (bufs (binit s) ! j) = 0" "\<not> sl_locked (b_lock (bufs (binit s) ! j))"
proof -
  let ?P = "\<lambda>bs :: buf list. length bs = Suc NBUF \<and> (\<forall>j<Suc NBUF. b_dev (bs ! j) = 0 \<and> b_refcnt (bs ! j) = 0 \<and> \<not> sl_locked (b_lock (bs ! j)))"
  have "?P (fold (\<lambda>i bs. link_first (bs[i := (bs ! i)\<lparr>b_lock := initsleeplock ''buffer''\<rparr>]) i) [0..<NBUF]
      (replicate NBUF zero_buf @ [zero_buf\<lparr>b_prev := HEAD, b_next := HEAD\<rparr>]))"
  proof (rule fold_invariant [where P = ?P and Q = "\<lambda>i. i < NBUF"])
    show "?P (replicate NBUF zero_buf @ [zero_buf\<lparr>b_prev := HEAD, b_next := HEAD\<rparr>])"
      by (auto simp: nth_append zero_buf_def less_Suc_eq)
  next
    fix i and bs :: "buf list"
    assume i: "i < NBUF" and bs: "?P bs"
    let ?bs = "bs[i := (bs ! i)\<lparr>b_lock := initsleeplock ''buffer''\<rparr>]"
    have p: "?P ?bs" using bs i by (auto simp: nth_list_update initsleeplock_def)
    note f = core_fields [OF core_links(1) [of ?bs i]]
    show "?P (link_first ?bs i)" unfolding core_links(3) f by (rule p)
  qed simp
  then show "b_dev (bufs (binit s) ! j) = 0" "b_refcnt (bufs (binit s) ! j) = 0" "\<not> sl_locked (b_lock (bufs (binit s) ! j))"
    using assms by (auto simp: binit_def Let_def)
qed

lemma binit_inv:
  assumes "d \<noteq> 0"
  shows "bio_inv d (binit s)" "bholder d (binit s) bn = None" "pins d (binit s) bn = 0" "bview d (binit s) bn = disk s bn"
    "nfree (binit s) = NBUF"
proof -
  note b = binit_bufs [of _ s]
  have len: "length (bufs (binit s)) = Suc NBUF" using binit_lru [of s] by (simp add: lru_def)
  have c: "cached d (binit s) bn = None" for bn using b(1) assms by (auto simp: cached_None [OF len])
  have dk: "disk (binit s) = disk s" by (simp add: binit_def Let_def)
  show "bholder d (binit s) bn = None" "pins d (binit s) bn = 0" "bview d (binit s) bn = disk s bn" by (simp_all add: bholder_def pins_def bview_def c dk)
  have "buf_unique d (bufs (binit s))" using b(1) assms unfolding buf_unique_def by fastforce
  then show "bio_inv d (binit s)" unfolding bio_inv_def using binit_lru b(3) by (fastforce simp: bview_def c dk)
  have "{i. i < NBUF \<and> b_refcnt (bufs (binit s) ! i) = 0} = {..<NBUF}" using b(2) by auto
  then show "nfree (binit s) = NBUF" by (simp add: nfree_def)
qed

definition bst_ex :: bst where
  "bst_ex = \<lparr>km = vm_ex,
     procs = [\<lparr>p_state = RUNNING, p_chan = None, p_killed = 0, p_xstate = 0, p_pid = 1, p_parent = None,
         p_kstack = KSTACK 0, p_sz = 0, p_pagetable = 0, p_trapframe = 0,
         p_context = \<lparr>ctx_ra = 0, ctx_sp = 0, ctx_s = []\<rparr>, p_ofile = replicate NOFILE None, p_cwd = None,
         p_name = [], p_tracing = 0\<rparr>],
     nextpid = 2, initproc = None, ticks = 0, bufs = [], disk = (\<lambda>n. replicate BSIZE (of_nat n)), wtrace = []\<rparr>"

lemma bst_ex_ok: "cache_ok 1 0 1 (binit bst_ex)"
  using binit_inv(1) [of 1 bst_ex] by (simp add: cache_ok_def) (simp add: binit_def bst_ex_def Let_def)

section \<open>Properties\<close>

text \<open>C20: the list through \<open>bcache.head\<close> is a least-recently-used queue. \<open>binit\<close> builds it with every
  buffer on it; a block that is not cached gets the first unreferenced buffer from its far end, and
  \<open>bget\<close> panics exactly when there is none; releasing the last reference to a buffer moves it to the
  front and keeps the order of the others.\<close>

theorem lru_queue:
  "lru (bufs (binit s0)) (rev [0..<NBUF]) \<and>
   (lru (bufs s) xs \<longrightarrow>
     ((\<forall>j<NBUF. \<not> (b_dev (bufs s ! j) = dev \<and> b_blockno (bufs s ! j) = bn)) \<longrightarrow>
       bget s me dev bn =
         (case find (\<lambda>j. b_refcnt (bufs s ! j) = 0) (rev xs) of
            None \<Rightarrow> Panic ''bget: no buffers''
          | Some j \<Rightarrow> lock_buf (set_buf s j (\<lambda>b. b\<lparr>b_dev := dev, b_blockno := bn, b_valid := False, b_refcnt := 1\<rparr>)) me j)) \<and>
     (i < NBUF \<and> b_refcnt (bufs s ! i) = 1 \<and> brelse s me i = Ok t \<longrightarrow> lru (bufs t) (i # remove1 i xs)))"
proof (intro conjI impI)
  assume xs: "lru (bufs s) xs"
  then have set: "set xs = {..<NBUF}" and len: "length (bufs s) = Suc NBUF" by (simp_all add: lru_def)
  show "bget s me dev bn =
         (case find (\<lambda>j. b_refcnt (bufs s ! j) = 0) (rev xs) of
            None \<Rightarrow> Panic ''bget: no buffers''
          | Some j \<Rightarrow> lock_buf (set_buf s j (\<lambda>b. b\<lparr>b_dev := dev, b_blockno := bn, b_valid := False, b_refcnt := 1\<rparr>)) me j)"
    if "\<forall>j<NBUF. \<not> (b_dev (bufs s ! j) = dev \<and> b_blockno (bufs s ! j) = bn)"
  proof -
    have "find (\<lambda>i. b_dev (bufs s ! i) = dev \<and> b_blockno (bufs s ! i) = bn) xs = None"
      using that set by (auto simp: find_None_iff)
    then show ?thesis by (simp add: bget_def lru_scan [OF xs])
  qed
  assume i: "i < NBUF \<and> b_refcnt (bufs s ! i) = 1 \<and> brelse s me i = Ok t"
  define bs where "bs = (bufs s)[i := (bufs s ! i)\<lparr>b_lock := (b_lock (bufs s ! i))\<lparr>sl_locked := False, sl_pid := 0\<rparr>, b_refcnt := 0\<rparr>]"
  have "bufs t = link_first (unlink bs i) i"
    using i len by (auto simp: brelse_def releasesleep_def set_buf_def bs_def wakeup_def Let_def split: if_splits)
  moreover have "adj bs (HEAD # xs @ [HEAD])"
    by (rule adj_cong [of "bufs s"]) (use xs i len in \<open>auto simp: lru_def bs_def nth_list_update\<close>)
  then have "lru bs xs" using xs by (simp add: lru_def bs_def)
  ultimately show "lru (bufs t) (i # remove1 i xs)" using lru_front i by simp
qed (rule binit_lru)

theorem lru_queue_witness:
  "\<exists>t. bget (binit bst_ex) 0 1 7 = Ok (0, t)"
proof -
  have f: "find (\<lambda>j. b_refcnt (bufs (binit bst_ex) ! j) = 0) (rev (rev [0..<NBUF])) = Some 0"
    using binit_bufs(2) [of 0 bst_ex] by (simp add: NBUF_def MAXOPBLOCKS_def upt_rec)
  have "\<forall>j<NBUF. \<not> (b_dev (bufs (binit bst_ex) ! j) = 1 \<and> b_blockno (bufs (binit bst_ex) ! j) = 7)"
    using binit_bufs(1) [of _ bst_ex] by auto
  then have "bget (binit bst_ex) 0 1 7 = lock_buf (set_buf (binit bst_ex) 0
      (\<lambda>b. b\<lparr>b_dev := 1, b_blockno := 7, b_valid := False, b_refcnt := 1\<rparr>)) 0 0"
    using lru_queue [of _ "binit bst_ex" "rev [0..<NBUF]" 1 7 0] binit_lru [of bst_ex] f by auto
  then show ?thesis using binit_bufs(3) [of 0 bst_ex] binit_lru [of bst_ex]
    by (simp add: lock_buf_def acquiresleep_def set_buf_def lru_def NBUF_def MAXOPBLOCKS_def)
qed

text \<open>C5: the buffer cache is coherent. While its invariant holds and nobody has the block locked, \<open>bread\<close>
  returns, locked by the caller, a buffer with the block's current contents: what was last put in
  the cache, else what is on the disk. It changes the contents of no block, recycles only buffers
  nobody references (so no unwritten change is lost), and keeps the invariant.\<close>

theorem bread_coherent:
  assumes "bio_inv dev s" "me < length (procs s)" "bholder dev s bn = None" "pins dev s bn + 1 \<noteq> 0"
    "pins dev s bn \<noteq> 0 \<or> 0 < nfree s"
  shows "\<exists>i t. bread s me dev bn = Ok (i, t) \<and> bio_inv dev t \<and> data_of t i = bview dev s bn \<and>
    holdingsleep t me (b_lock (bufs t ! i)) \<and> bview dev t = bview dev s \<and> disk t = disk s \<and>
    pins dev t = (pins dev s)(bn := pins dev s bn + 1) \<and>
    (\<forall>a j. cached dev s a = Some j \<and> b_valid (bufs s ! j) \<and> pins dev s a \<noteq> 0 \<longrightarrow> cached dev t a = Some j)"
proof -
  have ok: "cache_ok dev me (p_pid (procs s ! me)) s" using assms by (simp add: cache_ok_def)
  obtain i t where t: "bread s me dev bn = Ok (i, t)" "cache_ok dev me (p_pid (procs s ! me)) t" "has_buf dev t bn i"
    "\<forall>a j. has_buf dev s a j \<longrightarrow> pins dev s a \<noteq> 0 \<longrightarrow> has_buf dev t a j"
    "cache_st dev t = a_read (p_pid (procs s ! me)) bn (cache_st dev s)"
    using cache_rd [OF ok assms(3-5)] by blast
  have inv: "bio_inv dev t" and pid: "p_pid (procs t ! me) = p_pid (procs s ! me)" using t(2) by (auto simp: cache_ok_def)
  have "bview dev t = bview dev s" "disk t = disk s" "pins dev t = (pins dev s)(bn := pins dev s bn + 1)"
      "bholder dev t bn = Some (p_pid (procs s ! me))"
    using arg_cong [OF t(5), of cview] arg_cong [OF t(5), of cdisk] arg_cong [OF t(5), of cpin] arg_cong [OF t(5), of cown]
    by (simp_all add: a_read_def)
  then show ?thesis
    using t(1,4) inv pid has_bufD(2,6) [OF inv t(3)]
    by (intro exI [of _ i] exI [of _ t]) (auto simp: bholder_def holdingsleep_def has_buf_def split: if_splits)
qed

theorem bread_coherent_witness:
  "\<exists>i t. bread (binit bst_ex) 0 1 7 = Ok (i, t) \<and> data_of t i = replicate BSIZE 7"
proof -
  have "\<exists>i t. bread (binit bst_ex) 0 1 7 = Ok (i, t) \<and> data_of t i = bview 1 (binit bst_ex) 7"
    using bread_coherent [of 1 "binit bst_ex" 0 7] binit_inv [of 1 bst_ex] bst_ex_ok
    by (auto simp: cache_ok_def NBUF_def MAXOPBLOCKS_def)
  moreover have "bview 1 (binit bst_ex) 7 = replicate BSIZE 7" using binit_inv(4) [of 1 bst_ex 7] by (simp add: bst_ex_def)
  ultimately show ?thesis by simp
qed

end
