(* ===== verification/Log.thy ===== *)
theory Log
  imports BufCache
begin

text \<open>
  The redo log (\<open>kernel/log.c\<close>): transactions opened by \<open>begin_op\<close> and closed by \<open>end_op\<close>,
  \<open>log_write\<close> with absorption, the commit, and recovery at boot. The in-memory header is the
  count \<open>lh_n\<close> and the array \<open>lh_block\<close>; its on-disk form is the header block, a count followed
  by the block numbers.

  The disk writes of a commit happen one block at a time, so a crash leaves the disk after some
  prefix of them.
\<close>

section \<open>Definitions\<close>

record lst = bst +
  log_start :: nat
  log_outstanding :: int
  log_committing :: bool
  log_dev :: nat
  log_ncommit :: int
  lh_n :: int
  lh_block :: "nat list"

text \<open>\<open>n\<close> is an \<open>int\<close>, stored as its 32 bits.\<close>

definition head_bytes :: "int \<Rightarrow> nat list \<Rightarrow> blk \<Rightarrow> blk" where
  "head_bytes n blocks b =
     fold (\<lambda>i b. put32 b (4 + 4 * i) (blocks ! i)) [0..<nat n] (put32 b 0 (nat (n mod 2 ^ 32)))"

definition head_count :: "blk \<Rightarrow> int" where
  "head_count b = sint (of_nat (get32 b 0) :: u32)"

definition read_head :: "'a lst_scheme \<Rightarrow> nat \<Rightarrow> 'a lst_scheme res" where
  "read_head s me =
     bnd (bread s me (log_dev s) (log_start s)) (\<lambda>(i, s).
       let d = data_of s i; n = head_count d;
           s = s\<lparr>lh_n := n,
                 lh_block := fold (\<lambda>k bl. bl[k := get32 d (4 + 4 * k)]) [0..<nat n] (lh_block s)\<rparr>
       in brelse s me i)"

definition write_head :: "'a lst_scheme \<Rightarrow> nat \<Rightarrow> 'a lst_scheme res" where
  "write_head s me =
     bnd (bread s me (log_dev s) (log_start s)) (\<lambda>(i, s).
     bnd (bwrite (set_data s i (head_bytes (lh_n s) (lh_block s))) me i) (\<lambda>s.
       brelse s me i))"

text \<open>One turn of the loops of \<open>install_trans\<close> and \<open>write_log\<close>.\<close>

definition install_one :: "bool \<Rightarrow> nat \<Rightarrow> nat \<Rightarrow> 'a lst_scheme \<Rightarrow> 'a lst_scheme res" where
  "install_one recovering me tail s =
     bnd (bread s me (log_dev s) (log_start s + tail + 1)) (\<lambda>(lbuf, s).
     bnd (bread s me (log_dev s) (lh_block s ! tail)) (\<lambda>(dbuf, s).
     bnd (bwrite (set_data s dbuf (\<lambda>_. data_of s lbuf)) me dbuf) (\<lambda>s.
     bnd (brelse (if recovering then s else bunpin s dbuf) me lbuf) (\<lambda>s.
       brelse s me dbuf))))"

definition install_trans :: "bool \<Rightarrow> 'a lst_scheme \<Rightarrow> nat \<Rightarrow> 'a lst_scheme res" where
  "install_trans recovering s me = fold_res (install_one recovering me) [0..<nat (lh_n s)] s"

definition recover_from_log :: "'a lst_scheme \<Rightarrow> nat \<Rightarrow> 'a lst_scheme res" where
  "recover_from_log s me =
     bnd (read_head s me) (\<lambda>s.
     bnd (install_trans True s me) (\<lambda>s.
       write_head (s\<lparr>lh_n := 0\<rparr>) me))"

text \<open>The superblock's \<open>logstart\<close> is the argument. A \<open>struct logheader\<close> has
  \<open>4 + 4 * LOGBLOCKS\<close> bytes.\<close>

definition initlog :: "'a lst_scheme \<Rightarrow> nat \<Rightarrow> nat \<Rightarrow> nat \<Rightarrow> 'a lst_scheme res" where
  "initlog s me dev logstart =
     (if 4 + 4 * LOGBLOCKS \<ge> BSIZE then Panic ''initlog: too big logheader''
      else recover_from_log (s\<lparr>log_start := logstart, log_dev := dev\<rparr>) me)"

definition begin_op :: "'a lst_scheme \<Rightarrow> 'a lst_scheme res" where
  "begin_op s =
     (if log_committing s then Blocks ChLog
      else if lh_n s + (log_outstanding s + 1) * int MAXOPBLOCKS > int LOGBLOCKS then Blocks ChLog
      else Ok (s\<lparr>log_outstanding := log_outstanding s + 1\<rparr>))"

definition write_log_one :: "nat \<Rightarrow> nat \<Rightarrow> 'a lst_scheme \<Rightarrow> 'a lst_scheme res" where
  "write_log_one me tail s =
     bnd (bread s me (log_dev s) (log_start s + tail + 1)) (\<lambda>(to, s).
     bnd (bread s me (log_dev s) (lh_block s ! tail)) (\<lambda>(from, s).
     bnd (bwrite (set_data s to (\<lambda>_. data_of s from)) me to) (\<lambda>s.
     bnd (brelse s me from) (\<lambda>s. brelse s me to))))"

definition write_log :: "'a lst_scheme \<Rightarrow> nat \<Rightarrow> 'a lst_scheme res" where
  "write_log s me = fold_res (write_log_one me) [0..<nat (lh_n s)] s"

definition commit :: "'a lst_scheme \<Rightarrow> nat \<Rightarrow> 'a lst_scheme res" where
  "commit s me =
     (if lh_n s > 0 then
        bnd (write_log s me) (\<lambda>s.
        bnd (write_head s me) (\<lambda>s.
        bnd (install_trans False s me) (\<lambda>s.
          write_head (s\<lparr>lh_n := 0\<rparr>) me)))
      else Ok s)"

text \<open>\<open>end_op\<close> up to the release of the log's lock: whether this caller has to commit.\<close>

definition end_op_enter :: "'a lst_scheme \<Rightarrow> nat \<Rightarrow> (bool \<times> 'a lst_scheme) res" where
  "end_op_enter s me =
     (let s = s\<lparr>log_outstanding := log_outstanding s - 1\<rparr> in
      if log_committing s then Panic ''log.committing''
      else if log_outstanding s = 0 then Ok (True, s\<lparr>log_committing := True\<rparr>)
      else Ok (False, wakeup s (Some me) ChLog))"

definition end_op_leave :: "'a lst_scheme \<Rightarrow> nat \<Rightarrow> 'a lst_scheme" where
  "end_op_leave s me =
     wakeup (s\<lparr>log_committing := False, log_ncommit := log_ncommit s + 1\<rparr>) (Some me) ChLog"

definition end_op :: "'a lst_scheme \<Rightarrow> nat \<Rightarrow> 'a lst_scheme res" where
  "end_op s me =
     bnd (end_op_enter s me) (\<lambda>(do_commit, s).
       if do_commit then bnd (commit s me) (\<lambda>s. Ok (end_op_leave s me)) else Ok s)"

definition log_write :: "'a lst_scheme \<Rightarrow> nat \<Rightarrow> 'a lst_scheme res" where
  "log_write s i =
     (if lh_n s \<ge> int LOGBLOCKS then Panic ''too big a transaction''
      else if log_outstanding s < 1 then Panic ''log_write outside of trans''
      else let bn = b_blockno (bufs s ! i);
               k = (case find_index (\<lambda>x. x = bn) (take (nat (lh_n s)) (lh_block s)) of
                      Some k \<Rightarrow> k | None \<Rightarrow> nat (lh_n s));
               s = s\<lparr>lh_block := (lh_block s)[k := bn]\<rparr>
           in if int k = lh_n s then Ok ((bpin s i)\<lparr>lh_n := lh_n s + 1\<rparr>) else Ok s)"

text \<open>\<open>sys_sync\<close> waits for the next commit when operations are in progress; \<open>sync_check\<close> is its
  loop test, made on entry and after each wake-up.\<close>

definition sync_check :: "'a lst_scheme \<Rightarrow> int \<Rightarrow> int res" where
  "sync_check s n = (if log_ncommit s < n then Blocks ChLog else Ok 0)"

definition sys_sync :: "'a lst_scheme \<Rightarrow> int res" where
  "sys_sync s = (if log_committing s \<or> log_outstanding s > 0 then sync_check s (log_ncommit s + 1) else Ok 0)"

end
