(* ===== verification/Fs.thy ===== *)
theory Fs
  imports Log
begin

text \<open>
  The file system proper (\<open>kernel/fs.c\<close>, \<open>kernel/fs.h\<close>, \<open>struct inode\<close> of
  \<open>kernel/file.h\<close>, \<open>kernel/stat.h\<close>): the block allocator, inodes and their contents,
  directories and path names, on top of the log and the buffer cache.

  Block numbers, inode numbers and sizes are natural numbers (the source's \<open>uint\<close>; the additions
  whose overflow the source tests are taken modulo \<open>2 ^ 32\<close>). An in-memory inode is its index in
  \<open>itable\<close>. A path and a name are lists of bytes without a terminating zero.
\<close>

section \<open>Definitions\<close>

subsection \<open>On-disk structures\<close>

definition ROOTINO :: nat where [param_defs]: "ROOTINO = 1"
definition FSMAGIC :: nat where [param_defs]: "FSMAGIC = 0x10203040"
definition NDIRECT :: nat where [param_defs]: "NDIRECT = 12"
definition NINDIRECT :: nat where [param_defs]: "NINDIRECT = BSIZE div 4"
definition MAXFILE :: nat where [param_defs]: "MAXFILE = NDIRECT + NINDIRECT"
definition DINODE_SIZE :: nat where [param_defs]: "DINODE_SIZE = 64"
definition IPB :: nat where [param_defs]: "IPB = BSIZE div DINODE_SIZE"
definition BPB :: nat where [param_defs]: "BPB = BSIZE * 8"
definition DIRSIZ :: nat where [param_defs]: "DIRSIZ = 14"
definition DIRENT_SIZE :: nat where [param_defs]: "DIRENT_SIZE = 16"
definition NINODE :: nat where [param_defs]: "NINODE = 50"

definition T_DIR :: int where [param_defs]: "T_DIR = 1"
definition T_FILE :: int where [param_defs]: "T_FILE = 2"
definition T_DEVICE :: int where [param_defs]: "T_DEVICE = 3"

record superblock =
  sb_magic :: nat
  sb_size :: nat
  sb_nblocks :: nat
  sb_ninodes :: nat
  sb_nlog :: nat
  sb_logstart :: nat
  sb_inodestart :: nat
  sb_bmapstart :: nat

text \<open>A \<open>short\<close> is kept as an integer; these convert it from and to its two bytes.\<close>

definition short_of :: "nat \<Rightarrow> int" where
  "short_of n = (if n \<ge> 32768 then int n - 65536 else int n)"

definition of_short :: "int \<Rightarrow> nat" where
  "of_short i = nat (i mod 65536)"

record dinode =
  d_type :: int
  d_major :: int
  d_minor :: int
  d_nlink :: int
  d_size :: nat
  d_addrs :: "nat list"

definition get_dinode :: "blk \<Rightarrow> nat \<Rightarrow> dinode" where
  "get_dinode b o1 =
     \<lparr>d_type = short_of (get16 b o1), d_major = short_of (get16 b (o1 + 2)),
      d_minor = short_of (get16 b (o1 + 4)), d_nlink = short_of (get16 b (o1 + 6)),
      d_size = get32 b (o1 + 8), d_addrs = map (\<lambda>i. get32 b (o1 + 12 + 4 * i)) [0..<NDIRECT + 1]\<rparr>"

definition put_dinode :: "blk \<Rightarrow> nat \<Rightarrow> dinode \<Rightarrow> blk" where
  "put_dinode b o1 d =
     (let b = put16 b o1 (of_short (d_type d));
          b = put16 b (o1 + 2) (of_short (d_major d));
          b = put16 b (o1 + 4) (of_short (d_minor d));
          b = put16 b (o1 + 6) (of_short (d_nlink d));
          b = put32 b (o1 + 8) (d_size d)
      in fold (\<lambda>i b. put32 b (o1 + 12 + 4 * i) (d_addrs d ! i)) [0..<NDIRECT + 1] b)"

record inode =
  i_dev :: nat
  i_inum :: nat
  i_ref :: int
  i_lock :: sleeplock
  i_valid :: bool
  i_type :: int
  i_major :: int
  i_minor :: int
  i_nlink :: int
  i_size :: nat
  i_addrs :: "nat list"

record fsst = lst +
  sb :: superblock
  inodes :: "inode list"

definition IBLOCK :: "nat \<Rightarrow> superblock \<Rightarrow> nat" where
  "IBLOCK i b = i div IPB + sb_inodestart b"

definition BBLOCK :: "nat \<Rightarrow> superblock \<Rightarrow> nat" where
  "BBLOCK b s = b div BPB + sb_bmapstart s"

definition set_inode :: "'a fsst_scheme \<Rightarrow> nat \<Rightarrow> (inode \<Rightarrow> inode) \<Rightarrow> 'a fsst_scheme" where
  "set_inode s i f = s\<lparr>inodes := (inodes s)[i := f (inodes s ! i)]\<rparr>"

definition get_superblock :: "blk \<Rightarrow> superblock" where
  "get_superblock b =
     \<lparr>sb_magic = get32 b 0, sb_size = get32 b 4, sb_nblocks = get32 b 8, sb_ninodes = get32 b 12,
      sb_nlog = get32 b 16, sb_logstart = get32 b 20, sb_inodestart = get32 b 24,
      sb_bmapstart = get32 b 28\<rparr>"

definition readsb :: "'a fsst_scheme \<Rightarrow> nat \<Rightarrow> nat \<Rightarrow> 'a fsst_scheme res" where
  "readsb s me dev =
     bnd (bread s me dev 1) (\<lambda>(bp, s). brelse (s\<lparr>sb := get_superblock (data_of s bp)\<rparr>) me bp)"

subsection \<open>Blocks\<close>

definition bzero :: "'a fsst_scheme \<Rightarrow> nat \<Rightarrow> nat \<Rightarrow> nat \<Rightarrow> 'a fsst_scheme res" where
  "bzero s me dev bno =
     bnd (bread s me dev bno) (\<lambda>(bp, s).
     bnd (log_write (set_data s bp (\<lambda>_. replicate BSIZE 0)) bp) (\<lambda>s. brelse s me bp))"

definition bitmap_bit :: "blk \<Rightarrow> nat \<Rightarrow> bool" where
  "bitmap_bit d bi = bit (d ! (bi div 8)) (bi mod 8)"

definition bitmap_set :: "nat \<Rightarrow> blk \<Rightarrow> blk" where
  "bitmap_set bi d = d[bi div 8 := set_bit (bi mod 8) (d ! (bi div 8))]"

definition bitmap_clear :: "nat \<Rightarrow> blk \<Rightarrow> blk" where
  "bitmap_clear bi d = d[bi div 8 := unset_bit (bi mod 8) (d ! (bi div 8))]"

text \<open>The inner loop of \<open>balloc\<close>: the first clear bit of the group that starts at block \<open>b\<close>.\<close>

definition free_bit :: "blk \<Rightarrow> nat \<Rightarrow> nat \<Rightarrow> nat option" where
  "free_bit d b sz = find_index (\<lambda>bi. \<not> bitmap_bit d bi) [0..<min BPB (sz - b)]"

fun balloc_loop :: "'a fsst_scheme \<Rightarrow> nat \<Rightarrow> nat \<Rightarrow> nat list \<Rightarrow> (nat \<times> 'a fsst_scheme) res" where
  "balloc_loop s me dev [] = Ok (0, s)"
| "balloc_loop s me dev (b # groups) =
     bnd (bread s me dev (BBLOCK b (sb s))) (\<lambda>(bp, s).
       case free_bit (data_of s bp) b (sb_size (sb s)) of
         Some bi \<Rightarrow>
           bnd (log_write (set_data s bp (bitmap_set bi)) bp) (\<lambda>s.
           bnd (brelse s me bp) (\<lambda>s.
           bnd (bzero s me dev (b + bi)) (\<lambda>s. Ok (b + bi, s))))
       | None \<Rightarrow> bnd (brelse s me bp) (\<lambda>s. balloc_loop s me dev groups))"

definition balloc :: "'a fsst_scheme \<Rightarrow> nat \<Rightarrow> nat \<Rightarrow> (nat \<times> 'a fsst_scheme) res" where
  "balloc s me dev =
     balloc_loop s me dev (map (\<lambda>k. k * BPB) [0..<(sb_size (sb s) + BPB - 1) div BPB])"

definition bfree :: "'a fsst_scheme \<Rightarrow> nat \<Rightarrow> nat \<Rightarrow> nat \<Rightarrow> 'a fsst_scheme res" where
  "bfree s me dev b =
     bnd (bread s me dev (BBLOCK b (sb s))) (\<lambda>(bp, s).
       let bi = b mod BPB in
       if \<not> bitmap_bit (data_of s bp) bi then Panic ''freeing free block''
       else bnd (log_write (set_data s bp (bitmap_clear bi)) bp) (\<lambda>s. brelse s me bp))"

subsection \<open>Inodes\<close>

definition iinit :: "'a fsst_scheme \<Rightarrow> 'a fsst_scheme" where
  "iinit s = s\<lparr>inodes := map (\<lambda>ip. ip\<lparr>i_lock := initsleeplock ''inode''\<rparr>) (inodes s)\<rparr>"

definition iget :: "'a fsst_scheme \<Rightarrow> nat \<Rightarrow> nat \<Rightarrow> (nat \<times> 'a fsst_scheme) res" where
  "iget s dev inum =
     (case find_index (\<lambda>ip. i_ref ip > 0 \<and> i_dev ip = dev \<and> i_inum ip = inum) (inodes s) of
        Some i \<Rightarrow> Ok (i, set_inode s i (\<lambda>ip. ip\<lparr>i_ref := i_ref ip + 1\<rparr>))
      | None \<Rightarrow>
          (case find_index (\<lambda>ip. i_ref ip = 0) (inodes s) of
             None \<Rightarrow> Panic ''iget: no inodes''
           | Some i \<Rightarrow> Ok (i, set_inode s i (\<lambda>ip. ip\<lparr>i_dev := dev, i_inum := inum, i_ref := 1, i_valid := False\<rparr>))))"

definition zero_dinode :: dinode where
  "zero_dinode = \<lparr>d_type = 0, d_major = 0, d_minor = 0, d_nlink = 0, d_size = 0,
     d_addrs = replicate (NDIRECT + 1) 0\<rparr>"

definition dinode_off :: "nat \<Rightarrow> nat" where
  "dinode_off inum = (inum mod IPB) * DINODE_SIZE"

fun ialloc_loop :: "'a fsst_scheme \<Rightarrow> nat \<Rightarrow> nat \<Rightarrow> int \<Rightarrow> nat list \<Rightarrow> (nat option \<times> 'a fsst_scheme) res" where
  "ialloc_loop s me dev ty [] = Ok (None, s)"
| "ialloc_loop s me dev ty (inum # rest) =
     bnd (bread s me dev (IBLOCK inum (sb s))) (\<lambda>(bp, s).
       if d_type (get_dinode (data_of s bp) (dinode_off inum)) = 0 then
         bnd (log_write (set_data s bp (\<lambda>d. put_dinode d (dinode_off inum) (zero_dinode\<lparr>d_type := ty\<rparr>))) bp) (\<lambda>s.
         bnd (brelse s me bp) (\<lambda>s.
         bnd (iget s dev inum) (\<lambda>(i, s). Ok (Some i, s))))
       else bnd (brelse s me bp) (\<lambda>s. ialloc_loop s me dev ty rest))"

definition ialloc :: "'a fsst_scheme \<Rightarrow> nat \<Rightarrow> nat \<Rightarrow> int \<Rightarrow> (nat option \<times> 'a fsst_scheme) res" where
  "ialloc s me dev ty = ialloc_loop s me dev ty [1..<sb_ninodes (sb s)]"

definition dinode_of :: "inode \<Rightarrow> dinode" where
  "dinode_of ip = \<lparr>d_type = i_type ip, d_major = i_major ip, d_minor = i_minor ip, d_nlink = i_nlink ip,
     d_size = i_size ip, d_addrs = i_addrs ip\<rparr>"

definition iupdate :: "'a fsst_scheme \<Rightarrow> nat \<Rightarrow> nat \<Rightarrow> 'a fsst_scheme res" where
  "iupdate s me i =
     (let ip = inodes s ! i in
      bnd (bread s me (i_dev ip) (IBLOCK (i_inum ip) (sb s))) (\<lambda>(bp, s).
      bnd (log_write (set_data s bp (\<lambda>d. put_dinode d (dinode_off (i_inum ip)) (dinode_of ip))) bp) (\<lambda>s.
        brelse s me bp)))"

definition idup :: "'a fsst_scheme \<Rightarrow> nat \<Rightarrow> nat \<times> 'a fsst_scheme" where
  "idup s i = (i, set_inode s i (\<lambda>ip. ip\<lparr>i_ref := i_ref ip + 1\<rparr>))"

definition ilock :: "'a fsst_scheme \<Rightarrow> nat \<Rightarrow> nat \<Rightarrow> 'a fsst_scheme res" where
  "ilock s me i =
     (if i_ref (inodes s ! i) < 1 then Panic ''ilock''
      else bnd (acquiresleep s me (ChInode i) (i_lock (inodes s ! i))) (\<lambda>lk.
        let s = set_inode s i (\<lambda>ip. ip\<lparr>i_lock := lk\<rparr>) in
        if i_valid (inodes s ! i) then Ok s
        else let ip = inodes s ! i in
          bnd (bread s me (i_dev ip) (IBLOCK (i_inum ip) (sb s))) (\<lambda>(bp, s).
            let d = get_dinode (data_of s bp) (dinode_off (i_inum ip));
                s = set_inode s i (\<lambda>ip. ip\<lparr>i_type := d_type d, i_major := d_major d, i_minor := d_minor d,
                      i_nlink := d_nlink d, i_size := d_size d, i_addrs := d_addrs d\<rparr>)
            in bnd (brelse s me bp) (\<lambda>s.
              let s = set_inode s i (\<lambda>ip. ip\<lparr>i_valid := True\<rparr>) in
              if i_type (inodes s ! i) = 0 then Panic ''ilock: no type'' else Ok s))))"

definition iunlock :: "'a fsst_scheme \<Rightarrow> nat \<Rightarrow> nat \<Rightarrow> 'a fsst_scheme res" where
  "iunlock s me i =
     (if \<not> holdingsleep s me (i_lock (inodes s ! i)) \<or> i_ref (inodes s ! i) < 1 then Panic ''iunlock''
      else case releasesleep s me (ChInode i) (i_lock (inodes s ! i)) of (lk, s) \<Rightarrow>
        Ok (set_inode s i (\<lambda>ip. ip\<lparr>i_lock := lk\<rparr>)))"

subsection \<open>Inode content\<close>

definition bmap :: "'a fsst_scheme \<Rightarrow> nat \<Rightarrow> nat \<Rightarrow> nat \<Rightarrow> (nat \<times> 'a fsst_scheme) res" where
  "bmap s me i bn =
     (let ip = inodes s ! i in
      if bn < NDIRECT then
        if i_addrs ip ! bn = 0 then
          bnd (balloc s me (i_dev ip)) (\<lambda>(addr, s).
            if addr = 0 then Ok (0, s)
            else Ok (addr, set_inode s i (\<lambda>ip. ip\<lparr>i_addrs := (i_addrs ip)[bn := addr]\<rparr>)))
        else Ok (i_addrs ip ! bn, s)
      else if bn - NDIRECT < NINDIRECT then
        let bn = bn - NDIRECT in
        bnd (if i_addrs ip ! NDIRECT = 0 then
               bnd (balloc s me (i_dev ip)) (\<lambda>(addr, s).
                 if addr = 0 then Ok (0, s)
                 else Ok (addr, set_inode s i (\<lambda>ip. ip\<lparr>i_addrs := (i_addrs ip)[NDIRECT := addr]\<rparr>)))
             else Ok (i_addrs ip ! NDIRECT, s)) (\<lambda>(addr, s).
          if addr = 0 then Ok (0, s)
          else bnd (bread s me (i_dev ip) addr) (\<lambda>(bp, s).
            let a = get32 (data_of s bp) (4 * bn) in
            bnd (if a = 0 then
                   bnd (balloc s me (i_dev ip)) (\<lambda>(addr, s).
                     if addr \<noteq> 0
                     then bnd (log_write (set_data s bp (\<lambda>d. put32 d (4 * bn) addr)) bp) (\<lambda>s. Ok (addr, s))
                     else Ok (addr, s))
                 else Ok (a, s)) (\<lambda>(addr, s).
              bnd (brelse s me bp) (\<lambda>s. Ok (addr, s)))))
      else Panic ''bmap: out of range'')"

definition itrunc :: "'a fsst_scheme \<Rightarrow> nat \<Rightarrow> nat \<Rightarrow> 'a fsst_scheme res" where
  "itrunc s me i =
     bnd (fold_res (\<lambda>k s.
            let ip = inodes s ! i in
            if i_addrs ip ! k \<noteq> 0 then
              bnd (bfree s me (i_dev ip) (i_addrs ip ! k)) (\<lambda>s.
                Ok (set_inode s i (\<lambda>ip. ip\<lparr>i_addrs := (i_addrs ip)[k := 0]\<rparr>)))
            else Ok s) [0..<NDIRECT] s) (\<lambda>s.
     bnd (let ip = inodes s ! i; ind = i_addrs ip ! NDIRECT in
          if ind \<noteq> 0 then
            bnd (bread s me (i_dev ip) ind) (\<lambda>(bp, s).
            bnd (fold_res (\<lambda>j s. let a = get32 (data_of s bp) (4 * j) in
                   if a \<noteq> 0 then bfree s me (i_dev ip) a else Ok s) [0..<NINDIRECT] s) (\<lambda>s.
            bnd (brelse s me bp) (\<lambda>s.
            bnd (bfree s me (i_dev ip) ind) (\<lambda>s.
              Ok (set_inode s i (\<lambda>ip. ip\<lparr>i_addrs := (i_addrs ip)[NDIRECT := 0]\<rparr>))))))
          else Ok s) (\<lambda>s.
       iupdate (set_inode s i (\<lambda>ip. ip\<lparr>i_size := 0\<rparr>)) me i))"

definition iput :: "'a fsst_scheme \<Rightarrow> nat \<Rightarrow> nat \<Rightarrow> 'a fsst_scheme res" where
  "iput s me i =
     (let ip = inodes s ! i in
      bnd (if i_ref ip = 1 \<and> i_valid ip \<and> i_nlink ip = 0 then
             bnd (acquiresleep s me (ChInode i) (i_lock ip)) (\<lambda>lk.
             bnd (itrunc (set_inode s i (\<lambda>ip. ip\<lparr>i_lock := lk\<rparr>)) me i) (\<lambda>s.
             bnd (iupdate (set_inode s i (\<lambda>ip. ip\<lparr>i_type := 0\<rparr>)) me i) (\<lambda>s.
               let s = set_inode s i (\<lambda>ip. ip\<lparr>i_valid := False\<rparr>) in
               case releasesleep s me (ChInode i) (i_lock (inodes s ! i)) of (lk, s) \<Rightarrow>
                 Ok (set_inode s i (\<lambda>ip. ip\<lparr>i_lock := lk\<rparr>)))))
           else Ok s) (\<lambda>s.
        Ok (set_inode s i (\<lambda>ip. ip\<lparr>i_ref := i_ref ip - 1\<rparr>))))"

definition iunlockput :: "'a fsst_scheme \<Rightarrow> nat \<Rightarrow> nat \<Rightarrow> 'a fsst_scheme res" where
  "iunlockput s me i = bnd (iunlock s me i) (\<lambda>s. iput s me i)"

definition ireclaim :: "'a fsst_scheme \<Rightarrow> nat \<Rightarrow> nat \<Rightarrow> 'a fsst_scheme res" where
  "ireclaim s me dev =
     fold_res (\<lambda>inum s.
       bnd (bread s me dev (IBLOCK inum (sb s))) (\<lambda>(bp, s).
         let d = get_dinode (data_of s bp) (dinode_off inum) in
         bnd (if d_type d \<noteq> 0 \<and> d_nlink d = 0
              then bnd (iget s dev inum) (\<lambda>(i, s). Ok (Some i, s)) else Ok (None, s)) (\<lambda>(ip, s).
         bnd (brelse s me bp) (\<lambda>s.
           case ip of None \<Rightarrow> Ok s
           | Some i \<Rightarrow>
               bnd (begin_op s) (\<lambda>s. bnd (ilock s me i) (\<lambda>s. bnd (iunlock s me i) (\<lambda>s.
               bnd (iput s me i) (\<lambda>s. end_op s me)))))))) [1..<sb_ninodes (sb s)] s"

definition fsinit :: "'a fsst_scheme \<Rightarrow> nat \<Rightarrow> nat \<Rightarrow> 'a fsst_scheme res" where
  "fsinit s me dev =
     bnd (readsb s me dev) (\<lambda>s.
       if sb_magic (sb s) \<noteq> FSMAGIC then Panic ''invalid file system''
       else bnd (initlog s me dev (sb_logstart (sb s))) (\<lambda>s. ireclaim s me dev))"

subsection \<open>Reading and writing\<close>

record stat =
  st_dev :: int
  st_ino :: nat
  st_type :: int
  st_nlink :: int
  st_size :: u64

definition stati :: "inode \<Rightarrow> stat" where
  "stati ip = \<lparr>st_dev = int (i_dev ip), st_ino = i_inum ip, st_type = i_type ip, st_nlink = i_nlink ip,
     st_size = of_nat (i_size ip)\<rparr>"

definition rw_chunk :: "nat \<Rightarrow> nat \<Rightarrow> nat" where
  "rw_chunk off left = min left (BSIZE - off mod BSIZE)"

lemma rw_chunk_pos: "0 < left \<Longrightarrow> 0 < rw_chunk off left"
  by (simp add: rw_chunk_def BSIZE_def)

text \<open>The loop of \<open>readi\<close>: \<open>left\<close> is \<open>n - tot\<close>. The result is the number of bytes read, or -1
  when the copy to the destination fails, and the bytes.\<close>

function readi_loop ::
    "'a fsst_scheme \<Rightarrow> nat \<Rightarrow> nat \<Rightarrow> dst \<Rightarrow> nat \<Rightarrow> nat \<Rightarrow> nat \<Rightarrow> u8 list \<Rightarrow>
     (int \<times> u8 list \<times> 'a fsst_scheme) res" where
  "readi_loop s me i dst off left tot acc =
     (if left = 0 then Ok (int tot, acc, s)
      else bnd (bmap s me i (off div BSIZE)) (\<lambda>(addr, s).
        if addr = 0 then Ok (int tot, acc, s)
        else bnd (bread s me (i_dev (inodes s ! i)) addr) (\<lambda>(bp, s).
          let m = rw_chunk off left; bs = take m (drop (off mod BSIZE) (data_of s bp)) in
          bnd (either_copyout s me dst bs) (\<lambda>(r, s).
          bnd (brelse s me bp) (\<lambda>s.
            if r = -1 then Ok (-1, acc, s)
            else readi_loop s me i (dst_add dst m) (off + m) (left - m) (tot + m) (acc @ bs))))))"
  by pat_completeness auto
termination
  by (relation "measure (\<lambda>(s, me, i, dst, off, left, tot, acc). left)")
    (auto intro!: diff_less rw_chunk_pos)

declare readi_loop.simps [simp del]

definition readi :: "'a fsst_scheme \<Rightarrow> nat \<Rightarrow> nat \<Rightarrow> dst \<Rightarrow> nat \<Rightarrow> nat \<Rightarrow> (int \<times> u8 list \<times> 'a fsst_scheme) res" where
  "readi s me i dst off n =
     (let sz = i_size (inodes s ! i) in
      if off > sz \<or> (off + n) mod 2 ^ 32 < off then Ok (0, [], s)
      else let n = (if off + n > sz then sz - off else n) in
        readi_loop s me i dst off n 0 [])"

text \<open>The loop of \<open>writei\<close> returns \<open>tot\<close> and the final \<open>off\<close>.\<close>

function writei_loop ::
    "'a fsst_scheme \<Rightarrow> nat \<Rightarrow> nat \<Rightarrow> src \<Rightarrow> nat \<Rightarrow> nat \<Rightarrow> nat \<Rightarrow> (nat \<times> nat \<times> 'a fsst_scheme) res" where
  "writei_loop s me i src off left tot =
     (if left = 0 then Ok (tot, off, s)
      else bnd (bmap s me i (off div BSIZE)) (\<lambda>(addr, s).
        if addr = 0 then Ok (tot, off, s)
        else bnd (bread s me (i_dev (inodes s ! i)) addr) (\<lambda>(bp, s).
          let m = rw_chunk off left in
          bnd (either_copyin s me src m) (\<lambda>(r, s).
            case r of
              None \<Rightarrow> bnd (brelse s me bp) (\<lambda>s. Ok (tot, off, s))
            | Some bs \<Rightarrow>
                bnd (log_write (set_data s bp (\<lambda>d. take (off mod BSIZE) d @ bs @ drop (off mod BSIZE + m) d)) bp) (\<lambda>s.
                bnd (brelse s me bp) (\<lambda>s.
                  writei_loop s me i (src_add src m) (off + m) (left - m) (tot + m)))))))"
  by pat_completeness auto
termination
  by (relation "measure (\<lambda>(s, me, i, src, off, left, tot). left)")
    (auto intro!: diff_less rw_chunk_pos)

declare writei_loop.simps [simp del]

definition writei :: "'a fsst_scheme \<Rightarrow> nat \<Rightarrow> nat \<Rightarrow> src \<Rightarrow> nat \<Rightarrow> nat \<Rightarrow> (int \<times> 'a fsst_scheme) res" where
  "writei s me i src off n =
     (if off > i_size (inodes s ! i) \<or> (off + n) mod 2 ^ 32 < off then Ok (-1, s)
      else if off + n > MAXFILE * BSIZE then Ok (-1, s)
      else bnd (writei_loop s me i src off n 0) (\<lambda>(tot, off, s).
        let s = (if off > i_size (inodes s ! i) then set_inode s i (\<lambda>ip. ip\<lparr>i_size := off\<rparr>) else s) in
        bnd (iupdate s me i) (\<lambda>s. Ok (int tot, s))))"

subsection \<open>Directories\<close>

record dirent =
  de_inum :: nat
  de_name :: "u8 list"

definition get_dirent :: "u8 list \<Rightarrow> dirent" where
  "get_dirent b = \<lparr>de_inum = get16 b 0, de_name = take DIRSIZ (drop 2 b)\<rparr>"

definition dirent_bytes :: "dirent \<Rightarrow> u8 list" where
  "dirent_bytes d = put16 (replicate 2 0) 0 (de_inum d) @ de_name d"

text \<open>\<open>namecmp\<close> is \<open>strncmp\<close> over \<open>DIRSIZ\<close> bytes; zero means that the names agree up to the first
  zero byte or the fourteenth byte (theory \<open>CString\<close> proves this of \<open>strncmp\<close>).\<close>

definition dname :: "u8 list \<Rightarrow> u8 list" where
  "dname b = takeWhile (\<lambda>c. c \<noteq> 0) (take DIRSIZ b)"

definition namecmp :: "u8 list \<Rightarrow> u8 list \<Rightarrow> bool" where
  "namecmp a b \<longleftrightarrow> dname a = dname b"

definition dir_offsets :: "nat \<Rightarrow> nat list" where
  "dir_offsets sz = map (\<lambda>k. k * DIRENT_SIZE) [0..<(sz + DIRENT_SIZE - 1) div DIRENT_SIZE]"

text \<open>A lookup gives the inode and the offset of the entry.\<close>

fun dirlookup_loop ::
    "'a fsst_scheme \<Rightarrow> nat \<Rightarrow> nat \<Rightarrow> u8 list \<Rightarrow> nat list \<Rightarrow> ((nat \<times> nat) option \<times> 'a fsst_scheme) res" where
  "dirlookup_loop s me dp name [] = Ok (None, s)"
| "dirlookup_loop s me dp name (off # offs) =
     bnd (readi s me dp BufDst off DIRENT_SIZE) (\<lambda>(r, bs, s).
       if r \<noteq> int DIRENT_SIZE then Panic ''dirlookup read''
       else let de = get_dirent bs in
         if de_inum de = 0 then dirlookup_loop s me dp name offs
         else if namecmp name (de_name de) then
           bnd (iget s (i_dev (inodes s ! dp)) (de_inum de)) (\<lambda>(i, s). Ok (Some (i, off), s))
         else dirlookup_loop s me dp name offs)"

definition dirlookup ::
    "'a fsst_scheme \<Rightarrow> nat \<Rightarrow> nat \<Rightarrow> u8 list \<Rightarrow> ((nat \<times> nat) option \<times> 'a fsst_scheme) res" where
  "dirlookup s me dp name =
     (if i_type (inodes s ! dp) \<noteq> T_DIR then Panic ''dirlookup not DIR''
      else dirlookup_loop s me dp name (dir_offsets (i_size (inodes s ! dp))))"

text \<open>The offset of the first empty entry, or the first offset past the end.\<close>

fun dirlink_loop :: "'a fsst_scheme \<Rightarrow> nat \<Rightarrow> nat \<Rightarrow> nat \<Rightarrow> nat list \<Rightarrow> (nat \<times> 'a fsst_scheme) res" where
  "dirlink_loop s me dp past [] = Ok (past, s)"
| "dirlink_loop s me dp past (off # offs) =
     bnd (readi s me dp BufDst off DIRENT_SIZE) (\<lambda>(r, bs, s).
       if r \<noteq> int DIRENT_SIZE then Panic ''dirlink read''
       else if de_inum (get_dirent bs) = 0 then Ok (off, s)
       else dirlink_loop s me dp past offs)"

definition strncpy_name :: "u8 list \<Rightarrow> u8 list" where
  "strncpy_name name = take DIRSIZ (dname name @ replicate DIRSIZ 0)"

definition dirlink :: "'a fsst_scheme \<Rightarrow> nat \<Rightarrow> nat \<Rightarrow> u8 list \<Rightarrow> nat \<Rightarrow> (int \<times> 'a fsst_scheme) res" where
  "dirlink s me dp name inum =
     bnd (dirlookup s me dp name) (\<lambda>(found, s).
       case found of
         Some (i, _) \<Rightarrow> bnd (iput s me i) (\<lambda>s. Ok (-1, s))
       | None \<Rightarrow>
           let offs = dir_offsets (i_size (inodes s ! dp)) in
           bnd (dirlink_loop s me dp (length offs * DIRENT_SIZE) offs) (\<lambda>(off, s).
           bnd (writei s me dp (BufSrc (dirent_bytes \<lparr>de_inum = inum, de_name = strncpy_name name\<rparr>))
                  off DIRENT_SIZE) (\<lambda>(r, s).
             Ok (if r \<noteq> int DIRENT_SIZE then -1 else 0, s))))"

subsection \<open>Paths\<close>

definition SLASH :: u8 where "SLASH = 47"

definition skipelem :: "u8 list \<Rightarrow> (u8 list \<times> u8 list) option" where
  "skipelem path =
     (let p = dropWhile (\<lambda>c. c = SLASH) path in
      if p = [] then None
      else Some (take DIRSIZ (takeWhile (\<lambda>c. c \<noteq> SLASH) p),
                 dropWhile (\<lambda>c. c = SLASH) (dropWhile (\<lambda>c. c \<noteq> SLASH) p)))"

lemma skipelem_shorter: "skipelem path = Some (name, rest) \<Longrightarrow> length rest < length path"
proof -
  assume a: "skipelem path = Some (name, rest)"
  define p where "p = dropWhile (\<lambda>c. c = SLASH) path"
  have p: "p \<noteq> []" "rest = dropWhile (\<lambda>c. c = SLASH) (dropWhile (\<lambda>c. c \<noteq> SLASH) p)"
    using a by (auto simp: skipelem_def p_def Let_def split: if_splits)
  have "hd p \<noteq> SLASH" using hd_dropWhile [of "\<lambda>c. c = SLASH" path] p by (auto simp: p_def)
  then have "length (dropWhile (\<lambda>c. c \<noteq> SLASH) p) < length p"
    using p(1) by (cases p) (auto simp: length_dropWhile_le le_imp_less_Suc)
  moreover have "length p \<le> length path" by (simp add: p_def length_dropWhile_le)
  ultimately show ?thesis
    using p(2) length_dropWhile_le [of "\<lambda>c. c = SLASH" "dropWhile (\<lambda>c. c \<noteq> SLASH) p"] by simp
qed

text \<open>The loop of \<open>namex\<close> from the inode \<open>ip\<close>. The result is the inode and the last name copied.\<close>

function namex_loop ::
    "'a fsst_scheme \<Rightarrow> nat \<Rightarrow> nat \<Rightarrow> u8 list \<Rightarrow> bool \<Rightarrow> u8 list \<Rightarrow> ((nat \<times> u8 list) option \<times> 'a fsst_scheme) res" where
  "namex_loop s me ip path parent nm =
     (case skipelem path of
        None \<Rightarrow> if parent then bnd (iput s me ip) (\<lambda>s. Ok (None, s)) else Ok (Some (ip, nm), s)
      | Some (name, rest) \<Rightarrow>
          bnd (ilock s me ip) (\<lambda>s.
            if i_type (inodes s ! ip) \<noteq> T_DIR then bnd (iunlockput s me ip) (\<lambda>s. Ok (None, s))
            else if parent \<and> rest = [] then bnd (iunlock s me ip) (\<lambda>s. Ok (Some (ip, name), s))
            else bnd (dirlookup s me ip name) (\<lambda>(nxt, s).
              case nxt of
                None \<Rightarrow> bnd (iunlockput s me ip) (\<lambda>s. Ok (None, s))
              | Some (nx, _) \<Rightarrow> bnd (iunlockput s me ip) (\<lambda>s. namex_loop s me nx rest parent name))))"
  by pat_completeness auto
termination
  by (relation "measure (\<lambda>(s, me, ip, path, parent, nm). length path)") (auto dest: skipelem_shorter)

declare namex_loop.simps [simp del]

definition namex ::
    "'a fsst_scheme \<Rightarrow> nat \<Rightarrow> u8 list \<Rightarrow> bool \<Rightarrow> ((nat \<times> u8 list) option \<times> 'a fsst_scheme) res" where
  "namex s me path parent =
     bnd (if path \<noteq> [] \<and> hd path = SLASH then iget s ROOTDEV ROOTINO
          else case p_cwd (procs s ! me) of
                 Some c \<Rightarrow> Ok (idup s c) | None \<Rightarrow> Panic ''kerneltrap'')
       (\<lambda>(ip, s). namex_loop s me ip path parent [])"

definition namei :: "'a fsst_scheme \<Rightarrow> nat \<Rightarrow> u8 list \<Rightarrow> (nat option \<times> 'a fsst_scheme) res" where
  "namei s me path = bnd (namex s me path False) (\<lambda>(r, s). Ok (map_option fst r, s))"

definition nameiparent ::
    "'a fsst_scheme \<Rightarrow> nat \<Rightarrow> u8 list \<Rightarrow> ((nat \<times> u8 list) option \<times> 'a fsst_scheme) res" where
  "nameiparent s me path = namex s me path True"

end
