(* ===== verification/LogCrash.thy ===== *)
theory LogCrash
  imports Log
begin

text \<open>
  Crash safety of the log. The loops of \<open>write_log\<close> and \<open>install_trans\<close>, the header writes, \<open>commit\<close> and
  \<open>recover_from_log\<close> are computed on the abstract cache of theory \<open>BufCache\<close>: each of them adds a known
  list of block writes (\<open>grow\<close>). A crash keeps a prefix of the writes of a commit; recovery from it is
  then a case distinction on where the prefix ends. The second part is the space that \<open>begin_op\<close>
  reserves for each operation.
\<close>

section \<open>Steps of the log on the abstract cache\<close>

text \<open>A list of block writes, applied in order to the contents of the blocks.\<close>

definition apply_writes :: "(nat \<times> blk) list \<Rightarrow> (nat \<Rightarrow> blk) \<Rightarrow> nat \<Rightarrow> blk" where
  "apply_writes ws f = fold (\<lambda>(a, b) f. f(a := b)) ws f"

lemma apply_writes_simps [simp]:
  "apply_writes [] f = f" "apply_writes (w # ws) f = apply_writes ws (f(fst w := snd w))"
  "apply_writes (ws @ vs) f = apply_writes vs (apply_writes ws f)"
  by (simp_all add: apply_writes_def split: prod.split)

lemma apply_writes_other: "a \<notin> fst ` set ws \<Longrightarrow> apply_writes ws f a = f a"
  by (induction ws arbitrary: f) auto

lemma apply_writes_map:
  "inj_on h {..<n} \<Longrightarrow> j < n \<Longrightarrow> apply_writes (map (\<lambda>j. (h j, g j)) [0..<n]) f (h j) = g j"
proof (induction n)
  case (Suc n)
  show ?case
  proof (cases "j = n")
    case False
    then have "j < n" "h n \<noteq> h j" using Suc.prems inj_onD [of h "{..<Suc n}" n j] by auto
    then show ?thesis using Suc inj_on_subset [of h "{..<Suc n}" "{..<n}"] by auto
  qed simp
qed simp

definition grow :: "(nat \<times> blk) list \<Rightarrow> cache \<Rightarrow> cache" where
  "grow ws c = c\<lparr>cview := apply_writes ws (cview c), cdisk := apply_writes ws (cdisk c), ctrace := ctrace c @ ws\<rparr>"

lemma grow_simps [simp]:
  "grow [] c = c" "grow ws (grow vs c) = grow (vs @ ws) c" "cpin (grow ws c) = cpin c" "cown (grow ws c) = cown c"
  "cfree (grow ws c) = cfree c" "cview (grow ws c) = apply_writes ws (cview c)" "cdisk (grow ws c) = apply_writes ws (cdisk c)"
  "ctrace (grow ws c) = ctrace c @ ws"
  by (simp_all add: grow_def)

lemma above_lst:
  assumes "above t = above s"
  shows "log_start t = log_start s" "log_outstanding t = log_outstanding s" "log_committing t = log_committing s"
    "log_dev t = log_dev s" "log_ncommit t = log_ncommit s" "lh_n t = lh_n s" "lh_block t = lh_block s"
  using arg_cong [OF assms, of log_start] arg_cong [OF assms, of log_outstanding] arg_cong [OF assms, of log_committing]
    arg_cong [OF assms, of log_dev] arg_cong [OF assms, of log_ncommit] arg_cong [OF assms, of lh_n] arg_cong [OF assms, of lh_block]
  by (simp_all add: above_def)

lemma bread_above: "bread s me d bn = Ok (i, t) \<Longrightarrow> above t = above s"
  by (auto simp: bread_def bget_def lock_buf_def acquiresleep_def set_buf_def virtio_rw_def above_def Let_def
      split: option.splits if_splits)

lemma two_reads_eq:
  assumes d: "log_dev s = d"
  shows "bnd (bread s me (log_dev s) a) (\<lambda>(i, s). bnd (bread s me (log_dev s) (lh_block s ! k)) (\<lambda>(j, s). g i j s)) =
    bnd (bread s me d a) (\<lambda>(i, t). bnd (bread t me d (lh_block s ! k)) (\<lambda>(j, u). g i j u))"
  unfolding d
proof (rule bnd_cong [OF refl])
  fix x
  assume "bread s me d a = Ok x"
  then have "above (snd x) = above s" by (cases x) (auto dest: bread_above)
  note l = above_lst(4,7) [OF this]
  show "(case x of (i, s) \<Rightarrow> bnd (bread s me (log_dev s) (lh_block s ! k)) (\<lambda>(j, s). g i j s)) =
      (case x of (i, t) \<Rightarrow> bnd (bread t me d (lh_block s ! k)) (\<lambda>(j, u). g i j u))"
    using l by (cases x) (simp add: d)
qed

lemma write_log_one_ok:
  fixes s :: "'a lst_scheme"
  assumes d: "log_dev s = d" and ok: "cache_ok d me uid s"
    and ab: "a = log_start s + k + 1" "b = lh_block s ! k" "a \<noteq> b"
    and own: "bholder d s a = None" "bholder d s b = None" and pin: "pins d s a + 1 \<noteq> 0" "pins d s b + 1 \<noteq> 0"
    and free: "pins d s b \<noteq> 0" "0 < nfree s"
  shows "\<exists>t. write_log_one me k s = Ok t \<and> cache_ok d me uid t \<and> above t = above s \<and>
    cache_st d t = grow [(a, bview d s b)] (cache_st d s)"
proof -
  have "\<exists>t. bnd (bread s me d a) (\<lambda>(i, s). bnd (bread s me d b) (\<lambda>(j, s). bnd (bwrite (set_data s i (\<lambda>_. data_of s j)) me i) (\<lambda>s.
      bnd (brelse s me j) (\<lambda>s. brelse s me i)))) = Ok t \<and> cache_ok d me uid t \<and> above t = above s \<and>
    cache_st d t = (cache_st d s)\<lparr>cview := (cview (cache_st d s))(a := cview (cache_st d s) b),
      cdisk := (cdisk (cache_st d s))(a := cview (cache_st d s) b),
      ctrace := ctrace (cache_st d s) @ [(a, cview (cache_st d s) b)]\<rparr>"
    by (rule bc.copy_first) (use ok ab own pin free in \<open>simp add: bc.ready_def\<close>)
  moreover have "write_log_one me k s = bnd (bread s me d a) (\<lambda>(i, s). bnd (bread s me d b) (\<lambda>(j, s).
      bnd (bwrite (set_data s i (\<lambda>_. data_of s j)) me i) (\<lambda>s. bnd (brelse s me j) (\<lambda>s. brelse s me i))))"
    unfolding write_log_one_def ab(1,2) by (rule two_reads_eq [OF d])
  ultimately show ?thesis by (simp add: grow_def)
qed

lemma install_one_ok:
  fixes s :: "'a lst_scheme"
  assumes d: "log_dev s = d" and ok: "cache_ok d me uid s"
    and ab: "a = log_start s + k + 1" "b = lh_block s ! k" "a \<noteq> b"
    and own: "bholder d s a = None" "bholder d s b = None" and pin: "pins d s a + 1 \<noteq> 0" "pins d s b + 1 \<noteq> 0"
    and free: "if recov then 2 \<le> nfree s else pins d s b \<noteq> 0 \<and> 0 < nfree s"
  shows "\<exists>t. install_one recov me k s = Ok t \<and> cache_ok d me uid t \<and> above t = above s \<and>
    cache_st d t = (grow [(b, bview d s a)] (cache_st d s))\<lparr>cpin := (pins d s)(b := if recov then pins d s b else pins d s b - 1),
      cfree := if \<not> recov \<and> pins d s b = 1 then nfree s + 1 else nfree s\<rparr>"
proof -
  have main: "\<exists>t. bnd (bread s me d a) (\<lambda>(i, s). bnd (bread s me d b) (\<lambda>(j, s). bnd (bwrite (set_data s j (\<lambda>_. data_of s i)) me j) (\<lambda>s.
      bnd (brelse (if recov then s else bunpin s j) me i) (\<lambda>s. brelse s me j)))) = Ok t \<and> cache_ok d me uid t \<and> above t = above s \<and>
    cache_st d t = (cache_st d s)\<lparr>cview := (cview (cache_st d s))(b := cview (cache_st d s) a),
      cdisk := (cdisk (cache_st d s))(b := cview (cache_st d s) a),
      ctrace := ctrace (cache_st d s) @ [(b, cview (cache_st d s) a)],
      cpin := (cpin (cache_st d s))(b := if recov then cpin (cache_st d s) b else cpin (cache_st d s) b - 1),
      cfree := if \<not> recov \<and> cpin (cache_st d s) b = 1 then cfree (cache_st d s) + 1 else cfree (cache_st d s)\<rparr>"
    by (rule bc.copy_second) (use ok ab own pin free in \<open>auto simp: bc.ready_def split: if_splits\<close>)
  have e: "install_one recov me k s = bnd (bread s me d a) (\<lambda>(i, s). bnd (bread s me d b) (\<lambda>(j, s).
      bnd (bwrite (set_data s j (\<lambda>_. data_of s i)) me j) (\<lambda>s. bnd (brelse (if recov then s else bunpin s j) me i) (\<lambda>s. brelse s me j))))"
    unfolding install_one_def ab(1,2) by (rule two_reads_eq [OF d])
  have st: "(cache_st d s)\<lparr>cview := (cview (cache_st d s))(b := cview (cache_st d s) a),
      cdisk := (cdisk (cache_st d s))(b := cview (cache_st d s) a),
      ctrace := ctrace (cache_st d s) @ [(b, cview (cache_st d s) a)],
      cpin := (cpin (cache_st d s))(b := if recov then cpin (cache_st d s) b else cpin (cache_st d s) b - 1),
      cfree := if \<not> recov \<and> cpin (cache_st d s) b = 1 then cfree (cache_st d s) + 1 else cfree (cache_st d s)\<rparr> =
    (grow [(b, bview d s a)] (cache_st d s))\<lparr>cpin := (pins d s)(b := if recov then pins d s b else pins d s b - 1),
      cfree := if \<not> recov \<and> pins d s b = 1 then nfree s + 1 else nfree s\<rparr>"
    by (simp add: grow_def)
  show ?thesis using main unfolding e st .
qed

lemma write_head_ok:
  fixes s :: "'a lst_scheme"
  assumes d: "log_dev s = d" and ok: "cache_ok d me uid s" and own: "bholder d s (log_start s) = None"
    and pin: "pins d s (log_start s) + 1 \<noteq> 0" "0 < nfree s"
  shows "\<exists>t. write_head s me = Ok t \<and> cache_ok d me uid t \<and> above t = above s \<and>
    cache_st d t = grow [(log_start s, head_bytes (lh_n s) (lh_block s) (bview d s (log_start s)))] (cache_st d s)"
proof -
  let ?a = "log_start s" and ?f = "head_bytes (lh_n s) (lh_block s)"
  have "\<exists>t. bnd (bread s me d ?a) (\<lambda>(i, s). bnd (bwrite (set_data s i ?f) me i) (\<lambda>s. brelse s me i)) = Ok t \<and>
      cache_ok d me uid t \<and> above t = above s \<and>
      cache_st d t = (cache_st d s)\<lparr>cview := (cview (cache_st d s))(?a := ?f (cview (cache_st d s) ?a)),
        cdisk := (cdisk (cache_st d s))(?a := ?f (cview (cache_st d s) ?a)),
        ctrace := ctrace (cache_st d s) @ [(?a, ?f (cview (cache_st d s) ?a))]\<rparr>"
    by (rule bc.rewrite) (use ok own pin in simp_all)
  moreover have "write_head s me = bnd (bread s me d ?a) (\<lambda>(i, s). bnd (bwrite (set_data s i ?f) me i) (\<lambda>s. brelse s me i))"
    unfolding write_head_def d
  proof (rule bnd_cong [OF refl])
    fix x
    assume "bread s me d ?a = Ok x"
    then have "above (snd x) = above s" by (cases x) (auto dest: bread_above)
    note l = above_lst(6,7) [OF this]
    show "(case x of (i, s) \<Rightarrow> bnd (bwrite (set_data s i (head_bytes (lh_n s) (lh_block s))) me i) (\<lambda>s. brelse s me i)) =
      (case x of (i, s) \<Rightarrow> bnd (bwrite (set_data s i ?f) me i) (\<lambda>s. brelse s me i))"
      using l by (cases x) simp
  qed
  ultimately show ?thesis by (simp add: grow_def)
qed

lemma cache_st_eqD:
  assumes "cache_st d t = c"
  shows "bview d t = cview c" "pins d t = cpin c" "bholder d t = cown c" "nfree t = cfree c" "disk t = cdisk c" "wtrace t = ctrace c"
  using assms by (auto simp flip: assms)

text \<open>The blocks of the log: the header and the copies. The transaction in memory is \<open>bs\<close>, and no one
  has the blocks it needs locked.\<close>

definition log_area :: "'a lst_scheme \<Rightarrow> nat \<Rightarrow> bool" where
  "log_area s a \<longleftrightarrow> log_start s \<le> a \<and> a \<le> log_start s + LOGBLOCKS"

definition logged :: "'a lst_scheme \<Rightarrow> nat list \<Rightarrow> bool" where
  "logged s bs \<longleftrightarrow> lh_n s = int (length bs) \<and> length bs \<le> LOGBLOCKS \<and> length (lh_block s) = LOGBLOCKS \<and>
     bs = take (length bs) (lh_block s) \<and> (\<forall>b\<in>set bs. \<not> log_area s b)"

definition idle :: "'a lst_scheme \<Rightarrow> nat list \<Rightarrow> bool" where
  "idle s bs \<longleftrightarrow> (\<forall>a. log_area s a \<or> a \<in> set bs \<longrightarrow> bholder (log_dev s) s a = None \<and> pins (log_dev s) s a + 1 \<noteq> 0)"

lemma logged_nth:
  assumes "logged s bs" "k < length bs"
  shows "lh_block s ! k = bs ! k" "log_area s (log_start s + k + 1)" "\<not> log_area s (bs ! k)" "bs ! k \<in> set bs"
    "log_start s + k + 1 \<noteq> bs ! k"
proof -
  have "lh_block s ! k = take (length bs) (lh_block s) ! k" using assms(2) by simp
  then show "lh_block s ! k = bs ! k" using assms(1) unfolding logged_def by metis
  show m: "bs ! k \<in> set bs" using assms(2) by simp
  then show h: "\<not> log_area s (bs ! k)" using assms(1) unfolding logged_def by blast
  show l: "log_area s (log_start s + k + 1)" using assms by (simp add: logged_def log_area_def)
  show "log_start s + k + 1 \<noteq> bs ! k" using h l by metis
qed

lemma logged_above:
  assumes "above t = above s"
  shows "logged t bs = logged s bs" "log_area t = log_area s"
  unfolding logged_def log_area_def fun_eq_iff above_lst [OF assms] by simp_all

lemma write_log_loop:
  fixes s :: "'a lst_scheme"
  assumes d: "log_dev s = d" and ok: "cache_ok d me uid s" and lg: "logged s bs" and id: "idle s bs"
    and p: "\<forall>b\<in>set bs. pins d s b \<noteq> 0" "0 < nfree s" and k: "k \<le> length bs"
  shows "\<exists>t. fold_res (write_log_one me) [0..<k] s = Ok t \<and> cache_ok d me uid t \<and> above t = above s \<and>
    cache_st d t = grow (map (\<lambda>j. (log_start s + j + 1, bview d s (bs ! j))) [0..<k]) (cache_st d s)"
  using k
proof (induction k)
  case 0
  then show ?case using ok by simp
next
  case (Suc k)
  then obtain t where t: "fold_res (write_log_one me) [0..<k] s = Ok t" "cache_ok d me uid t" "above t = above s"
    and st: "cache_st d t = grow (map (\<lambda>j. (log_start s + j + 1, bview d s (bs ! j))) [0..<k]) (cache_st d s)" (is "_ = grow ?ws _")
    by auto
  note n = logged_nth [OF lg, of k]
  note a = above_lst [OF t(3)]
  note D = cache_st_eqD [OF st, simplified]
  have v: "bview d t (bs ! k) = bview d s (bs ! k)"
    unfolding D(1) using n(3) logged_nth(2) [OF lg] Suc.prems by (intro apply_writes_other) force
  have "\<exists>u. write_log_one me k t = Ok u \<and> cache_ok d me uid u \<and> above u = above t \<and>
    cache_st d u = grow [(log_start s + k + 1, bview d t (bs ! k))] (cache_st d t)"
    using Suc.prems n id p by (intro write_log_one_ok) (auto simp: a d t(2) D idle_def)
  then obtain u where u: "write_log_one me k t = Ok u" "cache_ok d me uid u" "above u = above t"
    "cache_st d u = grow [(log_start s + k + 1, bview d s (bs ! k))] (cache_st d t)" unfolding v by blast
  show ?case using t u by (intro exI [of _ u]) (simp add: fold_res_append st)
qed

lemma install_loop:
  fixes s :: "'a lst_scheme"
  assumes d: "log_dev s = d" and ok: "cache_ok d me uid s" and lg: "logged s bs" and id: "idle s bs"
    and p: "if recov then 2 \<le> nfree s else distinct bs \<and> (\<forall>b\<in>set bs. pins d s b \<noteq> 0) \<and> 0 < nfree s" and k: "k \<le> length bs"
  shows "\<exists>t f. fold_res (install_one recov me) [0..<k] s = Ok t \<and> cache_ok d me uid t \<and> above t = above s \<and> nfree s \<le> f \<and>
    cache_st d t = (grow (map (\<lambda>j. (bs ! j, bview d s (log_start s + j + 1))) [0..<k]) (cache_st d s))
      \<lparr>cpin := \<lambda>a. if \<not> recov \<and> a \<in> set (take k bs) then pins d s a - 1 else pins d s a, cfree := f\<rparr>"
  using k
proof (induction k)
  case 0
  have "cache_st d s = (cache_st d s)\<lparr>cpin := pins d s, cfree := nfree s\<rparr>" by (simp add: cache_st_def)
  then show ?case using ok by auto
next
  case (Suc k)
  let ?ws = "map (\<lambda>j. (bs ! j, bview d s (log_start s + j + 1))) [0..<k]"
  obtain t f where t: "fold_res (install_one recov me) [0..<k] s = Ok t" "cache_ok d me uid t" "above t = above s" "nfree s \<le> f"
    and st: "cache_st d t = (grow ?ws (cache_st d s))
      \<lparr>cpin := \<lambda>a. if \<not> recov \<and> a \<in> set (take k bs) then pins d s a - 1 else pins d s a, cfree := f\<rparr>"
    using Suc by auto
  have kl: "k < length bs" using Suc.prems by simp
  note n = logged_nth [OF lg kl]
  note a = above_lst [OF t(3)]
  note D = cache_st_eqD [OF st, simplified]
  have mem: "bs ! j \<in> set bs" if "j < k" for j using that kl by simp
  have v: "bview d t (log_start s + k + 1) = bview d s (log_start s + k + 1)"
    unfolding D(1) using n(2) mem lg by (intro apply_writes_other) (auto simp: logged_def)
  have new: "\<not> recov \<Longrightarrow> bs ! k \<notin> set (take k bs)" using p kl by (auto simp: in_set_conv_nth nth_eq_iff_index_eq)
  have la: "log_start s + k + 1 \<notin> set (take k bs)" using n(2) lg by (auto simp: logged_def dest: in_set_takeD)
  have pk: "pins d t (bs ! k) = pins d s (bs ! k)" "pins d t (log_start s + k + 1) = pins d s (log_start s + k + 1)"
    using new la by (auto simp: D(2))
  have "\<exists>u. install_one recov me k t = Ok u \<and> cache_ok d me uid u \<and> above u = above t \<and>
    cache_st d u = (grow [(bs ! k, bview d t (log_start s + k + 1))] (cache_st d t))
      \<lparr>cpin := (pins d t)(bs ! k := if recov then pins d t (bs ! k) else pins d t (bs ! k) - 1),
       cfree := if \<not> recov \<and> pins d t (bs ! k) = 1 then nfree t + 1 else nfree t\<rparr>"
    using n id p t(4) kl by (intro install_one_ok) (auto simp: a d t(2) pk [simplified] D(3,4) idle_def split: if_splits)
  then obtain u where u: "install_one recov me k t = Ok u" "cache_ok d me uid u" "above u = above t"
    "cache_st d u = (grow [(bs ! k, bview d s (log_start s + k + 1))] (cache_st d t))
      \<lparr>cpin := (pins d t)(bs ! k := if recov then pins d s (bs ! k) else pins d s (bs ! k) - 1),
       cfree := if \<not> recov \<and> pins d s (bs ! k) = 1 then f + 1 else f\<rparr>" unfolding v pk D(4) by blast
  have tk: "set (take (Suc k) bs) = insert (bs ! k) (set (take k bs))" using kl by (simp add: take_Suc_conv_app_nth)
  have "cache_st d u = (grow (map (\<lambda>j. (bs ! j, bview d s (log_start s + j + 1))) [0..<Suc k]) (cache_st d s))
      \<lparr>cpin := \<lambda>a. if \<not> recov \<and> a \<in> set (take (Suc k) bs) then pins d s a - 1 else pins d s a,
       cfree := if \<not> recov \<and> pins d s (bs ! k) = 1 then f + 1 else f\<rparr>"
    unfolding u(4) st tk using new by (intro cache.equality ext) (auto simp: D(2) grow_def)
  then show ?case using t u(1-3)
    by (intro exI [of _ u] exI [of _ "if \<not> recov \<and> pins d s (bs ! k) = 1 then f + 1 else f"]) (simp add: fold_res_append)
qed

lemma cache_lh:
  "cache_st d (s\<lparr>lh_n := n\<rparr>) = cache_st d s" "cache_st d (s\<lparr>lh_block := bl\<rparr>) = cache_st d s"
  "cache_ok d me uid (s\<lparr>lh_n := n\<rparr>) = cache_ok d me uid s" "cache_ok d me uid (s\<lparr>lh_block := bl\<rparr>) = cache_ok d me uid s"
  "has_buf d (s\<lparr>lh_n := n\<rparr>) = has_buf d s" "has_buf d (s\<lparr>lh_block := bl\<rparr>) = has_buf d s"
proof -
  have c: "cached d (s\<lparr>lh_n := n\<rparr>) = cached d s" "cached d (s\<lparr>lh_block := bl\<rparr>) = cached d s"
    "bufs (s\<lparr>lh_n := n\<rparr>) = bufs s" "bufs (s\<lparr>lh_block := bl\<rparr>) = bufs s" "disk (s\<lparr>lh_n := n\<rparr>) = disk s" "disk (s\<lparr>lh_block := bl\<rparr>) = disk s"
    by (simp_all add: cached_def fun_eq_iff)
  show st: "cache_st d (s\<lparr>lh_n := n\<rparr>) = cache_st d s" "cache_st d (s\<lparr>lh_block := bl\<rparr>) = cache_st d s"
    unfolding cache_st_def bview_def pins_def bholder_def nfree_def fun_eq_iff c by simp_all
  show "cache_ok d me uid (s\<lparr>lh_n := n\<rparr>) = cache_ok d me uid s" "cache_ok d me uid (s\<lparr>lh_block := bl\<rparr>) = cache_ok d me uid s"
    unfolding cache_ok_def bio_inv_def cache_st_eqD [OF st(1)] cache_st_eqD [OF st(2)] c by simp_all
  show "has_buf d (s\<lparr>lh_n := n\<rparr>) = has_buf d s" "has_buf d (s\<lparr>lh_block := bl\<rparr>) = has_buf d s"
    unfolding has_buf_def fun_eq_iff c by simp_all
qed

lemma above_lh: "above (s\<lparr>lh_n := n\<rparr>) = (above s)\<lparr>lh_n := n\<rparr>" "above (s\<lparr>lh_block := bl\<rparr>) = (above s)\<lparr>lh_block := bl\<rparr>"
  by (rule lst.equality; simp add: above_def)+

definition log_copies :: "nat \<Rightarrow> (nat \<Rightarrow> blk) \<Rightarrow> nat list \<Rightarrow> (nat \<times> blk) list" where
  "log_copies start v bs = map (\<lambda>j. (start + j + 1, v (bs ! j))) [0..<length bs]"

definition home_writes :: "(nat \<Rightarrow> blk) \<Rightarrow> nat list \<Rightarrow> (nat \<times> blk) list" where
  "home_writes v bs = map (\<lambda>j. (bs ! j, v (bs ! j))) [0..<length bs]"

text \<open>The disk writes of a commit, in order: the copies, the header that makes the transaction
  permanent, the home blocks, and the empty header.\<close>

definition commit_writes :: "nat \<Rightarrow> (nat \<Rightarrow> blk) \<Rightarrow> nat list \<Rightarrow> nat list \<Rightarrow> (nat \<times> blk) list" where
  "commit_writes start v bl bs =
     log_copies start v bs @ (start, head_bytes (int (length bs)) bl (v start)) # home_writes v bs @
     [(start, head_bytes 0 bl (head_bytes (int (length bs)) bl (v start)))]"

lemma log_copies_at:
  "j < length bs \<Longrightarrow> apply_writes (log_copies start v bs) f (start + j + 1) = v (bs ! j)"
  "apply_writes (log_copies start v bs) f start = f start"
proof -
  show "apply_writes (log_copies start v bs) f (start + j + 1) = v (bs ! j)" if "j < length bs"
    unfolding log_copies_def using apply_writes_map [of "\<lambda>j. start + j + 1" "length bs" j] that by (simp add: inj_on_def)
  show "apply_writes (log_copies start v bs) f start = f start" by (rule apply_writes_other) (auto simp: log_copies_def)
qed

lemma commit_ok:
  fixes s :: "'a lst_scheme"
  assumes d: "log_dev s = d" and ok: "cache_ok d me uid s" and lg: "logged s bs" and id: "idle s bs" and "distinct bs" "bs \<noteq> []"
    and p: "\<forall>b\<in>set bs. pins d s b \<noteq> 0" "0 < nfree s"
  shows "\<exists>t f. commit s me = Ok t \<and> cache_ok d me uid t \<and> above t = above (s\<lparr>lh_n := 0\<rparr>) \<and> nfree s \<le> f \<and>
    cache_st d t = (grow (commit_writes (log_start s) (bview d s) (lh_block s) bs) (cache_st d s))
      \<lparr>cpin := \<lambda>a. if a \<in> set bs then pins d s a - 1 else pins d s a, cfree := f\<rparr>"
proof -
  let ?v = "bview d s" and ?a = "log_start s" and ?n = "length bs"
  have n: "lh_n s = int ?n" "nat (lh_n s) = ?n" "lh_n s > 0" using lg \<open>bs \<noteq> []\<close> by (auto simp: logged_def)
  obtain t1 where t1: "write_log s me = Ok t1" "cache_ok d me uid t1" "above t1 = above s"
    and st1: "cache_st d t1 = grow (log_copies ?a ?v bs) (cache_st d s)"
    using write_log_loop [OF d ok lg id p order_refl] unfolding write_log_def n(2) log_copies_def by blast
  note a1 = above_lst [OF t1(3)] and D1 = cache_st_eqD [OF st1, simplified]
  have hd: "log_area s ?a" by (simp add: log_area_def)
  have "\<exists>t. write_head t1 me = Ok t \<and> cache_ok d me uid t \<and> above t = above t1 \<and>
    cache_st d t = grow [(log_start t1, head_bytes (lh_n t1) (lh_block t1) (bview d t1 (log_start t1)))] (cache_st d t1)"
    using id p hd by (intro write_head_ok) (simp_all add: a1 d t1(2) D1 idle_def)
  then obtain t2 where t2: "write_head t1 me = Ok t2" "cache_ok d me uid t2" "above t2 = above s"
    and st2: "cache_st d t2 = grow (log_copies ?a ?v bs @ [(?a, head_bytes (int ?n) (lh_block s) (?v ?a))]) (cache_st d s)"
    unfolding a1 D1 n(1) log_copies_at st1 using t1(3) by (auto simp: log_copies_at(2))
  note a2 = above_lst [OF t2(3)] and D2 = cache_st_eqD [OF st2, simplified]
  have lg2: "logged t2 bs" and id2: "idle t2 bs"
    using lg id by (simp_all add: logged_above [OF t2(3)] idle_def D2(2,3) a2 d)
  have w2: "bview d t2 (log_start t2 + j + 1) = ?v (bs ! j)" if "j < ?n" for j
    using log_copies_at(1) [OF that, of ?a ?v ?v] by (simp add: a2 D2(1))
  have p2: "if False then 2 \<le> nfree t2 else distinct bs \<and> (\<forall>b\<in>set bs. pins d t2 b \<noteq> 0) \<and> 0 < nfree t2"
    using p \<open>distinct bs\<close> by (simp add: D2)
  have hw: "map (\<lambda>j. (bs ! j, bview d t2 (log_start t2 + j + 1))) [0..<?n] = home_writes ?v bs"
    unfolding home_writes_def using w2 by simp
  obtain t3 f where t3: "install_trans False t2 me = Ok t3" "cache_ok d me uid t3" "above t3 = above t2" "nfree t2 \<le> f"
    and st3: "cache_st d t3 = (grow (home_writes ?v bs) (cache_st d t2))
       \<lparr>cpin := \<lambda>a. if a \<in> set bs then pins d s a - 1 else pins d s a, cfree := f\<rparr>"
    using install_loop [OF _ t2(2) lg2 id2 p2 order_refl] unfolding install_trans_def a2 n(2) hw [unfolded a2] D2(2) d by auto
  have t3a: "above t3 = above s" using t3(3) t2(3) by simp
  note a3 = above_lst [OF t3a] and D3 = cache_st_eqD [OF st3, simplified]
  let ?t = "t3\<lparr>lh_n := 0\<rparr>"
  have hb: "bview d t3 ?a = head_bytes (int ?n) (lh_block s) (?v ?a)"
  proof -
    have "apply_writes (home_writes ?v bs) g ?a = g ?a" for g
      by (rule apply_writes_other) (use lg hd in \<open>auto simp: home_writes_def logged_def\<close>)
    then show ?thesis by (simp add: D3(1) D2(1))
  qed
  have na: "?a \<notin> set bs" using lg hd by (auto simp: logged_def)
  note L = cache_st_eqD [OF cache_lh(1) [where d = d and s = t3 and n = 0], simplified]
  have "\<exists>t. write_head ?t me = Ok t \<and> cache_ok d me uid t \<and> above t = above ?t \<and>
    cache_st d t = grow [(log_start ?t, head_bytes (lh_n ?t) (lh_block ?t) (bview d ?t (log_start ?t)))] (cache_st d ?t)"
    using id hd na p(2) t3(4) by (intro write_head_ok) (simp_all add: a3 d t3(2) cache_lh L D3 D2 idle_def)
  then obtain t4 where t4: "write_head ?t me = Ok t4" "cache_ok d me uid t4" "above t4 = above ?t"
    and st4: "cache_st d t4 = grow [(?a, head_bytes 0 (lh_block s) (head_bytes (int ?n) (lh_block s) (?v ?a)))] (cache_st d t3)"
    by (auto simp: a3 L hb cache_lh)
  have ab: "above ?t = above (s\<lparr>lh_n := 0\<rparr>)" using t3a by (simp only: above_lh)
  have "commit s me = Ok t4" using n(3) t1(1) t2(1) t3(1) t4(1) by (simp add: commit_def)
  moreover have "cache_st d t4 = (grow (commit_writes ?a ?v (lh_block s) bs) (cache_st d s))
      \<lparr>cpin := \<lambda>a. if a \<in> set bs then pins d s a - 1 else pins d s a, cfree := f\<rparr>"
    unfolding st4 st3 st2 commit_writes_def by (simp add: grow_def)
  moreover have "nfree s \<le> f" using t3(4) by (simp add: D2)
  ultimately show ?thesis using t4(2,3) ab by (intro exI [of _ t4] exI [of _ f]) simp
qed

section \<open>Recovery\<close>

lemma head_bytes_0: "head_bytes 0 bl b = put32 b 0 0"
  by (simp add: head_bytes_def)

lemma head_bytes_get:
  assumes "length b = BSIZE" "n \<le> LOGBLOCKS"
  shows "length (head_bytes (int n) bl b) = BSIZE" "head_count (head_bytes (int n) bl b) = int n"
    "j < n \<Longrightarrow> get32 (head_bytes (int n) bl b) (4 + 4 * j) = bl ! j mod 2 ^ 32"
proof -
  define f where "f m = fold (\<lambda>i b. put32 b (4 + 4 * i) (bl ! i)) [0..<m] (put32 b 0 (nat (int n mod 2 ^ 32)))" for m
  have f: "length (f m) = BSIZE \<and> get32 (f m) 0 = n \<and> (\<forall>j<m. get32 (f m) (4 + 4 * j) = bl ! j mod 2 ^ 32)" if "m \<le> n" for m
    using that
  proof (induction m)
    case 0
    have "n < 2 ^ 32" using assms(2) by (simp add: param_defs)
    then show ?case using assms(1) by (simp add: f_def get32_put32 BSIZE_def nat_mod_distrib)
  next
    case (Suc m)
    have e: "f (Suc m) = put32 (f m) (4 + 4 * m) (bl ! m)" by (simp add: f_def)
    have l: "4 + 4 * m + 3 < length (f m)" using Suc assms(2) by (simp add: param_defs)
    have "get32 (f (Suc m)) (4 + 4 * j) = bl ! j mod 2 ^ 32" if "j < Suc m" for j
    proof (cases "j = m")
      case True
      then show ?thesis unfolding e using get32_put32(1) [OF l] by simp
    next
      case False
      then show ?thesis unfolding e using that Suc by (subst get32_put32(2)) auto
    qed
    moreover have "get32 (f (Suc m)) 0 = n" unfolding e using Suc by (subst get32_put32(2)) auto
    ultimately show ?case using Suc by (simp add: e)
  qed
  have h: "head_bytes (int n) bl b = f n" by (simp add: head_bytes_def f_def)
  show "length (head_bytes (int n) bl b) = BSIZE" using f [of n] by (simp add: h)
  have "sint (of_nat n :: u32) = int n" using assms(2)
    by (simp add: param_defs signed_of_nat signed_take_bit_int_eq_self)
  then show "head_count (head_bytes (int n) bl b) = int n" using f [of n] by (simp add: h head_count_def)
  show "get32 (head_bytes (int n) bl b) (4 + 4 * j) = bl ! j mod 2 ^ 32" if "j < n" using f [of n] that by (simp add: h)
qed

lemma head_count_empty: "length b = BSIZE \<Longrightarrow> head_count (head_bytes 0 bl b) = 0"
  using head_bytes_get(2) [of b 0 bl] by simp

text \<open>The block numbers in a header.\<close>

definition head_blocks :: "blk \<Rightarrow> nat list" where
  "head_blocks h = map (\<lambda>j. get32 h (4 + 4 * j)) [0..<nat (head_count h)]"

lemma read_head_blocks:
  assumes "nat (head_count h) \<le> length bl"
  shows "length (fold (\<lambda>k bl. bl[k := g k]) [0..<n] bl) = length bl"
    "n \<le> length bl \<Longrightarrow> take n (fold (\<lambda>k bl. bl[k := g k]) [0..<n] bl) = map g [0..<n]"
proof -
  show l: "length (fold (\<lambda>k bl. bl[k := g k]) [0..<n] bl) = length bl" for n by (induction n) auto
  show "take n (fold (\<lambda>k bl. bl[k := g k]) [0..<n] bl) = map g [0..<n]" if "n \<le> length bl"
    using that by (induction n) (simp_all add: take_Suc_conv_app_nth l)
qed

lemma read_head_ok:
  fixes s :: "'a lst_scheme"
  assumes d: "log_dev s = d" and ok: "cache_ok d me uid s" and own: "bholder d s (log_start s) = None"
    and pin: "pins d s (log_start s) + 1 \<noteq> 0" "0 < nfree s" and h: "h = bview d s (log_start s)"
    and hn: "0 \<le> head_count h" "nat (head_count h) \<le> length (lh_block s)"
  shows "\<exists>t bl. read_head s me = Ok t \<and> cache_ok d me uid t \<and> above t = above (s\<lparr>lh_n := head_count h, lh_block := bl\<rparr>) \<and>
    length bl = length (lh_block s) \<and> take (nat (head_count h)) bl = head_blocks h \<and> cache_st d t = cache_st d s"
proof -
  let ?a = "log_start s"
  obtain i t1 where t1: "bread s me d ?a = Ok (i, t1)" "cache_ok d me uid t1" "above t1 = above s" "has_buf d t1 ?a i"
    "cache_st d t1 = a_read uid ?a (cache_st d s)"
    using cache_rd [OF ok own pin(1)] pin(2) by blast
  note a1 = above_lst [OF t1(3)]
  have v: "bview d t1 = bview d s" "disk t1 = disk s" "pins d t1 = (pins d s)(?a := pins d s ?a + 1)" "bholder d t1 = (bholder d s)(?a := Some uid)"
    using cache_st_eqD [OF t1(5)] by (simp_all add: a_read_def)
  have inv: "bio_inv d t1" "bio_inv d s" using t1(2) ok by (simp_all add: cache_ok_def)
  have dt: "data_of t1 i = h" using has_bufD(6) [OF inv(1) t1(4)] v h by simp
  define bl where "bl = fold (\<lambda>k bl. bl[k := get32 h (4 + 4 * k)]) [0..<nat (head_count h)] (lh_block s)"
  have bl: "length bl = length (lh_block s)" "take (nat (head_count h)) bl = head_blocks h"
    unfolding bl_def head_blocks_def using read_head_blocks [of h "lh_block s"] hn(2) by simp_all
  let ?t = "t1\<lparr>lh_n := head_count h, lh_block := bl\<rparr>"
  have st: "cache_st d ?t = cache_st d t1" and okt: "cache_ok d me uid ?t" and ht: "has_buf d ?t ?a i" using t1 by (simp_all add: cache_lh)
  note D = cache_st_eqD [OF st, simplified]
  have "pins d s ?a = 0 \<Longrightarrow> bview d s ?a = disk s ?a" using bio_invD(3) [OF inv(2)] .
  then obtain t where t: "brelse ?t me i = Ok t" "cache_ok d me uid t" "above t = above ?t" "cache_st d t = a_rel ?a (cache_st d ?t)"
    using cache_rel [OF okt ht] by (auto simp: D v)
  have "cache_st d t = cache_st d s" unfolding t(4) st t1(5) using own pin
    by (intro cache.equality ext) (auto simp: a_rel_def a_read_def)
  moreover have "above t = above (s\<lparr>lh_n := head_count h, lh_block := bl\<rparr>)" using t(3) t1(3) by (simp only: above_lh)
  moreover have "read_head s me = Ok t" using t1(1) t(1) by (simp add: read_head_def d dt bl_def a1 Let_def)
  ultimately show ?thesis using t(2) bl by blast
qed

text \<open>A machine that has just booted: nothing is cached.\<close>

definition cold :: "nat \<Rightarrow> 'a bst_scheme \<Rightarrow> bool" where
  "cold d s \<longleftrightarrow> (\<forall>a. bholder d s a = None \<and> pins d s a = 0) \<and> 2 \<le> nfree s"

definition recovery_writes :: "nat \<Rightarrow> (nat \<Rightarrow> blk) \<Rightarrow> (nat \<times> blk) list" where
  "recovery_writes start v =
     (let bs = head_blocks (v start) in map (\<lambda>j. (bs ! j, v (start + j + 1))) [0..<length bs] @ [(start, put32 (v start) 0 0)])"

lemma recover_ok:
  fixes s :: "'a lst_scheme"
  assumes d: "log_dev s = d" and ok: "cache_ok d me uid s" and cold: "cold d s" and len: "length (lh_block s) = LOGBLOCKS"
    and hn: "0 \<le> head_count (disk s (log_start s))" "head_count (disk s (log_start s)) \<le> int LOGBLOCKS"
    and home: "\<forall>b\<in>set (head_blocks (disk s (log_start s))). \<not> log_area s b"
  shows "\<exists>t. recover_from_log s me = Ok t \<and> cache_ok d me uid t \<and>
    disk t = apply_writes (recovery_writes (log_start s) (disk s)) (disk s)"
proof -
  let ?a = "log_start s" and ?h = "disk s (log_start s)" and ?bs = "head_blocks (disk s (log_start s))"
  have inv: "bio_inv d s" using ok by (simp add: cache_ok_def)
  have v: "bview d s = disk s" using bio_invD(3) [OF inv] cold by (auto simp: cold_def)
  have c: "bholder d s a = None" "pins d s a = 0" "2 \<le> nfree s" for a using cold by (simp_all add: cold_def)
  have hn2: "nat (head_count ?h) \<le> LOGBLOCKS" using hn by simp
  obtain t1 bl where t1: "read_head s me = Ok t1" "cache_ok d me uid t1" "above t1 = above (s\<lparr>lh_n := head_count ?h, lh_block := bl\<rparr>)"
    "length bl = LOGBLOCKS" "take (nat (head_count ?h)) bl = ?bs" "cache_st d t1 = cache_st d s"
    using read_head_ok [OF d ok, of ?h] c hn len v hn2 by auto
  note a1 = above_lst [OF t1(3), simplified] and D1 = cache_st_eqD [OF t1(6), simplified]
  have lb: "length ?bs = nat (head_count ?h)" by (simp add: head_blocks_def)
  have lg: "logged t1 ?bs" unfolding logged_def a1 lb log_area_def
    using hn t1(4,5) home by (auto simp: log_area_def)
  have id: "idle t1 ?bs" by (simp add: idle_def a1 d D1 c)
  have p: "if True then 2 \<le> nfree t1 else distinct ?bs \<and> (\<forall>b\<in>set ?bs. pins d t1 b \<noteq> 0) \<and> 0 < nfree t1" using c(3) by (simp add: D1)
  have dt: "log_dev t1 = d" by (simp add: a1 d)
  let ?ws = "map (\<lambda>j. (?bs ! j, disk s (?a + j + 1))) [0..<length ?bs]"
  obtain t2 f where t2: "install_trans True t1 me = Ok t2" "cache_ok d me uid t2" "above t2 = above t1" "nfree t1 \<le> f"
    and st2: "cache_st d t2 = (grow ?ws (cache_st d s))\<lparr>cpin := pins d s, cfree := f\<rparr>"
    using install_loop [OF dt t1(2) lg id p order_refl] unfolding install_trans_def a1 lb D1 v t1(6) by auto
  note a2 = above_lst [OF trans [OF t2(3) t1(3)], simplified] and D2 = cache_st_eqD [OF st2, simplified]
  have hb: "bview d t2 ?a = ?h"
  proof -
    have "?a \<notin> set ?bs" using home by (auto simp: log_area_def)
    then show ?thesis unfolding D2(1) v by (intro apply_writes_other) (auto, metis nth_mem)
  qed
  let ?t = "t2\<lparr>lh_n := 0\<rparr>"
  note L = cache_st_eqD [OF cache_lh(1) [where d = d and s = t2 and n = 0], simplified]
  have "\<exists>t. write_head ?t me = Ok t \<and> cache_ok d me uid t \<and> above t = above ?t \<and>
    cache_st d t = grow [(log_start ?t, head_bytes (lh_n ?t) (lh_block ?t) (bview d ?t (log_start ?t)))] (cache_st d ?t)"
    using c(3) t2(4) by (intro write_head_ok) (simp_all add: a2 d t2(2) cache_lh L D2 D1 c(1,2))
  then obtain t3 where t3: "write_head ?t me = Ok t3" "cache_ok d me uid t3" "cache_st d t3 = grow [(?a, put32 ?h 0 0)] (cache_st d t2)"
    by (auto simp: a2 L hb cache_lh head_bytes_0)
  have "disk t3 = apply_writes (recovery_writes ?a (disk s)) (disk s)"
    using cache_st_eqD(5) [OF t3(3)] by (simp add: st2 recovery_writes_def Let_def)
  then show ?thesis using t1(1) t2(1) t3(1,2) by (simp add: recover_from_log_def)
qed

lemma recovery_empty:
  assumes "head_count (D start) = 0" "a \<noteq> start"
  shows "apply_writes (recovery_writes start D) D a = D a"
  using assms by (simp add: recovery_writes_def head_blocks_def)

text \<open>A crash after any number of the writes of a commit: recovery finds an empty header and leaves the
  old contents, or a full one and installs all of the new.\<close>

lemma head_blocks_full:
  assumes "length b = BSIZE" "length bs \<le> LOGBLOCKS" "bs = take (length bs) bl" "\<forall>x\<in>set bs. x < 2 ^ 32"
  shows "head_blocks (head_bytes (int (length bs)) bl b) = bs"
proof (rule nth_equalityI)
  note g = head_bytes_get [OF assms(1,2), where bl = bl]
  show "length (head_blocks (head_bytes (int (length bs)) bl b)) = length bs" by (simp add: head_blocks_def g(2))
  fix j
  assume "j < length (head_blocks (head_bytes (int (length bs)) bl b))"
  then have j: "j < length bs" by (simp add: head_blocks_def g(2))
  have "bl ! j = bs ! j" using assms(3) j by (metis nth_take)
  then show "head_blocks (head_bytes (int (length bs)) bl b) ! j = bs ! j"
    using g(3) [OF j] assms(4) j by (simp add: head_blocks_def g(2))
qed

lemma crash_recovery:
  assumes bs: "length bs \<le> LOGBLOCKS" "bs = take (length bs) bl" "\<forall>x\<in>set bs. x < 2 ^ 32 \<and> \<not> (start \<le> x \<and> x \<le> start + LOGBLOCKS)" "distinct bs"
    and hd: "length (v start) = BSIZE" "head_count (D start) = 0"
    and W: "W = commit_writes start v bl bs" and X: "X = apply_writes (take k W) D"
    and a: "\<And>a. out a \<longleftrightarrow> \<not> (start \<le> a \<and> a \<le> start + LOGBLOCKS)"
  shows "0 \<le> head_count (X start) \<and> head_count (X start) \<le> int LOGBLOCKS \<and> (\<forall>b\<in>set (head_blocks (X start)). out b) \<and>
    ((\<forall>a. out a \<longrightarrow> apply_writes (recovery_writes start X) X a = D a) \<or>
     (\<forall>a. out a \<longrightarrow> apply_writes (recovery_writes start X) X a = apply_writes W D a))"
proof -
  let ?L = "log_copies start v bs" and ?H = "head_bytes (int (length bs)) bl (v start)" and ?M = "home_writes v bs"
  let ?Z = "head_bytes 0 bl ?H"
  have ln: "length ?L = length bs" "length ?M = length bs" by (simp_all add: log_copies_def home_writes_def)
  have oL: "apply_writes (take j ?L) g a = g a" if "out a \<or> a = start" for j g a
    using that bs(1) a by (intro apply_writes_other) (auto simp: log_copies_def dest!: in_set_takeD)
  have oM: "apply_writes (take j ?M) g a = g a" if "a \<notin> set bs" for j g a
    using that by (intro apply_writes_other) (auto simp: home_writes_def dest!: in_set_takeD)
  have ob: "out b" "b < 2 ^ 32" if "b \<in> set bs" for b using bs(3) a that by auto
  have ns: "start \<notin> set bs" "\<And>j. j < length bs \<Longrightarrow> start + j + 1 \<notin> set bs" using ob(1) bs(1) a by fastforce+
  have h: "length ?H = BSIZE" "head_count ?H = int (length bs)" using head_bytes_get [OF hd(1) bs(1)] by simp_all
  have hb: "head_blocks ?H = bs" using head_blocks_full [OF hd(1) bs(1,2)] ob(2) by blast
  have h0: "head_count ?Z = 0" using head_count_empty h(1) by blast
  consider "k \<le> length bs" | j where "k = length bs + 1 + j" "j \<le> length bs" | "k > 2 * length bs + 1"
  proof -
    have "k \<le> length bs \<or> k = length bs + 1 + (k - length bs - 1) \<and> k - length bs - 1 \<le> length bs \<or> k > 2 * length bs + 1"
      by linarith
    then show ?thesis using that by blast
  qed
  then show ?thesis
  proof cases
    case 1
    then have "X = apply_writes (take k ?L) D" by (simp add: X W commit_writes_def ln)
    then have "X start = D start" "\<And>a. out a \<Longrightarrow> X a = D a" using oL by auto
    then show ?thesis using recovery_empty [of X start] hd(2) a by (auto simp: head_blocks_def)
  next
    case 2
    then have Xe: "X = apply_writes (take j ?M) ((apply_writes ?L D)(start := ?H))" by (simp add: X W commit_writes_def ln)
    have Xs: "X start = ?H" unfolding Xe using oM ns(1) by simp
    have Xl: "X (start + i + 1) = v (bs ! i)" if "i < length bs" for i
      unfolding Xe using oM ns(2) [OF that] log_copies_at(1) [OF that, of start v D] by simp
    have ws: "recovery_writes start X = ?M @ [(start, put32 ?H 0 0)]"
      using Xl by (simp add: recovery_writes_def Xs hb Let_def home_writes_def)
    have "apply_writes (recovery_writes start X) X a = apply_writes W D a" if "out a" for a
    proof (cases "a \<in> set bs")
      case True
      then obtain i where i: "i < length bs" "a = bs ! i" by (auto simp: in_set_conv_nth)
      have "apply_writes ?M g a = v a" for g
        unfolding home_writes_def i(2) using bs(4) i(1)
        by (intro apply_writes_map [where h = "\<lambda>i. bs ! i"]) (auto simp: inj_on_def nth_eq_iff_index_eq)
      then show ?thesis using that a by (auto simp: ws W commit_writes_def)
    next
      case False
      have e: "apply_writes ?M g a = g a" for g using oM [OF False, of "length ?M"] by simp
      have "X a = D a" unfolding Xe using oM [OF False] oL [of a "length ?L"] that a by auto
      then show ?thesis using that a oL [of a "length ?L"] by (auto simp: ws W commit_writes_def e)
    qed
    then show ?thesis using Xs h(2) bs(1) hb ob(1) by auto
  next
    case 3
    then have Xe: "X = apply_writes W D" by (simp add: X W commit_writes_def ln)
    have Xs: "X start = ?Z" unfolding Xe W commit_writes_def by simp
    then show ?thesis using recovery_empty [of X start] h0 a by (auto simp: Xe [symmetric] head_blocks_def)
  qed
qed

section \<open>A small transaction\<close>

text \<open>Block 50 has been changed in the cache and logged; the disk is all zeroes.\<close>

definition lst_ex :: lst where
  "lst_ex = bst.extend (bst_ex\<lparr>disk := \<lambda>_. replicate BSIZE 0\<rparr>)
     (lst.fields 2 0 True 1 0 1 (50 # replicate 29 0))"

definition trans_ex :: lst where
  "trans_ex = (let s = binit lst_ex in
     s\<lparr>bufs := (bufs s)[0 := (bufs s ! 0)\<lparr>b_dev := 1, b_blockno := 50, b_valid := True, b_refcnt := 1, b_data := replicate BSIZE 7\<rparr>]\<rparr>)"

lemma lst_ex_simps [simp]:
  "disk lst_ex = (\<lambda>_. replicate BSIZE 0)" "log_start lst_ex = 2" "log_dev lst_ex = 1" "lh_n lst_ex = 1" "lh_block lst_ex = 50 # replicate 29 0"
  "procs lst_ex = procs bst_ex"
  by (simp_all add: lst_ex_def bst.defs lst.defs bst_ex_def)

lemma binit_frame [simp]:
  "disk (binit s) = disk s" "log_start (binit s) = log_start s" "log_dev (binit s) = log_dev s" "lh_n (binit s) = lh_n s"
  "lh_block (binit s) = lh_block s" "procs (binit s) = procs s"
  by (simp_all add: binit_def Let_def)

lemma trans_ex_ok:
  "cache_ok 1 0 1 trans_ex" "pins 1 trans_ex = (\<lambda>_. 0)(50 := 1)" "bholder 1 trans_ex = (\<lambda>_. None)" "nfree trans_ex = 29"
  "bview 1 trans_ex = (\<lambda>_. replicate BSIZE 0)(50 := replicate BSIZE 7)" "log_dev trans_ex = 1" "log_start trans_ex = 2"
  "logged trans_ex [50]" "idle trans_ex [50]" "disk trans_ex = (\<lambda>_. replicate BSIZE 0)" "lh_block trans_ex = 50 # replicate 29 0"
proof -
  let ?s = "binit lst_ex"
  let ?b = "(bufs ?s ! 0)\<lparr>b_dev := 1, b_blockno := 50, b_valid := True, b_refcnt := 1, b_data := replicate BSIZE 7\<rparr>"
  have t: "bufs trans_ex = (bufs ?s)[0 := ?b]" "disk trans_ex = disk ?s" "procs trans_ex = procs bst_ex"
    by (simp_all add: trans_ex_def Let_def)
  show fr: "log_dev trans_ex = 1" "log_start trans_ex = 2" "disk trans_ex = (\<lambda>_. replicate BSIZE 0)" "lh_block trans_ex = 50 # replicate 29 0"
    by (simp_all add: trans_ex_def Let_def)
  have n: "0 < NBUF" by (simp add: NBUF_def MAXOPBLOCKS_def)
  note I = binit_inv [of 1 lst_ex, OF one_neq_zero]
  have c: "cached 1 ?s 50 = None"
    using binit_bufs(1) [of _ lst_ex] bio_invD(1) [OF I(1)] by (subst cached_None) auto
  note u = buf_update [OF I(1) n t(1,2), of 50, simplified, unfolded One_nat_def [symmetric]]
  have lk: "\<not> sl_locked (b_lock (bufs ?s ! 0))" "b_refcnt (bufs ?s ! 0) = 0" using binit_bufs [OF n] by auto
  have P: "pins 1 trans_ex = (pins 1 ?s)(50 := 1)" "bview 1 trans_ex = (bview 1 ?s)(50 := replicate BSIZE 7)"
      "bholder 1 trans_ex = (bholder 1 ?s)(50 := None)" "bio_inv 1 trans_ex"
    using u c lk by simp_all
  show "pins 1 trans_ex = (\<lambda>_. 0)(50 := 1)" using P(1) I(3) by auto
  show bh: "bholder 1 trans_ex = (\<lambda>_. None)" using P(3) I(2) by auto
  show "bview 1 trans_ex = (\<lambda>_. replicate BSIZE 0)(50 := replicate BSIZE 7)" using P(2) I(4) by auto
  show "nfree trans_ex = 29" using nfree_update [OF n bio_invD(1) [OF I(1)] t(1)] lk I(5) by (simp add: NBUF_def MAXOPBLOCKS_def)
  show "cache_ok 1 0 1 trans_ex" using P(4) by (simp add: cache_ok_def t(3)) (simp add: bst_ex_def)
  have ln: "lh_n trans_ex = 1" by (simp add: trans_ex_def Let_def)
  show "logged trans_ex [50]" by (simp add: logged_def ln fr log_area_def param_defs)
  show "idle trans_ex [50]" using P(1) I(3) by (auto simp: idle_def fr bh simp del: One_nat_def)
qed

section \<open>Properties\<close>

text \<open>C2: commits are atomic with respect to crashes. For a transaction whose blocks are pinned in the cache,
  \<open>commit\<close> succeeds and puts the contents of every logged block in its place on the disk, and no other
  block outside the log changes. If the machine stops after any number \<open>k\<close> of the disk writes that
  \<open>commit\<close> makes and is rebooted, \<open>recover_from_log\<close> succeeds and leaves, outside the log, either the
  disk as it was before the commit or the disk as it is after it, never a mixture.\<close>

theorem commit_crash_safe:
  fixes s :: "'a lst_scheme"
  assumes d: "log_dev s = d" and ok: "cache_ok d me uid s" and lg: "logged s bs" and id: "idle s bs" and "distinct bs" "bs \<noteq> []"
    and p: "\<forall>b\<in>set bs. pins d s b \<noteq> 0 \<and> b < 2 ^ 32" "0 < nfree s"
    and hd: "length (bview d s (log_start s)) = BSIZE" "head_count (disk s (log_start s)) = 0"
  shows "\<exists>t W. commit s me = Ok t \<and> wtrace t = wtrace s @ W \<and> disk t = apply_writes W (disk s) \<and> lh_n t = 0 \<and>
    (\<forall>b\<in>set bs. disk t b = bview d s b) \<and> (\<forall>a. \<not> log_area s a \<and> a \<notin> set bs \<longrightarrow> disk t a = disk s a) \<and>
    (\<forall>k (s' :: 'a lst_scheme) me' uid'.
       log_start s' = log_start s \<and> log_dev s' = d \<and> length (lh_block s') = LOGBLOCKS \<and> cache_ok d me' uid' s' \<and> cold d s' \<and>
       disk s' = apply_writes (take k W) (disk s) \<longrightarrow>
       (\<exists>u. recover_from_log s' me' = Ok u \<and>
          ((\<forall>a. \<not> log_area s a \<longrightarrow> disk u a = disk s a) \<or> (\<forall>a. \<not> log_area s a \<longrightarrow> disk u a = disk t a))))"
proof -
  let ?a = "log_start s" and ?v = "bview d s" and ?bl = "lh_block s"
  let ?W = "commit_writes ?a ?v ?bl bs"
  have p': "\<forall>b\<in>set bs. pins d s b \<noteq> 0" using p by blast
  obtain t f where t: "commit s me = Ok t" "above t = above (s\<lparr>lh_n := 0\<rparr>)"
    and st: "cache_st d t = (grow ?W (cache_st d s))\<lparr>cpin := \<lambda>a. if a \<in> set bs then pins d s a - 1 else pins d s a, cfree := f\<rparr>"
    using commit_ok [OF d ok lg id assms(5,6) p' p(2)] by blast
  note D = cache_st_eqD [OF st, simplified]
  have bs: "length bs \<le> LOGBLOCKS" "bs = take (length bs) ?bl" "\<forall>x\<in>set bs. x < 2 ^ 32 \<and> \<not> (?a \<le> x \<and> x \<le> ?a + LOGBLOCKS)"
    using lg p by (auto simp: logged_def log_area_def)
  note cr = crash_recovery [where v = ?v and D = "disk s" and start = ?a and out = "\<lambda>a. \<not> log_area s a", OF bs assms(5) hd refl refl]
  have L: "apply_writes (log_copies ?a ?v bs) g a = g a" if "\<not> log_area s a" for g a
    using that bs(1) by (intro apply_writes_other) (auto simp: log_copies_def log_area_def)
  have home: "disk t b = ?v b" if "b \<in> set bs" for b
  proof -
    obtain i where i: "i < length bs" "b = bs ! i" using \<open>b \<in> set bs\<close> by (auto simp: in_set_conv_nth)
    have "apply_writes (home_writes ?v bs) g b = ?v b" for g
      unfolding home_writes_def i(2) using assms(5) i(1)
      by (intro apply_writes_map [where h = "\<lambda>i. bs ! i"]) (auto simp: inj_on_def nth_eq_iff_index_eq)
    then show ?thesis using bs(3) that by (auto simp: D(5) commit_writes_def)
  qed
  have other: "disk t a = disk s a" if "\<not> log_area s a \<and> a \<notin> set bs" for a
  proof -
    have "apply_writes (home_writes ?v bs) g a = g a" for g
      using that by (intro apply_writes_other) (auto simp: home_writes_def)
    then show ?thesis using that L by (auto simp: D(5) commit_writes_def log_area_def)
  qed
  have crash: "\<exists>u. recover_from_log s' me' = Ok u \<and>
          ((\<forall>a. \<not> log_area s a \<longrightarrow> disk u a = disk s a) \<or> (\<forall>a. \<not> log_area s a \<longrightarrow> disk u a = disk t a))"
    if s': "log_start s' = ?a \<and> log_dev s' = d \<and> length (lh_block s') = LOGBLOCKS \<and> cache_ok d me' uid' s' \<and> cold d s' \<and>
       disk s' = apply_writes (take k ?W) (disk s)" for k me' uid' and s' :: "'a lst_scheme"
  proof -
    note c = cr [of k, folded s' [THEN conjunct2, THEN conjunct2, THEN conjunct2, THEN conjunct2, THEN conjunct2]]
    have la: "log_area s' = log_area s" using s' by (simp add: log_area_def fun_eq_iff)
    have "\<exists>u. recover_from_log s' me' = Ok u \<and> cache_ok d me' uid' u \<and>
        disk u = apply_writes (recovery_writes (log_start s') (disk s')) (disk s')"
      using s' c by (intro recover_ok) (auto simp: la log_area_def)
    then show ?thesis using c s' D(5) by (auto simp: log_area_def)
  qed
  show ?thesis
    using t(1) above_lst(6) [OF t(2)] D(5,6) home other crash by (intro exI [of _ t] exI [of _ ?W]) auto
qed

theorem commit_crash_safe_witness:
  "\<exists>t W. commit trans_ex 0 = Ok t \<and> disk t = apply_writes W (disk trans_ex) \<and> disk t 50 = replicate BSIZE 7"
proof -
  have "head_count (replicate BSIZE 0) = 0"
    by (simp add: head_count_def get32_def get16_def BSIZE_def)
  then show ?thesis
    using commit_crash_safe [OF trans_ex_ok(6,1,8,9)] trans_ex_ok by fastforce
qed

section \<open>Reservations\<close>

lemma bwrite_above: "bwrite s me i = Ok t \<Longrightarrow> above t = above s"
  by (auto simp: bwrite_def virtio_rw_def above_def Let_def split: if_splits)

lemma above_set_buf: "above (set_buf s i f) = above s" "above (set_data s i g) = above s" "above (bunpin s i) = above s"
  by (simp_all add: set_buf_def set_data_def bunpin_def above_bufs)

lemma brelse_above: "brelse s me i = Ok t \<Longrightarrow> above t = above s"
proof -
  assume a: "brelse s me i = Ok t"
  then obtain bs where "t = (wakeup s (Some me) (ChBuf i))\<lparr>bufs := bs\<rparr>"
    by (auto simp: brelse_def releasesleep_def set_buf_def Let_def split: if_splits)
  then show "above t = above s" by (simp add: above_bufs above_wakeup)
qed

lemma write_log_one_above:
  assumes "write_log_one me k s = Ok t"
  shows "above t = above s"
  using assms by (auto simp: write_log_one_def above_set_buf dest!: bread_above bwrite_above brelse_above)

lemma install_one_above:
  assumes "install_one r me k s = Ok t"
  shows "above t = above s"
  using assms by (auto simp: install_one_def above_set_buf dest!: bread_above bwrite_above brelse_above split: if_splits)

lemma write_head_above:
  assumes "write_head s me = Ok t"
  shows "above t = above s"
  using assms by (auto simp: write_head_def above_set_buf dest!: bread_above bwrite_above brelse_above)

lemma fold_res_above:
  assumes "\<And>i s t. f i s = Ok t \<Longrightarrow> above t = above s" "fold_res f is s = Ok t"
  shows "above t = above s"
  using assms(2) by (induction "is" arbitrary: s) (auto dest: assms(1))

lemma commit_frame:
  assumes "commit s me = Ok t"
  shows "above t = above s \<or> above t = above (s\<lparr>lh_n := 0\<rparr>)"
proof (cases "lh_n s > 0")
  case True
  then obtain t1 t2 t3 where t: "write_log s me = Ok t1" "write_head t1 me = Ok t2" "install_trans False t2 me = Ok t3"
    "write_head (t3\<lparr>lh_n := 0\<rparr>) me = Ok t"
    using assms by (auto simp: commit_def)
  have "above t1 = above s" using t(1) write_log_one_above unfolding write_log_def by (metis fold_res_above)
  moreover have "above t3 = above t2" using t(3) install_one_above unfolding install_trans_def by (metis fold_res_above)
  ultimately show ?thesis using t(2,4) by (auto simp: above_lh dest!: write_head_above)
qed (use assms in \<open>simp add: commit_def\<close>)

text \<open>Operations in progress: each has the number of blocks it may still log. A commit is one step;
  until it is over \<open>begin_op\<close> waits.\<close>

definition remove_nth :: "nat \<Rightarrow> 'x list \<Rightarrow> 'x list" where
  "remove_nth i xs = take i xs @ drop (Suc i) xs"

inductive log_reach :: "'a lst_scheme \<Rightarrow> nat list \<Rightarrow> bool" where
  lr_init: "lh_n s = 0 \<Longrightarrow> log_outstanding s = 0 \<Longrightarrow> \<not> log_committing s \<Longrightarrow> log_reach s []"
| lr_begin: "log_reach s rs \<Longrightarrow> begin_op s = Ok t \<Longrightarrow> log_reach t (rs @ [MAXOPBLOCKS])"
| lr_write: "log_reach s rs \<Longrightarrow> i < length rs \<Longrightarrow> rs ! i = Suc k \<Longrightarrow> log_write s b = Ok t \<Longrightarrow> log_reach t (rs[i := k])"
| lr_end: "log_reach s rs \<Longrightarrow> i < length rs \<Longrightarrow> end_op_enter s me = Ok (c, t) \<Longrightarrow> log_reach t (remove_nth i rs)"
| lr_commit: "log_reach s rs \<Longrightarrow> log_committing s \<Longrightarrow> commit s me = Ok t \<Longrightarrow> log_reach (end_op_leave t me) rs"

definition space_inv :: "'a lst_scheme \<Rightarrow> nat list \<Rightarrow> bool" where
  "space_inv s rs \<longleftrightarrow> 0 \<le> lh_n s \<and> lh_n s + int (sum_list rs) \<le> int LOGBLOCKS \<and> log_outstanding s = int (length rs) \<and>
     (\<forall>r\<in>set rs. r \<le> MAXOPBLOCKS) \<and> (log_committing s \<longrightarrow> rs = [])"

lemma remove_nth_simps:
  fixes xs :: "nat list"
  shows
  "i < length xs \<Longrightarrow> length (remove_nth i xs) = length xs - 1"
  "i < length xs \<Longrightarrow> sum_list (remove_nth i xs) + xs ! i = sum_list xs"
  "set (remove_nth i xs) \<subseteq> set xs"
proof -
  show "length (remove_nth i xs) = length xs - 1" if "i < length xs" using that by (simp add: remove_nth_def)
  show "sum_list (remove_nth i xs) + xs ! i = sum_list xs" if "i < length xs"
    using arg_cong [OF id_take_nth_drop [OF that], of sum_list] by (simp add: remove_nth_def)
  show "set (remove_nth i xs) \<subseteq> set xs" by (auto simp: remove_nth_def dest: in_set_takeD in_set_dropD)
qed

lemma sum_list_bound: "(\<And>r. r \<in> set rs \<Longrightarrow> r \<le> m) \<Longrightarrow> sum_list rs \<le> length rs * m" for m :: nat
  by (induction rs) (force simp: add_mono)+

lemma log_write_frame:
  assumes "log_write s b = Ok t" "0 \<le> lh_n s"
  shows "log_outstanding t = log_outstanding s \<and> log_committing t = log_committing s \<and> 0 \<le> lh_n t \<and> lh_n t \<le> lh_n s + 1"
  using assms by (auto simp: log_write_def bpin_def set_buf_def Let_def split: if_splits option.splits)

lemma log_space: "log_reach s rs \<Longrightarrow> space_inv s rs"
proof (induction rule: log_reach.induct)
  case (lr_init s)
  then show ?case by (simp add: space_inv_def)
next
  case (lr_begin s rs t)
  have "int (sum_list rs) \<le> int (length rs * MAXOPBLOCKS)" unfolding of_nat_le_iff using lr_begin.IH by (intro sum_list_bound) (auto simp: space_inv_def)
  then have "int (sum_list rs) + int MAXOPBLOCKS \<le> (int (length rs) + 1) * int MAXOPBLOCKS" by (simp add: distrib_right)
  then show ?case using lr_begin by (auto simp: space_inv_def begin_op_def split: if_splits)
next
  case (lr_write s rs i k b t)
  have "sum_list (rs[i := k]) + 1 = sum_list rs" using lr_write.hyps(2,3) elem_le_sum_list [OF lr_write.hyps(2)] by (simp add: sum_list_update)
  then show ?case using lr_write log_write_frame [OF lr_write.hyps(4)] set_update_subset_insert [of rs i k] nth_mem [OF lr_write.hyps(2)]
    by (fastforce simp: space_inv_def)
next
  case (lr_end s rs i me c t)
  then show ?case using remove_nth_simps [of i rs]
    by (auto simp: space_inv_def end_op_enter_def wakeup_def Let_def split: if_splits)
next
  case (lr_commit s rs me t)
  have "lh_n t = lh_n s \<or> lh_n t = 0" "log_outstanding t = log_outstanding s"
    using commit_frame [OF lr_commit.hyps(3)] above_lst [of t s] above_lst [of t "s\<lparr>lh_n := 0\<rparr>"] by auto
  then show ?case using lr_commit by (auto simp: space_inv_def end_op_leave_def wakeup_def)
qed



end
