(* ===== verification/Files.thy ===== *)
theory Files
  imports Fs LogCrash
begin

text \<open>
  What the file system does to the contents of the disk: the block allocator, the map from the blocks of
  a file to blocks of the disk, and the contents of files. The proofs use the buffer cache and the log
  only through the relation \<open>tx\<close>, the state of a process inside a transaction, and four lemmas about it.
\<close>

section \<open>Inside a transaction\<close>

text \<open>Process \<open>me\<close> is in a transaction that has logged the blocks \<open>L\<close> so far, holds the buffers of the
  blocks \<open>H\<close>, and nobody else uses a buffer.\<close>

definition tx :: "nat \<Rightarrow> nat \<Rightarrow> int \<Rightarrow> 'a lst_scheme \<Rightarrow> nat list \<Rightarrow> nat set \<Rightarrow> bool" where
  "tx d me uid s L H \<longleftrightarrow> cache_ok d me uid s \<and> finite H \<and>
     bholder d s = (\<lambda>bn. if bn \<in> H then Some uid else None) \<and>
     pins d s = (\<lambda>bn. (if bn \<in> set L then 1 else 0) + (if bn \<in> H then 1 else 0)) \<and>
     nfree s + card (set L \<union> H) = NBUF \<and> (\<forall>bn. bn \<notin> set L \<longrightarrow> bview d s bn = disk s bn) \<and>
     distinct L \<and> lh_n s = int (length L) \<and> length (lh_block s) = LOGBLOCKS \<and> L = take (length L) (lh_block s) \<and>
     1 \<le> log_outstanding s"

definition log_add :: "nat \<Rightarrow> nat list \<Rightarrow> nat list" where
  "log_add bn L = (if bn \<in> set L then L else L @ [bn])"

lemma log_add_set [simp]: "set (log_add bn L) = insert bn (set L)"
  by (auto simp: log_add_def)

lemma log_add_length: "length (log_add bn L) \<le> Suc (length L)"
  by (simp add: log_add_def)

text \<open>The state without the buffers, the disk and the header of the log.\<close>

definition rest :: "'a lst_scheme \<Rightarrow> 'a lst_scheme" where
  "rest s = (above s)\<lparr>lh_n := 0, lh_block := []\<rparr>"

lemma txD:
  assumes "tx d me uid s L H"
  shows "cache_ok d me uid s" "finite H" "bholder d s bn = (if bn \<in> H then Some uid else None)"
    "pins d s bn = (if bn \<in> set L then 1 else 0) + (if bn \<in> H then 1 else 0)"
    "nfree s + card (set L \<union> H) = NBUF" "bn \<notin> set L \<Longrightarrow> bview d s bn = disk s bn"
    "distinct L" "lh_n s = int (length L)" "length (lh_block s) = LOGBLOCKS" "L = take (length L) (lh_block s)" "1 \<le> log_outstanding s"
  using assms unfolding tx_def by (simp_all)

lemma tx_bread:
  fixes s :: "'a lst_scheme"
  assumes "tx d me uid s L H" "bn \<notin> H" "bn \<in> set L \<or> card (set L \<union> H) < NBUF"
  obtains i t where "bread s me d bn = Ok (i, t)" "tx d me uid t L (insert bn H)" "has_buf d t bn i"
    "\<And>a j. a \<in> H \<Longrightarrow> has_buf d s a j \<Longrightarrow> has_buf d t a j" "bview d t = bview d s" "above t = above s" "data_of t i = bview d s bn"
proof -
  note T = txD [OF assms(1)]
  have "bholder d s bn = None" "pins d s bn + 1 \<noteq> 0" "pins d s bn \<noteq> 0 \<or> 0 < nfree s" using T(3,4) T(5) assms(2,3) by auto
  from cache_rd [OF T(1) this] obtain i t where
    t: "bread s me d bn = Ok (i, t)" "cache_ok d me uid t" "above t = above s" "has_buf d t bn i"
      "\<And>a j. has_buf d s a j \<Longrightarrow> pins d s a \<noteq> 0 \<Longrightarrow> has_buf d t a j" "cache_st d t = a_read uid bn (cache_st d s)" by blast
  note c = cache_st_eqD [OF t(6), unfolded a_read_def, simplified]
  note l = above_lst [OF t(3)]
  have "nfree t + card (set L \<union> insert bn H) = NBUF"
    using T(5) T(4) [of bn] T(2) assms(2,3) unfolding c(4) by (cases "bn \<in> set L") (auto simp: insert_absorb)
  then have "tx d me uid t L (insert bn H)"
    using T assms(2) t(2) unfolding tx_def c(1,2,3,5) l by (auto simp: fun_eq_iff)
  moreover have "data_of t i = bview d s bn" using bc.dat [OF t(2,4)] c(1) by simp
  moreover have "has_buf d t a j" if "a \<in> H" "has_buf d s a j" for a j using t(5) [OF that(2)] T(4) [of a] that(1) by simp
  ultimately show thesis using that [of i t] t(1,3,4) c(1) by simp
qed

lemma tx_brelse:
  fixes s :: "'a lst_scheme"
  assumes "tx d me uid s L H" "bn \<in> H" "has_buf d s bn i"
  obtains t where "brelse s me i = Ok t" "tx d me uid t L (H - {bn})" "\<And>a j. has_buf d s a j \<Longrightarrow> has_buf d t a j"
    "bview d t = bview d s" "above t = above s"
proof -
  note T = txD [OF assms(1)]
  have o: "bholder d s bn = Some uid" using T(3) assms(2) by simp
  have "pins d s bn = 1 \<Longrightarrow> bview d s bn = disk s bn" using T(4) [of bn] T(6) [of bn] assms(2) by (auto split: if_splits)
  from cache_rel [OF T(1) assms(3) o this] obtain t where
    t: "brelse s me i = Ok t" "cache_ok d me uid t" "above t = above s" "\<And>a j. has_buf d s a j \<Longrightarrow> has_buf d t a j"
      "cache_st d t = a_rel bn (cache_st d s)" by blast
  note c = cache_st_eqD [OF t(5), unfolded a_rel_def, simplified]
  note l = above_lst [OF t(3)]
  have "nfree t + card (set L \<union> (H - {bn})) = NBUF"
  proof (cases "bn \<in> set L")
    case True
    then have "set L \<union> (H - {bn}) = set L \<union> H" by auto
    then show ?thesis using T(5) T(4) [of bn] True assms(2) unfolding c(4) by simp
  next
    case False
    then have "set L \<union> H = insert bn (set L \<union> (H - {bn}))" "bn \<notin> set L \<union> (H - {bn})" using assms(2) by auto
    then have "card (set L \<union> H) = Suc (card (set L \<union> (H - {bn})))" using T(2) by (metis card_insert_disjoint finite_Diff finite_UnI finite_set)
    then show ?thesis using T(5) T(4) [of bn] False assms(2) unfolding c(4) by simp
  qed
  then have "tx d me uid t L (H - {bn})"
    using T assms(2) t(2) unfolding tx_def c(1,2,3,5) l by (auto simp: fun_eq_iff)
  then show thesis using that [of t] t(1,3,4) c(1) by simp
qed

lemma rest_above: "above t = above s \<Longrightarrow> rest t = rest s"
  by (simp add: rest_def)

lemma tx_log:
  fixes s :: "'a lst_scheme"
  assumes "tx d me uid s L H" "bn \<in> H" "has_buf d s bn i" "length L < LOGBLOCKS"
  obtains t where "log_write (set_data s i f) i = Ok t" "tx d me uid t (log_add bn L) H" "\<And>a j. has_buf d s a j \<Longrightarrow> has_buf d t a j"
    "bview d t = (bview d s)(bn := f (bview d s bn))" "rest t = rest s"
proof -
  note T = txD [OF assms(1)]
  have p: "pins d s bn \<noteq> 0" using T(4) [of bn] assms(2) by simp
  define u where "u = set_data s i f"
  have u: "cache_ok d me uid u" "above u = above s" "\<And>a j. has_buf d s a j \<Longrightarrow> has_buf d u a j" "cache_st d u = a_set bn f (cache_st d s)"
    using cache_upd [OF T(1) assms(3) p, of f] by (auto simp: u_def)
  note c = cache_st_eqD [OF u(4), unfolded a_set_def, simplified]
  note l = above_lst [OF u(2)]
  have bn: "b_blockno (bufs u ! i) = bn" using has_bufD(4) [OF _ u(3) [OF assms(3)]] u(1) by (simp add: cache_ok_def)
  have n: "nat (lh_n u) = length L" "lh_n u < int LOGBLOCKS" "1 \<le> log_outstanding u" using T(8,11) assms(4) by (simp_all add: l)
  have nu: "lh_n u = int (length L)" using T(8) by (simp add: l)
  have tk: "take (length L) (lh_block u) = L" using T(10) by (simp add: l)
  show thesis
  proof (cases "bn \<in> set L")
    case True
    then obtain k where k: "find_index (\<lambda>x. x = bn) L = Some k" using find_index_None_iff [of "\<lambda>x. x = bn" L] by (cases "find_index (\<lambda>x. x = bn) L") auto
    then have kl: "k < length L" "L ! k = bn" by (auto simp: find_index_Some_iff)
    have "lh_block u ! k = take (length L) (lh_block u) ! k" using kl by simp
    then have "(lh_block u)[k := bn] = lh_block u" using kl(2) tk by (metis list_update_id)
    then have w: "log_write u i = Ok u" using n k kl(1) nu by (simp add: log_write_def Let_def bn tk)
    have "tx d me uid u L H" using T True assms(2) u(1) c l unfolding tx_def by (auto simp: fun_eq_iff)
    then show thesis using w [unfolded u_def] rest_above [OF u(2)] u(3) c(1) True
      by (intro that [of u]) (simp_all add: u_def [symmetric] log_add_def)
  next
    case False
    then have k: "find_index (\<lambda>x. x = bn) L = None" by (auto simp: find_index_None_iff)
    define v where "v = u\<lparr>lh_block := (lh_block u)[length L := bn]\<rparr>"
    define w where "w = bpin v i"
    have v: "cache_ok d me uid v" "has_buf d v = has_buf d u" "cache_st d v = cache_st d u" using u(1) by (simp_all add: v_def cache_lh)
    have "pins d v bn \<noteq> 0" "pins d v bn + 1 \<noteq> 0" using cache_st_eqD(2) [OF v(3)] c(2) T(4) [of bn] assms(2) False by auto
    from cache_pin [OF v(1) _ this, of i w] have w: "cache_ok d me uid w" "above w = above v" "\<And>a j. has_buf d v a j \<Longrightarrow> has_buf d w a j"
        "cache_st d w = a_pin bn 1 (cache_st d v)"
      using u(3) [OF assms(3)] v(2) by (auto simp: w_def bpin_def)
    note cw = cache_st_eqD [OF w(4), unfolded a_pin_def v(3), simplified, unfolded c]
    note lw = above_lst [OF w(2)]
    let ?t = "w\<lparr>lh_n := lh_n u + 1\<rparr>"
    have vl: "lh_n v = lh_n u" "log_outstanding v = log_outstanding u" "lh_block v = (lh_block u)[length L := bn]" by (simp_all add: v_def)
    have e: "log_write u i = Ok ?t" using n k nu by (simp add: log_write_def Let_def bn tk v_def w_def)
    have ct: "cache_st d ?t = cache_st d w" "cache_ok d me uid ?t" "has_buf d ?t = has_buf d w" using w(1) by (simp_all add: cache_lh)
    note cs = cache_st_eqD [OF ct(1), simplified]
    have "take (Suc (length L)) ((lh_block u)[length L := bn]) = L @ [bn]"
      using assms(4) T(9) tk by (simp add: take_Suc_conv_app_nth l)
    moreover have "set L \<union> H = insert bn (set L) \<union> H" using assms(2) by auto
    ultimately have "tx d me uid ?t (L @ [bn]) H"
      using T False assms(2,4) ct(2) unfolding tx_def cs cw by (auto simp: fun_eq_iff lw vl l cw(5))
    moreover have "rest ?t = rest s" using w(2) u(2) by (simp add: rest_def above_lh v_def)
    moreover have "has_buf d ?t a j" if "has_buf d s a j" for a j using w(3) v(2) u(3) [OF that] ct(3) by simp
    ultimately show thesis using e [unfolded u_def] cs(1) cw(1) False by (intro that [of ?t]) (simp_all add: u_def [symmetric] log_add_def)
  qed
qed

text \<open>Reading a block, changing it, logging it and releasing it.\<close>

lemma tx_modify:
  fixes s :: "'a lst_scheme"
  assumes "tx d me uid s L H" "bn \<notin> H" "card (set L \<union> H) < NBUF" "length L < LOGBLOCKS"
  obtains t where "bnd (bread s me d bn) (\<lambda>(bp, s). bnd (log_write (set_data s bp f) bp) (\<lambda>s. brelse s me bp)) = Ok t"
    "tx d me uid t (log_add bn L) H" "\<And>a j. a \<in> H \<Longrightarrow> has_buf d s a j \<Longrightarrow> has_buf d t a j"
    "bview d t = (bview d s)(bn := f (bview d s bn))" "rest t = rest s"
proof -
  have "bn \<in> set L \<or> card (set L \<union> H) < NBUF" using assms(3) by simp
  from tx_bread [OF assms(1,2) this] obtain i t1 where t1: "bread s me d bn = Ok (i, t1)" "tx d me uid t1 L (insert bn H)" "has_buf d t1 bn i"
    "\<And>a j. a \<in> H \<Longrightarrow> has_buf d s a j \<Longrightarrow> has_buf d t1 a j" "bview d t1 = bview d s" "above t1 = above s" by metis
  obtain t2 where t2: "log_write (set_data t1 i f) i = Ok t2" "tx d me uid t2 (log_add bn L) (insert bn H)" "\<And>a j. has_buf d t1 a j \<Longrightarrow> has_buf d t2 a j"
    "bview d t2 = (bview d t1)(bn := f (bview d t1 bn))" "rest t2 = rest t1"
    using tx_log [OF t1(2) _ t1(3) assms(4), of f] by blast
  obtain t3 where t3: "brelse t2 me i = Ok t3" "tx d me uid t3 (log_add bn L) (insert bn H - {bn})" "\<And>a j. has_buf d t2 a j \<Longrightarrow> has_buf d t3 a j"
    "bview d t3 = bview d t2" "above t3 = above t2"
    using tx_brelse [OF t2(2) _ t2(3) [OF t1(3)]] by blast
  have "insert bn H - {bn} = H" using assms(2) by auto
  then show thesis
  proof (intro that [of t3])
    show "has_buf d t3 a j" if "a \<in> H" "has_buf d s a j" for a j using t3(3) [OF t2(3) [OF t1(4) [OF that]]] .
    show "rest t3 = rest s" using rest_above [OF t3(5)] rest_above [OF t1(6)] t2(5) by simp
  qed (use t1(1,5) t2(1,4) t3(1,2,4) in simp_all)
qed

section \<open>The block allocator\<close>

text \<open>The bitmap says that block \<open>b\<close> is in use.\<close>

definition bused :: "nat \<Rightarrow> 'a fsst_scheme \<Rightarrow> nat \<Rightarrow> bool" where
  "bused d s b \<longleftrightarrow> bitmap_bit (bview d s (BBLOCK b (sb s))) (b mod BPB)"

lemma rest_fs:
  fixes s t :: "'a fsst_scheme"
  assumes "rest t = rest s"
  shows "sb t = sb s" "inodes t = inodes s"
  using arg_cong [OF assms, of sb] arg_cong [OF assms, of inodes] by (simp_all add: rest_def above_def)

lemma group_block:
  assumes "BPB dvd g" "k < BPB"
  shows "BBLOCK (g + k) z = BBLOCK g z" "(g + k) mod BPB = k"
  using assms by (auto simp: BBLOCK_def BPB_def BSIZE_def elim!: dvdE)

lemma free_bit_cases:
  assumes "free_bit (bview d s (BBLOCK g (sb s))) g n = r" "BPB dvd g"
  shows "r = None \<Longrightarrow> b < n \<Longrightarrow> g \<le> b \<Longrightarrow> b < g + BPB \<Longrightarrow> bused d s b"
    "r = Some k \<Longrightarrow> k < BPB \<and> g + k < n \<and> \<not> bused d s (g + k) \<and> BBLOCK (g + k) (sb s) = BBLOCK g (sb s) \<and> (g + k) mod BPB = k"
proof -
  show "bused d s b" if a: "r = None" "b < n" "g \<le> b" "b < g + BPB"
  proof -
    define k where "k = b - g"
    then have b: "b = g + k" "k < BPB" "k < n - g" using a by auto
    then have "bitmap_bit (bview d s (BBLOCK g (sb s))) k" using assms(1) a(1) by (auto simp: free_bit_def find_index_None_iff)
    then show ?thesis using group_block [OF assms(2) b(2)] by (simp add: bused_def b(1))
  qed
  assume r: "r = Some k"
  then have k: "k < BPB" "k < n - g" "\<not> bitmap_bit (bview d s (BBLOCK g (sb s))) k"
    using assms(1) by (auto simp: free_bit_def find_index_Some_iff)
  then show "k < BPB \<and> g + k < n \<and> \<not> bused d s (g + k) \<and> BBLOCK (g + k) (sb s) = BBLOCK g (sb s) \<and> (g + k) mod BPB = k"
    using group_block [OF assms(2) k(1)] by (auto simp: bused_def)
qed

text \<open>A process that holds the blocks \<open>H\<close> can log \<open>n\<close> more.\<close>

definition room :: "nat list \<Rightarrow> nat set \<Rightarrow> nat \<Rightarrow> bool" where
  "room L H n \<longleftrightarrow> length L + card H + n < NBUF"

lemma roomD:
  assumes "room L H n"
  shows "card (set L \<union> H) < NBUF" "0 < n \<Longrightarrow> length L < LOGBLOCKS" "0 < n \<Longrightarrow> room (log_add bn L) H (n - 1)" "m \<le> n \<Longrightarrow> room L H m"
proof -
  have "card (set L \<union> H) \<le> length L + card H" using card_Un_le [of "set L" H] card_length [of L] by linarith
  then show "card (set L \<union> H) < NBUF" using assms by (simp add: room_def)
  show "0 < n \<Longrightarrow> length L < LOGBLOCKS" using assms by (simp add: room_def NBUF_def LOGBLOCKS_def)
  show "0 < n \<Longrightarrow> room (log_add bn L) H (n - 1)" using assms log_add_length [of bn L] by (simp add: room_def)
  show "m \<le> n \<Longrightarrow> room L H m" using assms by (simp add: room_def)
qed

lemma bzero_ok:
  fixes s :: "'a fsst_scheme"
  assumes "tx d me uid s L H" "bn \<notin> H" "room L H 1"
  obtains t where "bzero s me d bn = Ok t" "tx d me uid t (log_add bn L) H" "\<And>a j. a \<in> H \<Longrightarrow> has_buf d s a j \<Longrightarrow> has_buf d t a j"
    "bview d t = (bview d s)(bn := replicate BSIZE 0)" "rest t = rest s"
  unfolding bzero_def by (rule tx_modify [OF assms(1,2) roomD(1,2) [OF assms(3)], of "\<lambda>_. replicate BSIZE 0"]) (use that in blast)+

lemma balloc_loop_ok:
  fixes s :: "'a fsst_scheme"
  assumes "tx d me uid s L H" "room L H 2" "\<forall>g \<in> set groups. BPB dvd g \<and> BBLOCK g (sb s) \<notin> H" "\<forall>h \<in> H. bused d s h"
  obtains (full) t where "balloc_loop s me d groups = Ok (0, t)" "tx d me uid t L H" "\<And>a j. a \<in> H \<Longrightarrow> has_buf d s a j \<Longrightarrow> has_buf d t a j"
      "bview d t = bview d s" "rest t = rest s"
      "\<And>g b. g \<in> set groups \<Longrightarrow> g \<le> b \<Longrightarrow> b < g + BPB \<Longrightarrow> b < sb_size (sb s) \<Longrightarrow> bused d s b"
  | (got) a t where "balloc_loop s me d groups = Ok (a, t)" "tx d me uid t (log_add a (log_add (BBLOCK a (sb s)) L)) H"
      "\<And>a j. a \<in> H \<Longrightarrow> has_buf d s a j \<Longrightarrow> has_buf d t a j"
      "bview d t = (bview d s)(BBLOCK a (sb s) := bitmap_set (a mod BPB) (bview d s (BBLOCK a (sb s))), a := replicate BSIZE 0)"
      "rest t = rest s" "a < sb_size (sb s)" "\<not> bused d s a"
  using assms
proof (induction groups arbitrary: s thesis)
  case Nil
  show ?case by (rule Nil(1) [of s]) (use Nil in auto)
next
  case (Cons g groups)
  have g: "BPB dvd g" "BBLOCK g (sb s) \<notin> H" using Cons.prems(5) by auto
  have "BBLOCK g (sb s) \<in> set L \<or> card (set L \<union> H) < NBUF" using roomD(1) [OF Cons.prems(4)] by simp
  from tx_bread [OF Cons.prems(3) g(2) this] obtain bp t1 where t1: "bread s me d (BBLOCK g (sb s)) = Ok (bp, t1)"
    "tx d me uid t1 L (insert (BBLOCK g (sb s)) H)" "has_buf d t1 (BBLOCK g (sb s)) bp"
    "\<And>a j. a \<in> H \<Longrightarrow> has_buf d s a j \<Longrightarrow> has_buf d t1 a j" "bview d t1 = bview d s" "above t1 = above s" "data_of t1 bp = bview d s (BBLOCK g (sb s))"
    by metis
  note r1 = rest_above [OF t1(6)]
  note f1 = rest_fs [OF r1]
  have h: "insert (BBLOCK g (sb s)) H - {BBLOCK g (sb s)} = H" using g(2) by auto
  show ?case
  proof (cases "free_bit (bview d s (BBLOCK g (sb s))) g (sb_size (sb s))")
    case None
    obtain t2 where t2: "brelse t1 me bp = Ok t2" "tx d me uid t2 L H" "\<And>a j. has_buf d t1 a j \<Longrightarrow> has_buf d t2 a j"
      "bview d t2 = bview d t1" "above t2 = above t1"
      using tx_brelse [OF t1(2) _ t1(3)] unfolding h by blast
    have r2: "rest t2 = rest s" using rest_above [OF t2(5)] r1 by simp
    note f2 = rest_fs [OF r2]
    have e: "balloc_loop s me d (g # groups) = balloc_loop t2 me d groups" using t1(1,7) t2(1) None by (simp add: f1)
    have u: "bused d t2 = bused d s" by (simp add: bused_def fun_eq_iff f2 t2(4) t1(5))
    have k: "has_buf d t2 a j" if "a \<in> H" "has_buf d s a j" for a j using t2(3) [OF t1(4) [OF that]] .
    have p: "\<forall>g \<in> set groups. BPB dvd g \<and> BBLOCK g (sb t2) \<notin> H" "\<forall>h \<in> H. bused d t2 h" using Cons.prems(5,6) f2 u by auto
    show ?thesis
    proof (rule Cons.IH [OF _ _ t2(2) Cons.prems(4) p], goal_cases)
      case (1 t)
      then show ?case using e k r2 free_bit_cases(1) [OF None g(1)] t2(4) t1(5) unfolding u f2
        by (intro Cons.prems(1) [of t]) auto
    next
      case (2 a t)
      then show ?case using e k r2 t2(4) t1(5) unfolding u f2 by (intro Cons.prems(2) [of a t]) auto
    qed
  next
    case (Some k)
    note fk = free_bit_cases(2) [OF Some g(1) refl]
    from tx_log [OF t1(2) _ t1(3) roomD(2) [OF Cons.prems(4)], of "bitmap_set k"] obtain t2 where
      t2: "log_write (set_data t1 bp (bitmap_set k)) bp = Ok t2" "tx d me uid t2 (log_add (BBLOCK g (sb s)) L) (insert (BBLOCK g (sb s)) H)"
        "\<And>a j. has_buf d t1 a j \<Longrightarrow> has_buf d t2 a j"
        "bview d t2 = (bview d t1)(BBLOCK g (sb s) := bitmap_set k (bview d t1 (BBLOCK g (sb s))))" "rest t2 = rest t1" by auto
    obtain t3 where t3: "brelse t2 me bp = Ok t3" "tx d me uid t3 (log_add (BBLOCK g (sb s)) L) H" "\<And>a j. has_buf d t2 a j \<Longrightarrow> has_buf d t3 a j"
      "bview d t3 = bview d t2" "above t3 = above t2"
      using tx_brelse [OF t2(2) _ t2(3) [OF t1(3)]] unfolding h by blast
    have "g + k \<notin> H" using fk Cons.prems(6) by auto
    then obtain t4 where t4: "bzero t3 me d (g + k) = Ok t4" "tx d me uid t4 (log_add (g + k) (log_add (BBLOCK g (sb s)) L)) H"
      "\<And>a j. a \<in> H \<Longrightarrow> has_buf d t3 a j \<Longrightarrow> has_buf d t4 a j" "bview d t4 = (bview d t3)(g + k := replicate BSIZE 0)" "rest t4 = rest t3"
      using bzero_ok [OF t3(2), of "g + k"] roomD(3) [OF Cons.prems(4), of "BBLOCK g (sb s)"] by auto
    have e: "balloc_loop s me d (g # groups) = Ok (g + k, t4)" using t1(1,7) t2(1) t3(1) t4(1) Some by (simp add: f1)
    have k: "has_buf d t4 a j" if "a \<in> H" "has_buf d s a j" for a j using t4(3) [OF that(1) t3(3) [OF t2(3) [OF t1(4) [OF that]]]] .
    have r: "rest t4 = rest s" using t4(5) rest_above [OF t3(5)] t2(5) r1 by simp
    show ?thesis
      using e k r t4(2,4) t3(4) t2(4) t1(5) fk by (intro Cons.prems(2) [of "g + k" t4]) auto
  qed
qed

text \<open>The layout of the disk: the blocks of the bitmap end where the data blocks begin, the blocks before
  them are in use, and the inodes are before the bitmap.\<close>

definition dstart :: "'a fsst_scheme \<Rightarrow> nat" where
  "dstart s = sb_bmapstart (sb s) + (sb_size (sb s) - 1) div BPB + 1"

definition geo :: "nat \<Rightarrow> 'a fsst_scheme \<Rightarrow> bool" where
  "geo d s \<longleftrightarrow> (\<forall>b. length (bview d s b) = BSIZE) \<and> dstart s \<le> sb_size (sb s) \<and> sb_size (sb s) < 2 ^ 32 \<and>
     (\<forall>b<dstart s. bused d s b) \<and> (\<forall>n < sb_ninodes (sb s). IBLOCK n (sb s) < sb_bmapstart (sb s))"

lemma geoD:
  assumes "geo d s"
  shows "length (bview d s b) = BSIZE" "dstart s \<le> sb_size (sb s)" "sb_size (sb s) < 2 ^ 32" "b < dstart s \<Longrightarrow> bused d s b"
    "n < sb_ninodes (sb s) \<Longrightarrow> IBLOCK n (sb s) < sb_bmapstart (sb s)" "0 < dstart s"
  using assms unfolding geo_def dstart_def by auto

lemma bitmap_block: "b < sb_size (sb s) \<Longrightarrow> sb_bmapstart (sb s) \<le> BBLOCK b (sb s) \<and> BBLOCK b (sb s) < dstart s"
  by (auto simp: BBLOCK_def dstart_def less_Suc_eq_le intro!: div_le_mono)

lemma bitmap_set_bit:
  assumes "length x = BSIZE" "i < BPB"
  shows "bitmap_bit (bitmap_set i x) j \<longleftrightarrow> j = i \<or> bitmap_bit x j"
proof -
  have "i div 8 < length x" "i mod 8 < 8" using assms by (auto simp: BPB_def)
  moreover have "j = i \<longleftrightarrow> j div 8 = i div 8 \<and> j mod 8 = i mod 8" by (metis div_mult_mod_eq)
  ultimately show ?thesis by (auto simp: bitmap_bit_def bitmap_set_def bit_set_bit_iff nth_list_update)
qed

lemma alloc_bits:
  fixes s t :: "'a fsst_scheme"
  assumes "geo d s" "rest t = rest s" "a < sb_size (sb s)" "\<not> bused d s a"
    "bview d t = (bview d s)(BBLOCK a (sb s) := bitmap_set (a mod BPB) (bview d s (BBLOCK a (sb s))), a := replicate BSIZE 0)"
  shows "geo d t" "dstart s \<le> a" "b < sb_size (sb s) \<Longrightarrow> bused d t b \<longleftrightarrow> b = a \<or> bused d s b" "bview d t a = replicate BSIZE 0"
    "b \<noteq> a \<Longrightarrow> b < sb_bmapstart (sb s) \<or> dstart s \<le> b \<Longrightarrow> bview d t b = bview d s b"
proof -
  note G = geoD [OF assms(1)] and f = rest_fs [OF assms(2)]
  show da: "dstart s \<le> a" using G(4) assms(4) not_le by blast
  have na: "BBLOCK b (sb s) \<noteq> a" if "b < sb_size (sb s)" for b using bitmap_block [OF that] da by auto
  show u: "bused d t b \<longleftrightarrow> b = a \<or> bused d s b" if b: "b < sb_size (sb s)" for b
  proof (cases "BBLOCK b (sb s) = BBLOCK a (sb s)")
    case True
    then have "b div BPB = a div BPB" by (simp add: BBLOCK_def)
    then have "b = a \<longleftrightarrow> b mod BPB = a mod BPB" by (metis div_mult_mod_eq)
    then show ?thesis using na [OF b] True bitmap_set_bit [OF G(1), of "a mod BPB"] by (simp add: bused_def f assms(5) BPB_def BSIZE_def)
  next
    case False
    then show ?thesis using na [OF b] by (auto simp: bused_def f assms(5))
  qed
  show "bview d t a = replicate BSIZE 0" by (simp add: assms(5))
  show "bview d t b = bview d s b" if "b \<noteq> a" "b < sb_bmapstart (sb s) \<or> dstart s \<le> b" for b
    using that bitmap_block [OF assms(3)] by (auto simp: assms(5))
  have "length (bview d t b) = BSIZE" for b using G(1) by (simp add: assms(5) bitmap_set_def)
  then show "geo d t" using assms(1) u G(2) unfolding geo_def dstart_def f by auto
qed

lemma balloc_ok:
  fixes s :: "'a fsst_scheme"
  assumes "tx d me uid s L H" "room L H 2" "geo d s" "\<forall>h \<in> H. dstart s \<le> h \<and> bused d s h"
  obtains (full) t where "balloc s me d = Ok (0, t)" "tx d me uid t L H" "\<And>a j. a \<in> H \<Longrightarrow> has_buf d s a j \<Longrightarrow> has_buf d t a j"
      "bview d t = bview d s" "rest t = rest s" "\<And>b. b < sb_size (sb s) \<Longrightarrow> bused d s b"
  | (got) a t where "balloc s me d = Ok (a, t)" "tx d me uid t (log_add a (log_add (BBLOCK a (sb s)) L)) H"
      "\<And>a j. a \<in> H \<Longrightarrow> has_buf d s a j \<Longrightarrow> has_buf d t a j" "rest t = rest s" "geo d t"
      "dstart s \<le> a" "a < sb_size (sb s)" "\<not> bused d s a" "\<And>b. b < sb_size (sb s) \<Longrightarrow> bused d t b \<longleftrightarrow> b = a \<or> bused d s b"
      "bview d t a = replicate BSIZE 0" "\<And>b. b \<noteq> a \<Longrightarrow> b < sb_bmapstart (sb s) \<or> dstart s \<le> b \<Longrightarrow> bview d t b = bview d s b"
proof -
  let ?gs = "map (\<lambda>k. k * BPB) [0..<(sb_size (sb s) + BPB - 1) div BPB]"
  have "BBLOCK g (sb s) \<notin> H" if g: "g \<in> set ?gs" for g
  proof -
    from g obtain k where "g = k * BPB" "k \<in> set [0..<(sb_size (sb s) + BPB - 1) div BPB]" unfolding set_map by (rule imageE)
    then have "g < sb_size (sb s)" by (simp add: BPB_def BSIZE_def)
    then show ?thesis using bitmap_block assms(4) by fastforce
  qed
  then have p: "\<forall>g \<in> set ?gs. BPB dvd g \<and> BBLOCK g (sb s) \<notin> H" "\<forall>h \<in> H. bused d s h" using assms(4) by auto
  show thesis
  proof (cases rule: balloc_loop_ok [OF assms(1,2) p])
    case (1 t)
    have "bused d s b" if b: "b < sb_size (sb s)" for b
    proof -
      have "b div BPB * BPB \<in> set ?gs" "b div BPB * BPB \<le> b" "b < b div BPB * BPB + BPB"
        using b by (auto simp: BPB_def BSIZE_def)
      then show ?thesis using 1(6) b by blast
    qed
    then show thesis using 1 by (intro full [of t]) (auto simp: balloc_def)
  next
    case (2 a t)
    then show thesis using alloc_bits [OF assms(3) 2(5-7,4)] by (intro got [of a t]) (auto simp: balloc_def)
  qed
qed

section \<open>The blocks of a file\<close>

text \<open>The blocks of inode \<open>i\<close>: slot \<open>k\<close> below \<open>MAXFILE\<close> is the block of the disk that holds block \<open>k\<close> of the
  file, and slot \<open>MAXFILE\<close> the indirect block.\<close>

abbreviation ind :: "'a fsst_scheme \<Rightarrow> nat \<Rightarrow> nat" where
  "ind s i \<equiv> i_addrs (inodes s ! i) ! NDIRECT"

definition slot :: "nat \<Rightarrow> 'a fsst_scheme \<Rightarrow> nat \<Rightarrow> nat \<Rightarrow> nat" where
  "slot d s i k =
     (if k < NDIRECT then i_addrs (inodes s ! i) ! k
      else if k < MAXFILE then if ind s i = 0 then 0 else get32 (bview d s (ind s i)) (4 * (k - NDIRECT))
      else ind s i)"

definition inode_ok :: "nat \<Rightarrow> 'a fsst_scheme \<Rightarrow> nat \<Rightarrow> bool" where
  "inode_ok d s i \<longleftrightarrow> i < length (inodes s) \<and> i_dev (inodes s ! i) = d \<and> i_inum (inodes s ! i) < sb_ninodes (sb s) \<and>
     length (i_addrs (inodes s ! i)) = NDIRECT + 1 \<and>
     (\<forall>k\<le>MAXFILE. slot d s i k \<noteq> 0 \<longrightarrow> dstart s \<le> slot d s i k \<and> slot d s i k < sb_size (sb s) \<and> bused d s (slot d s i k)) \<and>
     (\<forall>j\<le>MAXFILE. \<forall>k\<le>MAXFILE. slot d s i j \<noteq> 0 \<longrightarrow> slot d s i j = slot d s i k \<longrightarrow> j = k)"

lemma inode_okD:
  assumes "inode_ok d s i"
  shows "i < length (inodes s)" "i_dev (inodes s ! i) = d" "i_inum (inodes s ! i) < sb_ninodes (sb s)"
    "length (i_addrs (inodes s ! i)) = NDIRECT + 1"
    "k \<le> MAXFILE \<Longrightarrow> slot d s i k \<noteq> 0 \<Longrightarrow> dstart s \<le> slot d s i k \<and> slot d s i k < sb_size (sb s) \<and> bused d s (slot d s i k)"
    "j \<le> MAXFILE \<Longrightarrow> k \<le> MAXFILE \<Longrightarrow> slot d s i j \<noteq> 0 \<Longrightarrow> slot d s i j = slot d s i k \<Longrightarrow> j = k"
  using assms unfolding inode_ok_def by blast+

lemma slot_ind: "slot d s i MAXFILE = ind s i"
  by (simp add: slot_def MAXFILE_def)

text \<open>A step that may only give inode \<open>i\<close> new blocks.\<close>

definition other :: "nat \<Rightarrow> 'a fsst_scheme \<Rightarrow> 'a fsst_scheme" where
  "other i s = (rest s)\<lparr>inodes := (inodes s)[i := (inodes s ! i)\<lparr>i_addrs := []\<rparr>]\<rparr>"

definition extends :: "nat \<Rightarrow> nat \<Rightarrow> 'a fsst_scheme \<Rightarrow> 'a fsst_scheme \<Rightarrow> bool" where
  "extends d i s t \<longleftrightarrow> other i t = other i s \<and> length (i_addrs (inodes t ! i)) = length (i_addrs (inodes s ! i)) \<and> geo d t \<and>
     (\<forall>b < sb_size (sb s). bused d s b \<longrightarrow> bused d t b) \<and>
     (\<forall>k\<le>MAXFILE. slot d t i k = slot d s i k \<or> slot d s i k = 0 \<and> \<not> bused d s (slot d t i k)) \<and>
     (\<forall>b. b \<noteq> ind s i \<longrightarrow> b < sb_bmapstart (sb s) \<or> dstart s \<le> b \<and> b < sb_size (sb s) \<and> bused d s b \<longrightarrow> bview d t b = bview d s b)"

lemma other_fs:
  fixes s t :: "'a fsst_scheme"
  assumes "other i t = other i s" "i < length (inodes s)"
  shows "sb t = sb s" "length (inodes t) = length (inodes s)" "j \<noteq> i \<Longrightarrow> inodes t ! j = inodes s ! j"
    "(inodes t ! i)\<lparr>i_addrs := []\<rparr> = (inodes s ! i)\<lparr>i_addrs := []\<rparr>" "i_dev (inodes t ! i) = i_dev (inodes s ! i)"
    "i_inum (inodes t ! i) = i_inum (inodes s ! i)" "i_size (inodes t ! i) = i_size (inodes s ! i)"
    "dstart t = dstart s"
proof -
  show sb: "sb t = sb s" using arg_cong [OF assms(1), of sb] by (simp add: other_def rest_def above_def)
  then show "dstart t = dstart s" by (simp add: dstart_def)
  have e: "(inodes t)[i := (inodes t ! i)\<lparr>i_addrs := []\<rparr>] = (inodes s)[i := (inodes s ! i)\<lparr>i_addrs := []\<rparr>]"
    using arg_cong [OF assms(1), of inodes] by (simp add: other_def)
  show l: "length (inodes t) = length (inodes s)" using arg_cong [OF e, of length] by simp
  show "inodes t ! j = inodes s ! j" if "j \<noteq> i" using arg_cong [OF e, of "\<lambda>xs. xs ! j"] that by simp
  show n: "(inodes t ! i)\<lparr>i_addrs := []\<rparr> = (inodes s ! i)\<lparr>i_addrs := []\<rparr>" using arg_cong [OF e, of "\<lambda>xs. xs ! i"] assms(2) l by simp
  show "i_dev (inodes t ! i) = i_dev (inodes s ! i)" "i_inum (inodes t ! i) = i_inum (inodes s ! i)" "i_size (inodes t ! i) = i_size (inodes s ! i)"
    using arg_cong [OF n, of i_dev] arg_cong [OF n, of i_inum] arg_cong [OF n, of i_size] by simp_all
qed

lemma other_rest: "rest t = rest s \<Longrightarrow> other i t = other i s" for s t :: "'a fsst_scheme"
  using rest_fs [of t s] by (simp add: other_def)

lemma rest_set_inode: "rest (set_inode s i f) = set_inode (rest s) i f" for s :: "'a fsst_scheme"
  by (rule fsst.equality; simp add: rest_def above_def set_inode_def)

lemma other_set_addrs:
  fixes s :: "'a fsst_scheme"
  assumes "i < length (inodes s)"
  shows "other i (set_inode s i (\<lambda>ip. ip\<lparr>i_addrs := f (i_addrs ip)\<rparr>)) = other i s"
  using assms by (simp add: other_def rest_set_inode) (simp add: set_inode_def rest_def)

lemma cache_inodes:
  fixes s :: "'a fsst_scheme"
  shows "bview d (s\<lparr>inodes := x\<rparr>) = bview d s" "cache_ok d me uid (s\<lparr>inodes := x\<rparr>) = cache_ok d me uid s" "has_buf d (s\<lparr>inodes := x\<rparr>) = has_buf d s"
    "tx d me uid (s\<lparr>inodes := x\<rparr>) L H = tx d me uid s L H"
proof -
  have c: "cached d (s\<lparr>inodes := x\<rparr>) = cached d s" "bufs (s\<lparr>inodes := x\<rparr>) = bufs s" "disk (s\<lparr>inodes := x\<rparr>) = disk s"
    by (simp_all add: cached_def fun_eq_iff)
  show v: "bview d (s\<lparr>inodes := x\<rparr>) = bview d s" unfolding bview_def fun_eq_iff c by simp
  have p: "pins d (s\<lparr>inodes := x\<rparr>) = pins d s" "bholder d (s\<lparr>inodes := x\<rparr>) = bholder d s" "nfree (s\<lparr>inodes := x\<rparr>) = nfree s"
    unfolding pins_def bholder_def nfree_def fun_eq_iff c by simp_all
  show k: "cache_ok d me uid (s\<lparr>inodes := x\<rparr>) = cache_ok d me uid s" unfolding cache_ok_def bio_inv_def v p c by simp
  show "has_buf d (s\<lparr>inodes := x\<rparr>) = has_buf d s" unfolding has_buf_def fun_eq_iff c by simp
  show "tx d me uid (s\<lparr>inodes := x\<rparr>) L H = tx d me uid s L H" unfolding tx_def k p v c by simp
qed

lemma set_inode_cache [simp]:
  fixes s :: "'a fsst_scheme"
  shows "bview d (set_inode s i f) = bview d s" "has_buf d (set_inode s i f) = has_buf d s" "tx d me uid (set_inode s i f) L H = tx d me uid s L H"
    "sb (set_inode s i f) = sb s" "dstart (set_inode s i f) = dstart s" "bused d (set_inode s i f) = bused d s" "geo d (set_inode s i f) = geo d s"
proof -
  show v: "bview d (set_inode s i f) = bview d s" "has_buf d (set_inode s i f) = has_buf d s" "tx d me uid (set_inode s i f) L H = tx d me uid s L H"
    "sb (set_inode s i f) = sb s" unfolding set_inode_def by (simp_all add: cache_inodes)
  show "dstart (set_inode s i f) = dstart s" "bused d (set_inode s i f) = bused d s" unfolding dstart_def bused_def fun_eq_iff v by simp_all
  then show "geo d (set_inode s i f) = geo d s" unfolding geo_def v by simp
qed

lemma inode_ok_ext:
  assumes "inode_ok d s i" "other i t = other i s" "length (i_addrs (inodes t ! i)) = length (i_addrs (inodes s ! i))"
    "\<And>k. k \<le> MAXFILE \<Longrightarrow> slot d t i k = (if k = n then a else slot d s i k)"
    "dstart s \<le> a" "a < sb_size (sb s)" "\<not> bused d s a" "\<And>b. b < sb_size (sb s) \<Longrightarrow> bused d t b \<longleftrightarrow> b = a \<or> bused d s b"
  shows "inode_ok d t i"
proof -
  note I = inode_okD [OF assms(1)]
  note o = other_fs [OF assms(2) I(1)]
  have a: "slot d s i k \<noteq> a" if "k \<le> MAXFILE" "slot d s i k \<noteq> 0" for k using I(5) [OF that] assms(7) by auto
  have "dstart t \<le> slot d t i k \<and> slot d t i k < sb_size (sb t) \<and> bused d t (slot d t i k)" if "k \<le> MAXFILE" "slot d t i k \<noteq> 0" for k
    using I(5) [OF that(1)] that assms(4) [OF that(1)] assms(5,6,8) unfolding o by (auto split: if_splits)
  moreover have "j = k" if "j \<le> MAXFILE" "k \<le> MAXFILE" "slot d t i j \<noteq> 0" "slot d t i j = slot d t i k" for j k
    using I(6) [OF that(1,2)] that assms(4) [OF that(1)] assms(4) [OF that(2)] a [OF that(1)] a [OF that(2)] by (auto split: if_splits)
  ultimately show ?thesis using I(1-4) assms(3) unfolding inode_ok_def o by auto
qed

lemma inode_ok_same:
  assumes "inode_ok d s i" "other i t = other i s" "length (i_addrs (inodes t ! i)) = length (i_addrs (inodes s ! i))"
    "\<And>k. k \<le> MAXFILE \<Longrightarrow> slot d t i k = slot d s i k" "\<And>b. b < sb_size (sb s) \<Longrightarrow> bused d s b \<Longrightarrow> bused d t b"
  shows "inode_ok d t i"
  using assms(1,3-5) other_fs [OF assms(2) inode_okD(1) [OF assms(1)]] unfolding inode_ok_def by auto

text \<open>Block \<open>bn\<close> of the file is mapped to \<open>a\<close>; when there is none, the disk is full, and when it is new, it
  was free and is zero.\<close>

definition mapped :: "nat \<Rightarrow> nat \<Rightarrow> 'a fsst_scheme \<Rightarrow> nat \<Rightarrow> nat \<Rightarrow> 'a fsst_scheme \<Rightarrow> bool" where
  "mapped d i s bn a t \<longleftrightarrow> extends d i s t \<and> inode_ok d t i \<and> (\<forall>k<MAXFILE. slot d t i k = (if k = bn then a else slot d s i k)) \<and>
     (slot d s i bn \<noteq> 0 \<longrightarrow> a = slot d s i bn) \<and> (a = 0 \<longrightarrow> (\<forall>b < sb_size (sb s). bused d t b)) \<and>
     (a \<noteq> 0 \<and> slot d s i bn = 0 \<longrightarrow> \<not> bused d s a \<and> bview d t a = replicate BSIZE 0)"

lemma same_view:
  fixes s t :: "'a fsst_scheme"
  assumes "bview d t = bview d s" "rest t = rest s"
  shows "bused d t = bused d s" "slot d t i = slot d s i" "geo d t = geo d s" "inode_ok d t i = inode_ok d s i" "dstart t = dstart s"
    "geo d s \<Longrightarrow> extends d i s t"
proof -
  note f = rest_fs [OF assms(2)]
  show u: "bused d t = bused d s" "slot d t i = slot d s i" "dstart t = dstart s" unfolding bused_def slot_def dstart_def fun_eq_iff assms f by simp_all
  show g: "geo d t = geo d s" "inode_ok d t i = inode_ok d s i" unfolding geo_def inode_ok_def u assms f by simp_all
  show "extends d i s t" if "geo d s" using that other_rest [OF assms(2)] unfolding extends_def g u assms f by simp
qed

lemma mapped_same:
  fixes s t :: "'a fsst_scheme"
  assumes "bview d t = bview d s" "rest t = rest s" "geo d s" "inode_ok d s i" "slot d s i bn = a" "a = 0 \<Longrightarrow> \<forall>b < sb_size (sb s). bused d s b"
  shows "mapped d i s bn a t"
  using same_view [OF assms(1,2)] assms(3-6) unfolding mapped_def by auto

lemma settled:
  assumes "dstart s \<le> a" "\<not> bused d s a" "b < sb_bmapstart (sb s) \<or> dstart s \<le> b \<and> b < sb_size (sb s) \<and> bused d s b"
  shows "b \<noteq> a" "b < sb_bmapstart (sb s) \<or> dstart s \<le> b"
  using assms by (auto simp: dstart_def)

lemma get32_zeros: "q + 3 < BSIZE \<Longrightarrow> get32 (replicate BSIZE 0) q = 0"
  by (simp add: get32_def get16_def)

text \<open>A new block in the inode itself.\<close>

lemma new_addr:
  fixes s t1 :: "'a fsst_scheme"
  assumes "inode_ok d s i" "geo d s" "m \<le> NDIRECT" "i_addrs (inodes s ! i) ! m = 0" "rest t1 = rest s" "geo d t1"
    "dstart s \<le> a" "a < sb_size (sb s)" "\<not> bused d s a" "\<And>b. b < sb_size (sb s) \<Longrightarrow> bused d t1 b \<longleftrightarrow> b = a \<or> bused d s b"
    "bview d t1 a = replicate BSIZE 0" "\<And>b. b \<noteq> a \<Longrightarrow> b < sb_bmapstart (sb s) \<or> dstart s \<le> b \<Longrightarrow> bview d t1 b = bview d s b"
  defines "t \<equiv> set_inode t1 i (\<lambda>ip. ip\<lparr>i_addrs := (i_addrs ip)[m := a]\<rparr>)"
  shows "extends d i s t" "inode_ok d t i"
    "\<And>k. k \<le> MAXFILE \<Longrightarrow> slot d t i k = (if k = (if m < NDIRECT then m else MAXFILE) then a else slot d s i k)"
proof -
  note I = inode_okD [OF assms(1)]
  have a0: "0 < a" using geoD(6) [OF assms(2)] assms(7) by simp
  note f = rest_fs [OF assms(5)]
  have ad: "i_addrs (inodes t ! i) = (i_addrs (inodes s ! i))[m := a]" using I(1) by (simp add: t_def set_inode_def f)
  have o: "other i t = other i s" using other_set_addrs [of i t1 "\<lambda>x. x[m := a]"] I(1) f other_rest [OF assms(5)] by (simp add: t_def)
  have v: "bview d t = bview d t1" "bused d t = bused d t1" "geo d t" using assms(6) by (simp_all add: t_def)
  have al: "i_addrs (inodes s ! i) \<noteq> [] \<and> length (i_addrs (inodes s ! i)) = Suc NDIRECT" using I(4) by auto
  show sl: "slot d t i k = (if k = (if m < NDIRECT then m else MAXFILE) then a else slot d s i k)" if k: "k \<le> MAXFILE" for k
  proof (cases "m < NDIRECT")
    case True
    then have "ind t i = ind s i" by (simp add: ad)
    moreover have "bview d t (ind s i) = bview d s (ind s i)" if "ind s i \<noteq> 0"
    proof -
      have "dstart s \<le> ind s i" "bused d s (ind s i)" using I(5) [of MAXFILE] that by (simp_all add: slot_ind)
      then show ?thesis using assms(9) assms(12) [of "ind s i"] v(1) by auto
    qed
    ultimately show ?thesis using True al by (auto simp: slot_def ad nth_list_update MAXFILE_def)
  next
    case False
    then have m: "m = NDIRECT" using assms(3) by simp
    then have it: "ind t i = a" "ind s i = 0" using al assms(4) by (simp_all add: ad)
    have "get32 (bview d t a) (4 * (k - NDIRECT)) = 0" if "k < MAXFILE" "\<not> k < NDIRECT"
      using that get32_zeros [of "4 * (k - NDIRECT)"] assms(11) v(1) by (simp add: MAXFILE_def NINDIRECT_def BSIZE_def NDIRECT_def)
    then show ?thesis using m k it a0 by (auto simp: slot_def ad MAXFILE_def)
  qed
  have slot0: "slot d s i (if m < NDIRECT then m else MAXFILE) = 0" using assms(3,4) by (auto simp: slot_def MAXFILE_def dest: le_neq_implies_less)
  have l: "length (i_addrs (inodes t ! i)) = length (i_addrs (inodes s ! i))" by (simp add: ad)
  show "inode_ok d t i" using inode_ok_ext [OF assms(1) o l sl assms(7-9)] assms(10) v(2) by simp
  show "extends d i s t"
    using o l v assms(10) assms(12) [OF settled [OF assms(7,9)]] sl slot0 assms(9) unfolding extends_def by (cases "m < NDIRECT") simp_all
qed

lemma extends_trans:
  fixes s t u :: "'a fsst_scheme"
  assumes "extends d i s t" "extends d i t u" "inode_ok d s i" "inode_ok d u i" "ind t i = ind s i \<or> dstart s \<le> ind t i \<and> \<not> bused d s (ind t i)"
  shows "extends d i s u"
proof -
  note o = other_fs [OF _ inode_okD(1) [OF assms(3)], of t]
  have e: "other i t = other i s" using assms(1) by (simp add: extends_def)
  have v: "bview d u b = bview d s b" if b: "b \<noteq> ind s i" "b < sb_bmapstart (sb s) \<or> dstart s \<le> b \<and> b < sb_size (sb s) \<and> bused d s b" for b
  proof -
    have "b \<noteq> ind t i" using assms(5) b by (auto simp: dstart_def)
    moreover have "bview d t b = bview d s b" "b < sb_bmapstart (sb t) \<or> dstart t \<le> b \<and> b < sb_size (sb t) \<and> bused d t b"
      using assms(1) b o(1,8) [OF e] by (auto simp: extends_def)
    ultimately show ?thesis using assms(2) by (auto simp: extends_def)
  qed
  have "other i u = other i s" using assms(1,2) by (simp add: extends_def)
  note ou = other_fs(1,8) [OF this inode_okD(1) [OF assms(3)]]
  have "slot d u i k = slot d s i k \<or> slot d s i k = 0 \<and> \<not> bused d s (slot d u i k)" if k: "k \<le> MAXFILE" for k
  proof (cases "slot d u i k = 0")
    case True
    then have "slot d t i k = 0" using assms(2) k unfolding extends_def by metis
    then show ?thesis using True assms(1) k unfolding extends_def by metis
  next
    case False
    then have "slot d u i k < sb_size (sb s)" using inode_okD(5) [OF assms(4) k] ou by simp
    then show ?thesis using assms(1,2) k unfolding extends_def by metis
  qed
  then show ?thesis using assms(1,2) v o(1) [OF e] unfolding extends_def by auto
qed

text \<open>The part of \<open>bmap\<close> for a block reached through the indirect block.\<close>

definition bmap_entry :: "'a fsst_scheme \<Rightarrow> nat \<Rightarrow> nat \<Rightarrow> nat \<Rightarrow> nat \<Rightarrow> (nat \<times> 'a fsst_scheme) res" where
  "bmap_entry s me d addr n =
     bnd (bread s me d addr) (\<lambda>(bp, s).
            let a = get32 (data_of s bp) (4 * n) in
            bnd (if a = 0 then
                   bnd (balloc s me d) (\<lambda>(addr, s).
                     if addr \<noteq> 0
                     then bnd (log_write (set_data s bp (\<lambda>d. put32 d (4 * n) addr)) bp) (\<lambda>s. Ok (addr, s))
                     else Ok (addr, s))
                 else Ok (a, s)) (\<lambda>(addr, s).
              bnd (brelse s me bp) (\<lambda>s. Ok (addr, s))))"

lemma new_entry:
  fixes s t1 t :: "'a fsst_scheme"
  assumes "inode_ok d s i" "geo d s" "n < NINDIRECT" "ind s i \<noteq> 0" "slot d s i (NDIRECT + n) = 0" "rest t = rest s" "geo d t1" "sb t1 = sb s"
    "dstart s \<le> a" "a < sb_size (sb s)" "\<not> bused d s a" "\<And>b. b < sb_size (sb s) \<Longrightarrow> bused d t1 b \<longleftrightarrow> b = a \<or> bused d s b"
    "bview d t1 a = replicate BSIZE 0" "\<And>b. b \<noteq> a \<Longrightarrow> b < sb_bmapstart (sb s) \<or> dstart s \<le> b \<Longrightarrow> bview d t1 b = bview d s b"
    "bview d t = (bview d t1)(ind s i := put32 (bview d t1 (ind s i)) (4 * n) a)"
  shows "mapped d i s (NDIRECT + n) a t"
proof -
  note I = inode_okD [OF assms(1)] and G = geoD [OF assms(2)]
  note f = rest_fs [OF assms(6)]
  have a0: "0 < a" "a < 2 ^ 32" using G(3,6) assms(9,10) by simp_all
  have i: "dstart s \<le> ind s i" "ind s i < sb_size (sb s)" "bused d s (ind s i)" using I(5) [of MAXFILE] assms(4) by (simp_all add: slot_ind)
  have ia: "ind s i \<noteq> a" using i(3) assms(11) by auto
  have vi: "bview d t1 (ind s i) = bview d s (ind s i)" using assms(14) ia i(1) by simp
  have nl: "4 * n + 3 < BSIZE" using assms(3) by (simp add: NINDIRECT_def BSIZE_def)
  have "BBLOCK b (sb s) \<noteq> ind s i" if "b < sb_size (sb s)" for b using bitmap_block [OF that] i(1) by auto
  then have u: "bused d t b \<longleftrightarrow> bused d t1 b" if "b < sb_size (sb s)" for b using that by (simp add: bused_def assms(15) f assms(8))
  have "geo d t" using assms(7) u G(2) unfolding geo_def dstart_def assms(8) f by (auto simp: assms(15))
  moreover have "other i t = other i s" by (rule other_rest [OF assms(6)])
  moreover have sl: "slot d t i k = (if k = NDIRECT + n then a else slot d s i k)" if "k \<le> MAXFILE" for k
  proof (cases "k < MAXFILE \<and> NDIRECT \<le> k")
    case True
    define j where "j = k - NDIRECT"
    have k: "k = NDIRECT + j" "j < NINDIRECT" using True by (auto simp: j_def MAXFILE_def)
    have "get32 (put32 (bview d s (ind s i)) (4 * n) a) (4 * j) = (if j = n then a else get32 (bview d s (ind s i)) (4 * j))"
      using get32_put32(1) [where p = "4 * n" and b = "bview d s (ind s i)" and v = a] get32_put32(2) [where q = "4 * j" and p = "4 * n" and b = "bview d s (ind s i)" and v = a] nl G(1) a0(2) by (cases j n rule: linorder_cases) auto
    then show ?thesis using k assms(3,4) by (simp add: slot_def f assms(15) vi MAXFILE_def)
  next
    case False
    then show ?thesis using that assms(3) by (auto simp: slot_def f MAXFILE_def)
  qed
  moreover have "inode_ok d t i"
    by (rule inode_ok_ext [OF assms(1) other_rest [OF assms(6)] _ sl assms(9-11)]) (use u assms(12) f in auto)
  moreover have "bview d t a = replicate BSIZE 0" using ia assms(13) by (simp add: assms(15))
  moreover have "bview d t b = bview d s b" if "b \<noteq> ind s i" "b < sb_bmapstart (sb s) \<or> dstart s \<le> b \<and> b < sb_size (sb s) \<and> bused d s b" for b
    using that(1) assms(14) [OF settled [OF assms(9,11) that(2)]] by (simp add: assms(15))
  ultimately show ?thesis using a0 assms(5,11,12) u f unfolding mapped_def extends_def by auto
qed

lemma log_add2: "length (log_add a (log_add b L)) \<le> length L + 2"
  using log_add_length [of a "log_add b L"] log_add_length [of b L] by simp

lemma bmap_entry_ok:
  fixes s :: "'a fsst_scheme"
  assumes "tx d me uid s L {}" "room L {} 4" "geo d s" "inode_ok d s i" "n < NINDIRECT" "ind s i \<noteq> 0"
  obtains a t L' where "bmap_entry s me d (ind s i) n = Ok (a, t)" "tx d me uid t L' {}" "length L' \<le> length L + 3"
    "mapped d i s (NDIRECT + n) a t"
proof -
  let ?x = "ind s i"
  note goal1 = that
  note I = inode_okD [OF assms(4)]
  have x: "dstart s \<le> ?x" "?x < sb_size (sb s)" "bused d s ?x" using I(5) [of MAXFILE] assms(6) by (simp_all add: slot_ind)
  obtain bp t1 where t1: "bread s me d ?x = Ok (bp, t1)" "tx d me uid t1 L {?x}" "has_buf d t1 ?x bp" "bview d t1 = bview d s" "above t1 = above s"
      "data_of t1 bp = bview d s ?x"
    using tx_bread [OF assms(1), of ?x] roomD(1) [OF assms(2)] by auto
  note r1 = rest_above [OF t1(5)]
  note v1 = same_view [OF t1(4) r1] and f1 = rest_fs [OF r1]
  have sl: "slot d s i (NDIRECT + n) = get32 (bview d s ?x) (4 * n)" using assms(5,6) by (simp add: slot_def MAXFILE_def)
  have done1: thesis if e: "bmap_entry s me d ?x n = bnd (brelse t me bp) (\<lambda>s. Ok (a, s))" and t: "tx d me uid t L' {?x}" "has_buf d t ?x bp" "length L' \<le> length L + 3"
    "\<And>u. bview d u = bview d t \<Longrightarrow> rest u = rest t \<Longrightarrow> mapped d i s (NDIRECT + n) a u" for t L' a
  proof -
    obtain u where u: "brelse t me bp = Ok u" "tx d me uid u L' {}" "bview d u = bview d t" "above u = above t" using tx_brelse [OF t(1) singletonI t(2)] by (metis Diff_cancel)
    then show thesis using goal1 [of a u L'] e t(3,4) rest_above [OF u(4)] by simp
  qed
  show thesis
  proof (cases "slot d s i (NDIRECT + n) = 0")
    case False
    have "bmap_entry s me d ?x n = bnd (brelse t1 me bp) (\<lambda>u. Ok (slot d s i (NDIRECT + n), u))"
      using False t1(1,6) sl by (simp add: bmap_entry_def)
    then show thesis
      by (rule done1 [OF _ t1(2,3)]) (use False mapped_same [OF _ _ assms(3,4) refl] t1(4) r1 in auto)
  next
    case True
    have rm: "room L {?x} 2" using assms(2) by (simp add: room_def)
    have pre: "geo d t1" "\<forall>h \<in> {?x}. dstart t1 \<le> h \<and> bused d t1 h" using v1 assms(3) x by auto
    show thesis
    proof (cases rule: balloc_ok [OF t1(2) rm pre])
      case (1 t2)
      have "bmap_entry s me d ?x n = bnd (brelse t2 me bp) (\<lambda>u. Ok (0, u))" using True t1(1,6) sl 1(1) by (simp add: bmap_entry_def)
      then show thesis
        by (rule done1 [OF _ 1(2) 1(3) [OF _ t1(3)]]) (use True 1(4-6) v1 t1(4) r1 f1 in \<open>auto intro!: mapped_same [OF _ _ assms(3,4)]\<close>)
    next
      case (2 a t2)
      let ?L = "log_add a (log_add (BBLOCK a (sb t1)) L)"
      have a0: "a \<noteq> 0" using 2(6) geoD(6) [OF pre(1)] by simp
      have "length ?L < LOGBLOCKS" using log_add2 [of a "BBLOCK a (sb t1)" L] assms(2) by (simp add: room_def NBUF_def LOGBLOCKS_def)
      from tx_log [OF 2(2) singletonI 2(3) [OF singletonI t1(3)] this, of "\<lambda>x. put32 x (4 * n) a"] obtain t3 where
        t3: "log_write (set_data t2 bp (\<lambda>x. put32 x (4 * n) a)) bp = Ok t3" "tx d me uid t3 (log_add ?x ?L) {?x}" "has_buf d t3 ?x bp"
          "bview d t3 = (bview d t2)(?x := put32 (bview d t2 ?x) (4 * n) a)" "rest t3 = rest t2"
        using 2(3) [OF singletonI t1(3)] by metis
      have e: "bmap_entry s me d ?x n = bnd (brelse t3 me bp) (\<lambda>u. Ok (a, u))" using True t1(1,6) sl 2(1) a0 t3(1) by (simp add: bmap_entry_def)
      have l: "length (log_add ?x ?L) \<le> length L + 3" using log_add_length [of ?x ?L] log_add2 [of a "BBLOCK a (sb t1)" L] by simp
      have r: "rest t3 = rest s" using t3(5) 2(4) r1 by simp
      have f2: "sb t2 = sb s" using rest_fs [OF 2(4)] f1 by simp
      show thesis
      proof (rule done1 [OF e t3(2,3) l])
        fix u :: "'a fsst_scheme"
        assume u: "bview d u = bview d t3" "rest u = rest t3"
        show "mapped d i s (NDIRECT + n) a u"
          by (rule new_entry [OF assms(4,3,5,6) True _ 2(5) f2]) (use u t3(4) r 2(6-11) v1 f1 t1(4) in simp_all)
      qed
    qed
  qed
qed

lemma bmap_split:
  assumes "i_dev (inodes s ! i) = d"
  shows "bmap s me i bn =
     (if bn < NDIRECT then
        if i_addrs (inodes s ! i) ! bn = 0 then
          bnd (balloc s me d) (\<lambda>(addr, s).
            if addr = 0 then Ok (0, s)
            else Ok (addr, set_inode s i (\<lambda>ip. ip\<lparr>i_addrs := (i_addrs ip)[bn := addr]\<rparr>)))
        else Ok (i_addrs (inodes s ! i) ! bn, s)
      else if bn - NDIRECT < NINDIRECT then
        bnd (if ind s i = 0 then
               bnd (balloc s me d) (\<lambda>(addr, s).
                 if addr = 0 then Ok (0, s)
                 else Ok (addr, set_inode s i (\<lambda>ip. ip\<lparr>i_addrs := (i_addrs ip)[NDIRECT := addr]\<rparr>)))
             else Ok (ind s i, s)) (\<lambda>(addr, s).
          if addr = 0 then Ok (0, s) else bmap_entry s me d addr (bn - NDIRECT))
      else Panic ''bmap: out of range'')"
  unfolding bmap_def bmap_entry_def Let_def assms by (rule refl)

lemma bmap_ok:
  fixes s :: "'a fsst_scheme"
  assumes "tx d me uid s L {}" "room L {} 6" "geo d s" "inode_ok d s i" "bn < MAXFILE"
  obtains a t L' where "bmap s me i bn = Ok (a, t)" "tx d me uid t L' {}" "length L' \<le> length L + 5" "mapped d i s bn a t"
proof -
  note goal1 = that
  note I = inode_okD [OF assms(4)]
  note bm = bmap_split [OF I(2), of me bn]
  have rm: "room L {} 2" using assms(2) by (simp add: room_def)
  have nh: "\<forall>h \<in> {}. dstart s \<le> h \<and> bused d s h" by simp
  show thesis
  proof (cases "bn < NDIRECT")
    case direct: True
    then have sl: "slot d s i bn = i_addrs (inodes s ! i) ! bn" by (simp add: slot_def)
    show thesis
    proof (cases "i_addrs (inodes s ! i) ! bn = 0")
      case False
      then show thesis using assms(1) direct bm mapped_same [OF refl refl assms(3,4) sl] by (intro goal1 [of _ s L]) auto
    next
      case zero: True
      show thesis
      proof (cases rule: balloc_ok [OF assms(1) rm assms(3) nh])
        case (1 t)
        then show thesis using direct zero bm sl by (intro goal1 [of 0 t L]) (auto intro!: mapped_same [OF _ _ assms(3,4)])
      next
        case (2 a t)
        let ?t = "set_inode t i (\<lambda>ip. ip\<lparr>i_addrs := (i_addrs ip)[bn := a]\<rparr>)"
        have a0: "a \<noteq> 0" using 2(6) geoD(6) [OF assms(3)] by simp
        note n = new_addr [OF assms(4,3) less_imp_le [OF direct] zero 2(4-11)]
        have "mapped d i s bn a ?t" using n(1,2) n(3) direct a0 sl zero 2(8,10) unfolding mapped_def by (auto simp: MAXFILE_def)
        then show thesis using 2(1,2) direct zero bm a0 log_add2 [of a "BBLOCK a (sb s)" L] by (intro goal1 [of a ?t]) auto
      qed
    qed
  next
    case indirect: False
    define n where "n = bn - NDIRECT"
    have n: "bn = NDIRECT + n" "n < NINDIRECT" using indirect assms(5) by (auto simp: n_def MAXFILE_def)
    have rm4: "room L {} 4" using assms(2) by (simp add: room_def)
    show thesis
    proof (cases "ind s i = 0")
      case False
      obtain a t L' where
        "bmap_entry s me d (ind s i) n = Ok (a, t)" "tx d me uid t L' {}" "length L' \<le> length L + 3" "mapped d i s bn a t"
        by (rule bmap_entry_ok [OF assms(1) rm4 assms(3,4) n(2) False, folded n(1)])
      then show thesis using indirect n False bm by (intro goal1 [of a t L']) auto
    next
      case zero: True
      have sl: "slot d s i bn = 0" using indirect zero assms(5) by (simp add: slot_def)
      show thesis
      proof (cases rule: balloc_ok [OF assms(1) rm assms(3) nh])
        case (1 t)
        then show thesis using indirect zero bm sl n by (intro goal1 [of 0 t L]) (auto intro!: mapped_same [OF _ _ assms(3,4)])
      next
        case (2 x t1)
        let ?t = "set_inode t1 i (\<lambda>ip. ip\<lparr>i_addrs := (i_addrs ip)[NDIRECT := x]\<rparr>)"
        let ?L = "log_add x (log_add (BBLOCK x (sb s)) L)"
        have x0: "x \<noteq> 0" using 2(6) geoD(6) [OF assms(3)] by simp
        note e = new_addr [OF assms(4,3) le_refl zero 2(4-11)]
        have l: "length ?L \<le> length L + 2" by (rule log_add2)
        have p: "tx d me uid ?t ?L {}" "room ?L {} 4" "geo d ?t" "ind ?t i = x" "ind ?t i \<noteq> 0"
          using 2(2,5) l assms(2) e(3) [of MAXFILE] x0 by (simp_all add: room_def slot_ind)
        obtain a u L' where
          u: "bmap_entry ?t me d x n = Ok (a, u)" "tx d me uid u L' {}" "length L' \<le> length ?L + 3" "mapped d i ?t bn a u"
          by (rule bmap_entry_ok [OF p(1-3) e(2) n(2) p(5), unfolded p(4), folded n(1)])
        have ex: "extends d i s u"
        proof (rule extends_trans [OF e(1) _ assms(4)])
          show "extends d i ?t u" "inode_ok d u i" using u(4) unfolding mapped_def by simp_all
          show "ind ?t i = ind s i \<or> dstart s \<le> ind ?t i \<and> \<not> bused d s (ind ?t i)" unfolding p(4) using 2(6,8) by simp
        qed
        have f: "sb ?t = sb s" using rest_fs(1) [OF 2(4)] by simp
        have su: "sb u = sb s" using ex other_fs(1) [OF _ I(1), of u] by (simp add: extends_def)
        have iu: "inode_ok d u i" using u(4) by (simp add: mapped_def)
        have slu: "slot d u i k = (if k = bn then a else slot d s i k)" if "k < MAXFILE" for k
          using u(4) e(3) [of k] that by (simp add: mapped_def)
        have sl': "slot d ?t i bn = 0" using sl e(3) [of bn] assms(5) by simp
        have na: "\<not> bused d s a" if "a \<noteq> 0"
        proof -
          have "slot d u i bn = a" using slu [OF assms(5)] by simp
          then have "a < sb_size (sb s)" using inode_okD(5) [OF iu, of bn] that assms(5) su by simp
          moreover have "\<not> bused d ?t a" using u(4) that sl' by (simp add: mapped_def)
          ultimately show ?thesis using e(1) by (auto simp: extends_def)
        qed
        have "mapped d i s bn a u" using u(4) ex iu slu na f sl sl' unfolding mapped_def by simp
        then show thesis using u(1-3) l 2(1) indirect zero bm x0 n by (intro goal1 [of a u L']) auto
      qed
    qed
  qed
qed

section \<open>The contents of a file\<close>

definition fbyte :: "nat \<Rightarrow> 'a fsst_scheme \<Rightarrow> nat \<Rightarrow> nat \<Rightarrow> u8" where
  "fbyte d s i o1 = bview d s (slot d s i (o1 div BSIZE)) ! (o1 mod BSIZE)"

definition content :: "nat \<Rightarrow> 'a fsst_scheme \<Rightarrow> nat \<Rightarrow> u8 list" where
  "content d s i = map (fbyte d s i) [0..<i_size (inodes s ! i)]"

text \<open>Every block below the size is there.\<close>

definition file_ok :: "nat \<Rightarrow> 'a fsst_scheme \<Rightarrow> nat \<Rightarrow> bool" where
  "file_ok d s i \<longleftrightarrow> inode_ok d s i \<and> i_size (inodes s ! i) \<le> MAXFILE * BSIZE \<and>
     (\<forall>o1<i_size (inodes s ! i). slot d s i (o1 div BSIZE) \<noteq> 0)"

lemma chunk:
  assumes "0 < left"
  shows "0 < rw_chunk off left" "rw_chunk off left \<le> left" "off mod BSIZE + rw_chunk off left \<le> BSIZE"
    "j < rw_chunk off left \<Longrightarrow> (off + j) div BSIZE = off div BSIZE \<and> (off + j) mod BSIZE = off mod BSIZE + j"
proof -
  show "0 < rw_chunk off left" by (rule rw_chunk_pos [OF assms])
  show "rw_chunk off left \<le> left" "off mod BSIZE + rw_chunk off left \<le> BSIZE" by (simp_all add: rw_chunk_def BSIZE_def)
  assume "j < rw_chunk off left"
  then have "off mod BSIZE + j < BSIZE" by (simp add: rw_chunk_def less_diff_conv add.commute)
  moreover have "off + j = off div BSIZE * BSIZE + (off mod BSIZE + j)" by (metis add.assoc div_mult_mod_eq)
  ultimately show "(off + j) div BSIZE = off div BSIZE \<and> (off + j) mod BSIZE = off mod BSIZE + j"
    by (metis add.left_neutral div_less div_mult_self3 mod_less mod_mult_self3 add.commute not_less_zero)
qed

lemma chunk_bytes:
  assumes "0 < left" "\<And>b. length (bview d s b) = BSIZE"
  shows "take (rw_chunk off left) (drop (off mod BSIZE) (bview d s (slot d s i (off div BSIZE)))) = map (fbyte d s i) [off..<off + rw_chunk off left]"
proof (rule nth_equalityI)
  show "length (take (rw_chunk off left) (drop (off mod BSIZE) (bview d s (slot d s i (off div BSIZE))))) = length (map (fbyte d s i) [off..<off + rw_chunk off left])"
    using chunk(3) [OF assms(1), of off] by (simp add: assms(2))
next
  fix j
  assume "j < length (take (rw_chunk off left) (drop (off mod BSIZE) (bview d s (slot d s i (off div BSIZE)))))"
  then have j: "j < rw_chunk off left" by simp
  then show "take (rw_chunk off left) (drop (off mod BSIZE) (bview d s (slot d s i (off div BSIZE)))) ! j = map (fbyte d s i) [off..<off + rw_chunk off left] ! j"
    using chunk(3) [OF assms(1), of off] chunk(4) [OF assms(1) j] assms(2) by (simp add: fbyte_def)
qed

text \<open>A block that is there is found without a change.\<close>

lemma bmap_found:
  fixes s :: "'a fsst_scheme"
  assumes "tx d me uid s L {}" "room L {} 0" "inode_ok d s i" "bn < MAXFILE" "slot d s i bn \<noteq> 0"
  obtains t where "bmap s me i bn = Ok (slot d s i bn, t)" "tx d me uid t L {}" "bview d t = bview d s" "rest t = rest s"
proof (cases "bn < NDIRECT")
  case True
  then show thesis using bmap_split [OF inode_okD(2) [OF assms(3)], of me bn] assms(1,5) by (intro that [of s]) (auto simp: slot_def)
next
  case False
  define n where "n = bn - NDIRECT"
  have n: "bn = NDIRECT + n" "n < NINDIRECT" using False assms(4) by (auto simp: n_def MAXFILE_def)
  have x: "ind s i \<noteq> 0" and sl: "slot d s i bn = get32 (bview d s (ind s i)) (4 * n)" using assms(4,5) False by (auto simp: slot_def n_def split: if_splits)
  obtain bp t1 where t1: "bread s me d (ind s i) = Ok (bp, t1)" "tx d me uid t1 L {ind s i}" "has_buf d t1 (ind s i) bp" "bview d t1 = bview d s"
      "above t1 = above s" "data_of t1 bp = bview d s (ind s i)"
    using tx_bread [OF assms(1), of "ind s i"] roomD(1) [OF assms(2)] by auto
  obtain t2 where t2: "brelse t1 me bp = Ok t2" "tx d me uid t2 L {}" "bview d t2 = bview d t1" "above t2 = above t1"
    using tx_brelse [OF t1(2) singletonI t1(3)] by (metis Diff_cancel)
  show thesis
  proof (rule that [of t2])
    show "bmap s me i bn = Ok (slot d s i bn, t2)"
      using bmap_split [OF inode_okD(2) [OF assms(3)], of me bn] False x assms(5) n t1(1,6) t2(1) sl by (simp add: bmap_entry_def)
    show "rest t2 = rest s" using rest_above [OF t1(5)] rest_above [OF t2(4)] by simp
  qed (use t1(4) t2 in simp_all)
qed

lemma readi_loop_ok:
  fixes s :: "'a fsst_scheme"
  assumes "tx d me uid s L {}" "room L {} 0" "geo d s" "inode_ok d s i" "\<forall>o1. off \<le> o1 \<and> o1 < off + left \<longrightarrow> o1 < MAXFILE * BSIZE \<and> slot d s i (o1 div BSIZE) \<noteq> 0"
  shows "\<exists>t. readi_loop s me i BufDst off left tot acc = Ok (int (tot + left), acc @ map (fbyte d s i) [off..<off + left], t) \<and>
    tx d me uid t L {} \<and> bview d t = bview d s \<and> rest t = rest s"
  using assms
proof (induction left arbitrary: s off tot acc rule: less_induct)
  case (less left)
  show ?case
  proof (cases "left = 0")
    case True
    then show ?thesis using less.prems by (simp add: readi_loop.simps)
  next
    case False
    then have l: "0 < left" by simp
    let ?m = "rw_chunk off left" and ?a = "slot d s i (off div BSIZE)"
    note ch = chunk [OF l, of off]
    have a: "?a \<noteq> 0" "off div BSIZE < MAXFILE" using less.prems(5) l by (auto simp: less_mult_imp_div_less)
    obtain t1 where t1: "bmap s me i (off div BSIZE) = Ok (?a, t1)" "tx d me uid t1 L {}" "bview d t1 = bview d s" "rest t1 = rest s"
      using bmap_found [OF less.prems(1,2,4) a(2,1)] by metis
    obtain bp t2 where t2: "bread t1 me d ?a = Ok (bp, t2)" "tx d me uid t2 L {?a}" "has_buf d t2 ?a bp" "bview d t2 = bview d t1" "above t2 = above t1"
        "data_of t2 bp = bview d t1 ?a"
      using tx_bread [OF t1(2), of ?a] roomD(1) [OF less.prems(2)] by auto
    obtain t3 where t3: "brelse t2 me bp = Ok t3" "tx d me uid t3 L {}" "bview d t3 = bview d t2" "above t3 = above t2"
      using tx_brelse [OF t2(2) singletonI t2(3)] by (metis Diff_cancel)
    have r: "bview d t3 = bview d s" "rest t3 = rest s" using t1 t2 t3 rest_above [OF t2(5)] rest_above [OF t3(4)] by simp_all
    note v = same_view [OF r]
    have fb: "fbyte d t3 i = fbyte d s i" by (simp add: fbyte_def fun_eq_iff v(2) r(1))
    have i1: "inodes t1 ! i = inodes s ! i" using rest_fs(2) [OF t1(4)] by simp
    have bs: "take ?m (drop (off mod BSIZE) (data_of t2 bp)) = map (fbyte d s i) [off..<off + ?m]"
      using chunk_bytes [OF l geoD(1) [OF less.prems(3)]] t1(3) t2(6) by simp
    have e: "readi_loop s me i BufDst off left tot acc =
        readi_loop t3 me i BufDst (off + ?m) (left - ?m) (tot + ?m) (acc @ map (fbyte d s i) [off..<off + ?m])"
      using False t1(1) a t2(1) t3(1) bs i1 inode_okD(2) [OF less.prems(4)] by (subst readi_loop.simps) (simp add: Let_def)
    have "\<forall>o1. off + ?m \<le> o1 \<and> o1 < off + ?m + (left - ?m) \<longrightarrow> o1 < MAXFILE * BSIZE \<and> slot d t3 i (o1 div BSIZE) \<noteq> 0"
      using less.prems(5) ch v(2) by auto
    from less.IH [OF _ t3(2) less.prems(2) _ _ this, of "tot + ?m" "acc @ map (fbyte d s i) [off..<off + ?m]"] obtain t where
      t: "readi_loop t3 me i BufDst (off + ?m) (left - ?m) (tot + ?m) (acc @ map (fbyte d s i) [off..<off + ?m]) =
          Ok (int (tot + ?m + (left - ?m)), (acc @ map (fbyte d s i) [off..<off + ?m]) @ map (fbyte d s i) [off + ?m..<off + ?m + (left - ?m)], t)"
         "tx d me uid t L {}" "bview d t = bview d t3" "rest t = rest t3"
      using ch v less.prems(3,4) fb by auto
    have "[off..<off + left] = [off..<off + ?m] @ [off + ?m..<off + left]" using upt_add_eq_append [of off "off + ?m" "left - ?m"] ch(2) by simp
    then show ?thesis using e t r ch by auto
  qed
qed

text \<open>The bytes \<open>xs\<close> have been written at \<open>off\<close>: nothing else of the file has changed, and of the other
  blocks only the bitmap and blocks that were free.\<close>

definition wrote :: "nat \<Rightarrow> nat \<Rightarrow> 'a fsst_scheme \<Rightarrow> 'a fsst_scheme \<Rightarrow> nat \<Rightarrow> u8 list \<Rightarrow> bool" where
  "wrote d i s t off xs \<longleftrightarrow> inode_ok d t i \<and> geo d t \<and> other i t = other i s \<and>
     (\<forall>b < sb_size (sb s). bused d s b \<longrightarrow> bused d t b) \<and>
     (\<forall>k\<le>MAXFILE. slot d t i k = slot d s i k \<or> slot d s i k = 0 \<and> \<not> bused d s (slot d t i k)) \<and>
     (\<forall>o1. off \<le> o1 \<and> o1 < off + length xs \<longrightarrow> slot d t i (o1 div BSIZE) \<noteq> 0 \<and> fbyte d t i o1 = xs ! (o1 - off)) \<and>
     (\<forall>o1<MAXFILE * BSIZE. slot d s i (o1 div BSIZE) \<noteq> 0 \<and> (o1 < off \<or> off + length xs \<le> o1) \<longrightarrow> fbyte d t i o1 = fbyte d s i o1) \<and>
     (\<forall>b. b \<notin> slot d s i ` {..MAXFILE} \<longrightarrow> b < sb_bmapstart (sb s) \<or> dstart s \<le> b \<and> b < sb_size (sb s) \<and> bused d s b \<longrightarrow>
        bview d t b = bview d s b)"

lemma wroteD:
  assumes "wrote d i s t off xs"
  shows "inode_ok d t i" "geo d t" "other i t = other i s" "b < sb_size (sb s) \<Longrightarrow> bused d s b \<Longrightarrow> bused d t b"
    "k \<le> MAXFILE \<Longrightarrow> slot d t i k = slot d s i k \<or> slot d s i k = 0 \<and> \<not> bused d s (slot d t i k)"
    "off \<le> o1 \<Longrightarrow> o1 < off + length xs \<Longrightarrow> slot d t i (o1 div BSIZE) \<noteq> 0 \<and> fbyte d t i o1 = xs ! (o1 - off)"
    "o1 < MAXFILE * BSIZE \<Longrightarrow> slot d s i (o1 div BSIZE) \<noteq> 0 \<Longrightarrow> o1 < off \<or> off + length xs \<le> o1 \<Longrightarrow> fbyte d t i o1 = fbyte d s i o1"
    "b \<notin> slot d s i ` {..MAXFILE} \<Longrightarrow> b < sb_bmapstart (sb s) \<or> dstart s \<le> b \<and> b < sb_size (sb s) \<and> bused d s b \<Longrightarrow> bview d t b = bview d s b"
  using assms unfolding wrote_def by blast+

lemma block_index: "o1 < MAXFILE * BSIZE \<Longrightarrow> o1 div BSIZE < MAXFILE"
  by (simp add: less_mult_imp_div_less)

lemma wrote_mapped:
  assumes "mapped d i s bn a t" "inode_ok d s i"
  shows "wrote d i s t off []"
proof -
  have ex: "extends d i s t" and it: "inode_ok d t i" and sl: "\<And>k. k < MAXFILE \<Longrightarrow> slot d t i k = (if k = bn then a else slot d s i k)"
    and sa: "slot d s i bn \<noteq> 0 \<Longrightarrow> a = slot d s i bn" using assms(1) by (auto simp: mapped_def)
  have v: "\<And>b. b \<noteq> ind s i \<Longrightarrow> b < sb_bmapstart (sb s) \<or> dstart s \<le> b \<and> b < sb_size (sb s) \<and> bused d s b \<Longrightarrow> bview d t b = bview d s b"
    using ex unfolding extends_def by blast
  have "fbyte d t i o1 = fbyte d s i o1" if o: "o1 < MAXFILE * BSIZE" "slot d s i (o1 div BSIZE) \<noteq> 0" for o1
  proof -
    let ?k = "o1 div BSIZE"
    have k: "?k < MAXFILE" by (rule block_index [OF o(1)])
    then have e: "slot d t i ?k = slot d s i ?k" using sl [OF k] sa o(2) by auto
    have "slot d s i ?k \<noteq> ind s i" using inode_okD(6) [OF assms(2), of ?k MAXFILE] k o(2) by (auto simp: slot_ind)
    then have "bview d t (slot d s i ?k) = bview d s (slot d s i ?k)" using v inode_okD(5) [OF assms(2), of ?k] k o(2) by simp
    then show ?thesis by (simp add: fbyte_def e)
  qed
  moreover have "bview d t b = bview d s b" if "b \<notin> slot d s i ` {..MAXFILE}" "b < sb_bmapstart (sb s) \<or> dstart s \<le> b \<and> b < sb_size (sb s) \<and> bused d s b" for b
  proof -
    have "slot d s i MAXFILE \<in> slot d s i ` {..MAXFILE}" by simp
    then have "b \<noteq> ind s i" using that(1) unfolding slot_ind by metis
    then show ?thesis using v that(2) by blast
  qed
  ultimately show ?thesis using ex it unfolding wrote_def extends_def by auto
qed

lemma wrote_trans:
  fixes s t u :: "'a fsst_scheme"
  assumes "wrote d i s t off xs" "wrote d i t u (off + length xs) ys" "inode_ok d s i" "off + length xs + length ys \<le> MAXFILE * BSIZE"
  shows "wrote d i s u off (xs @ ys)"
proof -
  note A = wroteD [OF assms(1)] and B = wroteD [OF assms(2)]
  note o = other_fs [OF A(3) inode_okD(1) [OF assms(3)]]
  have ou: "other i u = other i s" using A(3) B(3) by simp
  note ou' = other_fs(1,8) [OF ou inode_okD(1) [OF assms(3)]]
  have tu: "slot d u i k = slot d t i k" if "k \<le> MAXFILE" "slot d t i k \<noteq> 0" for k using B(5) [OF that(1)] that(2) by auto
  have sl: "slot d u i k = slot d s i k \<or> slot d s i k = 0 \<and> \<not> bused d s (slot d u i k)" if k: "k \<le> MAXFILE" for k
  proof (cases "slot d u i k = 0")
    case True
    then have "slot d t i k = 0" using tu [OF k] by auto
    then show ?thesis using A(5) [OF k] True by auto
  next
    case False
    then have "slot d u i k < sb_size (sb s)" using inode_okD(5) [OF B(1) k] ou' by simp
    then show ?thesis using A(5) [OF k] B(5) [OF k] A(4) [of "slot d u i k"] by auto
  qed
  have bt: "slot d u i (o1 div BSIZE) \<noteq> 0 \<and> fbyte d u i o1 = (xs @ ys) ! (o1 - off)" if o1: "off \<le> o1" "o1 < off + length (xs @ ys)" for o1
  proof (cases "o1 < off + length xs")
    case True
    have m: "o1 < MAXFILE * BSIZE" using o1 assms(4) by simp
    have t: "slot d t i (o1 div BSIZE) \<noteq> 0" "fbyte d t i o1 = xs ! (o1 - off)" using A(6) [OF o1(1) True] by auto
    have "fbyte d u i o1 = fbyte d t i o1" using B(7) [OF m t(1)] True by simp
    then show ?thesis using t tu [of "o1 div BSIZE"] block_index [OF m] o1(1) True by (simp add: nth_append less_diff_conv2)
  next
    case False
    then have "slot d u i (o1 div BSIZE) \<noteq> 0 \<and> fbyte d u i o1 = ys ! (o1 - (off + length xs))" using B(6) [of o1] o1 by simp
    moreover have "\<not> o1 - off < length xs" using False o1(1) by linarith
    ultimately show ?thesis by (simp add: nth_append diff_diff_add)
  qed
  have kp: "fbyte d u i o1 = fbyte d s i o1" if o1: "o1 < MAXFILE * BSIZE" "slot d s i (o1 div BSIZE) \<noteq> 0" "o1 < off \<or> off + length (xs @ ys) \<le> o1" for o1
  proof -
    have "slot d t i (o1 div BSIZE) \<noteq> 0" using A(5) [of "o1 div BSIZE"] block_index [OF o1(1)] o1(2) by auto
    then have "fbyte d u i o1 = fbyte d t i o1" using B(7) [OF o1(1)] o1(3) by auto
    moreover have "fbyte d t i o1 = fbyte d s i o1" using A(7) [OF o1(1,2)] o1(3) by auto
    ultimately show ?thesis by simp
  qed
  have vw: "bview d u b = bview d s b" if b: "b \<notin> slot d s i ` {..MAXFILE}" "b < sb_bmapstart (sb s) \<or> dstart s \<le> b \<and> b < sb_size (sb s) \<and> bused d s b" for b
  proof -
    have "b \<noteq> slot d t i k" if k: "k \<le> MAXFILE" for k
    proof (cases "slot d t i k = slot d s i k")
      case True
      then show ?thesis using b(1) k by auto
    next
      case False
      then have "slot d t i k \<noteq> 0" "\<not> bused d s (slot d t i k)" using A(5) [OF k] by auto
      then have "dstart s \<le> slot d t i k" "\<not> bused d s (slot d t i k)" using inode_okD(5) [OF A(1) k] o(8) by auto
      then show ?thesis using settled(1) [OF _ _ b(2)] by blast
    qed
    moreover have "bview d t b = bview d s b" by (rule A(8) [OF b])
    moreover have "b < sb_bmapstart (sb t) \<or> dstart t \<le> b \<and> b < sb_size (sb t) \<and> bused d t b" using b(2) A(4) [of b] unfolding o by auto
    ultimately show ?thesis using B(8) [of b] by auto
  qed
  show ?thesis
    unfolding wrote_def
  proof (intro conjI)
    show "\<forall>b < sb_size (sb s). bused d s b \<longrightarrow> bused d u b" using A(4) B(4) o(1) by simp
  qed (use B(1,2) ou sl bt kp vw in blast)+
qed

lemma wrote_block:
  fixes s t :: "'a fsst_scheme"
  assumes "inode_ok d s i" "geo d s" "slot d s i (off div BSIZE) = a" "a \<noteq> 0" "off div BSIZE < MAXFILE" "off mod BSIZE + length ys \<le> BSIZE"
    "rest t = rest s" "bview d t = (bview d s)(a := take (off mod BSIZE) (bview d s a) @ ys @ drop (off mod BSIZE + length ys) (bview d s a))"
  shows "wrote d i s t off ys"
proof -
  note I = inode_okD [OF assms(1)] and G = geoD [OF assms(2)]
  note f = rest_fs [OF assms(7)]
  let ?k = "off div BSIZE" and ?q = "off mod BSIZE"
  have a: "dstart s \<le> a" "a < sb_size (sb s)" "bused d s a" using I(5) [of ?k] assms(3-5) by simp_all
  have ai: "a \<noteq> ind s i" using I(6) [of ?k MAXFILE] assms(3-5) by (auto simp: slot_ind)
  have sl: "slot d t i = slot d s i" using ai by (auto simp: slot_def fun_eq_iff f assms(8))
  have "BBLOCK b (sb s) \<noteq> a" if "b < sb_size (sb s)" for b using bitmap_block [OF that] a(1) by auto
  then have u: "bused d t b \<longleftrightarrow> bused d s b" if "b < sb_size (sb s)" for b using that by (simp add: bused_def assms(8) f)
  have "geo d t" using assms(2,6) u G(1,2) unfolding geo_def dstart_def f by (auto simp: assms(8))
  moreover have "inode_ok d t i" by (rule inode_ok_same [OF assms(1) other_rest [OF assms(7)]]) (use sl u f in auto)
  moreover have "fbyte d t i o1 = ys ! (o1 - off)" "slot d t i (o1 div BSIZE) \<noteq> 0" if o1: "off \<le> o1" "o1 < off + length ys" for o1
  proof -
    define j where "j = o1 - off"
    have j: "o1 = off + j" "j < length ys" using o1 by (auto simp: j_def)
    have dm: "(off + j) div BSIZE = ?k" "(off + j) mod BSIZE = ?q + j"
    proof -
      have "?q + j < BSIZE" using j assms(6) by simp
      moreover have "off + j = ?k * BSIZE + (?q + j)" by (metis add.assoc div_mult_mod_eq)
      ultimately show "(off + j) div BSIZE = ?k" "(off + j) mod BSIZE = ?q + j"
        by (metis add.left_neutral div_less div_mult_self3 mod_less mod_mult_self3 add.commute not_less_zero)+
    qed
    show "fbyte d t i o1 = ys ! (o1 - off)" using j dm G(1) [of a] assms(3,6) by (simp add: fbyte_def sl assms(8) nth_append)
    show "slot d t i (o1 div BSIZE) \<noteq> 0" using j dm assms(3,4) by (simp add: sl)
  qed
  moreover have "fbyte d t i o1 = fbyte d s i o1" if o1: "o1 < MAXFILE * BSIZE" "slot d s i (o1 div BSIZE) \<noteq> 0" "o1 < off \<or> off + length ys \<le> o1" for o1
  proof (cases "o1 div BSIZE = ?k")
    case True
    let ?r = "o1 mod BSIZE"
    have "o1 = ?k * BSIZE + ?r" "off = ?k * BSIZE + ?q" using True by (metis div_mult_mod_eq)+
    then have "?r < ?q \<or> ?q + length ys \<le> ?r" using o1(3) by linarith
    moreover have "?r < BSIZE" "?q < BSIZE" by (simp_all add: BSIZE_def)
    ultimately show ?thesis using True assms(3,6) G(1) [of a] by (auto simp: fbyte_def sl assms(8) nth_append min_def)
  next
    case False
    then have "slot d s i (o1 div BSIZE) \<noteq> a" using I(6) [of "o1 div BSIZE" ?k] block_index [OF o1(1)] assms(3,5) o1(2) by auto
    then show ?thesis by (simp add: fbyte_def sl assms(8))
  qed
  moreover have "bview d t b = bview d s b" if "b \<notin> slot d s i ` {..MAXFILE}" for b
    using that assms(3,5) by (auto simp: assms(8) image_iff)
  ultimately show ?thesis using u other_rest [OF assms(7)] unfolding wrote_def sl by auto
qed

text \<open>The number of blocks that a write touches; it logs at most six blocks for each.\<close>

definition nblk :: "nat \<Rightarrow> nat \<Rightarrow> nat" where
  "nblk off left = (if left = 0 then 0 else (off + left - 1) div BSIZE - off div BSIZE + 1)"

lemma nblk_step:
  assumes "0 < left"
  shows "nblk off left = Suc (nblk (off + rw_chunk off left) (left - rw_chunk off left))"
proof -
  obtain k q where kq: "off = k * BSIZE + q" "q < BSIZE" "k = off div BSIZE" "q = off mod BSIZE"
    by (metis BSIZE_def div_mult_mod_eq mod_less_divisor zero_less_numeral)
  show ?thesis
  proof (cases "left \<le> BSIZE - q")
    case True
    then have m: "rw_chunk off left = left" by (simp add: rw_chunk_def kq(4))
    have "q + left - 1 < BSIZE" using True kq(2) assms by simp
    moreover have "off + left - 1 = k * BSIZE + (q + left - 1)" using kq(1) assms by simp
    ultimately have "(off + left - 1) div BSIZE = k" by (metis add.commute div_less div_mult_self3 add.left_neutral not_less_zero)
    then show ?thesis using assms kq(3) by (simp add: nblk_def m)
  next
    case False
    then have m: "rw_chunk off left = BSIZE - q" by (simp add: rw_chunk_def kq(4))
    have o: "off + (BSIZE - q) = Suc k * BSIZE" using kq(1,2) by simp
    have l: "off + left - 1 = off + (BSIZE - q) + (left - (BSIZE - q)) - 1" using False by simp
    have "Suc k * BSIZE \<le> off + left - 1" using o False by simp
    then have "Suc k \<le> (off + left - 1) div BSIZE" by (metis BSIZE_def div_le_mono nonzero_mult_div_cancel_right numeral_neq_zero)
    moreover have "(off + (BSIZE - q)) div BSIZE = Suc k" using o by (metis BSIZE_def nonzero_mult_div_cancel_right numeral_neq_zero)
    ultimately show ?thesis using False assms kq(3) l by (simp add: nblk_def m)
  qed
qed

lemma writei_loop_ok:
  fixes s :: "'a fsst_scheme"
  assumes "tx d me uid s L {}" "room L {} (6 * nblk off left)" "geo d s" "inode_ok d s i" "left \<le> length xs" "off + left \<le> MAXFILE * BSIZE"
  shows "\<exists>w t L'. writei_loop s me i (BufSrc xs) off left tot = Ok (tot + w, off + w, t) \<and> w \<le> left \<and> tx d me uid t L' {} \<and>
    length L' \<le> length L + 6 * nblk off left \<and> wrote d i s t off (take w xs) \<and> (w < left \<longrightarrow> (\<forall>b < sb_size (sb s). bused d t b))"
  using assms
proof (induction left arbitrary: s L off tot xs rule: less_induct)
  case (less left)
  show ?case
  proof (cases "left = 0")
    case True
    have "mapped d i s 0 (slot d s i 0) s \<or> slot d s i 0 = 0" using mapped_same [OF refl refl less.prems(3,4) refl] by auto
    have "wrote d i s s off []" using less.prems(3,4) unfolding wrote_def by auto
    then show ?thesis using True less.prems(1) by (intro exI [of _ 0] exI [of _ s] exI [of _ L]) (simp add: writei_loop.simps)
  next
    case False
    then have l: "0 < left" by simp
    let ?m = "rw_chunk off left" and ?k = "off div BSIZE"
    note ch = chunk(1-3) [OF l, of off] and nb = nblk_step [OF l, of off]
    have k: "?k < MAXFILE" using less.prems(6) l by (simp add: less_mult_imp_div_less)
    have r6: "room L {} 6" using less.prems(2) nb by (simp add: room_def)
    obtain a t1 L1 where t1: "bmap s me i ?k = Ok (a, t1)" "tx d me uid t1 L1 {}" "length L1 \<le> length L + 5" "mapped d i s ?k a t1"
      using bmap_ok [OF less.prems(1) r6 less.prems(3,4) k] by metis
    have w1: "wrote d i s t1 off []" by (rule wrote_mapped [OF t1(4) less.prems(4)])
    show ?thesis
    proof (cases "a = 0")
      case True
      then have "writei_loop s me i (BufSrc xs) off left tot = Ok (tot, off, t1)" using False t1(1) by (subst writei_loop.simps) simp
      moreover have "\<forall>b < sb_size (sb s). bused d t1 b" using t1(4) True by (simp add: mapped_def)
      ultimately show ?thesis using t1(2,3) w1 nb by (intro exI [of _ 0] exI [of _ t1] exI [of _ L1]) simp
    next
      case a: False
      note A = wroteD [OF w1]
      have sa: "slot d t1 i ?k = a" using t1(4) k by (simp add: mapped_def)
      have r1: "room L1 {} 1" using less.prems(2) nb t1(3) by (simp add: room_def)
      have R: "card (set L1 \<union> {}) < NBUF" "length L1 < LOGBLOCKS" using roomD(1,2) [OF r1] by simp_all
      obtain bp t2 where t2: "bread t1 me d a = Ok (bp, t2)" "tx d me uid t2 L1 {a}" "has_buf d t2 a bp" "bview d t2 = bview d t1" "above t2 = above t1"
        using tx_bread [OF t1(2) empty_iff [THEN iffD1, THEN notI] disjI2 [OF R(1)], of a] by metis
      define f where "f = (\<lambda>x. take (off mod BSIZE) x @ take ?m xs @ drop (off mod BSIZE + ?m) x)"
      obtain t3 where
        t3: "log_write (set_data t2 bp f) bp = Ok t3" "tx d me uid t3 (log_add a L1) {a}" "has_buf d t3 a bp"
          "bview d t3 = (bview d t2)(a := f (bview d t2 a))" "rest t3 = rest t2"
        by (rule tx_log [OF t2(2) singletonI t2(3) R(2), of f]) (use t2(3) in blast)
      obtain t4 where t4: "brelse t3 me bp = Ok t4" "tx d me uid t4 (log_add a L1) {}" "bview d t4 = bview d t3" "above t4 = above t3"
        using tx_brelse [OF t3(2) singletonI t3(3)] by (metis Diff_cancel)
      have r: "rest t4 = rest t1" using rest_above [OF t4(4)] t3(5) rest_above [OF t2(5)] by simp
      have ym: "length (take ?m xs) = ?m" using ch(2) less.prems(5) by simp
      have w2: "wrote d i t1 t4 off (take ?m xs)"
        by (rule wrote_block [OF A(1,2) sa a k]) (use ym ch(3) r t4(3) t3(4) t2(4) in \<open>simp_all add: f_def\<close>)
      have w: "wrote d i s t4 off (take ?m xs)"
        using wrote_trans [OF w1, of t4 "take ?m xs"] w2 less.prems(4,6) ym ch(2) by simp
      note B = wroteD [OF w]
      have e: "writei_loop s me i (BufSrc xs) off left tot = writei_loop t4 me i (BufSrc (drop ?m xs)) (off + ?m) (left - ?m) (tot + ?m)"
        using False t1(1) a t2(1) t3(1) [unfolded f_def] t4(1) inode_okD(2) [OF A(1)] by (subst writei_loop.simps) (simp add: Let_def)
      have l4: "length (log_add a L1) \<le> length L + 6" using log_add_length [of a L1] t1(3) by simp
      have p: "left - ?m < left" "room (log_add a L1) {} (6 * nblk (off + ?m) (left - ?m))" "left - ?m \<le> length (drop ?m xs)"
        "off + ?m + (left - ?m) \<le> MAXFILE * BSIZE"
        using ch(1,2) l l4 less.prems(2,5,6) nb by (simp_all add: room_def)
      from less.IH [OF p(1) t4(2) p(2) B(2,1) p(3,4), of "tot + ?m"] obtain w' t L' where
        t: "writei_loop t4 me i (BufSrc (drop ?m xs)) (off + ?m) (left - ?m) (tot + ?m) = Ok (tot + ?m + w', off + ?m + w', t)" "w' \<le> left - ?m"
          "tx d me uid t L' {}" "length L' \<le> length (log_add a L1) + 6 * nblk (off + ?m) (left - ?m)"
          "wrote d i t4 t (off + ?m) (take w' (drop ?m xs))" "w' < left - ?m \<longrightarrow> (\<forall>b < sb_size (sb t4). bused d t b)" by blast
      have tk: "take ?m xs @ take w' (drop ?m xs) = take (?m + w') xs" by (simp add: take_add)
      have "length (take w' (drop ?m xs)) \<le> w'" by simp
      then have "wrote d i s t off (take (?m + w') xs)"
        using wrote_trans [OF w, of t "take w' (drop ?m xs)"] t(2,5) less.prems(4,6) ym ch(2) tk by simp
      moreover have "sb t4 = sb s" using other_fs(1) [OF B(3) inode_okD(1) [OF less.prems(4)]] .
      ultimately show ?thesis using e t l4 nb ch(2)
        by (intro exI [of _ "?m + w'"] exI [of _ t] exI [of _ L']) auto
    qed
  qed
qed

lemma readi_ok:
  fixes s :: "'a fsst_scheme"
  assumes "tx d me uid s L {}" "room L {} 0" "geo d s" "file_ok d s i" "off + n < 2 ^ 32"
  shows "\<exists>t. readi s me i BufDst off n = Ok (int (length (take n (drop off (content d s i)))), take n (drop off (content d s i)), t) \<and>
    tx d me uid t L {} \<and> bview d t = bview d s \<and> rest t = rest s"
proof (cases "off > i_size (inodes s ! i)")
  case True
  then show ?thesis using assms(1) by (intro exI [of _ s]) (simp add: readi_def content_def Let_def)
next
  case False
  let ?z = "i_size (inodes s ! i)"
  define n' where "n' = (if off + n > ?z then ?z - off else n)"
  have n': "off + n' \<le> ?z" "n' = min n (?z - off)" using False by (auto simp: n'_def)
  have i: "inode_ok d s i" "?z \<le> MAXFILE * BSIZE" "\<And>o1. o1 < ?z \<Longrightarrow> slot d s i (o1 div BSIZE) \<noteq> 0" using assms(4) by (auto simp: file_ok_def)
  have "\<forall>o1. off \<le> o1 \<and> o1 < off + n' \<longrightarrow> o1 < MAXFILE * BSIZE \<and> slot d s i (o1 div BSIZE) \<noteq> 0" using i n'(1) by auto
  from readi_loop_ok [OF assms(1-3) i(1) this, of 0 "[]"] obtain t where
    t: "readi_loop s me i BufDst off n' 0 [] = Ok (int n', map (fbyte d s i) [off..<off + n'], t)" "tx d me uid t L {}" "bview d t = bview d s" "rest t = rest s"
    by auto
  have "take n (drop off (content d s i)) = map (fbyte d s i) [off..<off + n']"
    using False by (simp add: content_def take_map drop_map n'(2) min_def not_less)
  moreover have "readi s me i BufDst off n = readi_loop s me i BufDst off n' 0 []"
    using False assms(5) by (simp add: readi_def Let_def n'_def)
  ultimately show ?thesis using t by simp
qed

lemma put_dinode_length: "length (put_dinode b o1 x) = length b"
proof -
  have "length (fold (\<lambda>i b. put32 b (o1 + 12 + 4 * i) (d_addrs x ! i)) ks b) = length b" for ks b by (induction ks arbitrary: b) simp_all
  then show ?thesis by (simp add: put_dinode_def Let_def)
qed

text \<open>Writing the inode to its block changes nothing of the files.\<close>

lemma iupdate_ok:
  fixes s :: "'a fsst_scheme"
  assumes "tx d me uid s L {}" "room L {} 1" "geo d s" "inode_ok d s i"
  obtains t L' where "iupdate s me i = Ok t" "tx d me uid t L' {}" "rest t = rest s" "geo d t" "\<And>b. b < sb_size (sb s) \<Longrightarrow> bused d t b = bused d s b"
    "\<And>b. dstart s \<le> b \<Longrightarrow> bview d t b = bview d s b" "length L' \<le> Suc (length L)"
    "bview d t (IBLOCK (i_inum (inodes s ! i)) (sb s)) =
       put_dinode (bview d s (IBLOCK (i_inum (inodes s ! i)) (sb s))) (dinode_off (i_inum (inodes s ! i))) (dinode_of (inodes s ! i))"
proof -
  let ?ip = "inodes s ! i"
  let ?b = "IBLOCK (i_inum ?ip) (sb s)"
  define f where "f = (\<lambda>x. put_dinode x (dinode_off (i_inum ?ip)) (dinode_of ?ip))"
  note I = inode_okD [OF assms(4)] and G = geoD [OF assms(3)]
  have b: "?b < sb_bmapstart (sb s)" by (rule G(5) [OF I(3)])
  have R: "card (set L \<union> {}) < NBUF" "length L < LOGBLOCKS" using roomD(1,2) [OF assms(2)] by simp_all
  obtain t where
    t: "bnd (bread s me d ?b) (\<lambda>(bp, s). bnd (log_write (set_data s bp f) bp) (\<lambda>s. brelse s me bp)) = Ok t"
      "tx d me uid t (log_add ?b L) {}" "bview d t = (bview d s)(?b := f (bview d s ?b))" "rest t = rest s"
    by (rule tx_modify [OF assms(1) _ R, of ?b f]) blast+
  note fs = rest_fs [OF t(4)]
  have e: "iupdate s me i = Ok t" using t(1) I(2) by (simp add: iupdate_def Let_def f_def)
  have u: "bused d t x = bused d s x" if "x < sb_size (sb s)" for x using bitmap_block [OF that] b by (simp add: bused_def t(3) fs)
  have "geo d t" using assms(3) u G(2) put_dinode_length unfolding geo_def dstart_def fs by (auto simp: t(3) f_def)
  then show thesis using e t u log_add_length [of ?b L] b by (intro that [of t "log_add ?b L"]) (auto simp: dstart_def f_def)
qed

lemma content_same:
  fixes s t :: "'a fsst_scheme"
  assumes "file_ok d s j" "inodes t ! j = inodes s ! j" "\<And>k. k \<le> MAXFILE \<Longrightarrow> slot d s j k \<noteq> 0 \<Longrightarrow> bview d t (slot d s j k) = bview d s (slot d s j k)"
  shows "content d t j = content d s j"
proof -
  have "bview d t (ind s j) = bview d s (ind s j)" if "ind s j \<noteq> 0" using assms(3) [of MAXFILE] that by (simp add: slot_ind)
  then have sl: "slot d t j = slot d s j" by (auto simp: slot_def fun_eq_iff assms(2))
  have "fbyte d t j o1 = fbyte d s j o1" if "o1 < i_size (inodes s ! j)" for o1
    using assms(1) assms(3) [of "o1 div BSIZE"] block_index [of o1] that by (auto simp: file_ok_def fbyte_def sl)
  then show ?thesis by (simp add: content_def assms(2))
qed

lemma set_size:
  fixes s :: "'a fsst_scheme" and z :: nat
  assumes "i < length (inodes s)"
  defines "t \<equiv> set_inode s i (\<lambda>ip. ip\<lparr>i_size := z\<rparr>)"
  shows "slot d t i = slot d s i" "fbyte d t i = fbyte d s i" "inode_ok d t i = inode_ok d s i" "i_size (inodes t ! i) = z" "j \<noteq> i \<Longrightarrow> inodes t ! j = inodes s ! j"
proof -
  have n: "inodes t ! i = (inodes s ! i)\<lparr>i_size := z\<rparr>" "length (inodes t) = length (inodes s)" using assms(1) by (simp_all add: t_def set_inode_def)
  have c: "bview d t = bview d s" "bused d t = bused d s" "sb t = sb s" "dstart t = dstart s" by (simp_all add: t_def)
  show sl: "slot d t i = slot d s i" by (simp add: slot_def fun_eq_iff n c)
  then show "fbyte d t i = fbyte d s i" by (simp add: fbyte_def fun_eq_iff c)
  show "inode_ok d t i = inode_ok d s i" unfolding inode_ok_def sl c n by simp
  show "i_size (inodes t ! i) = z" by (simp add: n)
  show "j \<noteq> i \<Longrightarrow> inodes t ! j = inodes s ! j" by (simp add: t_def set_inode_def)
qed

lemma written_content:
  assumes "wrote d i s t off (take w xs)" "file_ok d s i" "off \<le> i_size (inodes s ! i)" "w \<le> length xs" "off + w \<le> MAXFILE * BSIZE"
  defines "z \<equiv> (if off + w > i_size (inodes s ! i) then off + w else i_size (inodes s ! i))"
  shows "map (fbyte d t i) [0..<z] = take off (content d s i) @ take w xs @ drop (off + w) (content d s i)"
    "\<forall>o1<z. slot d t i (o1 div BSIZE) \<noteq> 0" "z \<le> MAXFILE * BSIZE"
proof -
  note W = wroteD [OF assms(1)]
  let ?z = "i_size (inodes s ! i)"
  have f: "inode_ok d s i" "?z \<le> MAXFILE * BSIZE" "\<And>o1. o1 < ?z \<Longrightarrow> slot d s i (o1 div BSIZE) \<noteq> 0" using assms(2) by (auto simp: file_ok_def)
  have lw: "length (take w xs) = w" using assms(4) by simp
  show "z \<le> MAXFILE * BSIZE" using f(2) assms(5) by (simp add: z_def)
  have old: "fbyte d t i o1 = fbyte d s i o1" "slot d t i (o1 div BSIZE) \<noteq> 0" if o1: "o1 < ?z" "o1 < off \<or> off + w \<le> o1" for o1
  proof -
    have m: "o1 < MAXFILE * BSIZE" using o1 f(2) by simp
    show "fbyte d t i o1 = fbyte d s i o1" using W(7) [OF m f(3) [OF o1(1)]] o1(2) lw by simp
    show "slot d t i (o1 div BSIZE) \<noteq> 0" using W(5) [of "o1 div BSIZE"] f(3) [OF o1(1)] block_index [OF m] by auto
  qed
  have new: "fbyte d t i o1 = xs ! (o1 - off)" "slot d t i (o1 div BSIZE) \<noteq> 0" if "off \<le> o1" "o1 < off + w" for o1
  proof -
    have "o1 - off < w" using that by simp
    then show "fbyte d t i o1 = xs ! (o1 - off)" "slot d t i (o1 div BSIZE) \<noteq> 0" using W(6) [of o1] lw that by simp_all
  qed
  show "\<forall>o1<z. slot d t i (o1 div BSIZE) \<noteq> 0"
  proof (intro allI impI)
    fix o1
    assume "o1 < z"
    then show "slot d t i (o1 div BSIZE) \<noteq> 0" using old(2) [of o1] new(2) [of o1] assms(3) by (cases "off \<le> o1 \<and> o1 < off + w") (auto simp: z_def split: if_splits)
  qed
  have e: "[0..<z] = [0..<off] @ [off..<off + w] @ [off + w..<z]"
    using upt_add_eq_append [of 0 off w] upt_add_eq_append [of 0 "off + w" "z - (off + w)"] by (simp add: z_def split: if_splits)
  have "map (fbyte d t i) [0..<off] = take off (content d s i)"
    using old(1) assms(3) by (auto simp: content_def take_map intro!: nth_equalityI)
  moreover have "map (fbyte d t i) [off..<off + w] = take w xs" using new(1) lw by (auto intro!: nth_equalityI)
  moreover have "map (fbyte d t i) [off + w..<z] = drop (off + w) (content d s i)"
    using old(1) by (auto simp: content_def drop_map z_def intro!: nth_equalityI)
  ultimately show "map (fbyte d t i) [0..<z] = take off (content d s i) @ take w xs @ drop (off + w) (content d s i)" by (simp add: e)
qed

lemma writei_ok:
  fixes s :: "'a fsst_scheme"
  assumes "tx d me uid s L {}" "room L {} (6 * nblk off n + 1)" "geo d s" "file_ok d s i" "off \<le> i_size (inodes s ! i)"
    "off + n \<le> MAXFILE * BSIZE" "n \<le> length xs"
  obtains w t L' where "writei s me i (BufSrc xs) off n = Ok (int w, t)" "w \<le> n" "w < n \<Longrightarrow> \<forall>b < sb_size (sb s). bused d t b"
    "tx d me uid t L' {}" "length L' \<le> length L + 6 * nblk off n + 1" "geo d t" "file_ok d t i"
    "content d t i = take off (content d s i) @ take w xs @ drop (off + w) (content d s i)"
    "\<And>j. j \<noteq> i \<Longrightarrow> file_ok d s j \<Longrightarrow> slot d s i ` {..MAXFILE} \<inter> slot d s j ` {..MAXFILE} \<subseteq> {0} \<Longrightarrow> content d t j = content d s j"
    "i_type (inodes t ! i) = i_type (inodes s ! i)"
proof -
  have io: "inode_ok d s i" using assms(4) by (simp add: file_ok_def)
  have r: "room L {} (6 * nblk off n)" using assms(2) by (simp add: room_def)
  obtain w t1 L1 where t1: "writei_loop s me i (BufSrc xs) off n 0 = Ok (w, off + w, t1)" "w \<le> n" "tx d me uid t1 L1 {}"
      "length L1 \<le> length L + 6 * nblk off n" "wrote d i s t1 off (take w xs)" "w < n \<longrightarrow> (\<forall>b < sb_size (sb s). bused d t1 b)"
    using writei_loop_ok [OF assms(1) r assms(3) io assms(7,6), of 0] by auto
  note W = wroteD [OF t1(5)]
  note o = other_fs [OF W(3) inode_okD(1) [OF io]]
  define z where "z = (if off + w > i_size (inodes s ! i) then off + w else i_size (inodes s ! i))"
  have wl: "w \<le> length xs" "off + w \<le> MAXFILE * BSIZE" using t1(2) assms(6,7) by simp_all
  note c = written_content [OF t1(5) assms(4,5) wl, folded z_def]
  define t2 where "t2 = set_inode t1 i (\<lambda>ip. ip\<lparr>i_size := z\<rparr>)"
  have i1: "i < length (inodes t1)" using o(2) inode_okD(1) [OF io] by simp
  note z2 = set_size [OF i1, where z = z, folded t2_def]
  have t2: "(if off + w > i_size (inodes t1 ! i) then set_inode t1 i (\<lambda>ip. ip\<lparr>i_size := off + w\<rparr>) else t1) = t2"
  proof (cases "off + w > i_size (inodes s ! i)")
    case False
    then have "z = i_size (inodes t1 ! i)" by (simp add: z_def o(7))
    then have "(inodes t1 ! i)\<lparr>i_size := z\<rparr> = inodes t1 ! i" by simp
    then have "t2 = t1" by (simp add: t2_def set_inode_def)
    then show ?thesis using False by (simp add: o(7))
  qed (simp add: t2_def z_def o(7))
  have p: "tx d me uid t2 L1 {}" "geo d t2" "inode_ok d t2 i" "room L1 {} 1"
    using t1(3,4) W(1,2) z2(3) assms(2) by (simp_all add: t2_def room_def)
  obtain t L' where t: "iupdate t2 me i = Ok t" "tx d me uid t L' {}" "rest t = rest t2" "geo d t" "\<And>b. b < sb_size (sb t2) \<Longrightarrow> bused d t b = bused d t2 b"
    "\<And>b. dstart t2 \<le> b \<Longrightarrow> bview d t b = bview d t2 b" "length L' \<le> Suc (length L1)"
    using iupdate_ok [OF p(1,4,2,3)] by metis
  note f = rest_fs [OF t(3)]
  have d2: "dstart t2 = dstart s" "sb t2 = sb s" "bused d t2 = bused d t1" "bview d t2 = bview d t1" using o(1,8) by (simp_all add: t2_def)
  have file2: "file_ok d t2 i" using p(3) c(2,3) by (simp add: file_ok_def z2(1,4))
  have ct: "content d t i = content d t2 i"
  proof (rule content_same [OF file2])
    show "bview d t (slot d t2 i k) = bview d t2 (slot d t2 i k)" if "k \<le> MAXFILE" "slot d t2 i k \<noteq> 0" for k
      using t(6) inode_okD(5) [OF p(3) that] by simp
  qed (simp add: f)
  have "slot d t i k = slot d t2 i k" for k
    using t(6) [of "ind t2 i"] inode_okD(5) [OF p(3), of MAXFILE] by (auto simp: slot_def f slot_ind)
  then have ft: "file_ok d t i"
    using inode_ok_same [OF p(3) other_rest [OF t(3)]] t(5) file2 f by (auto simp: file_ok_def)
  have oth: "content d t j = content d s j" if j: "j \<noteq> i" "file_ok d s j" "slot d s i ` {..MAXFILE} \<inter> slot d s j ` {..MAXFILE} \<subseteq> {0}" for j
  proof (rule content_same [OF j(2)])
    show "inodes t ! j = inodes s ! j" using z2(5) [OF j(1)] o(3) [OF j(1)] by (simp add: f)
    show "bview d t (slot d s j k) = bview d s (slot d s j k)" if k: "k \<le> MAXFILE" "slot d s j k \<noteq> 0" for k
    proof -
      have "dstart s \<le> slot d s j k \<and> slot d s j k < sb_size (sb s) \<and> bused d s (slot d s j k)" using j(2) k inode_okD(5) [of d s j k] by (simp add: file_ok_def)
      moreover have "slot d s j k \<notin> slot d s i ` {..MAXFILE}" using j(3) k by auto
      ultimately show ?thesis using W(8) [of "slot d s j k"] t(6) [of "slot d s j k"] d2 by simp
    qed
  qed
  have ty: "i_type (inodes t ! i) = i_type (inodes s ! i)"
    using arg_cong [OF o(4), of i_type] i1 by (simp add: f t2_def set_inode_def)
  have "(off + n) mod 2 ^ 32 = off + n" using assms(6) by (simp add: MAXFILE_def NINDIRECT_def NDIRECT_def BSIZE_def)
  then have "writei s me i (BufSrc xs) off n = Ok (int w, t)" using assms(5,6) t1(1) t(1) t2 by (simp add: writei_def Let_def)
  then show thesis
  proof (rule that)
    show "content d t i = take off (content d s i) @ take w xs @ drop (off + w) (content d s i)"
      using c(1) ct by (simp add: content_def z2)
    show "w < n \<Longrightarrow> \<forall>b < sb_size (sb s). bused d t b" using t1(6) t(5) d2 by simp
  qed (use t1(2,4) t(2,4,7) ft oth ty in auto)
qed

section \<open>Properties\<close>

text \<open>C6: \<open>writei\<close> and \<open>readi\<close> implement files. Inside a transaction with room in the log, \<open>writei\<close> replaces
  the bytes at the offset by those written, extends the file where the write ends behind it, writes
  less than it was asked to only when the disk is full, and changes the contents of no other file;
  what \<open>readi\<close> returns, at any offset and of any length, are the bytes of the file.\<close>

theorem writei_readi:
  assumes "tx d me uid s L {}" "room L {} (6 * nblk off n + 1)" "geo d s" "file_ok d s i" "off \<le> i_size (inodes s ! i)"
    "off + n \<le> MAXFILE * BSIZE" "n \<le> length xs"
  shows "\<exists>w t. writei s me i (BufSrc xs) off n = Ok (int w, t) \<and> w \<le> n \<and> (w < n \<longrightarrow> (\<forall>b < sb_size (sb s). bused d t b)) \<and>
    geo d t \<and> file_ok d t i \<and> content d t i = take off (content d s i) @ take w xs @ drop (off + w) (content d s i) \<and>
    (\<forall>j. j \<noteq> i \<and> file_ok d s j \<and> slot d s i ` {..MAXFILE} \<inter> slot d s j ` {..MAXFILE} \<subseteq> {0} \<longrightarrow> content d t j = content d s j) \<and>
    (\<forall>o1 m. o1 + m < 2 ^ 32 \<longrightarrow> (\<exists>u. bview d u = bview d t \<and>
       readi t me i BufDst o1 m = Ok (int (length (take m (drop o1 (content d t i)))), take m (drop o1 (content d t i)), u)))"
proof -
  obtain w t L' where t: "writei s me i (BufSrc xs) off n = Ok (int w, t)" "w \<le> n" "w < n \<Longrightarrow> \<forall>b < sb_size (sb s). bused d t b"
    "tx d me uid t L' {}" "length L' \<le> length L + 6 * nblk off n + 1" "geo d t" "file_ok d t i"
    "content d t i = take off (content d s i) @ take w xs @ drop (off + w) (content d s i)"
    "\<And>j. j \<noteq> i \<Longrightarrow> file_ok d s j \<Longrightarrow> slot d s i ` {..MAXFILE} \<inter> slot d s j ` {..MAXFILE} \<subseteq> {0} \<Longrightarrow> content d t j = content d s j"
    by (rule writei_ok [OF assms]) blast
  have r: "room L' {} 0" using assms(2) t(5) by (simp add: room_def)
  have "\<exists>u. bview d u = bview d t \<and> readi t me i BufDst o1 m = Ok (int (length (take m (drop o1 (content d t i)))), take m (drop o1 (content d t i)), u)"
    if "o1 + m < 2 ^ 32" for o1 m using readi_ok [OF t(4) r t(6,7) that] by blast
  then show ?thesis using t by (intro exI [of _ w] exI [of _ t]) blast
qed

section \<open>Witnesses\<close>

text \<open>A disk of 20 blocks with the inodes in block 2, the bitmap in block 3 and the data from block 4 on, and
  an empty file.\<close>

definition fsst_ex :: fsst where
  "fsst_ex = lst.extend (lst_ex\<lparr>disk := (\<lambda>_. replicate BSIZE 0)(3 := 15 # replicate (BSIZE - 1) 0), lh_n := 0, log_outstanding := 1\<rparr>)
     (fsst.fields \<lparr>sb_magic = FSMAGIC, sb_size = 20, sb_nblocks = 16, sb_ninodes = 16, sb_nlog = 0, sb_logstart = 2, sb_inodestart = 2, sb_bmapstart = 3\<rparr>
       [\<lparr>i_dev = 1, i_inum = 1, i_ref = 1, i_lock = \<lparr>sl_locked = True, sl_name = ''inode'', sl_pid = 1\<rparr>, i_valid = True, i_type = T_FILE,
          i_major = 0, i_minor = 0, i_nlink = 1, i_size = 0, i_addrs = replicate 13 0\<rparr>])"

definition fs_ex :: fsst where
  "fs_ex = binit fsst_ex"

lemma fsst_ex_simps:
  "disk fsst_ex = (\<lambda>_. replicate BSIZE 0)(3 := 15 # replicate (BSIZE - 1) 0)" "lh_n fsst_ex = 0" "lh_block fsst_ex = 50 # replicate 29 0"
  "log_outstanding fsst_ex = 1" "procs fsst_ex = procs bst_ex" "length (inodes fsst_ex) = 1" "i_size (inodes fsst_ex ! 0) = 0"
  "i_addrs (inodes fsst_ex ! 0) = replicate 13 0" "i_dev (inodes fsst_ex ! 0) = 1" "i_inum (inodes fsst_ex ! 0) = 1"
  "sb_size (sb fsst_ex) = 20" "sb_bmapstart (sb fsst_ex) = 3" "sb_inodestart (sb fsst_ex) = 2" "sb_ninodes (sb fsst_ex) = 16"
  by (simp_all add: fsst_ex_def lst_ex_def bst.defs lst.defs fsst.defs bst_ex_def)

lemma binit_fs [simp]: "sb (binit s) = sb s" "inodes (binit s) = inodes s" "log_outstanding (binit s) = log_outstanding s" for s :: fsst
  by (simp_all add: binit_def Let_def)

lemma fs_ex_ok: "tx 1 0 1 fs_ex [] {}" "geo 1 fs_ex" "file_ok 1 fs_ex 0" "content 1 fs_ex 0 = []"
proof -
  note I = binit_inv [of 1 fsst_ex, OF one_neq_zero]
  have v: "bview 1 fs_ex = (\<lambda>_. replicate BSIZE 0)(3 := 15 # replicate (BSIZE - 1) 0)" unfolding fs_ex_def using I(4) by (auto simp: fsst_ex_simps)
  show "tx 1 0 1 fs_ex [] {}"
    using I v unfolding tx_def fs_ex_def
    by (auto simp: cache_ok_def fsst_ex_simps fun_eq_iff LOGBLOCKS_def MAXOPBLOCKS_def) (simp_all add: bst_ex_def)
  have d: "dstart fs_ex = 4" by (simp add: dstart_def fs_ex_def fsst_ex_simps BPB_def BSIZE_def)
  have bit: "bused 1 fs_ex b" if "b < 4" for b
  proof -
    have "b = 0 \<or> b = 1 \<or> b = 2 \<or> b = 3" using that by auto
    moreover have "BBLOCK b (sb fs_ex) = 3" using that by (simp add: BBLOCK_def fs_ex_def fsst_ex_simps BPB_def BSIZE_def)
    moreover have "b mod BPB = b" using that by (simp add: BPB_def BSIZE_def)
    ultimately show ?thesis unfolding bused_def bitmap_bit_def v by auto
  qed
  have z: "sb_size (sb fs_ex) = 20" "sb_bmapstart (sb fs_ex) = 3" "sb_inodestart (sb fs_ex) = 2" "sb_ninodes (sb fs_ex) = 16"
    by (simp_all add: fs_ex_def fsst_ex_simps)
  have "length (bview 1 fs_ex b) = BSIZE" for b unfolding v by (simp add: BSIZE_def)
  then show "geo 1 fs_ex" using bit unfolding geo_def d z by (simp add: IBLOCK_def z IPB_def DINODE_SIZE_def BSIZE_def)
  have "slot 1 fs_ex 0 k = 0" for k by (simp add: slot_def fs_ex_def fsst_ex_simps NDIRECT_def)
  then show "file_ok 1 fs_ex 0" unfolding file_ok_def inode_ok_def by (simp add: fs_ex_def fsst_ex_simps NDIRECT_def)
  show "content 1 fs_ex 0 = []" by (simp add: content_def fs_ex_def fsst_ex_simps)
qed

theorem writei_readi_witness:
  "\<exists>w t. writei fs_ex 0 0 (BufSrc [1, 2, 3]) 0 3 = Ok (int w, t) \<and> file_ok 1 t 0 \<and> content 1 t 0 = take w [1, 2, 3]"
proof -
  have "room [] {} (6 * nblk 0 3 + 1)" by (simp add: room_def nblk_def NBUF_def MAXOPBLOCKS_def BSIZE_def)
  moreover have "0 \<le> i_size (inodes fs_ex ! 0)" "0 + 3 \<le> MAXFILE * BSIZE" "3 \<le> length [1, 2, 3 :: u8]"
    by (simp_all add: MAXFILE_def NDIRECT_def NINDIRECT_def BSIZE_def)
  ultimately obtain w t where "writei fs_ex 0 0 (BufSrc [1, 2, 3]) 0 3 = Ok (int w, t)" "file_ok 1 t 0"
      "content 1 t 0 = take 0 (content 1 fs_ex 0) @ take w [1, 2, 3] @ drop (0 + w) (content 1 fs_ex 0)"
    using writei_readi [OF fs_ex_ok(1) _ fs_ex_ok(2,3), of 0 3 "[1, 2, 3]"] by blast
  then show ?thesis by (intro exI [of _ w] exI [of _ t]) (simp add: fs_ex_ok(4) del: One_nat_def)
qed

end
