(* ===== verification/Dirs.thy ===== *)
theory Dirs
  imports Files
begin

text \<open>
  Directories (\<open>dirlookup\<close> and \<open>dirlink\<close> of \<open>kernel/fs.c\<close>) as maps from names to inode numbers, on top of
  the contents of files.
\<close>

section \<open>Entries\<close>

definition entry :: "nat \<Rightarrow> 'a fsst_scheme \<Rightarrow> nat \<Rightarrow> nat \<Rightarrow> dirent" where
  "entry d s i k = get_dirent (take DIRENT_SIZE (drop (k * DIRENT_SIZE) (content d s i)))"

definition entries :: "nat \<Rightarrow> 'a fsst_scheme \<Rightarrow> nat \<Rightarrow> dirent list" where
  "entries d s i = map (entry d s i) [0..<i_size (inodes s ! i) div DIRENT_SIZE]"

definition names :: "u8 list \<Rightarrow> dirent \<Rightarrow> bool" where
  "names nm e \<longleftrightarrow> de_inum e \<noteq> 0 \<and> namecmp nm (de_name e)"

text \<open>The directory as a map.\<close>

definition dir_find :: "nat \<Rightarrow> 'a fsst_scheme \<Rightarrow> nat \<Rightarrow> u8 list \<Rightarrow> nat option" where
  "dir_find d s i nm = map_option de_inum (find (names nm) (entries d s i))"

definition dir_ok :: "nat \<Rightarrow> 'a fsst_scheme \<Rightarrow> nat \<Rightarrow> bool" where
  "dir_ok d s i \<longleftrightarrow> file_ok d s i \<and> i_type (inodes s ! i) = T_DIR \<and> DIRENT_SIZE dvd i_size (inodes s ! i)"

lemma length_content [simp]: "length (content d s i) = i_size (inodes s ! i)"
  by (simp add: content_def)

lemma dir_offsets_dvd: "DIRENT_SIZE dvd n \<Longrightarrow> dir_offsets n = map (\<lambda>k. k * DIRENT_SIZE) [0..<n div DIRENT_SIZE]"
  by (auto simp: dir_offsets_def DIRENT_SIZE_def elim!: dvdE)

text \<open>Reading an entry.\<close>

lemma read_entry:
  fixes s :: "'a fsst_scheme"
  assumes "tx d me uid s L {}" "room L {} 0" "geo d s" "file_ok d s i" "k < i_size (inodes s ! i) div DIRENT_SIZE"
  obtains bs t where "readi s me i BufDst (k * DIRENT_SIZE) DIRENT_SIZE = Ok (int DIRENT_SIZE, bs, t)" "get_dirent bs = entry d s i k"
    "tx d me uid t L {}" "bview d t = bview d s" "rest t = rest s"
proof -
  let ?z = "i_size (inodes s ! i)"
  have k: "k * DIRENT_SIZE + DIRENT_SIZE \<le> ?z" using assms(5) by (simp add: DIRENT_SIZE_def)
  have "?z \<le> MAXFILE * BSIZE" using assms(4) by (simp add: file_ok_def)
  then have "k * DIRENT_SIZE + DIRENT_SIZE < 2 ^ 32" using k by (simp add: MAXFILE_def NINDIRECT_def NDIRECT_def BSIZE_def)
  from readi_ok [OF assms(1-4) this] show thesis using k that by (auto simp: entry_def)
qed

lemma same_entries:
  fixes s t :: "'a fsst_scheme"
  assumes "bview d t = bview d s" "rest t = rest s"
  shows "content d t i = content d s i" "entry d t i = entry d s i" "file_ok d t i = file_ok d s i" "inodes t = inodes s"
proof -
  note v = same_view [OF assms] and f = rest_fs [OF assms(2)]
  have fb: "fbyte d t i = fbyte d s i" by (simp add: fbyte_def fun_eq_iff v(2) assms(1))
  show c: "content d t i = content d s i" by (simp add: content_def fb f)
  show "entry d t i = entry d s i" by (simp add: entry_def fun_eq_iff c)
  show "file_ok d t i = file_ok d s i" unfolding file_ok_def v f by simp
  show "inodes t = inodes s" by (rule f(2))
qed

lemma dirlookup_loop_ok:
  fixes s :: "'a fsst_scheme"
  assumes "tx d me uid s L {}" "room L {} 0" "geo d s" "file_ok d s dp" "\<forall>k \<in> set ks. k < i_size (inodes s ! dp) div DIRENT_SIZE"
  shows "\<exists>t. tx d me uid t L {} \<and> bview d t = bview d s \<and> rest t = rest s \<and>
    dirlookup_loop s me dp nm (map (\<lambda>k. k * DIRENT_SIZE) ks) =
      (case find (\<lambda>k. names nm (entry d s dp k)) ks of
         None \<Rightarrow> Ok (None, t)
       | Some k \<Rightarrow> bnd (iget t d (de_inum (entry d s dp k))) (\<lambda>(i, s). Ok (Some (i, k * DIRENT_SIZE), s)))"
  using assms
proof (induction ks arbitrary: s)
  case Nil
  then show ?case by (intro exI [of _ s]) simp
next
  case (Cons k ks)
  have k: "k < i_size (inodes s ! dp) div DIRENT_SIZE" using Cons.prems(5) by simp
  obtain bs t1 where t1: "readi s me dp BufDst (k * DIRENT_SIZE) DIRENT_SIZE = Ok (int DIRENT_SIZE, bs, t1)" "get_dirent bs = entry d s dp k"
      "tx d me uid t1 L {}" "bview d t1 = bview d s" "rest t1 = rest s"
    by (rule read_entry [OF Cons.prems(1-4) k]) blast
  note se = same_entries [OF t1(4,5)] and sv = same_view [OF t1(4,5)]
  show ?case
  proof (cases "names nm (entry d s dp k)")
    case True
    have "i_dev (inodes t1 ! dp) = d" using Cons.prems(4) se(4) by (simp add: file_ok_def inode_okD(2))
    then show ?thesis using True t1 by (intro exI [of _ t1]) (simp add: names_def Let_def)
  next
    case False
    then have e: "dirlookup_loop s me dp nm (map (\<lambda>k. k * DIRENT_SIZE) (k # ks)) = dirlookup_loop t1 me dp nm (map (\<lambda>k. k * DIRENT_SIZE) ks)"
      using t1(1,2) by (auto simp: names_def Let_def)
    have "geo d t1" "file_ok d t1 dp" "\<forall>k \<in> set ks. k < i_size (inodes t1 ! dp) div DIRENT_SIZE" using Cons.prems(3-5) se sv by simp_all
    from Cons.IH [OF t1(3) Cons.prems(2) this] show ?thesis using e False t1(4,5) unfolding se(2) by simp
  qed
qed

lemma find_map_entry: "find P (map f xs) = map_option f (find (\<lambda>x. P (f x)) xs)"
  by (induction xs) auto

lemma dirlookup_ok:
  fixes s :: "'a fsst_scheme"
  assumes "tx d me uid s L {}" "room L {} 0" "geo d s" "dir_ok d s dp"
  obtains off t where "tx d me uid t L {}" "bview d t = bview d s" "rest t = rest s"
    "dirlookup s me dp nm = (case dir_find d s dp nm of None \<Rightarrow> Ok (None, t)
       | Some n \<Rightarrow> bnd (iget t d n) (\<lambda>(i, s). Ok (Some (i, off), s)))"
proof -
  let ?n = "i_size (inodes s ! dp) div DIRENT_SIZE"
  have o: "file_ok d s dp" "i_type (inodes s ! dp) = T_DIR" "DIRENT_SIZE dvd i_size (inodes s ! dp)" using assms(4) by (auto simp: dir_ok_def)
  have "find (names nm) (entries d s dp) = map_option (entry d s dp) (find (\<lambda>k. names nm (entry d s dp k)) [0..<?n])"
    unfolding entries_def by (rule find_map_entry)
  moreover obtain t where "tx d me uid t L {}" "bview d t = bview d s" "rest t = rest s"
    "dirlookup_loop s me dp nm (map (\<lambda>k. k * DIRENT_SIZE) [0..<?n]) =
      (case find (\<lambda>k. names nm (entry d s dp k)) [0..<?n] of
         None \<Rightarrow> Ok (None, t)
       | Some k \<Rightarrow> bnd (iget t d (de_inum (entry d s dp k))) (\<lambda>(i, s). Ok (Some (i, k * DIRENT_SIZE), s)))"
    using dirlookup_loop_ok [OF assms(1-3) o(1), of "[0..<?n]" nm] by auto
  ultimately show thesis
    using o(2) by (intro that [of t "the (find (\<lambda>k. names nm (entry d s dp k)) [0..<?n]) * DIRENT_SIZE"])
      (auto simp: dirlookup_def dir_offsets_dvd [OF o(3)] dir_find_def split: option.splits)
qed

text \<open>The first empty entry.\<close>

lemma dirlink_loop_ok:
  fixes s :: "'a fsst_scheme"
  assumes "tx d me uid s L {}" "room L {} 0" "geo d s" "file_ok d s dp" "\<forall>k \<in> set ks. k < i_size (inodes s ! dp) div DIRENT_SIZE"
  shows "\<exists>t. tx d me uid t L {} \<and> bview d t = bview d s \<and> rest t = rest s \<and>
    dirlink_loop s me dp past (map (\<lambda>k. k * DIRENT_SIZE) ks) =
      Ok (case find (\<lambda>k. de_inum (entry d s dp k) = 0) ks of None \<Rightarrow> past | Some k \<Rightarrow> k * DIRENT_SIZE, t)"
  using assms
proof (induction ks arbitrary: s)
  case Nil
  then show ?case by (intro exI [of _ s]) simp
next
  case (Cons k ks)
  have k: "k < i_size (inodes s ! dp) div DIRENT_SIZE" using Cons.prems(5) by simp
  obtain bs t1 where t1: "readi s me dp BufDst (k * DIRENT_SIZE) DIRENT_SIZE = Ok (int DIRENT_SIZE, bs, t1)" "get_dirent bs = entry d s dp k"
      "tx d me uid t1 L {}" "bview d t1 = bview d s" "rest t1 = rest s"
    by (rule read_entry [OF Cons.prems(1-4) k]) blast
  note se = same_entries [OF t1(4,5)] and sv = same_view [OF t1(4,5)]
  show ?case
  proof (cases "de_inum (entry d s dp k) = 0")
    case True
    then show ?thesis using t1 by (intro exI [of _ t1]) simp
  next
    case False
    then have e: "dirlink_loop s me dp past (map (\<lambda>k. k * DIRENT_SIZE) (k # ks)) = dirlink_loop t1 me dp past (map (\<lambda>k. k * DIRENT_SIZE) ks)"
      using t1(1,2) by simp
    have "geo d t1" "file_ok d t1 dp" "\<forall>k \<in> set ks. k < i_size (inodes t1 ! dp) div DIRENT_SIZE" using Cons.prems(3-5) se sv by simp_all
    from Cons.IH [OF t1(3) Cons.prems(2) this] show ?thesis using e False t1(4,5) unfolding se(2) by simp
  qed
qed

section \<open>A new entry\<close>

lemma strncpy_dname [simp]: "dname (strncpy_name nm) = dname nm" "length (strncpy_name nm) = DIRSIZ"
proof -
  have l: "length (dname nm) \<le> DIRSIZ" using length_takeWhile_le [of "\<lambda>c. c \<noteq> 0" "take DIRSIZ nm"] by (simp add: dname_def)
  have nz: "c \<in> set (dname nm) \<Longrightarrow> c \<noteq> 0" for c by (auto simp: dname_def dest: set_takeWhileD)
  have "takeWhile (\<lambda>c. c \<noteq> 0) (take DIRSIZ (dname nm @ replicate DIRSIZ 0)) = dname nm"
    using l nz by (simp add: takeWhile_append2)
  moreover have "take DIRSIZ (strncpy_name nm) = take DIRSIZ (dname nm @ replicate DIRSIZ 0)" by (simp add: strncpy_name_def del: take_append)
  ultimately show "dname (strncpy_name nm) = dname nm" by (simp only: dname_def [of "strncpy_name nm"])
  show "length (strncpy_name nm) = DIRSIZ" by (simp add: strncpy_name_def)
qed

lemma dirent_roundtrip:
  assumes "n < 65536" "length nm = DIRSIZ"
  shows "get_dirent (dirent_bytes \<lparr>de_inum = n, de_name = nm\<rparr>) = \<lparr>de_inum = n, de_name = nm\<rparr>" "length (dirent_bytes \<lparr>de_inum = n, de_name = nm\<rparr>) = DIRENT_SIZE"
proof -
  have "get16 (put16 (replicate 2 0) 0 n @ nm) 0 = get16 (put16 (replicate 2 0) 0 n) 0" by (simp add: get16_def nth_append)
  also have "\<dots> = n" using get16_put16(1) [where b = "replicate 2 0" and p = 0 and v = n] assms(1) by simp
  finally show "get_dirent (dirent_bytes \<lparr>de_inum = n, de_name = nm\<rparr>) = \<lparr>de_inum = n, de_name = nm\<rparr>"
    using assms(2) by (simp add: get_dirent_def dirent_bytes_def)
  show "length (dirent_bytes \<lparr>de_inum = n, de_name = nm\<rparr>) = DIRENT_SIZE" using assms(2) by (simp add: dirent_bytes_def DIRENT_SIZE_def DIRSIZ_def)
qed

lemma nblk_entry: "nblk (k * DIRENT_SIZE) DIRENT_SIZE = 1"
proof -
  have "(k * 16 + 15) div 1024 = k * 16 div 1024"
    using div_mult2_eq [of "k * 16 + 15" 16 64] div_mult2_eq [of "k * 16" 16 64] by simp
  then show ?thesis by (simp add: nblk_def DIRENT_SIZE_def BSIZE_def)
qed

lemma take_drop_prefix: "a + n \<le> b \<Longrightarrow> b \<le> length c \<Longrightarrow> take n (drop a (take b c @ q)) = take n (drop a c)"
  by (rule nth_equalityI) (auto simp: nth_append)

text \<open>Sixteen bytes in their place make one entry.\<close>

lemma write_entry:
  assumes "length c = n * DIRENT_SIZE" "length bs = DIRENT_SIZE" "k \<le> n"
  defines "c' \<equiv> take (k * DIRENT_SIZE) c @ bs @ drop (k * DIRENT_SIZE + DIRENT_SIZE) c"
  shows "j \<noteq> k \<Longrightarrow> j < n \<Longrightarrow> take DIRENT_SIZE (drop (j * DIRENT_SIZE) c') = take DIRENT_SIZE (drop (j * DIRENT_SIZE) c)"
    "take DIRENT_SIZE (drop (k * DIRENT_SIZE) c') = bs" "length c' = (if k < n then n else n + 1) * DIRENT_SIZE"
proof -
  have k: "k * DIRENT_SIZE \<le> length c" using assms(1,3) by simp
  show "take DIRENT_SIZE (drop (k * DIRENT_SIZE) c') = bs" using k assms(2) by (simp add: c'_def min_def)
  show "length c' = (if k < n then n else n + 1) * DIRENT_SIZE" using assms(1-3) by (auto simp: c'_def DIRENT_SIZE_def)
  assume j: "j \<noteq> k" "j < n"
  show "take DIRENT_SIZE (drop (j * DIRENT_SIZE) c') = take DIRENT_SIZE (drop (j * DIRENT_SIZE) c)"
  proof (cases "j < k")
    case True
    then have "j * DIRENT_SIZE + DIRENT_SIZE \<le> k * DIRENT_SIZE" by (simp add: DIRENT_SIZE_def)
    then show ?thesis unfolding c'_def by (rule take_drop_prefix [OF _ k])
  next
    case False
    then have "k < j" using j(1) by simp
    then have m: "j * DIRENT_SIZE = k * DIRENT_SIZE + DIRENT_SIZE + (j - k - 1) * DIRENT_SIZE" by (simp add: DIRENT_SIZE_def)
    show ?thesis using k assms(2) unfolding m by (simp add: c'_def min_def ac_simps)
  qed
qed

lemma find_append: "find P (xs @ ys) = (case find P xs of None \<Rightarrow> find P ys | Some x \<Rightarrow> Some x)"
  by (induction xs) auto

lemma find_update:
  "k < length xs \<Longrightarrow> find P xs = None \<Longrightarrow> P e \<Longrightarrow> find P (xs[k := e]) = Some e"
  "k < length xs \<Longrightarrow> \<not> P (xs ! k) \<Longrightarrow> \<not> P e \<Longrightarrow> find P (xs[k := e]) = find P xs"
proof (induction xs arbitrary: k)
  case (Cons x xs)
  {
    case 1
    then show ?case using Cons.IH(1) by (cases k) (auto split: if_splits)
  next
    case 2
    then show ?case using Cons.IH(2) by (cases k) auto
  }
qed simp_all

lemma find_index_le: "find P [0..<n] = Some k \<Longrightarrow> k < n \<and> P k"
  by (auto simp: find_Some_iff)

lemma dirlink_ok:
  fixes s :: "'a fsst_scheme"
  assumes "tx d me uid s L {}" "room L {} 7" "geo d s" "dir_ok d s dp" "i_size (inodes s ! dp) + DIRENT_SIZE \<le> MAXFILE * BSIZE"
    "0 < inum" "inum < 65536" "dir_find d s dp nm = None"
  obtains (full) t where "dirlink s me dp nm inum = Ok (-1, t)" "\<forall>b < sb_size (sb s). bused d t b"
  | (linked) t L' where "dirlink s me dp nm inum = Ok (0, t)" "tx d me uid t L' {}" "room L' {} 0" "geo d t" "dir_ok d t dp"
      "\<And>nm'. dir_find d t dp nm' = (if dname nm' = dname nm then Some inum else dir_find d s dp nm')"
proof -
  let ?z = "i_size (inodes s ! dp)"
  have o: "file_ok d s dp" "i_type (inodes s ! dp) = T_DIR" "DIRENT_SIZE dvd ?z" using assms(4) by (auto simp: dir_ok_def)
  define n where "n = ?z div DIRENT_SIZE"
  have z: "?z = n * DIRENT_SIZE" using o(3) by (simp add: n_def)
  have rm: "room L {} 0" using assms(2) by (simp add: room_def)
  obtain t1 where t1: "tx d me uid t1 L {}" "bview d t1 = bview d s" "rest t1 = rest s" "dirlookup s me dp nm = Ok (None, t1)"
    using dirlookup_ok [OF assms(1) rm assms(3,4), of nm] assms(8) by auto
  note se1 = same_entries [OF t1(2,3)] and sv1 = same_view [OF t1(2,3)]
  have p1: "geo d t1" "file_ok d t1 dp" "\<forall>k \<in> set [0..<n]. k < i_size (inodes t1 ! dp) div DIRENT_SIZE" using assms(3) o(1) se1 sv1 by (simp_all add: n_def)
  obtain t2 where t2: "tx d me uid t2 L {}" "bview d t2 = bview d t1" "rest t2 = rest t1"
      "dirlink_loop t1 me dp (n * DIRENT_SIZE) (map (\<lambda>k. k * DIRENT_SIZE) [0..<n]) =
        Ok (case find (\<lambda>k. de_inum (entry d t1 dp k) = 0) [0..<n] of None \<Rightarrow> n * DIRENT_SIZE | Some k \<Rightarrow> k * DIRENT_SIZE, t2)"
    using dirlink_loop_ok [OF t1(1) rm p1, of "n * DIRENT_SIZE"] by blast
  have s2: "bview d t2 = bview d s" "rest t2 = rest s" using t1(2,3) t2(2,3) by simp_all
  note se2 = same_entries [OF s2] and sv2 = same_view [OF s2]
  define k where "k = (case find (\<lambda>k. de_inum (entry d s dp k) = 0) [0..<n] of None \<Rightarrow> n | Some k \<Rightarrow> k)"
  have k: "k \<le> n" "k < n \<Longrightarrow> de_inum (entry d s dp k) = 0"
    by (cases "find (\<lambda>k. de_inum (entry d s dp k) = 0) [0..<n]"; auto simp: k_def dest: find_index_le)+
  have ko: "(case find (\<lambda>k. de_inum (entry d t1 dp k) = 0) [0..<n] of None \<Rightarrow> n * DIRENT_SIZE | Some k \<Rightarrow> k * DIRENT_SIZE) = k * DIRENT_SIZE"
    unfolding se1 k_def by (auto split: option.splits)
  define e where "e = \<lparr>de_inum = inum, de_name = strncpy_name nm\<rparr>"
  note dr = dirent_roundtrip [OF assms(7) strncpy_dname(2) [of nm], folded e_def]
  have p2: "room L {} (6 * nblk (k * DIRENT_SIZE) DIRENT_SIZE + 1)" "geo d t2" "file_ok d t2 dp" "k * DIRENT_SIZE \<le> i_size (inodes t2 ! dp)"
    "k * DIRENT_SIZE + DIRENT_SIZE \<le> MAXFILE * BSIZE" "DIRENT_SIZE \<le> length (dirent_bytes e)"
    using assms(2,3,5) o(1) se2 sv2 z k(1) dr(2) by (simp_all add: nblk_entry) (simp add: DIRENT_SIZE_def)
  obtain w t L' where t: "writei t2 me dp (BufSrc (dirent_bytes e)) (k * DIRENT_SIZE) DIRENT_SIZE = Ok (int w, t)" "w \<le> DIRENT_SIZE"
      "w < DIRENT_SIZE \<Longrightarrow> \<forall>b < sb_size (sb t2). bused d t b" "tx d me uid t L' {}" "length L' \<le> length L + 7" "geo d t" "file_ok d t dp"
      "content d t dp = take (k * DIRENT_SIZE) (content d t2 dp) @ take w (dirent_bytes e) @ drop (k * DIRENT_SIZE + w) (content d t2 dp)"
      "i_type (inodes t ! dp) = i_type (inodes t2 ! dp)"
    by (rule writei_ok [OF t2(1) p2]) (simp add: nblk_entry)
  have i1: "inodes t1 = inodes s" by (rule se1(4))
  have dl: "dirlink s me dp nm inum = Ok (if w \<noteq> DIRENT_SIZE then -1 else 0, t)"
    using t1(4) t2(4) t(1) unfolding ko by (simp add: dirlink_def dir_offsets_dvd [OF o(3)] i1 n_def [symmetric] e_def Let_def)
  show thesis
  proof (cases "w = DIRENT_SIZE")
    case False
    then show thesis using dl t(2,3) rest_fs(1) [OF s2(2)] by (intro full [of t]) auto
  next
    case True
    have c: "content d t dp = take (k * DIRENT_SIZE) (content d s dp) @ dirent_bytes e @ drop (k * DIRENT_SIZE + DIRENT_SIZE) (content d s dp)"
      using t(8) True dr(2) se2(1) by simp
    note w = write_entry [OF _ dr(2) k(1), of "content d s dp", folded c, unfolded length_content, OF z]
    have ek: "entry d t dp k = e" using w(2) dr(1) by (simp add: entry_def)
    have ej: "entry d t dp j = entry d s dp j" if "j \<noteq> k" "j < n" for j using w(1) [OF that] by (simp add: entry_def)
    have nn: "i_size (inodes t ! dp) div DIRENT_SIZE = (if k < n then n else n + 1)" using w(3) by (simp add: DIRENT_SIZE_def)
    have es: "entries d t dp = (if k < n then (entries d s dp)[k := e] else entries d s dp @ [e])"
      using ek ej k(1) unfolding entries_def nn n_def [symmetric] by (auto intro!: nth_equalityI simp: nth_list_update)
    have len: "length (entries d s dp) = n" by (simp add: entries_def n_def)
    have none: "find (names nm) (entries d s dp) = None" using assms(8) by (simp add: dir_find_def)
    have df: "dir_find d t dp nm' = (if dname nm' = dname nm then Some inum else dir_find d s dp nm')" for nm'
    proof -
      have m: "names nm' e \<longleftrightarrow> dname nm' = dname nm" using assms(6) by (simp add: names_def e_def namecmp_def)
      have ne: "\<not> names nm' (entries d s dp ! k)" if "k < n" using k(2) [OF that] that by (simp add: names_def entries_def n_def [symmetric])
      have "dname nm' = dname nm \<Longrightarrow> names nm' = names nm" by (auto simp: names_def namecmp_def fun_eq_iff)
      then show ?thesis
        using m ne none len find_update [of k "entries d s dp" "names nm'" e] unfolding dir_find_def es
        by (cases "dname nm' = dname nm"; cases "k < n") (auto simp: find_append e_def split: option.splits)
    qed
    have "dir_ok d t dp" using t(7,9) w(3) o(2) se2(4) by (simp add: dir_ok_def DIRENT_SIZE_def)
    moreover have "room L' {} 0" using assms(2) t(5) by (simp add: room_def)
    ultimately show thesis using dl True t(4,6) df by (intro linked [of t L']) simp_all
  qed
qed

text \<open>C7: \<open>dirlink\<close> and \<open>dirlookup\<close> implement directories. Inside a transaction with room in the log,
  \<open>dirlink\<close> of a name the directory does not have, with a non-zero inode number, either returns -1 with the
  disk full, or returns 0 and the directory is the former map with this name bound to the number, and no
  other changed; \<open>dirlookup\<close> then returns, for every name, the inode of the number the map has for it, or
  nothing. Names are compared up to 14 bytes or their terminator.\<close>

theorem dirlink_dirlookup:
  assumes "tx d me uid s L {}" "room L {} 7" "geo d s" "dir_ok d s dp" "i_size (inodes s ! dp) + DIRENT_SIZE \<le> MAXFILE * BSIZE"
    "0 < inum" "inum < 65536" "dir_find d s dp nm = None"
  shows "\<exists>r t. dirlink s me dp nm inum = Ok (r, t) \<and> (r = 0 \<or> r = -1 \<and> (\<forall>b < sb_size (sb s). bused d t b)) \<and>
    (r = 0 \<longrightarrow> dir_ok d t dp \<and> dir_find d t dp = (\<lambda>nm'. if dname nm' = dname nm then Some inum else dir_find d s dp nm') \<and>
      (\<forall>nm'. \<exists>u off. bview d u = bview d t \<and> dirlookup t me dp nm' = (case dir_find d t dp nm' of None \<Rightarrow> Ok (None, u)
        | Some n \<Rightarrow> bnd (iget u d n) (\<lambda>(i, s). Ok (Some (i, off), s)))))"
proof (cases rule: dirlink_ok [OF assms])
  case (1 t)
  then show ?thesis by (intro exI [of _ "-1"] exI [of _ t]) simp
next
  case (2 t L')
  have "\<exists>u off. bview d u = bview d t \<and> dirlookup t me dp nm' = (case dir_find d t dp nm' of None \<Rightarrow> Ok (None, u)
      | Some n \<Rightarrow> bnd (iget u d n) (\<lambda>(i, s). Ok (Some (i, off), s)))" for nm'
    by (rule dirlookup_ok [OF 2(2-5), of nm']) blast
  then show ?thesis using 2(1,5) 2(6) by (intro exI [of _ 0] exI [of _ t]) (simp add: fun_eq_iff)
qed

text \<open>An empty directory on the disk of the example.\<close>

definition dir_ex :: fsst where
  "dir_ex = set_inode fs_ex 0 (\<lambda>ip. ip\<lparr>i_type := T_DIR\<rparr>)"

lemma dir_ex_ok: "tx 1 0 1 dir_ex [] {}" "geo 1 dir_ex" "dir_ok 1 dir_ex 0" "i_size (inodes dir_ex ! 0) = 0"
proof -
  have i: "inodes dir_ex ! 0 = (inodes fs_ex ! 0)\<lparr>i_type := T_DIR\<rparr>" "length (inodes dir_ex) = length (inodes fs_ex)" "sb dir_ex = sb fs_ex"
    by (simp_all add: dir_ex_def set_inode_def fs_ex_def fsst_ex_simps)
  show "tx 1 0 1 dir_ex [] {}" "geo 1 dir_ex" using fs_ex_ok(1,2) by (simp_all add: dir_ex_def del: One_nat_def)
  have v: "bview 1 dir_ex = bview 1 fs_ex" "bused 1 dir_ex = bused 1 fs_ex" "dstart dir_ex = dstart fs_ex" by (simp_all add: dir_ex_def del: One_nat_def)
  have "slot 1 dir_ex 0 = slot 1 fs_ex 0" by (simp add: fun_eq_iff slot_def i v del: One_nat_def)
  then show "dir_ok 1 dir_ex 0" using fs_ex_ok(3) i v by (simp add: dir_ok_def file_ok_def inode_ok_def del: One_nat_def) (simp add: fs_ex_def fsst_ex_simps)
  show "i_size (inodes dir_ex ! 0) = 0" by (simp add: i) (simp add: fs_ex_def fsst_ex_simps)
qed

theorem dirlink_dirlookup_witness:
  "\<exists>r t. dirlink dir_ex 0 0 [97] 5 = Ok (r, t) \<and> (r = 0 \<or> r = -1) \<and> (r = -1 \<or> dir_find 1 t 0 [97] = Some 5 \<and> dir_find 1 t 0 [98] = None)"
proof -
  have e: "entries 1 dir_ex 0 = []" by (simp add: entries_def dir_ex_ok(4))
  have f: "dir_find 1 dir_ex 0 [97] = None" by (simp add: dir_find_def e del: One_nat_def)
  have "room [] {} 7" by (simp add: room_def NBUF_def MAXOPBLOCKS_def)
  moreover have "i_size (inodes dir_ex ! 0) + DIRENT_SIZE \<le> MAXFILE * BSIZE"
    by (simp add: dir_ex_ok(4) DIRENT_SIZE_def MAXFILE_def NDIRECT_def NINDIRECT_def BSIZE_def)
  ultimately obtain r t where "dirlink dir_ex 0 0 [97] 5 = Ok (r, t)" "r = 0 \<or> r = -1"
      "r = 0 \<Longrightarrow> dir_find 1 t 0 = (\<lambda>nm'. if dname nm' = dname [97] then Some 5 else dir_find 1 dir_ex 0 nm')"
    using dirlink_dirlookup [OF dir_ex_ok(1) _ dir_ex_ok(2,3), of 5 "[97]"] f by auto
  then show ?thesis by (intro exI [of _ r] exI [of _ t]) (auto simp: dname_def DIRSIZ_def dir_find_def [of _ dir_ex] e simp del: One_nat_def)
qed

end
