(* ===== verification/Spinlock.thy ===== *)
theory Spinlock
  imports Prelude
begin

text \<open>
  Spin locks (\<open>kernel/spinlock.c\<close>) and the interrupt-enable bit they manipulate
  (\<open>intr_on\<close>, \<open>intr_off\<close>, \<open>intr_get\<close> of \<open>kernel/riscv.h\<close>). A CPU and a lock are named by
  numbers. \<open>acquire\<close> spins on an atomic exchange; run alone it returns exactly when the lock is
  free, so it is a partial function.

  The second half interleaves any number of CPUs. The C routines are cut at the points where
  another CPU can observe the memory (entry, each exchange, recording the owner, clearing the
  owner, the releasing store), and every reachable state satisfies an invariant that gives mutual
  exclusion and the interrupt discipline.
\<close>

section \<open>Definitions\<close>

record cpu_s =
  noff :: int         \<comment> \<open>depth of \<open>push_off\<close> nesting\<close>
  intena :: bool      \<comment> \<open>were interrupts enabled before \<open>push_off\<close>?\<close>
  sie :: bool         \<comment> \<open>the hart's \<open>SSTATUS_SIE\<close> bit\<close>

record spinlock =
  locked :: bool
  lk_name :: string
  lk_cpu :: "nat option"

record lkst =
  cpus :: "nat \<Rightarrow> cpu_s"
  locks :: "nat \<Rightarrow> spinlock"

definition set_cpu :: "'a lkst_scheme \<Rightarrow> nat \<Rightarrow> (cpu_s \<Rightarrow> cpu_s) \<Rightarrow> 'a lkst_scheme" where
  "set_cpu s c f = s\<lparr>cpus := (cpus s)(c := f (cpus s c))\<rparr>"

definition set_lock :: "'a lkst_scheme \<Rightarrow> nat \<Rightarrow> (spinlock \<Rightarrow> spinlock) \<Rightarrow> 'a lkst_scheme" where
  "set_lock s l f = s\<lparr>locks := (locks s)(l := f (locks s l))\<rparr>"

definition intr_on :: "'a lkst_scheme \<Rightarrow> nat \<Rightarrow> 'a lkst_scheme" where
  "intr_on s c = set_cpu s c (\<lambda>x. x\<lparr>sie := True\<rparr>)"

definition intr_off :: "'a lkst_scheme \<Rightarrow> nat \<Rightarrow> 'a lkst_scheme" where
  "intr_off s c = set_cpu s c (\<lambda>x. x\<lparr>sie := False\<rparr>)"

definition intr_get :: "'a lkst_scheme \<Rightarrow> nat \<Rightarrow> bool" where
  "intr_get s c = sie (cpus s c)"

definition initlock :: "'a lkst_scheme \<Rightarrow> nat \<Rightarrow> string \<Rightarrow> 'a lkst_scheme" where
  "initlock s l name = set_lock s l (\<lambda>_. \<lparr>locked = False, lk_name = name, lk_cpu = None\<rparr>)"

definition holding :: "'a lkst_scheme \<Rightarrow> nat \<Rightarrow> nat \<Rightarrow> bool" where
  "holding s c l \<longleftrightarrow> locked (locks s l) \<and> lk_cpu (locks s l) = Some c"

definition push_off :: "'a lkst_scheme \<Rightarrow> nat \<Rightarrow> 'a lkst_scheme" where
  "push_off s c =
     (let old = intr_get s c;
          s1 = intr_off s c;
          s2 = (if noff (cpus s1 c) = 0 then set_cpu s1 c (\<lambda>x. x\<lparr>intena := old\<rparr>) else s1)
      in set_cpu s2 c (\<lambda>x. x\<lparr>noff := noff x + 1\<rparr>))"

definition pop_off :: "'a lkst_scheme \<Rightarrow> nat \<Rightarrow> 'a lkst_scheme res" where
  "pop_off s c =
     (if intr_get s c then Panic ''pop_off - interruptible''
      else if noff (cpus s c) < 1 then Panic ''pop_off''
      else let s1 = set_cpu s c (\<lambda>x. x\<lparr>noff := noff x - 1\<rparr>) in
           Ok (if noff (cpus s1 c) = 0 \<and> intena (cpus s1 c) then intr_on s1 c else s1))"

text \<open>\<open>acquire\<close> in the pieces between which other CPUs can run.\<close>

definition acquire_enter :: "'a lkst_scheme \<Rightarrow> nat \<Rightarrow> nat \<Rightarrow> 'a lkst_scheme res" where
  "acquire_enter s c l =
     (let s1 = push_off s c in if holding s1 c l then Panic ''acquire'' else Ok s1)"

definition acquire_swap :: "'a lkst_scheme \<Rightarrow> nat \<Rightarrow> bool \<times> 'a lkst_scheme" where
  "acquire_swap s l = (locked (locks s l), set_lock s l (\<lambda>x. x\<lparr>locked := True\<rparr>))"

definition acquire_record :: "'a lkst_scheme \<Rightarrow> nat \<Rightarrow> nat \<Rightarrow> 'a lkst_scheme" where
  "acquire_record s c l = set_lock s l (\<lambda>x. x\<lparr>lk_cpu := Some c\<rparr>)"

partial_function (option) acquire_spin ::
    "'a lkst_scheme \<Rightarrow> nat \<Rightarrow> 'a lkst_scheme option" where
  "acquire_spin s l = (case acquire_swap s l of (old, s') \<Rightarrow> if old then acquire_spin s' l else Some s')"

definition acquire :: "'a lkst_scheme \<Rightarrow> nat \<Rightarrow> nat \<Rightarrow> 'a lkst_scheme res option" where
  "acquire s c l =
     (case acquire_enter s c l of
        Ok s1 \<Rightarrow> map_option (\<lambda>s2. Ok (acquire_record s2 c l)) (acquire_spin s1 l)
      | e \<Rightarrow> Some e)"

text \<open>\<open>release\<close>, likewise.\<close>

definition release_enter :: "'a lkst_scheme \<Rightarrow> nat \<Rightarrow> nat \<Rightarrow> 'a lkst_scheme res" where
  "release_enter s c l =
     (if \<not> holding s c l then Panic ''release''
      else Ok (set_lock s l (\<lambda>x. x\<lparr>lk_cpu := None\<rparr>)))"

definition release_store :: "'a lkst_scheme \<Rightarrow> nat \<Rightarrow> nat \<Rightarrow> 'a lkst_scheme res" where
  "release_store s c l = pop_off (set_lock s l (\<lambda>x. x\<lparr>locked := False\<rparr>)) c"

definition release :: "'a lkst_scheme \<Rightarrow> nat \<Rightarrow> nat \<Rightarrow> 'a lkst_scheme res" where
  "release s c l = bnd (release_enter s c l) (\<lambda>s. release_store s c l)"

subsection \<open>CPUs running side by side\<close>

text \<open>Where a CPU is: outside the lock code, spinning in \<open>acquire\<close>, past its winning exchange, or
  in \<open>release\<close> before the store. \<open>held\<close> records the locks whose \<open>acquire\<close> has returned and whose
  \<open>release\<close> has not been called.\<close>

datatype lpc = Run | AcqSpin nat | AcqGot nat | RelMid nat

record lksys = lkst +
  pc :: "nat \<Rightarrow> lpc"
  held :: "nat \<Rightarrow> nat set"

definition set_pc :: "lksys \<Rightarrow> nat \<Rightarrow> lpc \<Rightarrow> lksys" where
  "set_pc s c p = s\<lparr>pc := (pc s)(c := p)\<rparr>"

inductive lk_step :: "lksys \<Rightarrow> lksys \<Rightarrow> bool" where
  acq_begin: "pc s c = Run \<Longrightarrow> acquire_enter s c l = Ok s1 \<Longrightarrow> lk_step s (set_pc s1 c (AcqSpin l))"
| acq_fail: "pc s c = AcqSpin l \<Longrightarrow> acquire_swap s l = (True, s1) \<Longrightarrow> lk_step s s1"
| acq_win: "pc s c = AcqSpin l \<Longrightarrow> acquire_swap s l = (False, s1) \<Longrightarrow>
     lk_step s (set_pc s1 c (AcqGot l))"
| acq_done: "pc s c = AcqGot l \<Longrightarrow> s1 = acquire_record s c l \<Longrightarrow>
     lk_step s ((set_pc s1 c Run)\<lparr>held := (held s)(c := insert l (held s c))\<rparr>)"
| rel_begin: "pc s c = Run \<Longrightarrow> release_enter s c l = Ok s1 \<Longrightarrow>
     lk_step s ((set_pc s1 c (RelMid l))\<lparr>held := (held s)(c := held s c - {l})\<rparr>)"
| rel_done: "pc s c = RelMid l \<Longrightarrow> release_store s c l = Ok s1 \<Longrightarrow> lk_step s (set_pc s1 c Run)"
| irq_on: "pc s c = Run \<Longrightarrow> noff (cpus s c) = 0 \<Longrightarrow> lk_step s (intr_on s c)"
| irq_off: "pc s c = Run \<Longrightarrow> lk_step s (intr_off s c)"

definition lk_init :: lksys where
  "lk_init = \<lparr>cpus = (\<lambda>_. \<lparr>noff = 0, intena = False, sie = False\<rparr>),
              locks = (\<lambda>_. \<lparr>locked = False, lk_name = [], lk_cpu = None\<rparr>),
              pc = (\<lambda>_. Run), held = (\<lambda>_. {})\<rparr>"

inductive lk_reachable :: "lksys \<Rightarrow> bool" where
  start: "lk_reachable lk_init"
| step: "lk_reachable s \<Longrightarrow> lk_step s t \<Longrightarrow> lk_reachable t"

section \<open>The routines run alone\<close>

lemmas lk_ops = set_cpu_def set_lock_def set_pc_def intr_on_def intr_off_def intr_get_def
  push_off_def pop_off_def holding_def acquire_enter_def acquire_swap_def acquire_record_def
  release_enter_def release_store_def

lemma push_off_eq:
  "push_off s c = s\<lparr>cpus := (cpus s)(c := \<lparr>noff = noff (cpus s c) + 1,
     intena = (if noff (cpus s c) = 0 then sie (cpus s c) else intena (cpus s c)), sie = False\<rparr>)\<rparr>"
  by (cases "cpus s c") (simp add: push_off_def set_cpu_def intr_get_def intr_off_def Let_def)

lemma pop_off_eq_Ok:
  "pop_off s c = Ok t \<longleftrightarrow> \<not> sie (cpus s c) \<and> 1 \<le> noff (cpus s c) \<and>
     t = s\<lparr>cpus := (cpus s)(c := \<lparr>noff = noff (cpus s c) - 1, intena = intena (cpus s c),
            sie = (noff (cpus s c) = 1 \<and> intena (cpus s c))\<rparr>)\<rparr>"
  by (cases "cpus s c") (auto simp: pop_off_def set_cpu_def intr_get_def intr_on_def Let_def)

lemma acquire_spin_free:
  "\<not> locked (locks s l) \<Longrightarrow> acquire_spin s l = Some (set_lock s l (\<lambda>x. x\<lparr>locked := True\<rparr>))"
  by (simp add: acquire_spin.simps [of s l] acquire_swap_def)

lemma acquire_swap_held:
  fixes s :: "'a lkst_scheme"
  assumes "locked (locks s l)"
  shows "acquire_swap s l = (True, s)"
proof -
  have "(locks s l)\<lparr>locked := True\<rparr> = locks s l" using assms by (cases "locks s l") simp
  then have "(locks s)(l := (locks s l)\<lparr>locked := True\<rparr>) = locks s" by (rule fun_upd_idem [OF sym])
  then show ?thesis unfolding acquire_swap_def set_lock_def using assms by (simp only:) simp
qed

lemma acquire_spin_None:
  assumes "acquire_spin s l = Some t"
  shows "\<not> locked (locks s l)"
proof (rule acquire_spin.raw_induct [where P = "\<lambda>s l t. \<not> locked (locks s l)", OF _ assms])
  fix f and s t :: "'a lkst_scheme" and l
  assume IH: "\<And>s l t. f s l = Some t \<Longrightarrow> \<not> locked (locks (s :: 'a lkst_scheme) l)"
    and eq: "(case acquire_swap s l of (old, s') \<Rightarrow> if old then f s' l else Some s') = Some t"
  show "\<not> locked (locks s l)"
  proof
    assume "locked (locks s l)"
    with eq have "f (set_lock s l (\<lambda>x. x\<lparr>locked := True\<rparr>)) l = Some t"
      by (simp add: acquire_swap_def)
    from IH [OF this] show False by (simp add: set_lock_def)
  qed
qed

section \<open>The invariant of the interleaved system\<close>

definition lk_own :: "lksys \<Rightarrow> nat \<Rightarrow> nat \<Rightarrow> bool" where
  "lk_own s c l \<longleftrightarrow> lk_cpu (locks s l) = Some c \<or> pc s c = AcqGot l \<or> pc s c = RelMid l"

definition own_inv :: "lksys \<Rightarrow> bool" where
  "own_inv s \<longleftrightarrow>
     (\<forall>l. locked (locks s l) \<longleftrightarrow> (\<exists>c. lk_own s c l)) \<and>
     (\<forall>c d l. lk_own s c l \<longrightarrow> lk_own s d l \<longrightarrow> c = d) \<and>
     (\<forall>c l. l \<in> held s c \<longleftrightarrow> lk_cpu (locks s l) = Some c) \<and>
     (\<forall>c l. l \<in> held s c \<longrightarrow> pc s c \<noteq> AcqGot l \<and> pc s c \<noteq> RelMid l)"

definition cpu_inv :: "lksys \<Rightarrow> bool" where
  "cpu_inv s \<longleftrightarrow>
     (\<forall>c. finite (held s c) \<and>
          noff (cpus s c) = int (card (held s c)) + (if pc s c = Run then 0 else 1) \<and>
          (sie (cpus s c) \<longrightarrow> noff (cpus s c) = 0))"

lemma own_inv_init: "own_inv lk_init"
  by (simp add: own_inv_def lk_own_def lk_init_def)

lemma cpu_inv_init: "cpu_inv lk_init"
  by (simp add: cpu_inv_def lk_init_def)

lemma own_invD:
  assumes "own_inv s"
  shows "locked (locks s l) \<longleftrightarrow> (\<exists>c. lk_own s c l)"
    and "lk_own s c l \<Longrightarrow> lk_own s d l \<Longrightarrow> c = d"
    and "l \<in> held s c \<longleftrightarrow> lk_cpu (locks s l) = Some c"
    and "l \<in> held s c \<Longrightarrow> pc s c \<noteq> AcqGot l \<and> pc s c \<noteq> RelMid l"
  using assms unfolding own_inv_def by blast+

text \<open>A step that changes the state of one lock \<open>l\<close> keeps the invariant when it keeps it for
  \<open>l\<close> and changes no CPU's claim on another lock.\<close>

lemma own_inv_frame:
  assumes inv: "own_inv s"
    and oth: "\<And>d k. k \<noteq> l \<Longrightarrow> lk_own t d k = lk_own s d k"
    and lks: "\<And>k. k \<noteq> l \<Longrightarrow> locks t k = locks s k"
    and hld: "\<And>d k. k \<noteq> l \<Longrightarrow> k \<in> held t d \<longleftrightarrow> k \<in> held s d"
    and pcs: "\<And>d k. k \<noteq> l \<Longrightarrow> pc t d = AcqGot k \<or> pc t d = RelMid k \<Longrightarrow>
                pc s d = AcqGot k \<or> pc s d = RelMid k"
    and l1: "locked (locks t l) \<longleftrightarrow> (\<exists>c. lk_own t c l)"
    and l2: "\<And>c d. lk_own t c l \<Longrightarrow> lk_own t d l \<Longrightarrow> c = d"
    and l3: "\<And>c. l \<in> held t c \<longleftrightarrow> lk_cpu (locks t l) = Some c"
    and l4: "\<And>c. l \<in> held t c \<Longrightarrow> pc t c \<noteq> AcqGot l \<and> pc t c \<noteq> RelMid l"
  shows "own_inv t"
proof -
  have "locked (locks t k) \<longleftrightarrow> (\<exists>c. lk_own t c k)" for k
    using own_invD(1) [OF inv, of k] oth [of k] lks [of k] l1 by (cases "k = l") auto
  moreover have "c = d" if "lk_own t c k" "lk_own t d k" for c d k
    using that own_invD(2) [OF inv, of c k d] oth [of k] l2 by (cases "k = l") auto
  moreover have "k \<in> held t c \<longleftrightarrow> lk_cpu (locks t k) = Some c" for c k
    using own_invD(3) [OF inv, of k c] hld [of k] lks [of k] l3 by (cases "k = l") auto
  moreover have "pc t c \<noteq> AcqGot k \<and> pc t c \<noteq> RelMid k" if "k \<in> held t c" for c k
    using that own_invD(4) [OF inv, of k c] hld [of k] pcs [of k] l4 by (cases "k = l") auto
  ultimately show ?thesis unfolding own_inv_def by blast
qed

lemma own_inv_set_cpu: "own_inv (set_cpu s c f) = own_inv s"
  by (simp add: own_inv_def lk_own_def set_cpu_def)

lemma own_inv_step:
  assumes "lk_step s t" and "own_inv s"
  shows "own_inv t"
  using assms
proof (induction rule: lk_step.induct)
  case (acq_begin s c l s1)
  then have "locks s1 = locks s" "pc s1 = pc s" "held s1 = held s"
    by (auto simp: lk_ops Let_def split: if_splits)
  note s1 = this
  then have own: "lk_own (set_pc s1 c (AcqSpin l)) = lk_own s"
    using acq_begin(1) by (auto simp: set_pc_def lk_own_def fun_eq_iff)
  show ?case
    using own s1 acq_begin(1) own_invD(1,3,4) [OF acq_begin(3)]
    by (intro own_inv_frame [OF acq_begin(3), of l])
      (auto simp: set_pc_def dest: own_invD(2) [OF acq_begin(3)] split: if_splits)
next
  case (acq_fail s c l s1)
  then have "s1 = s" using acquire_swap_held [of s l] by (simp add: acquire_swap_def)
  with acq_fail show ?case by simp
next
  case (acq_win s c l s1)
  have free: "\<not> locked (locks s l)" and s1: "s1 = set_lock s l (\<lambda>x. x\<lparr>locked := True\<rparr>)"
    using acq_win(2) by (auto simp: acquire_swap_def)
  then have "\<not> lk_own s d l" for d using own_invD(1) [OF acq_win(3)] by blast
  then have "lk_cpu (locks s l) \<noteq> Some d \<and> pc s d \<noteq> AcqGot l \<and> pc s d \<noteq> RelMid l" for d
    by (auto simp: lk_own_def)
  with s1 own_invD(3) [OF acq_win(3)] acq_win(1) show ?case
    by (intro own_inv_frame [OF acq_win(3), of l])
      (auto simp: set_pc_def lk_own_def set_lock_def split: if_splits)
next
  case (acq_done s c l s1)
  have own: "lk_own s c l" using acq_done(1) by (simp add: lk_own_def)
  then have only: "d = c" if "lk_own s d l" for d
    using own_invD(2) [OF acq_done(3)] that by blast
  then have no: "pc s d \<noteq> AcqGot l \<and> pc s d \<noteq> RelMid l" if "d \<noteq> c" for d
    using that by (auto simp: lk_own_def)
  have lk: "locked (locks s l)" using own own_invD(1) [OF acq_done(3)] by blast
  have nh: "l \<notin> held s d" for d
    using only [of d] own_invD(3,4) [OF acq_done(3), of l d] acq_done(1) by (auto simp: lk_own_def)
  show ?case
    using acq_done(1,2) no nh lk own_invD(3) [OF acq_done(3)]
    by (intro own_inv_frame [OF acq_done(3), of l])
      (auto simp: set_pc_def lk_own_def set_lock_def acquire_record_def split: if_splits)
next
  case (rel_begin s c l s1)
  have h: "locked (locks s l)" "lk_cpu (locks s l) = Some c"
    and s1: "s1 = set_lock s l (\<lambda>x. x\<lparr>lk_cpu := None\<rparr>)"
    using rel_begin(2) by (auto simp: lk_ops split: if_splits)
  have only: "d = c" if "lk_own s d l" for d
    using own_invD(2) [OF rel_begin(3), of d l c] that h by (simp add: lk_own_def)
  then have no: "pc s d \<noteq> AcqGot l \<and> pc s d \<noteq> RelMid l" if "d \<noteq> c" for d
    using that by (auto simp: lk_own_def)
  show ?case
    using rel_begin(1) s1 no h own_invD(3) [OF rel_begin(3)]
    by (intro own_inv_frame [OF rel_begin(3), of l])
      (auto simp: set_pc_def lk_own_def set_lock_def split: if_splits)
next
  case (rel_done s c l s1)
  have own: "lk_own s c l" using rel_done(1) by (simp add: lk_own_def)
  then have only: "d = c" if "lk_own s d l" for d
    using own_invD(2) [OF rel_done(3)] that by blast
  have no: "lk_cpu (locks s l) = None"
    using only own_invD(3,4) [OF rel_done(3), of l c] rel_done(1)
    by (cases "lk_cpu (locks s l)") (auto simp: lk_own_def)
  have s1: "locks s1 = (locks s)(l := (locks s l)\<lparr>locked := False\<rparr>)" "pc s1 = pc s" "held s1 = held s"
    using rel_done(2) by (auto simp: lk_ops Let_def split: if_splits)
  have none: "pc s d \<noteq> AcqGot l \<and> pc s d \<noteq> RelMid l" if "d \<noteq> c" for d
    using that only by (auto simp: lk_own_def)
  show ?case
    using rel_done(1) s1 no none own_invD(3) [OF rel_done(3)]
    by (intro own_inv_frame [OF rel_done(3), of l])
      (auto simp: set_pc_def lk_own_def split: if_splits)
qed (simp_all add: intr_on_def intr_off_def own_inv_set_cpu)

definition cpu_ok :: "lksys \<Rightarrow> nat \<Rightarrow> bool" where
  "cpu_ok s c \<longleftrightarrow> finite (held s c) \<and>
     noff (cpus s c) = int (card (held s c)) + (if pc s c = Run then 0 else 1) \<and>
     (sie (cpus s c) \<longrightarrow> noff (cpus s c) = 0)"

lemma cpu_inv_ok: "cpu_inv s \<longleftrightarrow> (\<forall>c. cpu_ok s c)"
  by (simp add: cpu_inv_def cpu_ok_def)

lemma cpu_inv_frame:
  assumes "cpu_inv s" and "cpu_ok t c"
    and "\<And>d. d \<noteq> c \<Longrightarrow> held t d = held s d \<and> cpus t d = cpus s d \<and> pc t d = pc s d"
  shows "cpu_inv t"
  using assms unfolding cpu_inv_ok by (metis cpu_ok_def)

lemma cpu_inv_step:
  assumes "lk_step s t" and "own_inv s" and "cpu_inv s"
  shows "cpu_inv t"
  using assms
proof (induction rule: lk_step.induct)
  case (acq_begin s c l s1)
  have "cpu_ok s c" using acq_begin(4) by (simp add: cpu_inv_ok)
  with acq_begin(1,2) show ?case
    by (intro cpu_inv_frame [OF acq_begin(4), of _ c])
      (auto simp: acquire_enter_def push_off_eq set_pc_def cpu_ok_def Let_def split: if_splits)
next
  case (acq_fail s c l s1)
  then have "s1 = s" using acquire_swap_held [of s l] by (simp add: acquire_swap_def)
  with acq_fail show ?case by simp
next
  case (acq_win s c l s1)
  have "cpu_ok s c" using acq_win(4) by (simp add: cpu_inv_ok)
  with acq_win(1,2) show ?case
    by (intro cpu_inv_frame [OF acq_win(4), of _ c])
      (auto simp: acquire_swap_def set_lock_def set_pc_def cpu_ok_def)
next
  case (acq_done s c l s1)
  have ok: "cpu_ok s c" using acq_done(4) by (simp add: cpu_inv_ok)
  have "l \<notin> held s c" using own_invD(4) [OF acq_done(3)] acq_done(1) by blast
  with ok acq_done(1,2) show ?case
    by (intro cpu_inv_frame [OF acq_done(4), of _ c])
      (auto simp: acquire_record_def set_lock_def set_pc_def cpu_ok_def)
next
  case (rel_begin s c l s1)
  have ok: "cpu_ok s c" using rel_begin(4) by (simp add: cpu_inv_ok)
  have s1: "lk_cpu (locks s l) = Some c" "s1 = set_lock s l (\<lambda>x. x\<lparr>lk_cpu := None\<rparr>)"
    using rel_begin(2) by (auto simp: release_enter_def holding_def split: if_splits)
  then have "l \<in> held s c" using own_invD(3) [OF rel_begin(3)] by blast
  moreover from this have "card (held s c) = Suc (card (held s c - {l}))"
    using ok by (intro card.remove) (auto simp: cpu_ok_def)
  ultimately show ?case using ok rel_begin(1) s1
    by (intro cpu_inv_frame [OF rel_begin(4), of _ c]) (auto simp: set_lock_def set_pc_def cpu_ok_def)
next
  case (rel_done s c l s1)
  have "cpu_ok s c" using rel_done(4) by (simp add: cpu_inv_ok)
  with rel_done(1,2) show ?case
    by (intro cpu_inv_frame [OF rel_done(4), of _ c])
      (auto simp: release_store_def pop_off_eq_Ok set_lock_def set_pc_def cpu_ok_def)
next
  case (irq_on s c)
  have "cpu_ok s c" using irq_on(4) by (simp add: cpu_inv_ok)
  with irq_on(1,2) show ?case
    by (intro cpu_inv_frame [OF irq_on(4), of _ c]) (auto simp: intr_on_def set_cpu_def cpu_ok_def)
next
  case (irq_off s c)
  have "cpu_ok s c" using irq_off(3) by (simp add: cpu_inv_ok)
  with irq_off(1) show ?case
    by (intro cpu_inv_frame [OF irq_off(3), of _ c]) (auto simp: intr_off_def set_cpu_def cpu_ok_def)
qed

lemma lk_reachable_inv: "lk_reachable s \<Longrightarrow> own_inv s \<and> cpu_inv s"
proof (induction rule: lk_reachable.induct)
  case start
  show ?case by (simp add: own_inv_init cpu_inv_init)
next
  case (step s t)
  then show ?case by (blast intro: own_inv_step cpu_inv_step)
qed

text \<open>A reachable state in which CPU 0 holds lock 5.\<close>

definition lk_held :: lksys where
  "lk_held = lk_init\<lparr>
     cpus := (cpus lk_init)(0 := \<lparr>noff = 1, intena = False, sie = False\<rparr>),
     locks := (locks lk_init)(5 := \<lparr>locked = True, lk_name = [], lk_cpu = Some 0\<rparr>),
     held := (held lk_init)(0 := {5})\<rparr>"

lemma lk_held_reachable: "lk_reachable lk_held"
proof -
  define a where "a = set_pc (push_off lk_init 0) 0 (AcqSpin 5)"
  define b where "b = set_pc (set_lock a 5 (\<lambda>x. x\<lparr>locked := True\<rparr>)) 0 (AcqGot 5)"
  have "lk_step lk_init a"
    unfolding a_def by (rule acq_begin) (simp_all add: lk_init_def acquire_enter_def push_off_eq holding_def)
  moreover have "lk_step a b"
    unfolding b_def
    by (rule acq_win) (simp_all add: a_def set_pc_def push_off_eq acquire_swap_def lk_init_def)
  moreover have "lk_step b lk_held"
    using acq_done [of b 0 5, OF _ refl]
    by (simp add: b_def a_def lk_held_def lk_init_def set_pc_def push_off_eq set_lock_def
        acquire_record_def fun_upd_idem)
  ultimately show ?thesis using lk_reachable.start lk_reachable.step by blast
qed

section \<open>Properties\<close>

text \<open>
  C1: in every reachable state of any number of CPUs taking and releasing any number of spin locks,
  a lock is held by at most one CPU.
\<close>

theorem spinlock_mutual_exclusion:
  assumes "lk_reachable s" and "l \<in> held s c" and "l \<in> held s d"
  shows "c = d"
proof -
  have "own_inv s" using assms(1) lk_reachable_inv by blast
  with assms(2,3) show ?thesis by (simp add: own_inv_def)
qed

theorem spinlock_mutual_exclusion_witness:
  "lk_reachable lk_held \<and> 5 \<in> held lk_held 0 \<and> 5 \<notin> held lk_held 1"
  using spinlock_mutual_exclusion [OF lk_held_reachable, of 5 0 1] lk_held_reachable
  by (auto simp: lk_held_def)

text \<open>
  C16: a CPU has interrupts off while it holds or is taking a spin lock, its \<open>noff\<close> counts the locks
  it holds plus the one it is working on, and so neither check of \<open>pop_off\<close> can panic in
  \<open>release\<close>.
\<close>

theorem spinlock_interrupts_off:
  assumes "lk_reachable s"
  shows "(held s c \<noteq> {} \<or> pc s c \<noteq> Run \<longrightarrow> \<not> sie (cpus s c)) \<and>
         noff (cpus s c) = int (card (held s c)) + (if pc s c = Run then 0 else 1) \<and>
         (pc s c = RelMid l \<longrightarrow> (\<exists>t. release_store s c l = Ok t))"
proof -
  have inv: "cpu_inv s" using assms lk_reachable_inv by blast
  have fin: "finite (held s c)" and n: "noff (cpus s c) = int (card (held s c)) + (if pc s c = Run then 0 else 1)"
    and off: "sie (cpus s c) \<longrightarrow> noff (cpus s c) = 0"
    using inv by (auto simp: cpu_inv_def)
  have "\<not> sie (cpus s c)" if "held s c \<noteq> {} \<or> pc s c \<noteq> Run"
    using that fin n off by (auto split: if_splits)
  moreover have "\<exists>t. release_store s c l = Ok t" if "pc s c = RelMid l"
    using that n off by (auto simp: release_store_def pop_off_eq_Ok set_lock_def)
  ultimately show ?thesis using n by blast
qed

theorem spinlock_interrupts_off_witness:
  "\<not> sie (cpus lk_held 0) \<and> noff (cpus lk_held 0) = 1"
  using spinlock_interrupts_off [OF lk_held_reachable, of 0 5] by (simp add: lk_held_def lk_init_def)

text \<open>
  run alone on a free lock, \<open>acquire\<close> returns with the lock held and interrupts off, and the
  matching \<open>release\<close> puts the lock, the nesting depth and the interrupt-enable bit back as they
  were; on a lock the same CPU holds \<open>acquire\<close> panics, and on one another CPU holds it never
  returns.
\<close>

theorem acquire_release_alone:
  assumes "0 \<le> noff (cpus s c)" and "0 < noff (cpus s c) \<longrightarrow> \<not> sie (cpus s c)"
  shows "(\<not> locked (locks s l) \<and> lk_cpu (locks s l) = None \<longrightarrow>
            (\<exists>s1 s2. acquire s c l = Some (Ok s1) \<and> holding s1 c l \<and> \<not> intr_get s1 c \<and>
                     release s1 c l = Ok s2 \<and> locks s2 = locks s \<and>
                     intr_get s2 c = intr_get s c \<and> noff (cpus s2 c) = noff (cpus s c) \<and>
                     (\<forall>d. d \<noteq> c \<longrightarrow> cpus s2 d = cpus s d))) \<and>
         (holding s c l \<longrightarrow> acquire s c l = Some (Panic ''acquire'')) \<and>
         (locked (locks s l) \<and> \<not> holding s c l \<longrightarrow> acquire s c l = None)"
proof (intro conjI impI)
  assume free: "\<not> locked (locks s l) \<and> lk_cpu (locks s l) = None"
  define s1 where "s1 = acquire_record (set_lock (push_off s c) l (\<lambda>x. x\<lparr>locked := True\<rparr>)) c l"
  have acq: "acquire s c l = Some (Ok s1)"
    using free by (simp add: acquire_def acquire_enter_def acquire_spin_free s1_def push_off_eq holding_def)
  obtain s2 where rel: "release s1 c l = Ok s2" and "locks s2 = locks s"
      "intr_get s2 c = intr_get s c" "noff (cpus s2 c) = noff (cpus s c)"
      "\<forall>d. d \<noteq> c \<longrightarrow> cpus s2 d = cpus s d"
    using assms free
    by (cases "noff (cpus s c) = 0"; cases "locks s l")
      (auto simp: release_def s1_def release_enter_def release_store_def acquire_record_def
        holding_def set_lock_def push_off_eq pop_off_eq_Ok intr_get_def fun_eq_iff)
  moreover have "holding s1 c l" "\<not> intr_get s1 c"
    by (auto simp: s1_def holding_def acquire_record_def set_lock_def intr_get_def push_off_eq)
  ultimately show "\<exists>s1 s2. acquire s c l = Some (Ok s1) \<and> holding s1 c l \<and> \<not> intr_get s1 c \<and>
      release s1 c l = Ok s2 \<and> locks s2 = locks s \<and> intr_get s2 c = intr_get s c \<and>
      noff (cpus s2 c) = noff (cpus s c) \<and> (\<forall>d. d \<noteq> c \<longrightarrow> cpus s2 d = cpus s d)"
    using acq by blast
next
  assume "holding s c l"
  then show "acquire s c l = Some (Panic ''acquire'')"
    by (simp add: acquire_def acquire_enter_def push_off_eq holding_def)
next
  assume "locked (locks s l) \<and> \<not> holding s c l"
  then have "acquire_enter s c l = Ok (push_off s c)" "locked (locks (push_off s c) l)"
    by (auto simp: acquire_enter_def push_off_eq holding_def)
  moreover from this have "acquire_spin (push_off s c) l = None"
    using acquire_spin_None by (cases "acquire_spin (push_off s c) l") blast+
  ultimately show "acquire s c l = None" by (simp add: acquire_def)
qed

theorem acquire_release_alone_witness:
  "holding lk_held 0 5 \<and> acquire lk_held 0 5 = Some (Panic ''acquire'') \<and> acquire lk_held 1 5 = None"
  using acquire_release_alone [of lk_held 0 5] acquire_release_alone [of lk_held 1 5]
  by (simp add: lk_held_def lk_init_def holding_def)

end
