(* ===== verification/Wakeup.thy ===== *)
theory Wakeup
  imports Sched
begin

text \<open>
  The hand-over between \<open>sleep\<close> and \<open>wakeup\<close> (\<open>kernel/proc.c\<close>) at the level of their locks.
  Theory \<open>Sched\<close> treats each of them as one step; here they are interleaved lock by lock. Waiting
  processes run

    \<open>acquire(lk); while (!cond) sleep(chan, lk); ...\<close>

  and wakers run

    \<open>acquire(lk); cond = 1; wakeup(chan); release(lk);\<close>

  \<open>sleep\<close> takes the process's own lock before it gives up \<open>lk\<close>, goes to sleep, and its own lock is
  released by the scheduler on its behalf; \<open>wakeup\<close> visits the processes in table order under
  their own locks, skipping the caller, so the \<open>n\<close> waiters are the processes it looks at. The comment in \<open>sleep\<close> claims that a wake-up cannot be missed in between; the
  invariant below is the reason.
\<close>

section \<open>The step relation\<close>

text \<open>Where a waiting process is: before taking \<open>lk\<close>, testing the condition, in \<open>sleep\<close> before
  taking its own lock, before releasing \<open>lk\<close>, before becoming \<open>SLEEPING\<close>, in the scheduler with its
  own lock still held, switched out, running again before clearing \<open>chan\<close>, before releasing its own
  lock, before re-acquiring \<open>lk\<close>, or past the loop.\<close>

datatype wpc = WStart | WTest | SOwn | SRel | SSet | SSched | SOut | SBack | SRelOwn | SReacq | WGo

text \<open>Where a waker is: before taking \<open>lk\<close>, before setting the condition, in \<open>wakeup\<close> before taking
  the lock of process \<open>k\<close>, with it before the test, before releasing it, or done.\<close>

datatype kpc = KStart | KSet | KLock nat | KTestP nat | KUnlock nat | KDone

datatype who = Waiter nat | Waker nat

record wsys =
  cond :: bool
  lk :: "who option"                 \<comment> \<open>holder of the condition lock\<close>
  plk :: "nat \<Rightarrow> who option"         \<comment> \<open>holder of each process's own lock\<close>
  wst :: "nat \<Rightarrow> procstate"
  wchan :: "nat \<Rightarrow> bool"             \<comment> \<open>is \<open>p->chan == chan\<close>?\<close>
  wpcs :: "nat \<Rightarrow> wpc"
  kpcs :: "nat \<Rightarrow> kpc"

definition wgo :: "wsys \<Rightarrow> nat \<Rightarrow> wpc \<Rightarrow> wsys" where
  "wgo s i p = s\<lparr>wpcs := (wpcs s)(i := p)\<rparr>"

definition kgo :: "wsys \<Rightarrow> nat \<Rightarrow> kpc \<Rightarrow> wsys" where
  "kgo s j p = s\<lparr>kpcs := (kpcs s)(j := p)\<rparr>"

inductive wstep :: "nat \<Rightarrow> wsys \<Rightarrow> wsys \<Rightarrow> bool" for n where
  w_acquire: "wpcs s i = WStart \<Longrightarrow> i < n \<Longrightarrow> lk s = None \<Longrightarrow>
     wstep n s (wgo (s\<lparr>lk := Some (Waiter i)\<rparr>) i WTest)"
| w_test: "wpcs s i = WTest \<Longrightarrow> wstep n s (wgo s i (if cond s then WGo else SOwn))"
| w_leave: "wpcs s i = WGo \<Longrightarrow> lk s = Some (Waiter i) \<Longrightarrow> wstep n s (s\<lparr>lk := None\<rparr>)"
| s_own: "wpcs s i = SOwn \<Longrightarrow> plk s i = None \<Longrightarrow>
     wstep n s (wgo (s\<lparr>plk := (plk s)(i := Some (Waiter i))\<rparr>) i SRel)"
| s_rel: "wpcs s i = SRel \<Longrightarrow> wstep n s (wgo (s\<lparr>lk := None\<rparr>) i SSet)"
| s_set: "wpcs s i = SSet \<Longrightarrow>
     wstep n s (wgo (s\<lparr>wchan := (wchan s)(i := True), wst := (wst s)(i := SLEEPING)\<rparr>) i SSched)"
| s_sched: "wpcs s i = SSched \<Longrightarrow> wstep n s (wgo (s\<lparr>plk := (plk s)(i := None)\<rparr>) i SOut)"
| s_run: "wpcs s i = SOut \<Longrightarrow> wst s i = RUNNABLE \<Longrightarrow> plk s i = None \<Longrightarrow>
     wstep n s (wgo (s\<lparr>plk := (plk s)(i := Some (Waiter i)), wst := (wst s)(i := RUNNING)\<rparr>) i SBack)"
| s_back: "wpcs s i = SBack \<Longrightarrow> wstep n s (wgo (s\<lparr>wchan := (wchan s)(i := False)\<rparr>) i SRelOwn)"
| s_relown: "wpcs s i = SRelOwn \<Longrightarrow> wstep n s (wgo (s\<lparr>plk := (plk s)(i := None)\<rparr>) i SReacq)"
| s_reacq: "wpcs s i = SReacq \<Longrightarrow> lk s = None \<Longrightarrow>
     wstep n s (wgo (s\<lparr>lk := Some (Waiter i)\<rparr>) i WTest)"
| k_acquire: "kpcs s j = KStart \<Longrightarrow> lk s = None \<Longrightarrow>
     wstep n s (kgo (s\<lparr>lk := Some (Waker j)\<rparr>) j KSet)"
| k_set: "kpcs s j = KSet \<Longrightarrow> wstep n s (kgo (s\<lparr>cond := True\<rparr>) j (KLock 0))"
| k_lock: "kpcs s j = KLock k \<Longrightarrow> k < n \<Longrightarrow> plk s k = None \<Longrightarrow>
     wstep n s (kgo (s\<lparr>plk := (plk s)(k := Some (Waker j))\<rparr>) j (KTestP k))"
| k_wake: "kpcs s j = KTestP k \<Longrightarrow>
     wstep n s (kgo (if wst s k = SLEEPING \<and> wchan s k
                     then s\<lparr>wst := (wst s)(k := RUNNABLE)\<rparr> else s) j (KUnlock k))"
| k_unlock: "kpcs s j = KUnlock k \<Longrightarrow>
     wstep n s (kgo (s\<lparr>plk := (plk s)(k := None)\<rparr>) j (KLock (Suc k)))"
| k_release: "kpcs s j = KLock n \<Longrightarrow> wstep n s (kgo (s\<lparr>lk := None\<rparr>) j KDone)"

definition wstart :: wsys where
  "wstart = \<lparr>cond = False, lk = None, plk = (\<lambda>_. None), wst = (\<lambda>_. RUNNING), wchan = (\<lambda>_. False),
     wpcs = (\<lambda>_. WStart), kpcs = (\<lambda>_. KStart)\<rparr>"

inductive wreach :: "nat \<Rightarrow> wsys \<Rightarrow> bool" for n where
  wreach_start: "wreach n wstart"
| wreach_step: "wreach n s \<Longrightarrow> wstep n s t \<Longrightarrow> wreach n t"

section \<open>The invariant\<close>

text \<open>Who holds which lock at which point.\<close>

fun w_holds_lk :: "wpc \<Rightarrow> bool" where
  "w_holds_lk WTest = True" | "w_holds_lk SOwn = True" | "w_holds_lk SRel = True" | "w_holds_lk _ = False"

fun w_holds_own :: "wpc \<Rightarrow> bool" where
  "w_holds_own SRel = True" | "w_holds_own SSet = True" | "w_holds_own SSched = True"
| "w_holds_own SBack = True" | "w_holds_own SRelOwn = True" | "w_holds_own _ = False"

fun k_holds_lk :: "kpc \<Rightarrow> bool" where
  "k_holds_lk KStart = False" | "k_holds_lk KDone = False" | "k_holds_lk _ = True"

fun k_holds_own :: "nat \<Rightarrow> kpc \<Rightarrow> bool" where
  "k_holds_own k (KTestP l) = (k = l)" | "k_holds_own k (KUnlock l) = (k = l)" | "k_holds_own k _ = False"

text \<open>A waker that still has to look at process \<open>i\<close>.\<close>

definition still_to_wake :: "nat \<Rightarrow> kpc \<Rightarrow> bool" where
  "still_to_wake i p \<longleftrightarrow> (\<exists>k\<le>i. p = KLock k \<or> p = KTestP k) \<or> (\<exists>k<i. p = KUnlock k)"

definition lock_inv :: "wsys \<Rightarrow> bool" where
  "lock_inv s \<longleftrightarrow>
     (\<forall>i. w_holds_lk (wpcs s i) \<longrightarrow> lk s = Some (Waiter i)) \<and>
     (\<forall>j. k_holds_lk (kpcs s j) \<longrightarrow> lk s = Some (Waker j)) \<and>
     (\<forall>i. w_holds_own (wpcs s i) \<longrightarrow> plk s i = Some (Waiter i)) \<and>
     (\<forall>j k. k_holds_own k (kpcs s j) \<longrightarrow> plk s k = Some (Waker j))"

text \<open>A process that is about to sleep, or sleeps.\<close>

definition going_to_sleep :: "wpc \<Rightarrow> procstate \<Rightarrow> bool" where
  "going_to_sleep p st \<longleftrightarrow> p = SSet \<or> p \<in> {SSched, SOut} \<and> st = SLEEPING"

fun in_wakeup :: "kpc \<Rightarrow> bool" where
  "in_wakeup (KLock k) = True" | "in_wakeup (KTestP k) = True" | "in_wakeup (KUnlock k) = True"
| "in_wakeup _ = False"

definition sleep_inv :: "nat \<Rightarrow> wsys \<Rightarrow> bool" where
  "sleep_inv n s \<longleftrightarrow>
     (\<forall>i. wpcs s i \<in> {SOwn, SRel} \<longrightarrow> \<not> cond s) \<and>
     (\<forall>i. going_to_sleep (wpcs s i) (wst s i) \<longrightarrow> cond s \<longrightarrow> (\<exists>j. still_to_wake i (kpcs s j))) \<and>
     (\<forall>i. wpcs s i \<in> {SSched, SOut} \<longrightarrow> wchan s i) \<and>
     (\<forall>j. in_wakeup (kpcs s j) \<longrightarrow> cond s) \<and>
     (\<forall>i. wpcs s i \<noteq> WStart \<longrightarrow> i < n)"

lemma lock_invD:
  assumes "lock_inv s"
  shows "w_holds_lk (wpcs s i) \<Longrightarrow> lk s = Some (Waiter i)"
    and "k_holds_lk (kpcs s j) \<Longrightarrow> lk s = Some (Waker j)"
    and "w_holds_own (wpcs s i) \<Longrightarrow> plk s i = Some (Waiter i)"
    and "k_holds_own k (kpcs s j) \<Longrightarrow> plk s k = Some (Waker j)"
  using assms by (auto simp: lock_inv_def)

lemma lock_inv_waiter:
  assumes inv: "lock_inv s"
    and same: "kpcs t = kpcs s" "\<And>d. d \<noteq> i \<Longrightarrow> wpcs t d = wpcs s d" "\<And>k. k \<noteq> i \<Longrightarrow> plk t k = plk s k"
    and lk: "lk t = lk s \<or> lk s \<in> {None, Some (Waiter i)} \<and> lk t \<in> {None, Some (Waiter i)}"
    and own: "plk t i = plk s i \<or> plk s i \<in> {None, Some (Waiter i)} \<and> plk t i \<in> {None, Some (Waiter i)}"
    and me: "w_holds_lk (wpcs t i) \<Longrightarrow> lk t = Some (Waiter i)"
      "w_holds_own (wpcs t i) \<Longrightarrow> plk t i = Some (Waiter i)"
  shows "lock_inv t"
  unfolding lock_inv_def
proof (intro conjI allI impI)
  show "lk t = Some (Waiter d)" if "w_holds_lk (wpcs t d)" for d
    using that me(1) same(2) [of d] lk lock_invD(1) [OF inv, of d] by (cases "d = i") auto
  show "lk t = Some (Waker j)" if "k_holds_lk (kpcs t j)" for j
    using that same(1) lk lock_invD(2) [OF inv, of j] by auto
  show "plk t d = Some (Waiter d)" if "w_holds_own (wpcs t d)" for d
    using that me(2) same(2,3) [of d] lock_invD(3) [OF inv, of d] by (cases "d = i") auto
  show "plk t k = Some (Waker j)" if "k_holds_own k (kpcs t j)" for j k
    using that same(1) same(3) [of k] own lock_invD(4) [OF inv, of k j] by (cases "k = i") auto
qed

lemma lock_inv_waker:
  assumes inv: "lock_inv s"
    and same: "wpcs t = wpcs s" "\<And>d. d \<noteq> j \<Longrightarrow> kpcs t d = kpcs s d" "\<And>l. l \<noteq> k \<Longrightarrow> plk t l = plk s l"
    and lk: "lk t = lk s \<or> lk s \<in> {None, Some (Waker j)} \<and> lk t \<in> {None, Some (Waker j)}"
    and own: "plk t k = plk s k \<or> plk s k \<in> {None, Some (Waker j)} \<and> plk t k \<in> {None, Some (Waker j)}"
    and me: "k_holds_lk (kpcs t j) \<Longrightarrow> lk t = Some (Waker j)"
      "\<And>l. k_holds_own l (kpcs t j) \<Longrightarrow> plk t l = Some (Waker j)"
  shows "lock_inv t"
  unfolding lock_inv_def
proof (intro conjI allI impI)
  show "lk t = Some (Waiter d)" if "w_holds_lk (wpcs t d)" for d
    using that same(1) lk lock_invD(1) [OF inv, of d] by auto
  show "lk t = Some (Waker d)" if "k_holds_lk (kpcs t d)" for d
    using that me(1) same(2) [of d] lk lock_invD(2) [OF inv, of d] by (cases "d = j") auto
  show "plk t d = Some (Waiter d)" if "w_holds_own (wpcs t d)" for d
    using that same(1) same(3) [of d] own lock_invD(3) [OF inv, of d] by (cases "d = k") auto
  show "plk t l = Some (Waker d)" if "k_holds_own l (kpcs t d)" for d l
    using that me(2) [of l] same(2) [of d] same(3) [of l] own lock_invD(4) [OF inv, of l d]
    by (cases "d = j"; cases "l = k") auto
qed

lemma lock_inv_step:
  assumes "wstep n s t" and inv: "lock_inv s"
  shows "lock_inv t"
  using assms(1)
proof cases
  case (w_acquire i)
  then show ?thesis
    by (intro lock_inv_waiter [OF inv, of _ i]) (auto simp: wgo_def)
next
  case (w_test i)
  then show ?thesis using lock_invD(1) [OF inv, of i]
    by (intro lock_inv_waiter [OF inv, of _ i]) (auto simp: wgo_def split: if_splits)
next
  case (w_leave i)
  then show ?thesis
    by (intro lock_inv_waiter [OF inv, of _ i]) auto
next
  case (s_own i)
  then show ?thesis using lock_invD(1) [OF inv, of i]
    by (intro lock_inv_waiter [OF inv, of _ i]) (auto simp: wgo_def)
next
  case (s_rel i)
  then show ?thesis using lock_invD(1,3) [OF inv, of i]
    by (intro lock_inv_waiter [OF inv, of _ i]) (auto simp: wgo_def)
next
  case (s_set i)
  then show ?thesis using lock_invD(3) [OF inv, of i]
    by (intro lock_inv_waiter [OF inv, of _ i]) (auto simp: wgo_def)
next
  case (s_sched i)
  then show ?thesis using lock_invD(3) [OF inv, of i]
    by (intro lock_inv_waiter [OF inv, of _ i]) (auto simp: wgo_def)
next
  case (s_run i)
  then show ?thesis
    by (intro lock_inv_waiter [OF inv, of _ i]) (auto simp: wgo_def)
next
  case (s_back i)
  then show ?thesis using lock_invD(3) [OF inv, of i]
    by (intro lock_inv_waiter [OF inv, of _ i]) (auto simp: wgo_def)
next
  case (s_relown i)
  then show ?thesis using lock_invD(3) [OF inv, of i]
    by (intro lock_inv_waiter [OF inv, of _ i]) (auto simp: wgo_def)
next
  case (s_reacq i)
  then show ?thesis
    by (intro lock_inv_waiter [OF inv, of _ i]) (auto simp: wgo_def)
next
  case (k_acquire j)
  then show ?thesis
    by (intro lock_inv_waker [OF inv, of _ j 0]) (auto simp: kgo_def)
next
  case (k_set j)
  then show ?thesis using lock_invD(2) [OF inv, of j]
    by (intro lock_inv_waker [OF inv, of _ j 0]) (auto simp: kgo_def)
next
  case (k_lock j k)
  then show ?thesis using lock_invD(2) [OF inv, of j]
    by (intro lock_inv_waker [OF inv, of _ j k]) (auto simp: kgo_def)
next
  case (k_wake j k)
  then show ?thesis using lock_invD(2) [OF inv, of j] lock_invD(4) [OF inv, of k j]
    by (intro lock_inv_waker [OF inv, of _ j k]) (auto simp: kgo_def)
next
  case (k_unlock j k)
  then show ?thesis using lock_invD(2) [OF inv, of j] lock_invD(4) [OF inv, of k j]
    by (intro lock_inv_waker [OF inv, of _ j k]) (auto simp: kgo_def)
next
  case (k_release j)
  then show ?thesis using lock_invD(2) [OF inv, of j]
    by (intro lock_inv_waker [OF inv, of _ j 0]) (auto simp: kgo_def)
qed

lemma sleep_invD:
  assumes "sleep_inv n s"
  shows "wpcs s i \<in> {SOwn, SRel} \<Longrightarrow> \<not> cond s"
    and "going_to_sleep (wpcs s i) (wst s i) \<Longrightarrow> cond s \<Longrightarrow> \<exists>j. still_to_wake i (kpcs s j)"
    and "wpcs s i \<in> {SSched, SOut} \<Longrightarrow> wchan s i"
    and "in_wakeup (kpcs s j) \<Longrightarrow> cond s"
    and "wpcs s i \<noteq> WStart \<Longrightarrow> i < n"
  using assms unfolding sleep_inv_def by blast+

lemma sleep_inv_waiter:
  assumes inv: "sleep_inv n s" and "i < n"
    and same: "kpcs t = kpcs s" "cond t = cond s" "\<And>d. d \<noteq> i \<Longrightarrow> wpcs t d = wpcs s d"
      "\<And>d. d \<noteq> i \<Longrightarrow> wst t d = wst s d" "\<And>d. d \<noteq> i \<Longrightarrow> wchan t d = wchan s d"
    and me: "wpcs t i \<in> {SOwn, SRel} \<Longrightarrow> \<not> cond s"
      "going_to_sleep (wpcs t i) (wst t i) \<Longrightarrow> cond s \<Longrightarrow> going_to_sleep (wpcs s i) (wst s i)"
      "wpcs t i \<in> {SSched, SOut} \<Longrightarrow> wchan t i"
  shows "sleep_inv n t"
  unfolding sleep_inv_def
proof (intro conjI allI impI)
  show "\<not> cond t" if "wpcs t d \<in> {SOwn, SRel}" for d
    using that me(1) same(2) same(3) [of d] sleep_invD(1) [OF inv, of d] by (cases "d = i") auto
  show "\<exists>j. still_to_wake d (kpcs t j)" if "going_to_sleep (wpcs t d) (wst t d)" "cond t" for d
    using that me(2) same(1,2) same(3,4) [of d] sleep_invD(2) [OF inv, of d] by (cases "d = i") auto
  show "wchan t d" if "wpcs t d \<in> {SSched, SOut}" for d
    using that me(3) same(3,5) [of d] sleep_invD(3) [OF inv, of d] by (cases "d = i") auto
  show "cond t" if "in_wakeup (kpcs t j)" for j
    using that same(1,2) sleep_invD(4) [OF inv, of j] by simp
  show "d < n" if "wpcs t d \<noteq> WStart" for d
    using that \<open>i < n\<close> same(3) [of d] sleep_invD(5) [OF inv, of d] by (cases "d = i") auto
qed

lemma sleep_inv_waker:
  assumes inv: "sleep_inv n s"
    and same: "wpcs t = wpcs s" "wchan t = wchan s" "\<And>d. d \<noteq> j \<Longrightarrow> kpcs t d = kpcs s d"
    and cond: "cond t = cond s \<or> (\<forall>i. wpcs s i \<notin> {SOwn, SRel})"
    and me: "in_wakeup (kpcs t j) \<Longrightarrow> cond t" "cond s \<Longrightarrow> cond t"
    and wake: "\<And>i. going_to_sleep (wpcs s i) (wst t i) \<Longrightarrow> cond t \<Longrightarrow>
       still_to_wake i (kpcs t j) \<or>
       going_to_sleep (wpcs s i) (wst s i) \<and> cond s \<and> \<not> still_to_wake i (kpcs s j)"
  shows "sleep_inv n t"
  unfolding sleep_inv_def
proof (intro conjI allI impI)
  show "\<not> cond t" if "wpcs t d \<in> {SOwn, SRel}" for d
    using that cond same(1) sleep_invD(1) [OF inv, of d] by auto
  show "\<exists>j. still_to_wake d (kpcs t j)" if g: "going_to_sleep (wpcs t d) (wst t d)" "cond t" for d
    using wake [of d]
  proof
    assume *: "going_to_sleep (wpcs s d) (wst s d) \<and> cond s \<and> \<not> still_to_wake d (kpcs s j)"
    then obtain j' where "still_to_wake d (kpcs s j')" using sleep_invD(2) [OF inv, of d] by blast
    moreover from this * have "j' \<noteq> j" by auto
    ultimately show ?thesis using same(3) [of j'] by metis
  qed (use g same(1) in auto)
  show "wchan t d" if "wpcs t d \<in> {SSched, SOut}" for d
    using that same(1,2) sleep_invD(3) [OF inv, of d] by simp
  show "cond t" if "in_wakeup (kpcs t d)" for d
    using that me same(3) [of d] sleep_invD(4) [OF inv, of d] by (cases "d = j") auto
  show "d < n" if "wpcs t d \<noteq> WStart" for d
    using that same(1) sleep_invD(5) [OF inv, of d] by simp
qed

lemma still_to_wake_simps [simp]:
  "still_to_wake i (KLock k) \<longleftrightarrow> k \<le> i" "still_to_wake i (KTestP k) \<longleftrightarrow> k \<le> i"
  "still_to_wake i (KUnlock k) \<longleftrightarrow> k < i" "\<not> still_to_wake i KStart" "\<not> still_to_wake i KSet"
  "\<not> still_to_wake i KDone"
  by (auto simp: still_to_wake_def)

lemma sleep_inv_step:
  assumes "wstep n s t" and li: "lock_inv s" and inv: "sleep_inv n s"
  shows "sleep_inv n t"
  using assms(1)
proof cases
  case (w_acquire i)
  then show ?thesis
    by (intro sleep_inv_waiter [OF inv, of i]) (auto simp: wgo_def going_to_sleep_def)
next
  case (w_test i)
  then show ?thesis using sleep_invD(5) [OF inv, of i]
    by (intro sleep_inv_waiter [OF inv, of i]) (auto simp: wgo_def going_to_sleep_def split: if_splits)
next
  case (w_leave i)
  then show ?thesis using sleep_invD(5) [OF inv, of i]
    by (intro sleep_inv_waiter [OF inv, of i]) (auto simp: going_to_sleep_def)
next
  case (s_own i)
  then show ?thesis using sleep_invD(1,5) [OF inv, of i]
    by (intro sleep_inv_waiter [OF inv, of i]) (auto simp: wgo_def going_to_sleep_def)
next
  case (s_rel i)
  then show ?thesis using sleep_invD(1,5) [OF inv, of i]
    by (intro sleep_inv_waiter [OF inv, of i]) (auto simp: wgo_def going_to_sleep_def)
next
  case (s_set i)
  then show ?thesis using sleep_invD(5) [OF inv, of i]
    by (intro sleep_inv_waiter [OF inv, of i]) (auto simp: wgo_def going_to_sleep_def)
next
  case (s_sched i)
  then show ?thesis using sleep_invD(3,5) [OF inv, of i]
    by (intro sleep_inv_waiter [OF inv, of i]) (auto simp: wgo_def going_to_sleep_def)
next
  case (s_run i)
  then show ?thesis using sleep_invD(5) [OF inv, of i]
    by (intro sleep_inv_waiter [OF inv, of i]) (auto simp: wgo_def going_to_sleep_def)
next
  case (s_back i)
  then show ?thesis using sleep_invD(5) [OF inv, of i]
    by (intro sleep_inv_waiter [OF inv, of i]) (auto simp: wgo_def going_to_sleep_def)
next
  case (s_relown i)
  then show ?thesis using sleep_invD(5) [OF inv, of i]
    by (intro sleep_inv_waiter [OF inv, of i]) (auto simp: wgo_def going_to_sleep_def)
next
  case (s_reacq i)
  then show ?thesis using sleep_invD(5) [OF inv, of i]
    by (intro sleep_inv_waiter [OF inv, of i]) (auto simp: wgo_def going_to_sleep_def)
next
  case (k_acquire j)
  then show ?thesis
    by (intro sleep_inv_waker [OF inv, of _ j]) (auto simp: kgo_def)
next
  case (k_set j)
  have "wpcs s i \<notin> {SOwn, SRel}" for i
    using lock_invD(2) [OF li, of j] lock_invD(1) [OF li, of i] k_set by auto
  then show ?thesis using k_set
    by (intro sleep_inv_waker [OF inv, of _ j]) (auto simp: kgo_def)
next
  case (k_lock j k)
  then show ?thesis using sleep_invD(4) [OF inv, of j]
    by (intro sleep_inv_waker [OF inv, of _ j]) (auto simp: kgo_def)
next
  case (k_wake j k)
  have "plk s k = Some (Waker j)" using lock_invD(4) [OF li, of k j] k_wake by simp
  then have "wpcs s k \<noteq> SSet" "wpcs s k \<noteq> SSched" using lock_invD(3) [OF li, of k] by auto
  then have "\<not> going_to_sleep (wpcs s k) (wst t k)"
    using k_wake sleep_invD(3) [OF inv, of k] by (auto simp: going_to_sleep_def kgo_def)
  moreover have "going_to_sleep (wpcs s i) (wst t i) \<Longrightarrow> i \<noteq> k \<Longrightarrow> going_to_sleep (wpcs s i) (wst s i)" for i
    using k_wake by (auto simp: going_to_sleep_def kgo_def split: if_splits)
  moreover have "cond s" using sleep_invD(4) [OF inv, of j] k_wake by simp
  ultimately show ?thesis using k_wake
    by (intro sleep_inv_waker [OF inv, of _ j]) (auto simp: kgo_def le_less)
next
  case (k_unlock j k)
  then show ?thesis using sleep_invD(4) [OF inv, of j]
    by (intro sleep_inv_waker [OF inv, of _ j]) (auto simp: kgo_def Suc_le_eq)
next
  case (k_release j)
  then show ?thesis using sleep_invD(4) [OF inv, of j] sleep_invD(5) [OF inv]
    by (intro sleep_inv_waker [OF inv, of _ j]) (auto simp: kgo_def going_to_sleep_def not_le)
qed

lemma wreach_inv:
  assumes "wreach n s"
  shows "lock_inv s \<and> sleep_inv n s"
  using assms
proof induction
  case wreach_start
  show ?case by (simp add: wstart_def lock_inv_def sleep_inv_def going_to_sleep_def)
next
  case (wreach_step s t)
  then show ?case using lock_inv_step sleep_inv_step by blast
qed

section \<open>No wake-up is lost\<close>

text \<open>C3: In every reachable interleaving of any number of waiters and wakers, at most one of them
  is inside the condition lock; once the condition has been set and no waker is still inside
  \<open>wakeup\<close>, no process is asleep or about to go to sleep on the condition's channel, and every
  process that has gone into \<open>sleep\<close> and is switched out is no longer \<open>SLEEPING\<close>, so the scheduler
  may run it again.\<close>

theorem no_lost_wakeup:
  assumes "wreach n s"
  shows "(w_holds_lk (wpcs s i) \<and> w_holds_lk (wpcs s i') \<longrightarrow> i = i') \<and>
    \<not> (w_holds_lk (wpcs s i) \<and> k_holds_lk (kpcs s j)) \<and>
    (cond s \<and> (\<forall>j. \<not> in_wakeup (kpcs s j)) \<longrightarrow> \<not> going_to_sleep (wpcs s i) (wst s i))"
proof (intro conjI impI)
  have li: "lock_inv s" and si: "sleep_inv n s" using wreach_inv [OF assms] by auto
  show "i = i'" if "w_holds_lk (wpcs s i) \<and> w_holds_lk (wpcs s i')"
    using that lock_invD(1) [OF li, of i] lock_invD(1) [OF li, of i'] by auto
  show "\<not> (w_holds_lk (wpcs s i) \<and> k_holds_lk (kpcs s j))"
    using lock_invD(1) [OF li, of i] lock_invD(2) [OF li, of j] by auto
  have "\<not> still_to_wake i p" if "\<not> in_wakeup p" for p using that by (cases p) auto
  then show "\<not> going_to_sleep (wpcs s i) (wst s i)" if "cond s \<and> (\<forall>j. \<not> in_wakeup (kpcs s j))"
    using that sleep_invD(2) [OF si, of i] by blast
qed

text \<open>A run in which process 0 goes to sleep and is then woken.\<close>

definition slept :: wsys where
  "slept = wstart\<lparr>plk := (\<lambda>_. None)(0 := None), wchan := (\<lambda>_. False)(0 := True), wst := (\<lambda>_. RUNNING)(0 := SLEEPING),
     wpcs := (\<lambda>_. WStart)(0 := SOut)\<rparr>"

definition woken :: wsys where
  "woken = slept\<lparr>cond := True, wst := (wst slept)(0 := RUNNABLE), kpcs := (\<lambda>_. KStart)(0 := KDone)\<rparr>"

lemma wreach_slept: "wreach 1 slept"
proof -
  have a: "wreach 1 (wstart\<lparr>lk := Some (Waiter 0), wpcs := (\<lambda>_. WStart)(0 := WTest)\<rparr>)" (is "wreach 1 ?a")
    using wreach_step [OF wreach_start w_acquire [of wstart 0 1]] by (simp add: wgo_def wstart_def)
  have b: "wreach 1 (?a\<lparr>wpcs := (\<lambda>_. WStart)(0 := SOwn)\<rparr>)" (is "wreach 1 ?b")
    using wreach_step [OF a w_test [of ?a 0]] by (simp add: wgo_def wstart_def)
  have c: "wreach 1 (?b\<lparr>plk := (\<lambda>_. None)(0 := Some (Waiter 0)), wpcs := (\<lambda>_. WStart)(0 := SRel)\<rparr>)" (is "wreach 1 ?c")
    using wreach_step [OF b s_own [of ?b 0]] by (simp add: wgo_def wstart_def)
  have d: "wreach 1 (?c\<lparr>lk := None, wpcs := (\<lambda>_. WStart)(0 := SSet)\<rparr>)" (is "wreach 1 ?d")
    using wreach_step [OF c s_rel [of ?c 0]] by (simp add: wgo_def wstart_def)
  have e: "wreach 1 (?d\<lparr>wchan := (\<lambda>_. False)(0 := True), wst := (\<lambda>_. RUNNING)(0 := SLEEPING),
      wpcs := (\<lambda>_. WStart)(0 := SSched)\<rparr>)" (is "wreach 1 ?e")
    using wreach_step [OF d s_set [of ?d 0]] by (simp add: wgo_def wstart_def)
  show ?thesis
    using wreach_step [OF e s_sched [of ?e 0]] by (simp add: wgo_def wstart_def slept_def)
qed

lemma wreach_woken: "wreach 1 woken"
proof -
  have a: "wreach 1 (slept\<lparr>lk := Some (Waker 0), kpcs := (\<lambda>_. KStart)(0 := KSet)\<rparr>)" (is "wreach 1 ?a")
    using wreach_step [OF wreach_slept k_acquire [of slept 0]] by (simp add: kgo_def wstart_def slept_def)
  have b: "wreach 1 (?a\<lparr>cond := True, kpcs := (\<lambda>_. KStart)(0 := KLock 0)\<rparr>)" (is "wreach 1 ?b")
    using wreach_step [OF a k_set [of ?a 0]] by (simp add: kgo_def)
  have c: "wreach 1 (?b\<lparr>plk := (\<lambda>_. None)(0 := Some (Waker 0)), kpcs := (\<lambda>_. KStart)(0 := KTestP 0)\<rparr>)" (is "wreach 1 ?c")
    using wreach_step [OF b k_lock [of ?b 0 0 1]] by (simp add: kgo_def wstart_def slept_def)
  have d: "wreach 1 (?c\<lparr>wst := (wst slept)(0 := RUNNABLE), kpcs := (\<lambda>_. KStart)(0 := KUnlock 0)\<rparr>)" (is "wreach 1 ?d")
    using wreach_step [OF c k_wake [of ?c 0 0]] by (simp add: kgo_def wstart_def slept_def)
  have e: "wreach 1 (?d\<lparr>plk := (\<lambda>_. None)(0 := None), kpcs := (\<lambda>_. KStart)(0 := KLock 1)\<rparr>)" (is "wreach 1 ?e")
    using wreach_step [OF d k_unlock [of ?d 0 0]] by (simp add: kgo_def)
  show ?thesis
    using wreach_step [OF e k_release [of ?e 0 1]] by (simp add: kgo_def wstart_def slept_def woken_def)
qed

theorem no_lost_wakeup_witness:
  "wreach 1 woken \<and> cond woken \<and> \<not> going_to_sleep (wpcs woken 0) (wst woken 0) \<and>
   wpcs woken 0 = SOut \<and> wst woken 0 = RUNNABLE"
proof -
  have "cond woken" "\<forall>j. \<not> in_wakeup (kpcs woken j)"
    by (simp_all add: woken_def)
  then have "\<not> going_to_sleep (wpcs woken 0) (wst woken 0)"
    using no_lost_wakeup [OF wreach_woken] by blast
  then show ?thesis using wreach_woken by (simp add: woken_def slept_def)
qed

end
