(* ===== verification/Race.thy ===== *)
theory Race
  imports Prelude
begin

text \<open>
  The shared counter of \<open>kernel/race.c\<close>, incremented by \<open>race_increment\<close> with or without a
  spin lock.

  Any number of processes run \<open>race_increment\<close> at once. One step of a process is one access to
  the shared variables, one turn of the delay loop, the \<open>yield\<close>, or one attempt on the lock; a
  schedule is the list of the processes that take the steps. The counters are \<open>int\<close>s of 32 bits.
  The lock is its owner, the exclusion that theory \<open>Spinlock\<close> proves of \<open>acquire\<close>.
\<close>

section \<open>Definitions\<close>

record shared_resource =
  lock :: "nat option"
  counter :: u32
  total_ops :: u32

datatype rpc = RLoop | RAcq | RLoad | RDelay nat | RYield | RStore | ROpsLoad | ROpsStore | RRel | RDone

text \<open>The locals of one activation of \<open>race_increment\<close>: its arguments, \<open>i\<close>, \<open>temp\<close> and the
  register that holds \<open>total_ops\<close> between its load and its store.\<close>

record rthread =
  iterations :: int
  use_lock :: int
  r_i :: int
  r_temp :: u32
  r_ops :: u32
  r_pc :: rpc

record rsys =
  shared_res :: shared_resource
  threads :: "rthread list"

definition race_init :: "shared_resource" where
  "race_init = \<lparr>lock = None, counter = 0, total_ops = 0\<rparr>"

text \<open>\<open>race_reset\<close> and \<open>race_get_counter\<close> take the lock: on a lock another process holds they
  spin, which is the value \<open>None\<close>.\<close>

definition race_reset :: "shared_resource \<Rightarrow> (int \<times> shared_resource) option" where
  "race_reset s = (if lock s \<noteq> None then None else Some (0, s\<lparr>counter := 0, total_ops := 0\<rparr>))"

definition race_get_counter :: "shared_resource \<Rightarrow> (int \<times> shared_resource) option" where
  "race_get_counter s = (if lock s \<noteq> None then None else Some (sint (counter s), s))"

definition race_increment_call :: "int \<Rightarrow> int \<Rightarrow> rthread" where
  "race_increment_call n ul = \<lparr>iterations = n, use_lock = ul, r_i = 0, r_temp = 0, r_ops = 0, r_pc = RLoop\<rparr>"

definition race_increment_step :: "nat \<Rightarrow> shared_resource \<Rightarrow> rthread \<Rightarrow> shared_resource \<times> rthread" where
  "race_increment_step me s t =
     (case r_pc t of
        RLoop \<Rightarrow> (s, t\<lparr>r_pc := if r_i t < iterations t then (if use_lock t \<noteq> 0 then RAcq else RLoad)
                              else RDone\<rparr>)
      | RAcq \<Rightarrow> (if lock s = None then (s\<lparr>lock := Some me\<rparr>, t\<lparr>r_pc := RLoad\<rparr>) else (s, t))
      | RLoad \<Rightarrow> (s, t\<lparr>r_temp := counter s,
                      r_pc := if use_lock t = 0 \<and> r_i t mod 5 = 0 then RYield else RDelay 0\<rparr>)
      | RDelay d \<Rightarrow> (s, t\<lparr>r_pc := if d < 30 then RDelay (Suc d) else RStore\<rparr>)
      | RYield \<Rightarrow> (s, t\<lparr>r_pc := RStore\<rparr>)
      | RStore \<Rightarrow> (s\<lparr>counter := r_temp t + 1\<rparr>, t\<lparr>r_pc := ROpsLoad\<rparr>)
      | ROpsLoad \<Rightarrow> (s, t\<lparr>r_ops := total_ops s, r_pc := ROpsStore\<rparr>)
      | ROpsStore \<Rightarrow> (s\<lparr>total_ops := r_ops t + 1\<rparr>,
                      if use_lock t \<noteq> 0 then t\<lparr>r_pc := RRel\<rparr> else t\<lparr>r_i := r_i t + 1, r_pc := RLoop\<rparr>)
      | RRel \<Rightarrow> (s\<lparr>lock := None\<rparr>, t\<lparr>r_i := r_i t + 1, r_pc := RLoop\<rparr>)
      | RDone \<Rightarrow> (s, t))"

definition race_step :: "nat \<Rightarrow> rsys \<Rightarrow> rsys" where
  "race_step k s =
     (if k < length (threads s) then
        (case race_increment_step k (shared_res s) (threads s ! k) of
           (sh, t) \<Rightarrow> \<lparr>shared_res = sh, threads = (threads s)[k := t]\<rparr>)
      else s)"

fun race_run :: "nat list \<Rightarrow> rsys \<Rightarrow> rsys" where
  "race_run [] s = s"
| "race_run (k # ks) s = race_run ks (race_step k s)"

definition all_done :: "rsys \<Rightarrow> bool" where
  "all_done s \<longleftrightarrow> (\<forall>t\<in>set (threads s). r_pc t = RDone)"

section \<open>Counting the increments\<close>

text \<open>How many increments of the counter (of \<open>total_ops\<close>) a process has stored.\<close>

definition stored :: "rthread \<Rightarrow> nat" where
  "stored t = nat (r_i t) + (if r_pc t \<in> {ROpsLoad, ROpsStore, RRel} then 1 else 0)"

definition ops_stored :: "rthread \<Rightarrow> nat" where
  "ops_stored t = nat (r_i t) + (if r_pc t = RRel then 1 else 0)"

definition tally :: "(rthread \<Rightarrow> nat) \<Rightarrow> rsys \<Rightarrow> nat" where
  "tally f s = sum_list (map f (threads s))"

lemma sum_list_map_update:
  fixes f :: "'a \<Rightarrow> nat"
  assumes "k < length xs"
  shows "sum_list (map f (xs[k := x])) + f (xs ! k) = sum_list (map f xs) + f x"
  using assms
proof (induction xs arbitrary: k)
  case (Cons a xs)
  then show ?case by (cases k) auto
qed simp

text \<open>What holds of a process by itself: its index never passes its bound.\<close>

definition thread_ok :: "rthread \<Rightarrow> bool" where
  "thread_ok t \<longleftrightarrow> 0 \<le> r_i t \<and> r_i t \<le> max 0 (iterations t) \<and>
     (r_pc t = RDone \<longrightarrow> r_i t = max 0 (iterations t)) \<and>
     (r_pc t \<noteq> RDone \<and> r_pc t \<noteq> RLoop \<longrightarrow> r_i t < iterations t) \<and>
     (use_lock t = 0 \<longrightarrow> r_pc t \<noteq> RAcq \<and> r_pc t \<noteq> RRel)"

definition in_crit :: "rthread \<Rightarrow> bool" where
  "in_crit t \<longleftrightarrow> r_pc t \<notin> {RLoop, RAcq, RDone}"

lemma thread_ok_call [simp]: "thread_ok (race_increment_call n ul)"
  by (simp add: thread_ok_def race_increment_call_def)

lemma thread_ok_step:
  "thread_ok t \<Longrightarrow> race_increment_step k sh t = (sh', t') \<Longrightarrow> thread_ok t'"
  by (auto simp: race_increment_step_def thread_ok_def split: rpc.splits if_splits)

lemma step_args:
  "race_increment_step k sh t = (sh', t') \<Longrightarrow> iterations t' = iterations t \<and> use_lock t' = use_lock t"
  by (auto simp: race_increment_step_def split: rpc.splits if_splits)

lemma stored_done: "thread_ok t \<Longrightarrow> r_pc t = RDone \<Longrightarrow> stored t = nat (iterations t) \<and> ops_stored t = nat (iterations t)"
  by (auto simp: thread_ok_def stored_def ops_stored_def max_def)

lemma stored_le: "thread_ok t \<Longrightarrow> stored t \<le> nat (iterations t)"
  by (auto simp: thread_ok_def stored_def max_def split: if_splits)

text \<open>A step stores the counter once exactly when it is the \<open>RStore\<close> step.\<close>

lemma stored_step:
  "thread_ok t \<Longrightarrow> race_increment_step k sh t = (sh', t') \<Longrightarrow>
     stored t' = stored t + (if r_pc t = RStore then 1 else 0)"
  by (auto simp: race_increment_step_def stored_def thread_ok_def split: rpc.splits if_splits)

lemma ops_stored_step:
  "thread_ok t \<Longrightarrow> race_increment_step k sh t = (sh', t') \<Longrightarrow>
     ops_stored t' = ops_stored t + (if r_pc t = ROpsStore then 1 else 0)"
  by (auto simp: race_increment_step_def ops_stored_def thread_ok_def split: rpc.splits if_splits)

lemma race_step_cases:
  obtains (out) "\<not> k < length (threads s)" "race_step k s = s"
  | (run) sh' t' where "k < length (threads s)"
      "race_increment_step k (shared_res s) (threads s ! k) = (sh', t')"
      "race_step k s = \<lparr>shared_res = sh', threads = (threads s)[k := t']\<rparr>"
  by (cases "k < length (threads s)"; cases "race_increment_step k (shared_res s) (threads s ! k)")
    (auto simp: race_step_def)

lemma total_step:
  assumes "k < length (threads s)" and "f t' = f (threads s ! k) + d"
  shows "tally f \<lparr>shared_res = sh', threads = (threads s)[k := t']\<rparr> = tally f s + d"
  using sum_list_map_update [of k "threads s" f t'] assms by (simp add: tally_def)

lemma total_done:
  assumes "\<forall>t\<in>set (threads s). thread_ok t" and "all_done s"
  shows "tally stored s = (\<Sum>t\<leftarrow>threads s. nat (iterations t))"
    and "tally ops_stored s = (\<Sum>t\<leftarrow>threads s. nat (iterations t))"
proof -
  have "map stored (threads s) = map (\<lambda>t. nat (iterations t)) (threads s)"
    and "map ops_stored (threads s) = map (\<lambda>t. nat (iterations t)) (threads s)"
    using assms stored_done by (auto simp: all_done_def)
  then show "tally stored s = (\<Sum>t\<leftarrow>threads s. nat (iterations t))"
    and "tally ops_stored s = (\<Sum>t\<leftarrow>threads s. nat (iterations t))"
    by (simp_all only: tally_def)
qed

section \<open>The locked mode\<close>

definition sees_shared :: "shared_resource \<Rightarrow> rthread \<Rightarrow> bool" where
  "sees_shared sh t \<longleftrightarrow>
     (r_pc t = RStore \<or> r_pc t = RYield \<or> (\<exists>d. r_pc t = RDelay d) \<longrightarrow> r_temp t = counter sh) \<and>
     (r_pc t = ROpsStore \<longrightarrow> r_ops t = total_ops sh)"

definition locked_inv :: "rsys \<Rightarrow> bool" where
  "locked_inv s \<longleftrightarrow>
     (\<forall>k<length (threads s). thread_ok (threads s ! k) \<and> use_lock (threads s ! k) \<noteq> 0 \<and>
        (in_crit (threads s ! k) \<longleftrightarrow> lock (shared_res s) = Some k) \<and>
        sees_shared (shared_res s) (threads s ! k)) \<and>
     (\<forall>k. lock (shared_res s) = Some k \<longrightarrow> k < length (threads s)) \<and>
     counter (shared_res s) = of_nat (tally stored s) \<and>
     total_ops (shared_res s) = of_nat (tally ops_stored s)"

text \<open>One step of the process \<open>k\<close> as the others see it: it changes the shared variables only while
  it owns the lock, or takes the free lock.\<close>

lemma locked_step_own:
  assumes st: "race_increment_step k sh t = (sh', t')"
    and "thread_ok t" "use_lock t \<noteq> 0" "in_crit t \<longleftrightarrow> lock sh = Some k" "sees_shared sh t"
  shows "in_crit t' \<longleftrightarrow> lock sh' = Some k" and "sees_shared sh' t'"
  using assms by (auto simp: race_increment_step_def in_crit_def sees_shared_def split: rpc.splits if_splits)

lemma step_shared:
  "race_increment_step k sh t = (sh', t') \<Longrightarrow>
     sh' = sh \<or> in_crit t \<and> lock sh' \<in> {lock sh, None} \<or> lock sh = None \<and> lock sh' = Some k"
  by (auto simp: race_increment_step_def in_crit_def split: rpc.splits if_splits)

lemma sees_shared_outside: "\<not> in_crit t \<Longrightarrow> sees_shared sh t"
  by (auto simp: in_crit_def sees_shared_def)

lemma locked_step_other:
  assumes st: "race_increment_step k sh t = (sh', t')"
    and t: "in_crit t \<longleftrightarrow> lock sh = Some k"
    and u: "in_crit u \<longleftrightarrow> lock sh = Some j" "sees_shared sh u" "j \<noteq> k"
  shows "(in_crit u \<longleftrightarrow> lock sh' = Some j) \<and> sees_shared sh' u"
proof (cases "sh' = sh")
  case False
  then have "\<not> in_crit u" "lock sh' \<noteq> Some j"
    using step_shared [OF st] t u by auto
  then show ?thesis by (simp add: sees_shared_outside)
qed (use u in simp)

lemma locked_step_lock:
  "race_increment_step k sh t = (sh', t') \<Longrightarrow> lock sh' \<in> {lock sh, Some k, None}"
  by (auto simp: race_increment_step_def split: rpc.splits if_splits)

lemma locked_step_counts:
  assumes st: "race_increment_step k sh t = (sh', t')" and "sees_shared sh t"
  shows "counter sh' = counter sh + (if r_pc t = RStore then 1 else 0)"
    and "total_ops sh' = total_ops sh + (if r_pc t = ROpsStore then 1 else 0)"
  using assms by (auto simp: race_increment_step_def sees_shared_def split: rpc.splits if_splits)

lemma locked_inv_step:
  assumes inv: "locked_inv s"
  shows "locked_inv (race_step k s)"
proof (cases rule: race_step_cases [of k s])
  case (run sh' t')
  let ?t = "threads s ! k"
  have t: "thread_ok ?t" "use_lock ?t \<noteq> 0" "in_crit ?t \<longleftrightarrow> lock (shared_res s) = Some k"
    "sees_shared (shared_res s) ?t"
    using inv run(1) by (auto simp: locked_inv_def)
  note own = locked_step_own [OF run(2) t]
  have each: "thread_ok u \<and> use_lock u \<noteq> 0 \<and> (in_crit u \<longleftrightarrow> lock sh' = Some j) \<and> sees_shared sh' u"
    if j: "j < length (threads s)" and u: "u = (threads s)[k := t'] ! j" for j u
  proof (cases "j = k")
    case True
    then show ?thesis
      using u own run(1) thread_ok_step [OF t(1) run(2)] step_args [OF run(2)] t(2) by simp
  next
    case False
    then have "u = threads s ! j" using u by simp
    then have "thread_ok u \<and> use_lock u \<noteq> 0" "in_crit u \<longleftrightarrow> lock (shared_res s) = Some j"
      "sees_shared (shared_res s) u"
      using inv j by (auto simp: locked_inv_def)
    then show ?thesis
      using locked_step_other [OF run(2) t(3)] False by blast
  qed
  have l: "\<forall>j. lock sh' = Some j \<longrightarrow> j < length (threads s)"
    using locked_step_lock [OF run(2)] run(1) inv by (auto simp: locked_inv_def)
  have c: "counter sh' = of_nat (tally stored (race_step k s))"
    using locked_step_counts(1) [OF run(2) t(4)] total_step [OF run(1) stored_step [OF t(1) run(2)]]
      inv by (simp add: run(3) locked_inv_def)
  have o: "total_ops sh' = of_nat (tally ops_stored (race_step k s))"
    using locked_step_counts(2) [OF run(2) t(4)]
      total_step [OF run(1) ops_stored_step [OF t(1) run(2)]] inv
    by (simp add: run(3) locked_inv_def)
  show ?thesis
    using each c o l unfolding locked_inv_def run(3) by simp
qed (use inv in simp)

lemma race_run_inv:
  assumes "\<And>k s. P s \<Longrightarrow> P (race_step k s)" and "P s"
  shows "P (race_run ks s)"
  using assms(2) by (induction ks arbitrary: s) (auto intro: assms(1))

definition race_args :: "rsys \<Rightarrow> (int \<times> int) list" where
  "race_args s = map (\<lambda>t. (iterations t, use_lock t)) (threads s)"

lemma race_args_step: "race_args (race_step k s) = race_args s"
proof (cases rule: race_step_cases [of k s])
  case (run sh' t')
  then show ?thesis
    using step_args [OF run(2)] by (auto simp: race_args_def map_update intro!: nth_equalityI)
       (simp add: nth_list_update)
qed simp

lemma race_args_run: "race_args (race_run ks s) = race_args s"
  by (induction ks arbitrary: s) (simp_all add: race_args_step)

definition race_start :: "shared_resource \<Rightarrow> (int \<times> int) list \<Rightarrow> rsys" where
  "race_start sh args = \<lparr>shared_res = sh, threads = map (\<lambda>(n, ul). race_increment_call n ul) args\<rparr>"

lemma race_args_start [simp]: "race_args (race_start sh args) = args"
  by (induction args) (auto simp: race_args_def race_start_def race_increment_call_def)

lemma locked_inv_start:
  assumes "lock sh = None" "counter sh = 0" "total_ops sh = 0" "\<forall>(n, ul)\<in>set args. ul \<noteq> 0"
  shows "locked_inv (race_start sh args)"
proof -
  have "stored (race_increment_call n ul) = 0" "ops_stored (race_increment_call n ul) = 0" for n ul
    by (simp_all add: stored_def ops_stored_def race_increment_call_def)
  then have "tally stored (race_start sh args) = 0" "tally ops_stored (race_start sh args) = 0"
    by (auto simp: tally_def race_start_def)
  then show ?thesis
    using assms
    by (fastforce simp: locked_inv_def race_start_def split_beta in_crit_def sees_shared_def
        race_increment_call_def thread_ok_def)
qed

lemma sum_race_args: "(\<Sum>t\<leftarrow>threads s. nat (iterations t)) = (\<Sum>(n, _)\<leftarrow>race_args s. nat n)"
  by (simp add: race_args_def o_def)

lemma locked_final:
  assumes "locked_inv s" "all_done s"
  shows "counter (shared_res s) = of_nat (\<Sum>(n, _)\<leftarrow>race_args s. nat n)"
    and "total_ops (shared_res s) = of_nat (\<Sum>(n, _)\<leftarrow>race_args s. nat n)"
    and "lock (shared_res s) = None"
proof -
  have ok: "\<forall>t\<in>set (threads s). thread_ok t"
    using assms(1) by (auto simp: locked_inv_def in_set_conv_nth)
  show "counter (shared_res s) = of_nat (\<Sum>(n, _)\<leftarrow>race_args s. nat n)"
    and "total_ops (shared_res s) = of_nat (\<Sum>(n, _)\<leftarrow>race_args s. nat n)"
    using total_done [OF ok assms(2)] assms(1) by (simp_all add: locked_inv_def sum_race_args)
  show "lock (shared_res s) = None"
  proof (rule ccontr)
    assume "lock (shared_res s) \<noteq> None"
    then obtain k where k: "lock (shared_res s) = Some k" "k < length (threads s)"
      using assms(1) by (auto simp: locked_inv_def)
    then have "in_crit (threads s ! k)" using assms(1) by (auto simp: locked_inv_def)
    moreover have "r_pc (threads s ! k) = RDone" using assms(2) k by (auto simp: all_done_def)
    ultimately show False by (simp add: in_crit_def)
  qed
qed

subsection \<open>Every locked run can be completed\<close>

fun pc_rank :: "rpc \<Rightarrow> nat" where
  "pc_rank RLoop = 40" | "pc_rank RAcq = 39" | "pc_rank RLoad = 38" | "pc_rank (RDelay d) = 5 + (31 - d)"
| "pc_rank RYield = 5" | "pc_rank RStore = 4" | "pc_rank ROpsLoad = 3" | "pc_rank ROpsStore = 2"
| "pc_rank RRel = 1" | "pc_rank RDone = 0"

definition work_left :: "rthread \<Rightarrow> nat" where
  "work_left t = 50 * nat (iterations t - r_i t) + pc_rank (r_pc t)"

lemma work_left_step:
  assumes "race_increment_step k sh t = (sh', t')" "thread_ok t" "r_pc t \<noteq> RDone"
    "r_pc t = RAcq \<longrightarrow> lock sh = None"
  shows "work_left t' < work_left t"
  using assms
  by (auto simp: race_increment_step_def work_left_def thread_ok_def split: rpc.splits if_splits)

lemma race_run_append: "race_run (ks @ ls) s = race_run ls (race_run ks s)"
  by (induction ks arbitrary: s) auto

lemma finish_one:
  assumes "locked_inv s" "k < length (threads s)" "lock (shared_res s) \<in> {None, Some k}"
  shows "\<exists>ks. locked_inv (race_run ks s) \<and> r_pc (threads (race_run ks s) ! k) = RDone \<and>
              length (threads (race_run ks s)) = length (threads s) \<and>
              (\<forall>j<length (threads s). j \<noteq> k \<longrightarrow> threads (race_run ks s) ! j = threads s ! j)"
  using assms
proof (induction "work_left (threads s ! k)" arbitrary: s rule: less_induct)
  case less
  let ?t = "threads s ! k"
  show ?case
  proof (cases "r_pc ?t = RDone")
    case True
    then show ?thesis using less.prems by (intro exI [of _ "[]"]) simp
  next
    case False
    obtain sh' t' where run: "race_increment_step k (shared_res s) ?t = (sh', t')"
        "race_step k s = \<lparr>shared_res = sh', threads = (threads s)[k := t']\<rparr>"
      using less.prems(2) by (cases rule: race_step_cases [of k s]) auto
    have ok: "thread_ok ?t" and crit: "in_crit ?t \<longleftrightarrow> lock (shared_res s) = Some k"
      using less.prems by (auto simp: locked_inv_def)
    have "r_pc ?t = RAcq \<longrightarrow> lock (shared_res s) = None"
      using crit less.prems(3) by (auto simp: in_crit_def)
    then have "work_left (threads (race_step k s) ! k) < work_left ?t"
      using work_left_step [OF run(1) ok False] less.prems(2) run(2) by simp
    moreover have "locked_inv (race_step k s)" using less.prems(1) by (rule locked_inv_step)
    moreover have "lock (shared_res (race_step k s)) \<in> {None, Some k}"
      using locked_step_lock [OF run(1)] less.prems(3) run(2) by auto
    ultimately obtain ks where "locked_inv (race_run ks (race_step k s))"
        "r_pc (threads (race_run ks (race_step k s)) ! k) = RDone"
        "length (threads (race_run ks (race_step k s))) = length (threads s)"
        "\<forall>j<length (threads s). j \<noteq> k \<longrightarrow>
           threads (race_run ks (race_step k s)) ! j = threads s ! j"
      using less.hyps [of "race_step k s"] less.prems(2) run(2) by auto
    then show ?thesis by (intro exI [of _ "k # ks"]) simp
  qed
qed

definition unfinished :: "rsys \<Rightarrow> nat set" where
  "unfinished s = {k. k < length (threads s) \<and> r_pc (threads s ! k) \<noteq> RDone}"

lemma finish_all:
  assumes "locked_inv s"
  shows "\<exists>ks. all_done (race_run ks s)"
  using assms
proof (induction "card (unfinished s)" arbitrary: s rule: less_induct)
  case less
  show ?case
  proof (cases "unfinished s = {}")
    case True
    then have "all_done (race_run [] s)"
      by (auto simp: unfinished_def all_done_def in_set_conv_nth)
    then show ?thesis by blast
  next
    case False
    then obtain k where k: "k \<in> unfinished s" "lock (shared_res s) \<in> {None, Some k}"
    proof (cases "lock (shared_res s)")
      case (Some j)
      then have "j < length (threads s)" "in_crit (threads s ! j)"
        using less.prems by (auto simp: locked_inv_def)
      then have "j \<in> unfinished s" by (auto simp: unfinished_def in_crit_def)
      with Some \<open>\<And>k. k \<in> unfinished s \<Longrightarrow> lock (shared_res s) \<in> {None, Some k} \<Longrightarrow> thesis\<close>
      show thesis by simp
    qed (use False in auto)
    obtain ks where ks: "locked_inv (race_run ks s)" "r_pc (threads (race_run ks s) ! k) = RDone"
        "length (threads (race_run ks s)) = length (threads s)"
        "\<forall>j<length (threads s). j \<noteq> k \<longrightarrow> threads (race_run ks s) ! j = threads s ! j"
      using finish_one [OF less.prems _ k(2)] k(1) by (auto simp: unfinished_def)
    have "unfinished (race_run ks s) \<subseteq> unfinished s - {k}"
      using ks by (auto simp: unfinished_def)
    moreover have fin: "finite (unfinished s)" by (simp add: unfinished_def)
    ultimately have "unfinished (race_run ks s) \<subset> unfinished s" using k(1) by blast
    then obtain ls where "all_done (race_run ls (race_run ks s))"
      using less.hyps [OF psubset_card_mono [OF fin]] ks(1) by blast
    then show ?thesis by (metis race_run_append)
  qed
qed

section \<open>The unlocked mode\<close>

text \<open>Without the lock the counter can only fall behind: it never exceeds the number of stores.\<close>

definition counter_bound :: "rsys \<Rightarrow> bool" where
  "counter_bound s \<longleftrightarrow> (\<forall>t\<in>set (threads s). thread_ok t) \<and>
     unat (counter (shared_res s)) \<le> tally stored s \<and>
     (\<forall>t\<in>set (threads s). unat (r_temp t) \<le> tally stored s)"

lemma tally_stored_le:
  assumes "\<forall>t\<in>set (threads s). thread_ok t"
  shows "tally stored s \<le> (\<Sum>(m, _)\<leftarrow>race_args s. nat m)"
  using assms stored_le unfolding tally_def sum_race_args [symmetric]
  by (intro sum_list_mono) auto

lemma counter_bound_step:
  assumes inv: "counter_bound s"
  shows "counter_bound (race_step k s)"
proof (cases rule: race_step_cases [of k s])
  case (run sh' t')
  let ?t = "threads s ! k"
  have t: "thread_ok ?t" "unat (r_temp ?t) \<le> tally stored s"
    using inv run(1) by (auto simp: counter_bound_def)
  have c: "unat (counter (shared_res s)) \<le> tally stored s" using inv by (simp add: counter_bound_def)
  have tl: "tally stored (race_step k s) = tally stored s + (if r_pc ?t = RStore then 1 else 0)"
    using total_step [OF run(1) stored_step [OF t(1) run(2)]] by (simp add: run(3))
  have args: "race_args (race_step k s) = race_args s" by (rule race_args_step)
  have ok: "\<forall>u\<in>set (threads (race_step k s)). thread_ok u"
    using inv thread_ok_step [OF t(1) run(2)] set_update_subset_insert [of "threads s" k t']
    by (auto simp: counter_bound_def run(3))
  have tn: "unat (r_temp t + 1) \<le> Suc (unat (r_temp t))" for t :: rthread
    by (simp add: unat_word_ariths)
  have c': "unat (counter sh') \<le> tally stored (race_step k s)"
    using run(2) c t(2) tl tn [of ?t]
    by (auto simp: race_increment_step_def split: rpc.splits if_splits)
  have t': "unat (r_temp t') \<le> tally stored (race_step k s)"
    using run(2) c t(2) tl by (auto simp: race_increment_step_def split: rpc.splits if_splits)
  have "\<forall>u\<in>set (threads (race_step k s)). unat (r_temp u) \<le> tally stored (race_step k s)"
    using inv t' tl set_update_subset_insert [of "threads s" k t']
    by (fastforce simp: counter_bound_def run(3))
  with ok c' args inv show ?thesis by (simp add: counter_bound_def run(3))
qed (use inv in simp)

lemma counter_bound_start:
  "counter sh = 0 \<Longrightarrow> counter_bound (race_start sh args)"
  using race_args_start [of sh args]
  by (auto simp: counter_bound_def) (auto simp: race_start_def race_increment_call_def thread_ok_def)

section \<open>Properties\<close>

text \<open>
  C8: with the lock no update is lost. Whatever the number of processes, their iteration counts and
  the order of their steps, once all of them have returned the counter and \<open>total_ops\<close> both hold
  the number of increments asked for (modulo \<open>2 ^ 32\<close>), and the lock is free.
\<close>

theorem race_locked_exact:
  assumes "lock sh = None" "counter sh = 0" "total_ops sh = 0"
    and "\<forall>(n, ul)\<in>set args. ul \<noteq> 0"
    and "s = race_run sched (race_start sh args)" and "all_done s"
  shows "counter (shared_res s) = of_nat (\<Sum>(n, _)\<leftarrow>args. nat n) \<and>
         total_ops (shared_res s) = of_nat (\<Sum>(n, _)\<leftarrow>args. nat n) \<and> lock (shared_res s) = None"
proof -
  have "locked_inv s"
    using race_run_inv [OF locked_inv_step locked_inv_start [OF assms(1-4)]] assms(5) by simp
  moreover have "race_args s = args" using assms(5) by (simp add: race_args_run)
  ultimately show ?thesis using locked_final [of s] assms(6) by auto
qed

definition two_locked :: "nat list" where
  "two_locked = replicate 10 0 @ replicate 90 1 @ replicate 90 0 @ replicate 90 1"

theorem race_locked_exact_witness:
  "all_done (race_run two_locked (race_start race_init [(1, 1), (2, 1)])) \<and>
   counter (shared_res (race_run two_locked (race_start race_init [(1, 1), (2, 1)]))) = 3"
proof -
  have d: "all_done (race_run two_locked (race_start race_init [(1, 1), (2, 1)]))"
    by code_simp
  show ?thesis
    using race_locked_exact [OF _ _ _ _ refl d] d by (simp add: race_init_def)
qed



definition lost_update :: "nat list" where
  "lost_update = replicate 3 0 @ replicate 3 1 @ replicate 4 0 @ replicate 4 1 @ [0, 1]"

text \<open>
  C15: without the lock updates can be lost but never invented. The final counter is at most the
  number of increments asked for, and already with two processes of one increment each there is an
  order of steps after which both have returned and the counter is 1.
\<close>

theorem race_unlocked_bound:
  "(counter sh = 0 \<longrightarrow>
      unat (counter (shared_res (race_run sched (race_start sh args)))) \<le> (\<Sum>(n, _)\<leftarrow>args. nat n)) \<and>
   all_done (race_run lost_update (race_start race_init [(1, 0), (1, 0)])) \<and>
   counter (shared_res (race_run lost_update (race_start race_init [(1, 0), (1, 0)]))) = 1"
proof (intro conjI impI)
  assume "counter sh = 0"
  then have b: "counter_bound (race_run sched (race_start sh args))"
    using race_run_inv [OF counter_bound_step counter_bound_start] by blast
  then have "tally stored (race_run sched (race_start sh args)) \<le> (\<Sum>(n, _)\<leftarrow>args. nat n)"
    using tally_stored_le [of "race_run sched (race_start sh args)"]
    by (simp add: counter_bound_def race_args_run)
  with b show "unat (counter (shared_res (race_run sched (race_start sh args)))) \<le> (\<Sum>(n, _)\<leftarrow>args. nat n)"
    by (simp add: counter_bound_def)
next
  show "all_done (race_run lost_update (race_start race_init [(1, 0), (1, 0)]))" by code_simp
  show "counter (shared_res (race_run lost_update (race_start race_init [(1, 0), (1, 0)]))) = 1"
    by code_simp
qed

theorem race_unlocked_bound_witness:
  "unat (counter (shared_res (race_run [0, 0, 0, 1] (race_start race_init [(4, 0), (5, 0)])))) \<le> 9"
  using race_unlocked_bound [of race_init "[0, 0, 0, 1]" "[(4, 0), (5, 0)]"] by (simp add: race_init_def)

end
