(* ===== verification/Printf.thy ===== *)
theory Printf
  imports Prelude
begin

text \<open>
  Formatted output: \<open>printint\<close>, \<open>printptr\<close> and the format loop, of the kernel
  (\<open>kernel/printk.c\<close>) and of the user library (\<open>user/printf.c\<close>). The two differ in the digit
  table and in their treatment of a \<open>%\<close> at the end of the format. The characters sent to
  \<open>consputc\<close> or \<open>putc\<close> are the resulting string. A variadic argument is a 64-bit word or a
  string pointer (\<open>None\<close> is null); an argument that is not there reads as zero.
\<close>

section \<open>Definitions\<close>

datatype varg = W u64 | S "string option"

definition digits :: string where "digits = ''0123456789abcdef''"
definition udigits :: string where "udigits = ''0123456789ABCDEF''"

text \<open>The \<open>do\<close> loop of \<open>printint\<close>: the digits of \<open>x\<close>, least significant first.\<close>

function digs :: "nat \<Rightarrow> nat \<Rightarrow> nat list" where
  "digs base x = (if base < 2 \<or> x < base then [x mod base] else x mod base # digs base (x div base))"
  by pat_completeness auto
termination
  by (relation "measure snd") (auto intro: div_less_dividend)

declare digs.simps [simp del]

text \<open>The buffer of \<open>printint\<close> when its filling is done, and the characters it prints.\<close>

definition printint_buf :: "string \<Rightarrow> u64 \<Rightarrow> nat \<Rightarrow> bool \<Rightarrow> string" where
  "printint_buf dg xx base sign =
     (let neg = sign \<and> sint xx < 0;
          x = (if neg then - xx else xx)
      in map (\<lambda>d. dg ! d) (digs base (unat x)) @ (if neg then ''-'' else []))"

definition printint :: "string \<Rightarrow> u64 \<Rightarrow> nat \<Rightarrow> bool \<Rightarrow> string" where
  "printint dg xx base sign = rev (printint_buf dg xx base sign)"

definition printptr :: "string \<Rightarrow> u64 \<Rightarrow> string" where
  "printptr dg x = ''0x'' @ map (\<lambda>i. dg ! unat (drop_bit 60 (push_bit (4 * i) x))) [0..<16]"

definition char_at :: "string \<Rightarrow> nat \<Rightarrow> char" where
  "char_at s i = (if i < length s then s ! i else CHR 0x00)"

fun va_word :: "varg list \<Rightarrow> u64 \<times> varg list" where
  "va_word (W w # as) = (w, as)"
| "va_word (S _ # as) = (0, as)"
| "va_word [] = (0, [])"

fun va_str :: "varg list \<Rightarrow> string option \<times> varg list" where
  "va_str (S s # as) = (s, as)"
| "va_str (W _ # as) = (None, as)"
| "va_str [] = (None, [])"

text \<open>One conversion after the \<open>%\<close>: what is printed, how many format characters it takes beyond
  the first, and the arguments left. \<open>None\<close> is a sequence that is not a conversion.\<close>

definition conversion :: "string \<Rightarrow> string \<Rightarrow> varg list \<Rightarrow> (string \<times> nat \<times> varg list) option" where
  "conversion dg r as =
     (let c0 = char_at r 0;
          c1 = (if c0 = CHR 0x00 then CHR 0x00 else char_at r 1);
          c2 = (if c1 = CHR 0x00 then CHR 0x00 else char_at r 2);
          (w, as1) = va_word as;
          i32 = scast (ucast w :: u32) :: u64;
          u32 = ucast (ucast w :: u32) :: u64
      in if c0 = CHR ''d'' then Some (printint dg i32 10 True, 0, as1)
         else if c0 = CHR ''l'' \<and> c1 = CHR ''d'' then Some (printint dg w 10 True, 1, as1)
         else if c0 = CHR ''l'' \<and> c1 = CHR ''l'' \<and> c2 = CHR ''d'' then Some (printint dg w 10 True, 2, as1)
         else if c0 = CHR ''u'' then Some (printint dg u32 10 False, 0, as1)
         else if c0 = CHR ''l'' \<and> c1 = CHR ''u'' then Some (printint dg w 10 False, 1, as1)
         else if c0 = CHR ''l'' \<and> c1 = CHR ''l'' \<and> c2 = CHR ''u'' then Some (printint dg w 10 False, 2, as1)
         else if c0 = CHR ''x'' then Some (printint dg u32 16 False, 0, as1)
         else if c0 = CHR ''l'' \<and> c1 = CHR ''x'' then Some (printint dg w 16 False, 1, as1)
         else if c0 = CHR ''l'' \<and> c1 = CHR ''l'' \<and> c2 = CHR ''x'' then Some (printint dg w 16 False, 2, as1)
         else if c0 = CHR ''p'' then Some (printptr dg w, 0, as1)
         else if c0 = CHR ''c'' then Some ([char_of (unat w)], 0, as1)
         else if c0 = CHR ''s'' then
           (case va_str as of (None, as2) \<Rightarrow> Some (''(null)'', 0, as2) | (Some s, as2) \<Rightarrow> Some (s, 0, as2))
         else if c0 = CHR ''%'' then Some (''%'', 0, as)
         else None)"

function printk :: "string \<Rightarrow> varg list \<Rightarrow> string" where
  "printk fmt as =
     (if fmt = [] then []
      else let r = tl fmt in
        if hd fmt \<noteq> CHR ''%'' then hd fmt # printk r as
        else case conversion digits r as of
          Some (out, k, as') \<Rightarrow> out @ printk (drop (Suc k) r) as'
        | None \<Rightarrow> if r = [] then [] else CHR ''%'' # hd r # printk (tl r) as)"
  by pat_completeness auto
termination
  by (relation "measure (\<lambda>(fmt, as). length fmt)") auto

declare printk.simps [simp del]

text \<open>The user library's \<open>vprintf\<close>: its state is whether the last character was an open \<open>%\<close>.\<close>

function vprintf :: "bool \<Rightarrow> string \<Rightarrow> varg list \<Rightarrow> string" where
  "vprintf percent fmt as =
     (if fmt = [] then []
      else if \<not> percent then
        (if hd fmt = CHR ''%'' then vprintf True (tl fmt) as else hd fmt # vprintf False (tl fmt) as)
      else case conversion udigits fmt as of
        Some (out, k, as') \<Rightarrow> out @ vprintf False (drop (Suc k) fmt) as'
      | None \<Rightarrow> CHR ''%'' # hd fmt # vprintf False (tl fmt) as)"
  by pat_completeness auto
termination
  by (relation "measure (\<lambda>(p, fmt, as). length fmt)") auto

declare vprintf.simps [simp del]

definition printf :: "string \<Rightarrow> varg list \<Rightarrow> string" where
  "printf fmt as = vprintf False fmt as"

section \<open>Digits\<close>

lemma digs_value:
  "2 \<le> base \<Longrightarrow> foldr (\<lambda>d v. d + base * v) (digs base x) 0 = x"
proof (induction base x rule: digs.induct)
  case (1 base x)
  then show ?case by (subst digs.simps) (auto simp: mult.commute)
qed

lemma digs_bound: "2 \<le> base \<Longrightarrow> d \<in> set (digs base x) \<Longrightarrow> d < base"
proof (induction base x rule: digs.induct)
  case (1 base x)
  then show ?case by (subst (asm) (2) digs.simps) (auto split: if_splits)
qed

lemma digs_length: "2 \<le> base \<Longrightarrow> 0 < k \<Longrightarrow> x < base ^ k \<Longrightarrow> length (digs base x) \<le> k"
proof (induction base x arbitrary: k rule: digs.induct)
  case (1 base x)
  show ?case
  proof (cases "x < base")
    case True
    then show ?thesis using 1 by (subst digs.simps) simp
  next
    case False
    then have "k \<noteq> 1" using 1(4) by auto
    then obtain j where k: "k = Suc j" "0 < j" using 1(3) by (cases k) auto
    then have "x div base < base ^ j"
      using 1(2,4) by (simp add: div_less_iff_less_mult mult.commute)
    then have "length (digs base (x div base)) \<le> j"
      using 1(1) [of j] False 1(2) k(2) by simp
    then show ?thesis using False 1(2) k by (subst digs.simps) simp
  qed
qed

lemma digs_nonzero_last: "2 \<le> base \<Longrightarrow> digs base x \<noteq> []"
  by (subst digs.simps) auto

text \<open>The number that a string of decimal or hexadecimal digits denotes.\<close>

definition digit_val :: "string \<Rightarrow> char \<Rightarrow> nat" where
  "digit_val dg c = (case find_index (\<lambda>d. d = c) dg of Some i \<Rightarrow> i | None \<Rightarrow> 0)"

definition num_val :: "string \<Rightarrow> nat \<Rightarrow> string \<Rightarrow> nat" where
  "num_val dg base s = foldl (\<lambda>v c. base * v + digit_val dg c) 0 s"

lemma digit_val_digits: "d < 16 \<Longrightarrow> digit_val digits (digits ! d) = d"
proof -
  have "\<forall>d<16. digit_val digits (digits ! d) = d" by code_simp
  then show "d < 16 \<Longrightarrow> ?thesis" by blast
qed

lemma num_val_digs:
  assumes "2 \<le> base" "base \<le> 16"
  shows "num_val digits base (rev (map (\<lambda>d. digits ! d) (digs base x))) = x"
proof -
  have "\<forall>d\<in>set (digs base x). digit_val digits (digits ! d) = d"
    using digs_bound [OF assms(1), of _ x] assms(2)
    by (intro ballI digit_val_digits) (metis less_le_trans)
  then have "foldr (\<lambda>c v. base * v + digit_val digits c) (map (\<lambda>d. digits ! d) (digs base x)) 0
      = foldr (\<lambda>d v. d + base * v) (digs base x) 0"
    by (auto simp: foldr_map intro!: foldr_cong)
  then show ?thesis
    by (simp add: num_val_def foldl_conv_foldr digs_value [OF assms(1)])
qed

lemma unat_neg_sint:
  fixes x :: u64
  assumes "sint x < 0"
  shows "int (unat (- x)) = - sint x" and "unat (- x) \<le> 2 ^ 63"
proof -
  have lo: "- (2 ^ 63) \<le> sint x" using sint_greater_eq [of x] by simp
  have "int (unat (- x)) = uint (- x)" by simp
  also have "\<dots> = uint (word_of_int (- sint x) :: u64)" by simp
  also have "\<dots> = - sint x"
    using assms lo unfolding uint_word_of_int_eq by (intro take_bit_int_eq_self) auto
  finally show "int (unat (- x)) = - sint x" .
  then have "unat (- x) = nat (- sint x)" by linarith
  with lo show "unat (- x) \<le> 2 ^ 63" by (simp add: nat_le_iff)
qed

section \<open>Properties\<close>



end
