(* ===== verification/Ulib.thy ===== *)
theory Ulib
  imports CString Printf
begin

text \<open>
  The routines of the user library \<open>user/ulib.c\<close> that make no system call. Those that move or
  set memory act on the byte memory of theory CString; those that only read strings act on
  lists of characters, in which a NUL, or the end of the list, ends the string.
\<close>

section \<open>Definitions\<close>

subsection \<open>Memory\<close>

text \<open>\<open>memset\<close>, \<open>memcmp\<close> and \<open>strlen\<close> are the same loops as the kernel's.\<close>

definition ulib_memset :: "memory \<Rightarrow> u64 \<Rightarrow> u8 \<Rightarrow> nat \<Rightarrow> memory" where
  "ulib_memset = memset"

definition ulib_memcmp :: "memory \<Rightarrow> u64 \<Rightarrow> u64 \<Rightarrow> nat \<Rightarrow> int" where
  "ulib_memcmp = memcmp"

definition ulib_strlen :: "memory \<Rightarrow> u64 \<Rightarrow> nat option" where
  "ulib_strlen = strlen"

definition ulib_memmove :: "memory \<Rightarrow> u64 \<Rightarrow> u64 \<Rightarrow> int \<Rightarrow> memory" where
  "ulib_memmove m dst src n =
     (if src > dst then memmove_fwd m dst src (nat n)
      else memmove_bwd m (dst + of_int n) (src + of_int n) (nat n))"

definition ulib_memcpy :: "memory \<Rightarrow> u64 \<Rightarrow> u64 \<Rightarrow> u32 \<Rightarrow> memory" where
  "ulib_memcpy m dst src n = ulib_memmove m dst src (sint n)"

partial_function (option) strcpy :: "memory \<Rightarrow> u64 \<Rightarrow> u64 \<Rightarrow> memory option" where
  "strcpy m s t = (let m' = m(s := m t) in if m t \<noteq> 0 then strcpy m' (s + 1) (t + 1) else Some m')"

subsection \<open>Strings\<close>

fun strchr :: "string \<Rightarrow> char \<Rightarrow> nat option" where
  "strchr [] c = None"
| "strchr (x # s) c = (if x = CHR 0x00 then None else if x = c then Some 0 else map_option Suc (strchr s c))"

fun strcmp :: "string \<Rightarrow> string \<Rightarrow> int" where
  "strcmp (x # p) (y # q) =
     (if x \<noteq> CHR 0x00 \<and> x = y then strcmp p q else int (of_char x) - int (of_char y))"
| "strcmp p q = int (of_char (char_at p 0)) - int (of_char (char_at q 0))"

fun atoi_loop :: "u32 \<Rightarrow> string \<Rightarrow> u32" where
  "atoi_loop n [] = n"
| "atoi_loop n (c # s) =
     (if 48 \<le> (of_char c :: nat) \<and> (of_char c :: nat) \<le> 57 then atoi_loop (n * 10 + of_char c - 48) s else n)"

definition atoi :: "string \<Rightarrow> int" where
  "atoi s = sint (atoi_loop 0 s)"

section \<open>Lemmas\<close>

lemma strchr_Some: "strchr s c = Some q \<Longrightarrow> q < length s \<and> s ! q = c \<and> c \<notin> set (take q s) \<and> CHR 0x00 \<notin> set (take (Suc q) s)"
  by (induction s arbitrary: q) (auto split: if_splits)

lemma strchr_None: "CHR 0x00 \<notin> set s \<Longrightarrow> strchr s c = None \<longleftrightarrow> c \<notin> set s"
  by (induction s) auto

lemma of_char_eq_0: "(of_char c :: nat) = 0 \<longleftrightarrow> c = CHR 0x00"
  using of_char_eq_iff [of c "CHR 0x00", where 'a = nat] by simp

lemma strcmp_eq_0: "CHR 0x00 \<notin> set p \<Longrightarrow> CHR 0x00 \<notin> set q \<Longrightarrow> strcmp p q = 0 \<longleftrightarrow> p = q"
proof (induction p arbitrary: q)
  case Nil
  then show ?case by (cases q) (auto simp: char_at_def of_char_eq_0)
next
  case (Cons c p)
  then show ?case by (cases q) (auto simp: char_at_def of_char_eq_0 of_char_eq_iff)
qed

text \<open>A string that \<open>strcpy\<close> copies to a place it does not overlap arrives whole.\<close>

lemma strcpy_copies:
  assumes "cstr_at m t bs" "length bs < unat (t - s)" "length bs < unat (s - t)"
  shows "\<exists>m'. strcpy m s t = Some m' \<and> cstr_at m' s bs \<and> (\<forall>a. unat (a - s) > length bs \<longrightarrow> m' a = m a)"
  using assms
proof (induction bs arbitrary: m s t)
  case Nil
  then show ?case by (subst strcpy.simps) (auto simp: Let_def)
next
  case (Cons b bs)
  let ?m = "m(s := b)"
  have b: "m t = b" "b \<noteq> 0" using Cons.prems(1) by (auto simp: cstr_at_Cons)
  have apart: "t + 1 + of_nat i \<noteq> s" if "i \<le> length bs" for i
  proof
    assume "t + 1 + of_nat i = s"
    then have "s - t = of_nat (Suc i)" by (simp add: algebra_simps)
    moreover have "Suc i < 2 ^ 64" using Cons.prems(3) that unat_lt_exp [of "s - t"] by simp
    ultimately have "unat (s - t) = Suc i" using unat_of_nat_small [where 'a = 64, of "Suc i"] by simp
    then show False using Cons.prems(3) that by simp
  qed
  have "cstr_at m (t + 1) bs" using Cons.prems(1) by (simp add: cstr_at_Cons)
  then have c: "cstr_at ?m (t + 1) bs"
    using apart unfolding cstr_at_def by (auto simp: list_eq_iff_nth_eq)
  have l: "length bs < unat (t + 1 - (s + 1))" "length bs < unat (s + 1 - (t + 1))" using Cons.prems(2,3) by simp_all
  from Cons.IH [OF c l] obtain m' where m': "strcpy ?m (s + 1) (t + 1) = Some m'" "cstr_at m' (s + 1) bs"
    "\<forall>a. unat (a - (s + 1)) > length bs \<longrightarrow> m' a = ?m a"
    by blast
  have "length bs < unat (s - (s + 1))" using Cons.prems(2) unat_lt_exp [of "t - s"] unat_neg [of "1 :: u64"] by simp
  then have "m' s = b" using m'(3) by auto
  moreover have "m' a = m a" if "unat (a - s) > Suc (length bs)" for a
  proof -
    have "a \<noteq> s" using that by auto
    have "1 \<le> a - s" using that by (auto simp: word_le_nat_alt)
    then have "unat (a - s - 1) = unat (a - s) - 1" by (simp add: unat_sub)
    then have "unat (a - (s + 1)) > length bs" using that by (simp add: diff_diff_eq)
    with \<open>a \<noteq> s\<close> show ?thesis using m'(3) by simp
  qed
  ultimately show ?case
    using m' b by (subst strcpy.simps) (auto simp: Let_def cstr_at_Cons)
qed

section \<open>Properties\<close>

text \<open>C30: the user library's \<open>memmove\<close> and the kernel's, which choose the direction of the copy by
  different tests, have the same effect on memory for every two ranges that do not wrap around.\<close>

theorem ulib_memmove_kernel:
  assumes "0 \<le> n" "unat s + nat n < 2 ^ 64" "unat d + nat n < 2 ^ 64"
  shows "ulib_memmove m d s n = memmove m d s (nat n)"
proof
  fix a
  let ?n = "nat n"
  have n: "?n < 2 ^ 64" "(of_int n :: u64) = of_nat ?n" using assms by auto
  show "ulib_memmove m d s n a = memmove m d s ?n a"
  proof (cases "s > d")
    case True
    then have "unat (d - s) = 2 ^ 64 - (unat s - unat d)" by (simp add: word_less_nat_alt unat_sub_if')
    then have "?n \<le> unat (d - s)" using assms by simp
    then show ?thesis
      using True n memmove_apply [OF assms(2,3)] by (simp add: ulib_memmove_def memmove_fwd_apply)
  next
    case False
    have "d = s \<or> unat (s - d) = 2 ^ 64 - (unat d - unat s)"
    proof (cases "d = s")
      case d: False
      then have "unat s < unat d" using False by (metis linorder_neqE not_less word_less_nat_alt)
      then have "unat (s - d) = unat s + 2 ^ 64 - unat d" by (simp add: unat_sub_if')
      then show ?thesis using \<open>unat s < unat d\<close> by linarith
    qed simp
    then have "d = s \<or> ?n \<le> unat (s - d)" using assms by auto
    then show ?thesis
      unfolding ulib_memmove_def memmove_apply [OF assms(2,3)] n(2) if_not_P [OF False]
      by (subst memmove_bwd_apply [OF n(1)]) simp_all
  qed
qed

theorem ulib_memmove_kernel_witness:
  "ulib_memmove (\<lambda>a. ucast a) 100 98 (5 :: int) 101 = memmove (\<lambda>a. ucast a) 100 98 5 101"
  using ulib_memmove_kernel [of 5 98 100 "\<lambda>a. ucast a"] by simp

end
