(* ===== verification/Racetest.thy ===== *)
theory Racetest
  imports Race Ulib "HOL-Library.Signed_Division"
begin

text \<open>
  The user program \<open>user/racetest.c\<close>: its experiment resets the counter, runs children that
  call \<open>race_increment\<close> concurrently, and reports the updates lost.
\<close>

section \<open>Definitions\<close>

text \<open>A line of output is the format of a \<open>printf\<close> with its integer arguments.\<close>

type_synonym out_line = "string \<times> int list"

definition race_verdict :: "int \<Rightarrow> int \<Rightarrow> int \<Rightarrow> out_line list" where
  "race_verdict ul expected actual =
     (let lost = sint (word_of_int expected - word_of_int actual :: u32) in
      if ul = 0 then
        (if lost > 0 then
           [(''VERDICT: RACE CONDITION CONFIRMED!'', []),
            (''Interleaved memory access on multi-core CPU caused %d lost updates.'', [lost])]
         else [(''VERDICT: No lost updates observed in this trial. Increase iterations.'', [])])
      else if actual = expected then
        [(''VERDICT: PERFECT MUTUAL EXCLUSION!'', []),
         (''xv6 Spinlock eliminated race condition. 100%% updates preserved.'', [])]
      else [(''VERDICT: UNEXPECTED DISCREPANCY detected under locking.'', [])])"

text \<open>
  \<open>run_experiment\<close>: \<open>forks\<close> is the number of \<open>fork\<close> calls that succeed and \<open>sched\<close> the
  order in which the children run. The parent's \<open>wait\<close> calls return when the children are done;
  with a schedule that ends earlier there is no output yet (\<open>None\<close>). The exit status is the first
  component.
\<close>

definition experiment_banner :: out_line where
  "experiment_banner = (''============================================================'', [])"

definition experiment_rule :: out_line where
  "experiment_rule = (''------------------------------------------------------------'', [])"

definition experiment_head :: "int \<Rightarrow> int \<Rightarrow> int \<Rightarrow> int \<Rightarrow> out_line list" where
  "experiment_head num_children iters ul expected =
     [experiment_banner] @
     (if ul \<noteq> 0
      then [(''[SYNCHRONIZED TEST] Mode: xv6 Spinlock (acquire / release)'', []),
            (''Protection: Mutual Exclusion ENABLED'', [])]
      else [(''[RACE CONDITION TEST] Mode: Unlocked (Concurrent Read-Modify-Write)'', []),
            (''Protection: NONE (Vulnerable to SMP Race Window)'', [])]) @
     [(''Configuration: %d child processes x %d iterations'', [num_children, iters]),
      (''Expected Counter Result: %d'', [expected]), experiment_rule]"

definition experiment_report :: "int \<Rightarrow> int \<Rightarrow> int \<Rightarrow> out_line list" where
  "experiment_report ul expected actual =
     (let lost = sint (word_of_int expected - word_of_int actual :: u32);
          loss_pct = (if expected > 0 then sint (word_of_int lost * 100 :: u32) sdiv expected else 0)
      in [(''Execution Complete. Reading final shared kernel counter...'', []), experiment_rule,
          (''  >> Expected Value  : %d'', [expected]),
          (''  >> Actual Counter  : %d'', [actual]),
          (''  >> Lost Updates    : %d (%d%% data loss)'', [lost, loss_pct]), experiment_rule] @
         race_verdict ul expected actual @ [experiment_banner])"

definition run_experiment ::
    "shared_resource \<Rightarrow> nat \<Rightarrow> nat list \<Rightarrow> int \<Rightarrow> int \<Rightarrow> int \<Rightarrow> (int \<times> out_line list) option" where
  "run_experiment sh forks sched num_children iters ul =
     (let expected = sint (word_of_int num_children * word_of_int iters :: u32);
          head = experiment_head num_children iters ul expected;
          spawn = (''Spawning %d concurrent processes across CPUs...'', [num_children])
      in case race_reset sh of None \<Rightarrow> None
         | Some (_, sh0) \<Rightarrow>
             if forks < nat num_children
             then Some (1, head @ [spawn, (''racetest: fork failed on child %d'', [int forks])])
             else
               let s = race_run sched (race_start sh0 (replicate (nat num_children) (iters, ul)))
               in if \<not> all_done s then None
                  else map_option (\<lambda>(actual, _). (0, head @ [spawn] @ experiment_report ul expected actual))
                         (race_get_counter (shared_res s)))"

text \<open>\<open>main\<close>: the lines it prints itself, the experiments it runs (children, iterations, lock), and
  the status it exits with when the experiments return.\<close>

definition racetest_main :: "string list \<Rightarrow> out_line list \<times> (int \<times> int \<times> int) list \<times> int" where
  "racetest_main argv =
     (let hashes = ''############################################################'';
          intro = [([], []), (hashes, []),
                   (''#  xv6 MULTIPROCESSOR RACE CONDITION & SPINLOCK SUITE      #'', []),
                   (''#  Team: WindowsXP | Tejas, Vidit, Devarsh                 #'', []), (hashes, [])]
      in if length argv = 1 then
           (intro @ [([], []), (''Running automated comprehensive benchmark (4 processes x 1000 ops)...'', [])],
            [(4, 1000, 0), (4, 1000, 1)], 0)
         else if length argv = 2 \<and> strcmp (argv ! 1) ''unlocked'' = 0 then (intro, [(4, 1000, 0)], 0)
         else if length argv = 2 \<and> strcmp (argv ! 1) ''locked'' = 0 then (intro, [(4, 1000, 1)], 0)
         else if length argv = 4 then
           (let children = atoi (argv ! 1); iters = atoi (argv ! 2); lock = atoi (argv ! 3)
            in if children \<le> 0 \<or> iters \<le> 0
               then (intro @ [(''Usage: racetest [children] [iterations] [0=unlocked, 1=locked]'', [])], [], 1)
               else (intro, [(children, iters, lock)], 0))
         else (intro @ [(''Usage:'', []),
                (''  racetest                       (Run full automated comparison)'', []),
                (''  racetest unlocked              (Run unlocked race test)'', []),
                (''  racetest locked                (Run spinlock protected test)'', []),
                (''  racetest <procs> <iters> <0|1> (Custom benchmark)'', [])], [], 1))"

section \<open>Properties\<close>

text \<open>
  The synchronized experiment of \<open>racetest\<close> always reports success. When the expected count
  fits an \<open>int\<close> and the forks succeed, every schedule that lets the children finish makes
  \<open>run_experiment\<close> print that no update was lost and the mutual-exclusion verdict.
\<close>

theorem run_experiment_locked:
  assumes "lock sh = None" and "ul \<noteq> 0" and "0 < n" "0 < k" "n * k < 2 ^ 31" and "nat n \<le> forks"
    and "run_experiment sh forks sched n k ul = Some (st, out)"
  shows "st = 0 \<and> (''  >> Lost Updates    : %d (%d%% data loss)'', [0, 0]) \<in> set out \<and>
         (''VERDICT: PERFECT MUTUAL EXCLUSION!'', []) \<in> set out"
proof -
  define sh0 where "sh0 = sh\<lparr>counter := 0, total_ops := 0\<rparr>"
  define s where "s = race_run sched (race_start sh0 (replicate (nat n) (k, ul)))"
  have reset: "race_reset sh = Some (0, sh0)" using assms(1) by (simp add: race_reset_def sh0_def)
  have pos: "- (2 ^ 31) \<le> n * k"
  proof -
    have "0 \<le> n * k" using assms(3,4) by simp
    then show ?thesis by (rule order_trans [rotated]) simp
  qed
  have exp: "sint (word_of_int n * word_of_int k :: u32) = n * k"
    using sint32_small [OF pos assms(5)] by (simp add: wi_hom_syms)
  have fin: "all_done s"
    using assms(6,7) unfolding run_experiment_def reset s_def
    by (simp add: Let_def split: if_splits)
  have "locked_inv s"
    unfolding s_def using assms(1,2)
    by (intro race_run_inv [where P = locked_inv, OF locked_inv_step] locked_inv_start) (auto simp: sh0_def)
  then have c: "counter (shared_res s) = of_nat (nat n * nat k)" "lock (shared_res s) = None"
    using locked_final [of s] fin by (auto simp: s_def race_args_run sum_list_replicate)
  have "counter (shared_res s) = word_of_int n * word_of_int k"
    using assms(3,4) unfolding c by simp
  with exp have "sint (counter (shared_res s)) = n * k" by simp
  then have get: "race_get_counter (shared_res s) = Some (n * k, shared_res s)"
    using c(2) by (simp add: race_get_counter_def)
  have "run_experiment sh forks sched n k ul =
      Some (0, experiment_head n k ul (n * k) @
               [(''Spawning %d concurrent processes across CPUs...'', [n])] @
               experiment_report ul (n * k) (n * k))"
    using assms(6) fin get unfolding run_experiment_def reset exp by (simp add: s_def Let_def)
  with assms(2,7) show ?thesis by (auto simp: experiment_report_def race_verdict_def Let_def)
qed

theorem run_experiment_locked_witness:
  "\<exists>out. run_experiment race_init 64 (replicate 90 0 @ replicate 90 1) 2 1 1 = Some (0, out) \<and>
         (''VERDICT: PERFECT MUTUAL EXCLUSION!'', []) \<in> set out"
proof -
  have "all_done (race_run (replicate 90 0 @ replicate 90 1)
          (race_start race_init (replicate (nat 2) (1, 1))))" by code_simp
  moreover have "lock (shared_res (race_run (replicate 90 0 @ replicate 90 1)
          (race_start race_init (replicate (nat 2) (1, 1))))) = None" by code_simp
  ultimately obtain st out where
    "run_experiment race_init 64 (replicate 90 0 @ replicate 90 1) 2 1 1 = Some (st, out)"
    by (simp add: run_experiment_def race_get_counter_def race_reset_def race_init_def)
  from run_experiment_locked [OF _ _ _ _ _ _ this] this show ?thesis by (simp add: race_init_def)
qed

end
