(* ===== verification/Pipe.thy ===== *)
theory Pipe
  imports Fs
begin

text \<open>
  Pipes (\<open>kernel/pipe.c\<close>): a ring buffer of 512 bytes with 32-bit read and write counts. A pipe
  is named by the page it lives in. \<open>pipewrite\<close> and \<open>piperead\<close> hold the pipe's lock except
  while they sleep, so each is cut into segments that run without interruption: a segment ends with
  the call's result or at the \<open>sleep\<close>, from which the call resumes with the count it had.

  The ring is an implementation of a bounded queue of bytes: an interpretation of the locale
  \<open>fifo_queue\<close> of theory Prelude.
\<close>

section \<open>Definitions\<close>

definition PIPESIZE :: nat where [param_defs]: "PIPESIZE = 512"

record pipe =
  pi_data :: "u8 list"
  pi_nread :: u32
  pi_nwrite :: u32
  pi_readopen :: bool
  pi_writeopen :: bool

record pist = fsst +
  pipes :: "u64 \<Rightarrow> pipe"

definition set_pipe :: "'a pist_scheme \<Rightarrow> u64 \<Rightarrow> (pipe \<Rightarrow> pipe) \<Rightarrow> 'a pist_scheme" where
  "set_pipe s a f = s\<lparr>pipes := (pipes s)(a := f (pipes s a))\<rparr>"

definition pipe_full :: "pipe \<Rightarrow> bool" where
  "pipe_full p \<longleftrightarrow> pi_nwrite p = pi_nread p + of_nat PIPESIZE"

definition pipe_empty :: "pipe \<Rightarrow> bool" where
  "pipe_empty p \<longleftrightarrow> pi_nread p = pi_nwrite p"

definition pipe_put :: "u8 \<Rightarrow> pipe \<Rightarrow> pipe" where
  "pipe_put ch p =
     p\<lparr>pi_data := (pi_data p)[unat (pi_nwrite p) mod PIPESIZE := ch], pi_nwrite := pi_nwrite p + 1\<rparr>"

definition pipe_peek :: "pipe \<Rightarrow> u8" where
  "pipe_peek p = pi_data p ! (unat (pi_nread p) mod PIPESIZE)"

definition pipe_drop :: "pipe \<Rightarrow> pipe" where
  "pipe_drop p = p\<lparr>pi_nread := pi_nread p + 1\<rparr>"

text \<open>The fields that \<open>pipealloc\<close> sets in the page it has allocated.\<close>

definition pipe_init :: "pipe \<Rightarrow> pipe" where
  "pipe_init p = p\<lparr>pi_readopen := True, pi_writeopen := True, pi_nwrite := 0, pi_nread := 0\<rparr>"

definition pipeclose :: "'a pist_scheme \<Rightarrow> nat \<Rightarrow> u64 \<Rightarrow> bool \<Rightarrow> 'a pist_scheme res" where
  "pipeclose s me a writable =
     (let s = (if writable
               then wakeup (set_pipe s a (\<lambda>p. p\<lparr>pi_writeopen := False\<rparr>)) (Some me) (ChPipeRead a)
               else wakeup (set_pipe s a (\<lambda>p. p\<lparr>pi_readopen := False\<rparr>)) (Some me) (ChPipeWrite a))
      in if \<not> pi_readopen (pipes s a) \<and> \<not> pi_writeopen (pipes s a)
         then bnd (kfree (km s) a) (\<lambda>k. Ok (set_km s k))
         else Ok s)"

text \<open>How a segment ends.\<close>

datatype 's seg = Done int 's | Sleeps chan nat 's

function pipewrite_seg ::
    "'a pist_scheme \<Rightarrow> nat \<Rightarrow> u64 \<Rightarrow> u64 \<Rightarrow> nat \<Rightarrow> nat \<Rightarrow> 'a pist_scheme seg res" where
  "pipewrite_seg s me a addr n i =
     (if i < n then
        if \<not> pi_readopen (pipes s a) \<or> killed s me \<noteq> 0 then Ok (Done (-1) s)
        else if pipe_full (pipes s a) then
          Ok (Sleeps (ChPipeWrite a) i (wakeup s (Some me) (ChPipeRead a)))
        else bnd (copyin_proc s me (addr + of_nat i) 1) (\<lambda>(r, s).
          case r of
            None \<Rightarrow> Ok (Done (int i) (wakeup s (Some me) (ChPipeRead a)))
          | Some bs \<Rightarrow> pipewrite_seg (set_pipe s a (pipe_put (hd bs))) me a addr n (i + 1))
      else Ok (Done (int i) (wakeup s (Some me) (ChPipeRead a))))"
  by pat_completeness auto
termination
  by (relation "measure (\<lambda>(s, me, a, addr, n, i). n - i)") auto

declare pipewrite_seg.simps [simp del]

text \<open>The copying loop of \<open>piperead\<close>, and a segment of the call: from its entry or its wake-up to the
  next sleep or the return.\<close>

function piperead_loop ::
    "'a pist_scheme \<Rightarrow> nat \<Rightarrow> u64 \<Rightarrow> u64 \<Rightarrow> nat \<Rightarrow> nat \<Rightarrow> (int \<times> 'a pist_scheme) res" where
  "piperead_loop s me a addr n i =
     (if i < n then
        if pipe_empty (pipes s a) then Ok (int i, s)
        else bnd (copyout_proc s me (addr + of_nat i) [pipe_peek (pipes s a)]) (\<lambda>(r, s).
          if r = -1 then Ok (if i = 0 then -1 else int i, s)
          else piperead_loop (set_pipe s a pipe_drop) me a addr n (i + 1))
      else Ok (int i, s))"
  by pat_completeness auto
termination
  by (relation "measure (\<lambda>(s, me, a, addr, n, i). n - i)") auto

declare piperead_loop.simps [simp del]

definition piperead_seg ::
    "'a pist_scheme \<Rightarrow> nat \<Rightarrow> u64 \<Rightarrow> u64 \<Rightarrow> nat \<Rightarrow> 'a pist_scheme seg res" where
  "piperead_seg s me a addr n =
     (if pipe_empty (pipes s a) \<and> pi_writeopen (pipes s a) then
        if killed s me \<noteq> 0 then Ok (Done (-1) s) else Ok (Sleeps (ChPipeRead a) 0 s)
      else bnd (piperead_loop s me a addr n 0) (\<lambda>(i, s). Ok (Done i (wakeup s (Some me) (ChPipeWrite a)))))"

text \<open>The calls as the system-call layer sees them: a result, or a wait.\<close>

definition seg_result :: "'s seg \<Rightarrow> (int \<times> 's) res" where
  "seg_result r = (case r of Done v s \<Rightarrow> Ok (v, s) | Sleeps ch i s \<Rightarrow> Blocks ch)"

definition pipewrite :: "'a pist_scheme \<Rightarrow> nat \<Rightarrow> u64 \<Rightarrow> u64 \<Rightarrow> int \<Rightarrow> (int \<times> 'a pist_scheme) res" where
  "pipewrite s me a addr n = bnd (pipewrite_seg s me a addr (nat n) 0) seg_result"

definition piperead :: "'a pist_scheme \<Rightarrow> nat \<Rightarrow> u64 \<Rightarrow> u64 \<Rightarrow> int \<Rightarrow> (int \<times> 'a pist_scheme) res" where
  "piperead s me a addr n = bnd (piperead_seg s me a addr (nat n)) seg_result"

section \<open>The ring is a bounded queue\<close>

definition pipe_ok :: "pipe \<Rightarrow> bool" where
  "pipe_ok p \<longleftrightarrow> length (pi_data p) = PIPESIZE \<and> unat (pi_nwrite p - pi_nread p) \<le> PIPESIZE"

definition pipe_items :: "pipe \<Rightarrow> u8 list" where
  "pipe_items p = map (\<lambda>k. pi_data p ! ((unat (pi_nread p) + k) mod PIPESIZE)) [0..<unat (pi_nwrite p - pi_nread p)]"

text \<open>The counts wrap at 32 bits, a multiple of the size of the ring.\<close>

lemma count_mod: "unat (c + of_nat k :: u32) mod PIPESIZE = (unat c + k) mod PIPESIZE"
proof -
  have "unat (c + of_nat k :: u32) = (unat c + k) mod 2 ^ 32" by (simp add: unat_word_ariths unat_of_nat mod_simps)
  then show ?thesis by (simp add: PIPESIZE_def mod_mod_cancel)
qed

lemma count_step: "unat c < 512 \<Longrightarrow> unat (c + 1) = unat c + 1" "0 < unat c \<Longrightarrow> unat (c - 1) = unat c - 1" for c :: u32
  by (simp_all add: unat_word_ariths unat_sub_if' word_le_nat_alt)

lemma length_pipe_items [simp]: "length (pipe_items p) = unat (pi_nwrite p - pi_nread p)"
  by (simp add: pipe_items_def)

lemma pipe_items_nth: "k < unat (pi_nwrite p - pi_nread p) \<Longrightarrow> pipe_items p ! k = pi_data p ! ((unat (pi_nread p) + k) mod PIPESIZE)"
  by (simp add: pipe_items_def)

lemma ring_put:
  assumes "pipe_ok p" "unat (pi_nwrite p - pi_nread p) < PIPESIZE"
  shows "pipe_ok (pipe_put x p)" "pipe_items (pipe_put x p) = pipe_items p @ [x]"
proof -
  let ?n = "unat (pi_nwrite p - pi_nread p)"
  have n: "unat (pi_nwrite p + 1 - pi_nread p) = ?n + 1"
  proof -
    have "pi_nwrite p + 1 - pi_nread p = (pi_nwrite p - pi_nread p) + 1" by simp
    then show ?thesis using assms(2) count_step(1) [of "pi_nwrite p - pi_nread p"] by (simp only: PIPESIZE_def)
  qed
  have w: "unat (pi_nwrite p) mod PIPESIZE = (unat (pi_nread p) + ?n) mod PIPESIZE"
    using count_mod [of "pi_nread p" ?n] by simp
  show "pipe_ok (pipe_put x p)" using assms n by (simp add: pipe_ok_def pipe_put_def)
  have ne: "(unat (pi_nread p) + k) mod PIPESIZE \<noteq> (unat (pi_nread p) + ?n) mod PIPESIZE" if "k < ?n" for k
    using that assms(2) mod_eq_dvd_iff_nat [of "unat (pi_nread p) + k" "unat (pi_nread p) + ?n" PIPESIZE] dvd_imp_le [of PIPESIZE "?n - k"] by auto
  have lt: "(unat (pi_nread p) + ?n) mod PIPESIZE < length (pi_data p)" using assms(1) by (simp add: pipe_ok_def PIPESIZE_def)
  show "pipe_items (pipe_put x p) = pipe_items p @ [x]"
  proof (rule nth_equalityI)
    fix k
    assume "k < length (pipe_items (pipe_put x p))"
    then have k: "k < ?n + 1" using n by (simp add: pipe_put_def)
    then have "pipe_items (pipe_put x p) ! k = (pi_data p)[(unat (pi_nread p) + ?n) mod PIPESIZE := x] ! ((unat (pi_nread p) + k) mod PIPESIZE)"
      using pipe_items_nth [of k "pipe_put x p"] by (simp add: pipe_put_def n w)
    then show "pipe_items (pipe_put x p) ! k = (pipe_items p @ [x]) ! k"
      using k ne [of k] lt by (cases "k = ?n") (auto simp: nth_append pipe_items_nth)
  qed (use n in \<open>simp add: pipe_put_def\<close>)
qed

lemma ring_drop:
  assumes "pipe_ok p" "pipe_items p \<noteq> []"
  shows "pipe_peek p = hd (pipe_items p)" "pipe_ok (pipe_drop p)" "pipe_items (pipe_drop p) = tl (pipe_items p)"
proof -
  let ?n = "unat (pi_nwrite p - pi_nread p)"
  have n0: "0 < ?n" using assms(2) by (metis length_greater_0_conv length_pipe_items)
  have n: "unat (pi_nwrite p - (pi_nread p + 1)) = ?n - 1"
  proof -
    have "pi_nwrite p - (pi_nread p + 1) = (pi_nwrite p - pi_nread p) - 1" by simp
    then show ?thesis using n0 count_step(2) [of "pi_nwrite p - pi_nread p"] by (simp only:)
  qed
  show "pipe_peek p = hd (pipe_items p)" using n0 by (simp add: pipe_peek_def pipe_items_def hd_map upt_rec)
  show "pipe_ok (pipe_drop p)" using assms(1) n by (auto simp: pipe_ok_def pipe_drop_def)
  show "pipe_items (pipe_drop p) = tl (pipe_items p)"
  proof (rule nth_equalityI)
    fix k
    assume "k < length (pipe_items (pipe_drop p))"
    then have k: "k < ?n - 1" using n by (simp add: pipe_drop_def)
    have "(unat (pi_nread p + 1) + k) mod PIPESIZE = (unat (pi_nread p) + Suc k) mod PIPESIZE"
      using count_mod [of "pi_nread p" 1] by (metis Suc_eq_plus1_left add.assoc mod_add_left_eq of_nat_1)
    then show "pipe_items (pipe_drop p) ! k = tl (pipe_items p) ! k"
      using k n pipe_items_nth [of k "pipe_drop p"] pipe_items_nth [of "Suc k" p] by (simp add: nth_tl pipe_drop_def)
  qed (use n in \<open>simp add: pipe_drop_def\<close>)
qed

interpretation pq: fifo_queue pipe_ok pipe_items PIPESIZE pipe_full pipe_empty pipe_put pipe_peek pipe_drop
proof unfold_locales
  fix p x
  assume p: "pipe_ok p"
  show "pipe_full p \<longleftrightarrow> length (pipe_items p) = PIPESIZE"
  proof
    assume "pipe_full p" then show "length (pipe_items p) = PIPESIZE" by (simp add: pipe_full_def PIPESIZE_def)
  next
    assume "length (pipe_items p) = PIPESIZE"
    moreover have "of_nat (unat (pi_nwrite p - pi_nread p)) = pi_nwrite p - pi_nread p" by simp
    ultimately have "pi_nwrite p - pi_nread p = of_nat PIPESIZE" by simp
    then show "pipe_full p" by (simp add: pipe_full_def algebra_simps)
  qed
  show "pipe_empty p \<longleftrightarrow> pipe_items p = []" by (simp add: pipe_empty_def flip: length_0_conv) (metis eq_iff_diff_eq_0 unat_eq_zero)
  show "length (pipe_items p) \<le> PIPESIZE" using p by (simp add: pipe_ok_def)
qed (simp_all add: ring_put ring_drop)

declare length_pipe_items [simp del]

section \<open>Writing and reading a pipe\<close>

lemma set_pipe_id [simp]: "set_pipe s a id = s" "set_pipe s a (\<lambda>q. q) = s"
  by (simp_all add: set_pipe_def)

lemma pipewrite_seg_ok:
  fixes s :: "'a pist_scheme"
  assumes "pipe_ok (pipes s a)" "pi_readopen (pipes s a)" "killed s me = 0" "i \<le> n"
    and mp: "\<forall>k<n. user_mapped (km s) (p_pagetable (procs s ! me)) (addr + of_nat k)"
    and m: "m = min (n - i) (PIPESIZE - length (pipe_items (pipes s a)))"
    and bs: "bs = map (\<lambda>k. user_byte (km s) (p_pagetable (procs s ! me)) (addr + of_nat k)) [i..<i + m]"
    and t: "t = wakeup (set_pipe s a (fold pipe_put bs)) (Some me) (ChPipeRead a)"
  shows "pipewrite_seg s me a addr n i = Ok (if i + m = n then Done (int n) t else Sleeps (ChPipeWrite a) (i + m) t)"
  using assms
proof (induction "n - i" arbitrary: s i m bs t)
  case 0
  then have "i = n" "m = 0" "bs = []" by simp_all
  then show ?case using 0 by (subst pipewrite_seg.simps) simp
next
  case (Suc x)
  then have i: "i < n" by simp
  let ?p = "p_pagetable (procs s ! me)" and ?q = "pipes s a"
  let ?b = "user_byte (km s) ?p (addr + of_nat i)"
  show ?case
  proof (cases "pipe_full ?q")
    case True
    then have "m = 0" "bs = []" using Suc.prems pq.full [OF Suc.prems(1)] by simp_all
    then show ?thesis using Suc.prems i True by (subst pipewrite_seg.simps) simp
  next
    case False
    then have room: "length (pipe_items ?q) < PIPESIZE" using pq.full [OF Suc.prems(1)] pq.bound [OF Suc.prems(1)] by simp
    define s1 where "s1 = set_pipe s a (pipe_put ?b)"
    have fr: "km s1 = km s" "procs s1 = procs s" "pipes s1 a = pipe_put ?b ?q" "killed s1 me = 0"
      using Suc.prems(3) by (simp_all add: s1_def set_pipe_def killed_def)
    have put: "pipe_ok (pipe_put ?b ?q)" "pipe_items (pipe_put ?b ?q) = pipe_items ?q @ [?b]"
      using pq.put [OF Suc.prems(1) room] by auto
    have ro: "pi_readopen (pipes s1 a)" using Suc.prems(2) by (simp add: fr pipe_put_def)
    have ml: "m = Suc (min (n - Suc i) (PIPESIZE - length (pipe_items (pipe_put ?b ?q))))"
      unfolding Suc.prems(6) put(2) using i room by auto
    have "copyin (km s) (p_sz (procs s ! me)) ?p ?p (addr + of_nat i) 1 = Ok (Some [?b], km s)"
      using copyin_mapped [of 1 "km s" ?p "addr + of_nat i"] Suc.prems(5) i by simp
    then have "copyin_proc s me (addr + of_nat i) 1 = Ok (Some [?b], s)" by (simp add: copyin_proc_def Let_def set_km_def)
    then have e: "pipewrite_seg s me a addr n i = pipewrite_seg s1 me a addr n (Suc i)"
      using i False Suc.prems(2,3) by (subst pipewrite_seg.simps) (simp add: s1_def)
    define L where "L = map (\<lambda>k. user_byte (km s1) (p_pagetable (procs s1 ! me)) (addr + of_nat k)) [Suc i..<Suc i + (m - 1)]"
    have bl: "bs = ?b # L"
      unfolding Suc.prems(7) L_def fr using ml by (subst upt_conv_Cons) simp_all
    have t1: "t = wakeup (set_pipe s1 a (fold pipe_put L)) (Some me) (ChPipeRead a)"
      unfolding Suc.prems(8) bl by (simp add: s1_def set_pipe_def)
    have h: "x = n - Suc i" "pipe_ok (pipes s1 a)" "Suc i \<le> n"
      "\<forall>k<n. user_mapped (km s1) (p_pagetable (procs s1 ! me)) (addr + of_nat k)"
      "m - 1 = min (n - Suc i) (PIPESIZE - length (pipe_items (pipes s1 a)))"
      using Suc.hyps(2) i Suc.prems(5) put(1) ml by (simp_all add: fr)
    have "pipewrite_seg s1 me a addr n (Suc i) =
        Ok (if Suc i + (m - 1) = n then Done (int n) t else Sleeps (ChPipeWrite a) (Suc i + (m - 1)) t)"
      by (rule Suc.hyps(1) [OF h(1,2) ro fr(4) h(3-5) L_def t1])
    then show ?thesis unfolding e using ml by simp
  qed
qed

lemma user_mapped_same:
  assumes "pt_inv k ps root" "pt_inv k' ps' root" "\<forall>n. pmap (mem k') root n = pmap (mem k) root n" "unat b < 2 ^ 38"
  shows "user_mapped k' root b = user_mapped k root b"
  unfolding user_mapped_def walkaddr_frame [OF assms(1,4)] walkaddr_frame [OF assms(2,4)] frame_of_def assms(3) [rule_format] ..

lemma piperead_loop_ok:
  fixes s :: "'a pist_scheme"
  assumes "pt_inv (km s) ps root" "frames_ok (km s) ps root" "unat addr + n \<le> 2 ^ 38" "root = p_pagetable (procs s ! me)"
    and "\<forall>k<n. user_mapped (km s) root (addr + of_nat k) \<and> pte_has (pmap (mem (km s)) root (vpn (addr + of_nat k))) PTE_W"
    and "pipe_ok (pipes s a)" "i \<le> n" "m = min (n - i) (length (pipe_items (pipes s a)))"
  shows "\<exists>t. piperead_loop s me a addr n i = Ok (int (i + m), t) \<and> pt_inv (km t) ps root \<and> frames_ok (km t) ps root \<and>
    (\<forall>v. pmap (mem (km t)) root v = pmap (mem (km s)) root v) \<and> procs t = procs s \<and>
    pipe_ok (pipes t a) \<and> pipe_items (pipes t a) = drop m (pipe_items (pipes s a)) \<and>
    (\<forall>b. unat b < 2 ^ 38 \<longrightarrow> user_mapped (km s) root b \<longrightarrow> user_byte (km t) root b =
       (if unat addr + i \<le> unat b \<and> unat b < unat addr + i + m then pipe_items (pipes s a) ! (unat b - (unat addr + i))
        else user_byte (km s) root b))"
  using assms
proof (induction "n - i" arbitrary: s i m)
  case 0
  then have "i = n" "m = 0" by simp_all
  then show ?case using "0.prems" by (subst piperead_loop.simps) auto
next
  case (Suc x)
  then have i: "i < n" by simp
  let ?q = "pipes s a"
  show ?case
  proof (cases "pipe_items ?q = []")
    case True
    then have "pipe_empty ?q" "m = 0" using pq.empty [OF Suc.prems(6)] Suc.prems(8) by simp_all
    then show ?thesis using Suc.prems i True by (subst piperead_loop.simps) auto
  next
    case False
    let ?c = "hd (pipe_items ?q)" and ?va = "addr + of_nat i"
    have pk: "\<not> pipe_empty ?q" "pipe_peek ?q = ?c" using pq.empty [OF Suc.prems(6)] pq.peek [OF Suc.prems(6)] False by simp_all
    have va: "unat ?va = unat addr + i" using Suc.prems(3) i by (simp add: unat_word_ariths)
    have "\<exists>k'. copyout (km s) (p_sz (procs s ! me)) root root ?va [?c] = Ok (0, k') \<and> pt_inv k' ps root \<and> frames_ok k' ps root \<and>
      (\<forall>n. pmap (mem k') root n = pmap (mem (km s)) root n) \<and>
      (\<forall>b. unat b < 2 ^ 38 \<longrightarrow> user_mapped (km s) root b \<longrightarrow> user_byte k' root b =
         (if unat ?va \<le> unat b \<and> unat b < unat ?va + length [?c] then [?c] ! (unat b - unat ?va) else user_byte (km s) root b))"
      using Suc.prems(3,5) i va by (intro copyout_ok [OF Suc.prems(1,2)]) auto
    then obtain k' where co: "copyout (km s) (p_sz (procs s ! me)) root root ?va [?c] = Ok (0, k')"
      and k': "pt_inv k' ps root" "frames_ok k' ps root" "\<forall>n. pmap (mem k') root n = pmap (mem (km s)) root n"
      and ub: "\<And>b. unat b < 2 ^ 38 \<Longrightarrow> user_mapped (km s) root b \<Longrightarrow> user_byte k' root b =
         (if unat b = unat addr + i then ?c else user_byte (km s) root b)"
      unfolding va by auto
    define s1 where "s1 = set_pipe (set_km s k') a pipe_drop"
    have fr: "km s1 = k'" "procs s1 = procs s" "pipes s1 a = pipe_drop ?q" by (simp_all add: s1_def set_pipe_def set_km_def)
    have dr: "pipe_ok (pipe_drop ?q)" "pipe_items (pipe_drop ?q) = tl (pipe_items ?q)" using pq.dropq [OF Suc.prems(6) False] by auto
    have um: "user_mapped k' root b = user_mapped (km s) root b" if "unat b < 2 ^ 38" for b
      using user_mapped_same [OF Suc.prems(1) k'(1,3) that] .
    have mp: "\<forall>k<n. user_mapped (km s1) root (addr + of_nat k) \<and> pte_has (pmap (mem (km s1)) root (vpn (addr + of_nat k))) PTE_W"
    proof (intro allI impI)
      fix k
      assume k: "k < n"
      have "unat (addr + of_nat k) < 2 ^ 38" using Suc.prems(3) k by (simp add: unat_word_ariths)
      then show "user_mapped (km s1) root (addr + of_nat k) \<and> pte_has (pmap (mem (km s1)) root (vpn (addr + of_nat k))) PTE_W"
        using Suc.prems(5) k um k'(3) by (simp add: fr)
    qed
    have e: "piperead_loop s me a addr n i = piperead_loop s1 me a addr n (Suc i)"
      using i pk co Suc.prems(4) by (subst piperead_loop.simps) (simp add: copyout_proc_def Let_def s1_def)
    have ml: "m = Suc (min (n - Suc i) (length (pipe_items (pipes s1 a))))" "m \<le> length (pipe_items ?q)"
    proof -
      have "0 < length (pipe_items ?q)" using False by (metis length_greater_0_conv)
      then show "m = Suc (min (n - Suc i) (length (pipe_items (pipes s1 a))))" "m \<le> length (pipe_items ?q)"
        unfolding Suc.prems(8) fr dr(2) length_tl using i by arith+
    qed
    have h: "x = n - Suc i" "pt_inv (km s1) ps root" "frames_ok (km s1) ps root" "root = p_pagetable (procs s1 ! me)"
      "pipe_ok (pipes s1 a)" "Suc i \<le> n" "m - 1 = min (n - Suc i) (length (pipe_items (pipes s1 a)))"
      using Suc.hyps(2) Suc.prems(4) k' dr(1) i ml(1) by (simp_all add: fr)
    obtain t where t: "piperead_loop s1 me a addr n (Suc i) = Ok (int (Suc i + (m - 1)), t)" "pt_inv (km t) ps root" "frames_ok (km t) ps root"
      "\<forall>v. pmap (mem (km t)) root v = pmap (mem (km s1)) root v" "procs t = procs s1" "pipe_ok (pipes t a)"
      "pipe_items (pipes t a) = drop (m - 1) (pipe_items (pipes s1 a))"
      and tb: "\<forall>b. unat b < 2 ^ 38 \<longrightarrow> user_mapped (km s1) root b \<longrightarrow> user_byte (km t) root b =
        (if unat addr + Suc i \<le> unat b \<and> unat b < unat addr + Suc i + (m - 1) then pipe_items (pipes s1 a) ! (unat b - (unat addr + Suc i))
         else user_byte (km s1) root b)"
      using Suc.hyps(1) [OF h(1-3) Suc.prems(3) h(4) mp h(5-7)] by blast
    have hd: "pipe_items ?q ! 0 = ?c" using False by (simp add: hd_conv_nth)
    have "user_byte (km t) root b = (if unat addr + i \<le> unat b \<and> unat b < unat addr + i + m then pipe_items ?q ! (unat b - (unat addr + i))
        else user_byte (km s) root b)" if b: "unat b < 2 ^ 38" "user_mapped (km s) root b" for b
    proof (cases "unat b = unat addr + i")
      case True
      then show ?thesis using tb b um ub ml hd by (simp add: fr)
    next
      case False
      have "tl (pipe_items ?q) ! (unat b - (unat addr + Suc i)) = pipe_items ?q ! (unat b - (unat addr + i))"
        if "unat addr + Suc i \<le> unat b" "unat b < unat addr + i + m"
        using that ml(2) by (subst nth_tl) (auto simp: Suc_diff_Suc)
      then show ?thesis using False tb b um ub ml(1) by (auto simp: fr dr(2))
    qed
    then show ?thesis unfolding e using t k'(3) ml
      by (intro exI [of _ t]) (auto simp: fr dr(2) drop_Suc)
  qed
qed

lemma wakeup_km [simp]: "km (wakeup s w ch) = km s" "pipes (wakeup t w ch) = pipes t"
  by (simp_all add: wakeup_def)

section \<open>A pipe and a process with a buffer\<close>

definition pipe_ex :: "kmem \<Rightarrow> u8 list \<Rightarrow> pist" where
  "pipe_ex k bs = fsst.extend
     (lst.extend (bst.extend (pst.extend
        (pst.fields k [\<lparr>p_state = RUNNING, p_chan = None, p_killed = 0, p_xstate = 0, p_pid = 1, p_parent = None,
           p_kstack = KSTACK 0, p_sz = 0x5000, p_pagetable = 0x80100000, p_trapframe = 0,
           p_context = \<lparr>ctx_ra = 0, ctx_sp = 0, ctx_s = []\<rparr>, p_ofile = replicate NOFILE None, p_cwd = None, p_name = [], p_tracing = 0\<rparr>]
           2 None 0) (bst.fields [] (\<lambda>_. []) [])) (lst.fields 2 0 False 1 0 0 []))
       (fsst.fields \<lparr>sb_magic = FSMAGIC, sb_size = 2000, sb_nblocks = 1953, sb_ninodes = 200, sb_nlog = 31, sb_logstart = 2,
          sb_inodestart = 33, sb_bmapstart = 46\<rparr> []))
     (pist.fields (\<lambda>_. \<lparr>pi_data = bs @ replicate (PIPESIZE - length bs) 0, pi_nread = 0, pi_nwrite = of_nat (length bs),
        pi_readopen = True, pi_writeopen = True\<rparr>))"

lemma pipe_ex_simps:
  "km (pipe_ex k bs) = k" "p_pagetable (procs (pipe_ex k bs) ! 0) = 0x80100000" "killed (pipe_ex k bs) 0 = 0"
  "pi_readopen (pipes (pipe_ex k bs) a)" "length bs \<le> PIPESIZE \<Longrightarrow> pipe_ok (pipes (pipe_ex k bs) a)"
  "length bs \<le> PIPESIZE \<Longrightarrow> pipe_items (pipes (pipe_ex k bs) a) = bs"
proof -
  show "km (pipe_ex k bs) = k" "p_pagetable (procs (pipe_ex k bs) ! 0) = 0x80100000" "killed (pipe_ex k bs) 0 = 0"
    "pi_readopen (pipes (pipe_ex k bs) a)"
    by (simp_all add: pipe_ex_def pst.defs bst.defs lst.defs fsst.defs pist.defs killed_def)
  assume l: "length bs \<le> PIPESIZE"
  then have n: "unat (of_nat (length bs) :: u32) = length bs" by (simp add: PIPESIZE_def unat_of_nat)
  show "pipe_ok (pipes (pipe_ex k bs) a)" using l n
    by (simp add: pipe_ok_def pipe_ex_def pst.defs bst.defs lst.defs fsst.defs pist.defs)
  show "pipe_items (pipes (pipe_ex k bs) a) = bs"
    using l n by (intro nth_equalityI) (simp_all add: length_pipe_items pipe_items_nth pipe_ex_def pst.defs bst.defs lst.defs fsst.defs pist.defs nth_append)
qed

section \<open>Properties\<close>

text \<open>C18: \<open>pipewrite\<close> appends to the pipe. With a reader and mapped user memory it moves bytes of the
  caller's buffer, in order, to the end of the queue that the ring holds, as many as fit; it
  returns when all are written and otherwise goes to sleep with the ring full and the count so far.\<close>

theorem pipewrite_appends:
  fixes s :: "'a pist_scheme"
  assumes "pipe_ok (pipes s a)" "pi_readopen (pipes s a)" "killed s me = 0"
    and "\<forall>k<n. user_mapped (km s) (p_pagetable (procs s ! me)) (addr + of_nat k)"
    and "m = min n (PIPESIZE - length (pipe_items (pipes s a)))"
  shows "\<exists>t. pipewrite_seg s me a addr n 0 = Ok (if m = n then Done (int n) t else Sleeps (ChPipeWrite a) m t) \<and>
    pipe_ok (pipes t a) \<and> km t = km s \<and>
    pipe_items (pipes t a) = pipe_items (pipes s a) @
      map (\<lambda>k. user_byte (km s) (p_pagetable (procs s ! me)) (addr + of_nat k)) [0..<m]"
proof -
  let ?bs = "map (\<lambda>k. user_byte (km s) (p_pagetable (procs s ! me)) (addr + of_nat k)) [0..<0 + m]"
  let ?t = "wakeup (set_pipe s a (fold pipe_put ?bs)) (Some me) (ChPipeRead a)"
  have m: "m = min (n - 0) (PIPESIZE - length (pipe_items (pipes s a)))" using assms(5) by simp
  have "length (pipe_items (pipes s a)) + length ?bs \<le> PIPESIZE" using assms(5) pq.bound [OF assms(1)] by simp
  from pq.put_all [OF assms(1) this] pipewrite_seg_ok [OF assms(1-3) le0 assms(4) m refl refl]
  show ?thesis by (intro exI [of _ ?t]) (simp add: set_pipe_def)
qed

theorem pipewrite_appends_witness:
  "\<exists>k t. pipewrite_seg (pipe_ex k [1, 2]) 0 0x80200000 0x3fff 3 0 = Ok (Done 3 t) \<and> length (pipe_items (pipes t 0x80200000)) = 5"
proof -
  obtain k ps where "\<forall>i<length [7, 8, 9 :: u8]. user_mapped k 0x80100000 (0x3fff + of_nat i)"
    using user_ex_copyout [of "[7, 8, 9]"] by auto
  then have mp: "\<forall>i<3. user_mapped (km (pipe_ex k [1, 2])) (p_pagetable (procs (pipe_ex k [1, 2]) ! 0)) (0x3fff + of_nat i)"
    by (simp add: pipe_ex_simps numeral_3_eq_3)
  have len: "length [1, 2 :: u8] \<le> PIPESIZE" by (simp add: PIPESIZE_def)
  have m: "3 = min 3 (PIPESIZE - length (pipe_items (pipes (pipe_ex k [1, 2]) 0x80200000)))"
    by (simp add: pipe_ex_simps(6) [OF len] PIPESIZE_def)
  obtain t where "pipewrite_seg (pipe_ex k [1, 2]) 0 0x80200000 0x3fff 3 0 = Ok (Done 3 t)"
    "pipe_items (pipes t 0x80200000) = [1, 2] @ map (\<lambda>i. user_byte (km (pipe_ex k [1, 2]))
       (p_pagetable (procs (pipe_ex k [1, 2]) ! 0)) (0x3fff + of_nat i)) [0..<3]"
    using pipewrite_appends [OF pipe_ex_simps(5) [OF len] pipe_ex_simps(4,3) mp m] by (auto simp: pipe_ex_simps(6) [OF len])
  then show ?thesis by (intro exI [of _ k] exI [of _ t]) simp
qed

text \<open>C19: \<open>piperead\<close> takes from the front of the pipe. When the pipe has data or no writer it
  does not wait: it delivers to the caller's buffer, in order, the first bytes of the queue, as many
  as there are and are asked for, removes exactly these, and changes no other byte of user memory.\<close>

theorem piperead_delivers:
  fixes s :: "'a pist_scheme"
  assumes "pt_inv (km s) ps root" "frames_ok (km s) ps root" "unat addr + n \<le> 2 ^ 38" "root = p_pagetable (procs s ! me)"
    and "\<forall>k<n. user_mapped (km s) root (addr + of_nat k) \<and> pte_has (pmap (mem (km s)) root (vpn (addr + of_nat k))) PTE_W"
    and "pipe_ok (pipes s a)" "pipe_items (pipes s a) \<noteq> [] \<or> \<not> pi_writeopen (pipes s a)"
    and "m = min n (length (pipe_items (pipes s a)))"
  shows "\<exists>t. piperead s me a addr (int n) = Ok (int m, t) \<and> pipe_ok (pipes t a) \<and>
    pipe_items (pipes t a) = drop m (pipe_items (pipes s a)) \<and>
    (\<forall>k<m. user_byte (km t) root (addr + of_nat k) = pipe_items (pipes s a) ! k) \<and>
    (\<forall>b. unat b < 2 ^ 38 \<longrightarrow> user_mapped (km s) root b \<longrightarrow> \<not> (unat addr \<le> unat b \<and> unat b < unat addr + m) \<longrightarrow>
       user_byte (km t) root b = user_byte (km s) root b)"
proof -
  have m: "m = min (n - 0) (length (pipe_items (pipes s a)))" using assms(8) by simp
  obtain t where t: "piperead_loop s me a addr n 0 = Ok (int (0 + m), t)" "pipe_ok (pipes t a)"
      "pipe_items (pipes t a) = drop m (pipe_items (pipes s a))"
    and ub: "\<forall>b. unat b < 2 ^ 38 \<longrightarrow> user_mapped (km s) root b \<longrightarrow> user_byte (km t) root b =
       (if unat addr + 0 \<le> unat b \<and> unat b < unat addr + 0 + m then pipe_items (pipes s a) ! (unat b - (unat addr + 0))
        else user_byte (km s) root b)"
    using piperead_loop_ok [OF assms(1-6) le0 m] by blast
  have "user_byte (km t) root (addr + of_nat k) = pipe_items (pipes s a) ! k" if "k < m" for k
  proof -
    have "k < n" using that assms(8) by simp
    then have u: "unat (addr + of_nat k) = unat addr + k" using assms(3) by (simp add: unat_word_ariths)
    then show ?thesis using ub assms(3,5) \<open>k < n\<close> that by simp
  qed
  moreover have "piperead s me a addr (int n) = Ok (int m, wakeup t (Some me) (ChPipeWrite a))"
    using t(1) assms(7) pq.empty [OF assms(6)] by (auto simp: piperead_def piperead_seg_def seg_result_def)
  ultimately show ?thesis using t(2,3) ub by (intro exI [of _ "wakeup t (Some me) (ChPipeWrite a)"]) auto
qed

theorem piperead_delivers_witness:
  "\<exists>k t. piperead (pipe_ex k [104, 105]) 0 0x80200000 0x3fff 3 = Ok (2, t) \<and>
     user_byte (km t) 0x80100000 0x3fff = 104 \<and> pipe_items (pipes t 0x80200000) = []"
proof -
  obtain k ps where k: "pt_inv k ps 0x80100000" "frames_ok k ps 0x80100000"
    "\<forall>i<length [7, 8, 9 :: u8]. user_mapped k 0x80100000 (0x3fff + of_nat i) \<and>
        pte_has (pmap (mem k) 0x80100000 (vpn (0x3fff + of_nat i))) PTE_W"
    using user_ex_copyout [of "[7, 8, 9]"] by auto
  let ?s = "pipe_ex k [104, 105]"
  have len: "length [104, 105 :: u8] \<le> PIPESIZE" by (simp add: PIPESIZE_def)
  note it = pipe_ex_simps(6) [OF len]
  have mp: "\<forall>i<3. user_mapped (km ?s) 0x80100000 (0x3fff + of_nat i) \<and> pte_has (pmap (mem (km ?s)) 0x80100000 (vpn (0x3fff + of_nat i))) PTE_W"
    using k(3) by (simp add: pipe_ex_simps numeral_3_eq_3)
  have h: "pt_inv (km ?s) ps 0x80100000" "frames_ok (km ?s) ps 0x80100000" "unat (0x3fff :: u64) + 3 \<le> 2 ^ 38"
      "0x80100000 = p_pagetable (procs ?s ! 0)" "pipe_items (pipes ?s 0x80200000) \<noteq> [] \<or> \<not> pi_writeopen (pipes ?s 0x80200000)"
      "2 = min 3 (length (pipe_items (pipes ?s 0x80200000)))"
    using k(1,2) by (simp_all add: pipe_ex_simps(1,2) it)
  obtain t where t: "piperead ?s 0 0x80200000 0x3fff (int 3) = Ok (int 2, t)" "pipe_items (pipes t 0x80200000) = drop 2 [104, 105]"
      "\<forall>k<2. user_byte (km t) 0x80100000 (0x3fff + of_nat k) = [104, 105] ! k"
    using piperead_delivers [OF h(1-4) mp pipe_ex_simps(5) [OF len] h(5,6)] unfolding it by blast
  show ?thesis using t(1,2) t(3) [rule_format, of 0] by (intro exI [of _ k] exI [of _ t]) simp
qed

end
