(* ===== verification/File.thy ===== *)
theory File
  imports Pipe
begin

text \<open>
  Open files (\<open>kernel/file.c\<close>, \<open>struct file\<close> of \<open>kernel/file.h\<close>) and \<open>pipealloc\<close> of
  \<open>kernel/pipe.c\<close>. An open file is its index in \<open>ftable\<close>. The device switch \<open>devsw\<close> is an
  argument: a pair of maps from major numbers to the read and write functions of the devices.
\<close>

section \<open>Definitions\<close>

definition NFILE :: nat where [param_defs]: "NFILE = 100"
definition NDEV :: int where [param_defs]: "NDEV = 10"

datatype fdtype = FD_NONE | FD_PIPE | FD_INODE | FD_DEVICE

record file_s =
  f_type :: fdtype
  f_ref :: int
  f_readable :: bool
  f_writable :: bool
  f_pipe :: u64
  f_ip :: nat
  f_off :: nat
  f_major :: int

record filest = pist +
  files :: "file_s list"

type_synonym 's devfn = "'s \<Rightarrow> nat \<Rightarrow> u64 \<Rightarrow> int \<Rightarrow> (int \<times> 's) res"
type_synonym 's devsw = "(int \<Rightarrow> 's devfn option) \<times> (int \<Rightarrow> 's devfn option)"

definition set_file :: "'a filest_scheme \<Rightarrow> nat \<Rightarrow> (file_s \<Rightarrow> file_s) \<Rightarrow> 'a filest_scheme" where
  "set_file s i f = s\<lparr>files := (files s)[i := f (files s ! i)]\<rparr>"

definition filealloc :: "'a filest_scheme \<Rightarrow> nat option \<times> 'a filest_scheme" where
  "filealloc s =
     (case find_index (\<lambda>f. f_ref f = 0) (files s) of
        None \<Rightarrow> (None, s)
      | Some i \<Rightarrow> (Some i, set_file s i (\<lambda>f. f\<lparr>f_ref := 1\<rparr>)))"

definition filedup :: "'a filest_scheme \<Rightarrow> nat \<Rightarrow> 'a filest_scheme res" where
  "filedup s i =
     (if f_ref (files s ! i) < 1 then Panic ''filedup''
      else Ok (set_file s i (\<lambda>f. f\<lparr>f_ref := f_ref f + 1\<rparr>)))"

definition fileclose :: "'a filest_scheme \<Rightarrow> nat \<Rightarrow> nat \<Rightarrow> 'a filest_scheme res" where
  "fileclose s me i =
     (if f_ref (files s ! i) < 1 then Panic ''fileclose''
      else let s = set_file s i (\<lambda>f. f\<lparr>f_ref := f_ref f - 1\<rparr>) in
        if f_ref (files s ! i) > 0 then Ok s
        else let ff = files s ! i;
                 s = set_file s i (\<lambda>f. f\<lparr>f_ref := 0, f_type := FD_NONE\<rparr>)
          in if f_type ff = FD_PIPE then pipeclose s me (f_pipe ff) (f_writable ff)
             else if f_type ff = FD_INODE \<or> f_type ff = FD_DEVICE then
               bnd (begin_op s) (\<lambda>s. bnd (iput s me (f_ip ff)) (\<lambda>s. end_op s me))
             else Ok s)"

text \<open>\<open>pipealloc\<close>: the two file indices, or \<open>None\<close> for -1.\<close>

definition pipealloc :: "'a filest_scheme \<Rightarrow> nat \<Rightarrow> ((nat \<times> nat) option \<times> 'a filest_scheme) res" where
  "pipealloc s me =
     (case filealloc s of
        (None, s) \<Rightarrow> Ok (None, s)
      | (Some f0, s) \<Rightarrow>
          (case filealloc s of
             (None, s) \<Rightarrow> bnd (fileclose s me f0) (\<lambda>s. Ok (None, s))
           | (Some f1, s) \<Rightarrow>
               (case kalloc (km s) of (pg, k) \<Rightarrow>
                  let s = set_km s k in
                  if pg = 0 then
                    bnd (fileclose s me f0) (\<lambda>s. bnd (fileclose s me f1) (\<lambda>s. Ok (None, s)))
                  else
                    let s = set_pipe s pg pipe_init;
                        s = set_file s f0 (\<lambda>f. f\<lparr>f_type := FD_PIPE, f_readable := True, f_writable := False, f_pipe := pg\<rparr>);
                        s = set_file s f1 (\<lambda>f. f\<lparr>f_type := FD_PIPE, f_readable := False, f_writable := True, f_pipe := pg\<rparr>)
                    in Ok (Some (f0, f1), s))))"

text \<open>A \<open>struct stat\<close> as it is copied out, 24 bytes. The four bytes of padding before \<open>size\<close> are
  whatever the kernel stack held there; they are an argument.\<close>

definition le_bytes :: "nat \<Rightarrow> nat \<Rightarrow> u8 list" where
  "le_bytes k v = map (\<lambda>i. of_nat (v div 256 ^ i)) [0..<k]"

definition stat_bytes :: "u8 list \<Rightarrow> stat \<Rightarrow> u8 list" where
  "stat_bytes pad st =
     le_bytes 4 (nat (st_dev st mod 2 ^ 32)) @ le_bytes 4 (st_ino st) @ le_bytes 2 (of_short (st_type st)) @
     le_bytes 2 (of_short (st_nlink st)) @ take 4 pad @ le_bytes 8 (unat (st_size st))"

definition filestat :: "'a filest_scheme \<Rightarrow> nat \<Rightarrow> u8 list \<Rightarrow> nat \<Rightarrow> u64 \<Rightarrow> (int \<times> 'a filest_scheme) res" where
  "filestat s me pad i addr =
     (let f = files s ! i in
      if f_type f = FD_INODE \<or> f_type f = FD_DEVICE then
        bnd (ilock s me (f_ip f)) (\<lambda>s.
        let st = stati (inodes s ! f_ip f) in
        bnd (iunlock s me (f_ip f)) (\<lambda>s.
        bnd (copyout_proc s me addr (stat_bytes pad st)) (\<lambda>(r, s).
          Ok (if r < 0 then -1 else 0, s))))
      else Ok (-1, s))"

definition fileread ::
    "'a filest_scheme devsw \<Rightarrow> 'a filest_scheme \<Rightarrow> nat \<Rightarrow> nat \<Rightarrow> u64 \<Rightarrow> int \<Rightarrow> (int \<times> 'a filest_scheme) res" where
  "fileread dv s me i addr n =
     (let f = files s ! i in
      if \<not> f_readable f then Ok (-1, s)
      else case f_type f of
        FD_PIPE \<Rightarrow> piperead s me (f_pipe f) addr n
      | FD_DEVICE \<Rightarrow>
          if f_major f < 0 \<or> f_major f \<ge> NDEV then Ok (-1, s)
          else (case fst dv (f_major f) of None \<Rightarrow> Ok (-1, s) | Some rd \<Rightarrow> rd s me addr n)
      | FD_INODE \<Rightarrow>
          bnd (ilock s me (f_ip f)) (\<lambda>s.
          bnd (readi s me (f_ip f) (UserDst addr) (f_off (files s ! i)) (nat (n mod 2 ^ 32))) (\<lambda>(r, _, s).
          let s = (if r > 0 then set_file s i (\<lambda>f. f\<lparr>f_off := f_off f + nat r\<rparr>) else s) in
          bnd (iunlock s me (f_ip f)) (\<lambda>s. Ok (r, s))))
      | FD_NONE \<Rightarrow> Panic ''fileread'')"

definition max_write :: int where
  "max_write = ((int MAXOPBLOCKS - 1 - 1 - 2) div 2) * int BSIZE"

function filewrite_loop ::
    "'a filest_scheme \<Rightarrow> nat \<Rightarrow> nat \<Rightarrow> u64 \<Rightarrow> int \<Rightarrow> int \<Rightarrow> (int \<times> 'a filest_scheme) res" where
  "filewrite_loop s me fi addr n i =
     (if i < n then
        let n1 = min (n - i) max_write; ip = f_ip (files s ! fi) in
        bnd (begin_op s) (\<lambda>s.
        bnd (ilock s me ip) (\<lambda>s.
        bnd (writei s me ip (UserSrc (addr + of_int i)) (f_off (files s ! fi)) (nat n1)) (\<lambda>(r, s).
        let s = (if r > 0 then set_file s fi (\<lambda>f. f\<lparr>f_off := f_off f + nat r\<rparr>) else s) in
        bnd (iunlock s me ip) (\<lambda>s.
        bnd (end_op s me) (\<lambda>s.
          if r \<noteq> n1 then Ok (i, s) else filewrite_loop s me fi addr n (i + r))))))
      else Ok (i, s))"
  by pat_completeness auto
termination
  by (relation "measure (\<lambda>(s, me, fi, addr, n, i). nat (n - i))")
    (auto simp: max_write_def MAXOPBLOCKS_def BSIZE_def)

declare filewrite_loop.simps [simp del]

definition filewrite ::
    "'a filest_scheme devsw \<Rightarrow> 'a filest_scheme \<Rightarrow> nat \<Rightarrow> nat \<Rightarrow> u64 \<Rightarrow> int \<Rightarrow> (int \<times> 'a filest_scheme) res" where
  "filewrite dv s me i addr n =
     (let f = files s ! i in
      if \<not> f_writable f then Ok (-1, s)
      else case f_type f of
        FD_PIPE \<Rightarrow> pipewrite s me (f_pipe f) addr n
      | FD_DEVICE \<Rightarrow>
          if f_major f < 0 \<or> f_major f \<ge> NDEV then Ok (-1, s)
          else (case snd dv (f_major f) of None \<Rightarrow> Ok (-1, s) | Some wr \<Rightarrow> wr s me addr n)
      | FD_INODE \<Rightarrow> bnd (filewrite_loop s me i addr n 0) (\<lambda>(k, s). Ok (if k = n then n else -1, s))
      | FD_NONE \<Rightarrow> Panic ''filewrite'')"

end
