(* ===== verification/Proc.thy ===== *)
theory Proc
  imports File
begin

text \<open>
  Process creation, exit and wait (the rest of \<open>kernel/proc.c\<close>). Addresses that the linker
  provides are collected in the record \<open>linksyms\<close>, an argument of the operations that store
  them. A process name is its bytes without the terminating zero.
\<close>

section \<open>Definitions\<close>

record linksyms =
  sym_etext :: u64
  sym_trampoline :: u64
  sym_forkret :: u64
  sym_usertrap :: u64
  sym_uservec :: u64
  sym_kernelvec :: u64

subsection \<open>Page tables of a process\<close>

definition proc_pagetable :: "linksyms \<Rightarrow> kmem \<Rightarrow> u64 \<Rightarrow> (u64 \<times> kmem) res" where
  "proc_pagetable ls k trapframe =
     (case uvmcreate k of (pagetable, k) \<Rightarrow>
        if pagetable = 0 then Ok (0, k)
        else bnd (mappages k pagetable TRAMPOLINE (of_nat PGSIZE) (sym_trampoline ls) (PTE_R OR PTE_X)) (\<lambda>(r, k).
          if r < 0 then bnd (uvmfree k pagetable 0) (\<lambda>k. Ok (0, k))
          else bnd (mappages k pagetable TRAPFRAME (of_nat PGSIZE) trapframe (PTE_R OR PTE_W)) (\<lambda>(r, k).
            if r < 0 then
              bnd (uvmunmap k pagetable TRAMPOLINE 1 False) (\<lambda>k.
              bnd (uvmfree k pagetable 0) (\<lambda>k. Ok (0, k)))
            else Ok (pagetable, k))))"

definition proc_freepagetable :: "kmem \<Rightarrow> u64 \<Rightarrow> u64 \<Rightarrow> kmem res" where
  "proc_freepagetable k pagetable sz =
     bnd (uvmunmap k pagetable TRAMPOLINE 1 False) (\<lambda>k.
     bnd (uvmunmap k pagetable TRAPFRAME 1 False) (\<lambda>k.
       uvmfree k pagetable sz))"

subsection \<open>Allocating and freeing a table entry\<close>

definition freeproc :: "'a pst_scheme \<Rightarrow> nat \<Rightarrow> 'a pst_scheme res" where
  "freeproc s i =
     (let p = procs s ! i in
      bnd (if p_trapframe p \<noteq> 0 then kfree (km s) (p_trapframe p) else Ok (km s)) (\<lambda>k.
      bnd (if p_pagetable p \<noteq> 0 then proc_freepagetable k (p_pagetable p) (p_sz p) else Ok k) (\<lambda>k.
        Ok (set_proc (set_km s k) i (\<lambda>p. p\<lparr>p_trapframe := 0, p_pagetable := 0, p_sz := 0, p_pid := 0,
              p_parent := None, p_name := [], p_chan := None, p_killed := 0, p_xstate := 0,
              p_state := UNUSED, p_tracing := 0\<rparr>)))))"

definition allocproc :: "linksyms \<Rightarrow> 'a pst_scheme \<Rightarrow> (nat option \<times> 'a pst_scheme) res" where
  "allocproc ls s =
     (case find_index (\<lambda>p. p_state p = UNUSED) (procs s) of
        None \<Rightarrow> Ok (None, s)
      | Some i \<Rightarrow>
          (case allocpid s of (pid, s) \<Rightarrow>
             let s = set_proc s i (\<lambda>p. p\<lparr>p_pid := pid, p_state := USED\<rparr>) in
             case kalloc (km s) of (tf, k) \<Rightarrow>
               let s = set_proc (set_km s k) i (\<lambda>p. p\<lparr>p_trapframe := tf\<rparr>) in
               if tf = 0 then bnd (freeproc s i) (\<lambda>s. Ok (None, s))
               else bnd (proc_pagetable ls (km s) tf) (\<lambda>(pt, k).
                 let s = set_proc (set_km s k) i (\<lambda>p. p\<lparr>p_pagetable := pt\<rparr>) in
                 if pt = 0 then bnd (freeproc s i) (\<lambda>s. Ok (None, s))
                 else Ok (Some i, set_proc s i (\<lambda>p. p\<lparr>
                        p_context := \<lparr>ctx_ra = sym_forkret ls, ctx_sp = p_kstack p + of_nat PGSIZE,
                                      ctx_s = replicate 12 0\<rparr>,
                        p_tracing := 0\<rparr>)))))"

definition growproc :: "'a pst_scheme \<Rightarrow> nat \<Rightarrow> int \<Rightarrow> (int \<times> 'a pst_scheme) res" where
  "growproc s me n =
     (let p = procs s ! me; sz = p_sz p in
      if n > 0 then
        if sz + of_int n > TRAPFRAME then Ok (-1, s)
        else bnd (uvmalloc (km s) (p_pagetable p) sz (sz + of_int n) PTE_W) (\<lambda>(sz, k).
          if sz = 0 then Ok (-1, set_km s k)
          else Ok (0, set_proc (set_km s k) me (\<lambda>p. p\<lparr>p_sz := sz\<rparr>)))
      else if n < 0 then
        bnd (uvmdealloc (km s) (p_pagetable p) sz (sz + of_int n)) (\<lambda>(sz, k).
          Ok (0, set_proc (set_km s k) me (\<lambda>p. p\<lparr>p_sz := sz\<rparr>)))
      else Ok (0, set_proc s me (\<lambda>p. p\<lparr>p_sz := sz\<rparr>)))"

subsection \<open>Fork, exit, wait\<close>

definition fork_files :: "'a filest_scheme \<Rightarrow> nat \<Rightarrow> nat \<Rightarrow> 'a filest_scheme res" where
  "fork_files s me np =
     fold_res (\<lambda>fd s.
       case p_ofile (procs s ! me) ! fd of
         None \<Rightarrow> Ok s
       | Some f \<Rightarrow> bnd (filedup s f) (\<lambda>s.
           Ok (set_proc s np (\<lambda>p. p\<lparr>p_ofile := (p_ofile p)[fd := Some f]\<rparr>)))) [0..<NOFILE] s"

definition safestrcpy_name :: "u8 list \<Rightarrow> u8 list" where
  "safestrcpy_name n = take 15 n"

definition kfork :: "linksyms \<Rightarrow> 'a filest_scheme \<Rightarrow> nat \<Rightarrow> (int \<times> 'a filest_scheme) res" where
  "kfork ls s me =
     bnd (allocproc ls s) (\<lambda>(r, s).
       case r of None \<Rightarrow> Ok (-1, s)
       | Some np \<Rightarrow>
           let p = procs s ! me in
           bnd (uvmcopy (km s) (p_pagetable p) (p_pagetable (procs s ! np)) (p_sz p)) (\<lambda>(r, k).
             let s = set_km s k in
             if r < 0 then bnd (freeproc s np) (\<lambda>s. Ok (-1, s))
             else
               let s = set_proc s np (\<lambda>q. q\<lparr>p_sz := p_sz p\<rparr>);
                   ntf = p_trapframe (procs s ! np);
                   m = memmove (mem (km s)) ntf (p_trapframe p) TRAPFRAME_SIZE;
                   s = set_km s ((km s)\<lparr>mem := tf_set m ntf Ta0 0\<rparr>)
               in bnd (fork_files s me np) (\<lambda>s.
                 case p_cwd (procs s ! me) of
                   None \<Rightarrow> Panic ''kerneltrap''
                 | Some c \<Rightarrow>
                     let s = snd (idup s c);
                         s = set_proc s np (\<lambda>q. q\<lparr>p_cwd := Some c, p_name := safestrcpy_name (p_name p),
                               p_tracing := p_tracing p\<rparr>);
                         pid = p_pid (procs s ! np);
                         s = set_proc s np (\<lambda>q. q\<lparr>p_parent := Some me\<rparr>)
                     in Ok (pid, set_proc s np (\<lambda>q. q\<lparr>p_state := RUNNABLE\<rparr>)))))"

definition reparent :: "'a pst_scheme \<Rightarrow> nat \<Rightarrow> 'a pst_scheme" where
  "reparent s me =
     fold (\<lambda>i s. if p_parent (procs s ! i) = Some me
                 then let s = set_proc s i (\<lambda>p. p\<lparr>p_parent := initproc s\<rparr>) in
                      (case initproc s of None \<Rightarrow> s | Some ip \<Rightarrow> wakeup s (Some me) (ChProc ip))
                 else s) [0..<length (procs s)] s"

definition exit_files :: "'a filest_scheme \<Rightarrow> nat \<Rightarrow> 'a filest_scheme res" where
  "exit_files s me =
     fold_res (\<lambda>fd s.
       case p_ofile (procs s ! me) ! fd of
         None \<Rightarrow> Ok s
       | Some f \<Rightarrow> bnd (fileclose s me f) (\<lambda>s.
           Ok (set_proc s me (\<lambda>p. p\<lparr>p_ofile := (p_ofile p)[fd := None]\<rparr>)))) [0..<NOFILE] s"

text \<open>The state in which \<open>kexit\<close> enters the scheduler for the last time.\<close>

definition kexit :: "'a filest_scheme \<Rightarrow> nat \<Rightarrow> int \<Rightarrow> 'a filest_scheme res" where
  "kexit s me status =
     (if Some me = initproc s then Panic ''init exiting''
      else bnd (exit_files s me) (\<lambda>s.
        bnd (begin_op s) (\<lambda>s.
        case p_cwd (procs s ! me) of
          None \<Rightarrow> Panic ''kerneltrap''
        | Some c \<Rightarrow>
            bnd (iput s me c) (\<lambda>s.
            bnd (end_op s me) (\<lambda>s.
              let s = set_proc s me (\<lambda>p. p\<lparr>p_cwd := None\<rparr>);
                  s = reparent s me;
                  s = (case p_parent (procs s ! me) of None \<Rightarrow> s
                       | Some pp \<Rightarrow> wakeup s (Some me) (ChProc pp));
                  s = set_proc s me (\<lambda>p. p\<lparr>p_xstate := status, p_state := ZOMBIE\<rparr>)
              in sched True 1 False s me)))))"

text \<open>One pass of \<open>kwait\<close> over the table; \<open>Blocks\<close> is its sleep on the caller's own structure.\<close>

definition kwait :: "'a pst_scheme \<Rightarrow> nat \<Rightarrow> u64 \<Rightarrow> (int \<times> 'a pst_scheme) res" where
  "kwait s me addr =
     (case find_index (\<lambda>p. p_parent p = Some me \<and> p_state p = ZOMBIE) (procs s) of
        Some i \<Rightarrow>
          let pid = p_pid (procs s ! i) in
          bnd (if addr \<noteq> 0 then copyout_proc s me addr (le_bytes 4 (nat (p_xstate (procs s ! i) mod 2 ^ 32)))
               else Ok (0, s)) (\<lambda>(r, s).
            if r < 0 then Ok (-1, s) else bnd (freeproc s i) (\<lambda>s. Ok (pid, s)))
      | None \<Rightarrow>
          if (\<forall>p\<in>set (procs s). p_parent p \<noteq> Some me) \<or> killed s me \<noteq> 0 then Ok (-1, s)
          else Blocks (ChProc me))"

definition userinit :: "linksyms \<Rightarrow> 'a filest_scheme \<Rightarrow> 'a filest_scheme res" where
  "userinit ls s =
     bnd (allocproc ls s) (\<lambda>(r, s).
       case r of None \<Rightarrow> Panic ''kerneltrap''
       | Some p \<Rightarrow>
           bnd (namei (s\<lparr>initproc := Some p\<rparr>) p [SLASH]) (\<lambda>(ip, s).
             Ok (set_proc s p (\<lambda>q. q\<lparr>p_cwd := ip, p_state := RUNNABLE\<rparr>))))"

text \<open>The listing that control-P prints: a line per used slot.\<close>

definition state_name :: "procstate \<Rightarrow> string" where
  "state_name st = (case st of UNUSED \<Rightarrow> ''unused'' | USED \<Rightarrow> ''used'' | SLEEPING \<Rightarrow> ''sleep ''
     | RUNNABLE \<Rightarrow> ''runble'' | RUNNING \<Rightarrow> ''run   '' | ZOMBIE \<Rightarrow> ''zombie'')"

definition procdump :: "'a pst_scheme \<Rightarrow> (int \<times> string \<times> u8 list) list" where
  "procdump s = map (\<lambda>p. (p_pid p, state_name (p_state p), p_name p)) (filter (\<lambda>p. p_state p \<noteq> UNUSED) (procs s))"

section \<open>What the operations change\<close>

definition freed :: "proc \<Rightarrow> proc" where
  "freed p = p\<lparr>p_trapframe := 0, p_pagetable := 0, p_sz := 0, p_pid := 0, p_parent := None, p_name := [],
     p_chan := None, p_killed := 0, p_xstate := 0, p_state := UNUSED, p_tracing := 0\<rparr>"

lemma freeproc_Ok:
  assumes "freeproc s i = Ok t"
  obtains k where "t = s\<lparr>km := k, procs := (procs s)[i := freed (procs s ! i)]\<rparr>"
  using assms by (auto simp: freeproc_def Let_def set_km_def set_proc_def freed_def)

definition allocated :: "linksyms \<Rightarrow> int \<Rightarrow> u64 \<Rightarrow> u64 \<Rightarrow> proc \<Rightarrow> proc" where
  "allocated ls pid tf pt p = p\<lparr>p_pid := pid, p_state := USED, p_trapframe := tf, p_pagetable := pt,
     p_context := \<lparr>ctx_ra = sym_forkret ls, ctx_sp = p_kstack p + of_nat PGSIZE, ctx_s = replicate 12 0\<rparr>,
     p_tracing := 0\<rparr>"

lemma allocproc_Some:
  assumes "allocproc ls s = Ok (Some i, t)"
  obtains k tf pt where "find_index (\<lambda>p. p_state p = UNUSED) (procs s) = Some i" "tf \<noteq> 0" "pt \<noteq> 0"
    "t = s\<lparr>nextpid := nextpid s + 1, km := k, procs := (procs s)[i := allocated ls (nextpid s) tf pt (procs s ! i)]\<rparr>"
  using assms
  by (auto simp: allocproc_def allocpid_def set_proc_def set_km_def Let_def allocated_def find_index_Some_iff
        split: option.splits prod.splits if_splits)

lemma allocproc_None:
  assumes "allocproc ls s = Ok (None, t)"
  shows "t = s \<or> (\<exists>i k. find_index (\<lambda>p. p_state p = UNUSED) (procs s) = Some i \<and>
    t = s\<lparr>nextpid := nextpid s + 1, km := k, procs := (procs s)[i := freed (procs s ! i)]\<rparr>)"
proof (cases "find_index (\<lambda>p. p_state p = UNUSED) (procs s)")
  case None
  then show ?thesis using assms by (simp add: allocproc_def)
next
  case (Some i)
  then have "i < length (procs s)" by (simp add: find_index_Some_iff)
  with Some assms show ?thesis
    by (auto simp: allocproc_def allocpid_def set_proc_def set_km_def Let_def freed_def
        elim!: freeproc_Ok split: prod.splits if_splits)
qed

text \<open>The child's descriptors after the first \<open>n\<close> turns of the loop.\<close>

definition dup_ofile :: "nat \<Rightarrow> nat option list \<Rightarrow> nat option list \<Rightarrow> nat option list" where
  "dup_ofile n par ch = map (\<lambda>fd. if fd < n \<and> par ! fd \<noteq> None then par ! fd else ch ! fd) [0..<length ch]"

lemma dup_ofile_0 [simp]: "dup_ofile 0 par ch = ch"
  by (simp add: dup_ofile_def map_nth)

lemma length_dup_ofile [simp]: "length (dup_ofile n par ch) = length ch"
  by (simp add: dup_ofile_def)

lemma dup_ofile_None: "par ! n = None \<Longrightarrow> dup_ofile (Suc n) par ch = dup_ofile n par ch"
  by (rule nth_equalityI) (auto simp: dup_ofile_def less_Suc_eq)

lemma dup_ofile_Some: "par ! n = Some f \<Longrightarrow> n < length ch \<Longrightarrow> dup_ofile (Suc n) par ch = (dup_ofile n par ch)[n := Some f]"
  by (rule nth_equalityI) (auto simp: dup_ofile_def less_Suc_eq nth_list_update)

lemma fork_files_upto:
  assumes "fold_res (\<lambda>fd s.
       case p_ofile (procs s ! me) ! fd of
         None \<Rightarrow> Ok s
       | Some f \<Rightarrow> bnd (filedup s f) (\<lambda>s.
           Ok (set_proc s np (\<lambda>p. p\<lparr>p_ofile := (p_ofile p)[fd := Some f]\<rparr>)))) [0..<n] s = Ok t"
    and "me \<noteq> np" "np < length (procs s)" "n \<le> length (p_ofile (procs s ! me))"
      "n \<le> length (p_ofile (procs s ! np))"
      "\<forall>f. Some f \<in> set (p_ofile (procs s ! me)) \<longrightarrow> f < length (files s)"
  shows "\<exists>fs. t = s\<lparr>procs := (procs s)[np := (procs s ! np)\<lparr>p_ofile :=
             dup_ofile n (p_ofile (procs s ! me)) (p_ofile (procs s ! np))\<rparr>],
             files := fs\<rparr> \<and> length fs = length (files s) \<and>
         (\<forall>f<length (files s). fs ! f = (files s ! f)\<lparr>f_ref := f_ref (files s ! f) + int (count_list (take n (p_ofile (procs s ! me))) (Some f))\<rparr>)"
  using assms
proof (induction n arbitrary: t)
  case 0
  then show ?case by (intro exI [of _ "files s"]) simp
next
  case (Suc n)
  let ?body = "\<lambda>fd s. case p_ofile (procs s ! me) ! fd of None \<Rightarrow> Ok s
       | Some f \<Rightarrow> bnd (filedup s f) (\<lambda>s. Ok (set_proc s np (\<lambda>p. p\<lparr>p_ofile := (p_ofile p)[fd := Some f]\<rparr>)))"
  let ?of = "\<lambda>n. dup_ofile n (p_ofile (procs s ! me)) (p_ofile (procs s ! np))"
  from Suc.prems(1) obtain u where u: "fold_res ?body [0..<n] s = Ok u" "?body n u = Ok t"
    by (auto simp: fold_res_append simp del: fold_res.simps(2)) (auto)
  from Suc.IH [OF u(1)] Suc.prems obtain fs where
    fs: "u = s\<lparr>procs := (procs s)[np := (procs s ! np)\<lparr>p_ofile := ?of n\<rparr>], files := fs\<rparr>" "length fs = length (files s)"
      "\<forall>f<length (files s). fs ! f = (files s ! f)\<lparr>f_ref := f_ref (files s ! f) +
         int (count_list (take n (p_ofile (procs s ! me))) (Some f))\<rparr>"
    by auto
  have me: "procs u ! me = procs s ! me" using fs(1) Suc.prems(2) by simp
  have tk: "take (Suc n) (p_ofile (procs s ! me)) = take n (p_ofile (procs s ! me)) @ [p_ofile (procs s ! me) ! n]"
    using Suc.prems(4) by (simp add: take_Suc_conv_app_nth)
  show ?case
  proof (cases "p_ofile (procs s ! me) ! n")
    case None
    then have "t = u" using u(2) me by simp
    then show ?thesis using fs None by (auto simp: tk dup_ofile_None)
  next
    case (Some f)
    then have f: "f < length (files s)" using Suc.prems(4,6) by (metis Suc_le_lessD nth_mem)
    have "(?of n)[n := Some f] = ?of (Suc n)"
      using dup_ofile_Some [OF Some] Suc.prems(5) by simp
    moreover have "t = u\<lparr>files := fs[f := (fs ! f)\<lparr>f_ref := f_ref (fs ! f) + 1\<rparr>],
        procs := (procs u)[np := (procs u ! np)\<lparr>p_ofile := (p_ofile (procs u ! np))[n := Some f]\<rparr>]\<rparr>"
      using u(2) me Some fs(1) by (auto simp: filedup_def set_file_def set_proc_def split: if_splits)
    ultimately have "t = s\<lparr>procs := (procs s)[np := (procs s ! np)\<lparr>p_ofile := ?of (Suc n)\<rparr>],
        files := fs[f := (fs ! f)\<lparr>f_ref := f_ref (fs ! f) + 1\<rparr>]\<rparr>"
      using fs(1) Suc.prems(3) by simp
    then show ?thesis using fs(2,3) f Some by (auto simp: tk nth_list_update)
  qed
qed


section \<open>Copying a trap frame\<close>

lemma load64_eqI:
  assumes "\<And>i. i < 8 \<Longrightarrow> m (a + of_nat i) = m' (b + of_nat i)"
  shows "load64 m a = load64 m' b"
  using assms [of 0] assms [of 1] assms [of 2] assms [of 3] assms [of 4] assms [of 5] assms [of 6] assms [of 7]
  by (simp add: load64_def)

lemma tf_get_eqI:
  assumes "\<And>k. k < TRAPFRAME_SIZE \<Longrightarrow> m (a + of_nat k) = m' (b + of_nat k)"
  shows "tf_get m a q = tf_get m' b q"
  unfolding tf_get_def
proof (rule load64_eqI)
  fix i :: nat
  assume "i < 8"
  then have "8 * tf_index q + i < TRAPFRAME_SIZE" using tf_regs_index(2) [of q] by (simp add: TRAPFRAME_SIZE_def)
  from assms [OF this] show "m (a + 8 * of_nat (tf_index q) + of_nat i) = m' (b + 8 * of_nat (tf_index q) + of_nat i)"
    by (simp add: add.assoc)
qed

lemma tf_copy:
  assumes "unat s + TRAPFRAME_SIZE < 2 ^ 64" "unat d + TRAPFRAME_SIZE < 2 ^ 64"
  shows "tf_get (memmove m d s TRAPFRAME_SIZE) d q = tf_get m s q"
    and "disjoint_ranges d s TRAPFRAME_SIZE \<Longrightarrow> tf_get (memmove m d s TRAPFRAME_SIZE) s q = tf_get m s q"
proof -
  show "tf_get (memmove m d s TRAPFRAME_SIZE) d q = tf_get m s q"
    by (rule tf_get_eqI) (simp add: memmove_apply [OF assms], simp add: TRAPFRAME_SIZE_def)
  show "tf_get (memmove m d s TRAPFRAME_SIZE) s q = tf_get m s q" if "disjoint_ranges d s TRAPFRAME_SIZE"
    by (rule tf_get_eqI) (use that in \<open>force simp: memmove_apply [OF assms] disjoint_ranges_def\<close>)
qed

lemma tf_set_apart:
  assumes "disjoint_ranges d s TRAPFRAME_SIZE"
  shows "tf_get (tf_set m d r v) s q = tf_get m s q"
proof (rule tf_get_eqI)
  fix k
  assume k: "k < TRAPFRAME_SIZE"
  let ?o = "8 * of_nat (tf_index r) :: u64"
  have o: "unat ?o = 8 * tf_index r" "8 * tf_index r + 8 \<le> 288"
    using tf_regs_index(2) [of r] by (simp_all add: unat_word_ariths)
  have ge: "288 \<le> unat (s + of_nat k - d)"
    using assms k by (simp add: disjoint_ranges_def TRAPFRAME_SIZE_def)
  have "s + of_nat k - (d + ?o) = (s + of_nat k - d) - ?o" by simp
  also have "unat \<dots> = unat (s + of_nat k - d) - unat ?o"
    using ge o by (intro unat_sub_if_le) (simp add: word_le_nat_alt)
  finally have "8 \<le> unat (s + of_nat k - (d + ?o))" using ge o by simp
  then show "tf_set m d r v (s + of_nat k) = m (s + of_nat k)"
    unfolding tf_set_def by (rule store64_outside)
qed


section \<open>Fork\<close>

definition table_ok :: "'a filest_scheme \<Rightarrow> bool" where
  "table_ok s \<longleftrightarrow> 0 < nextpid s \<and>
     (\<forall>p\<in>set (procs s). length (p_ofile p) = NOFILE \<and> (\<forall>f. Some f \<in> set (p_ofile p) \<longrightarrow> f < length (files s)) \<and>
        (p_state p = UNUSED \<longrightarrow> p_ofile p = replicate NOFILE None))"

definition child_of :: "'a pst_scheme \<Rightarrow> nat \<Rightarrow> proc \<Rightarrow> proc \<Rightarrow> bool" where
  "child_of s me p c \<longleftrightarrow> p_pid c = nextpid s \<and> p_state c = RUNNABLE \<and> p_parent c = Some me \<and>
     p_tracing c = p_tracing p \<and> p_sz c = p_sz p \<and> p_cwd c = p_cwd p \<and> p_ofile c = p_ofile p \<and>
     p_name c = take 15 (p_name p)"

lemma fork_files_Ok:
  assumes "fork_files s me np = Ok t" "me \<noteq> np" "np < length (procs s)"
     "length (p_ofile (procs s ! me)) = NOFILE" "p_ofile (procs s ! np) = replicate NOFILE None"
      "\<forall>f. Some f \<in> set (p_ofile (procs s ! me)) \<longrightarrow> f < length (files s)"
  obtains fs where "t = s\<lparr>procs := (procs s)[np := (procs s ! np)\<lparr>p_ofile := p_ofile (procs s ! me)\<rparr>], files := fs\<rparr>"
    "length fs = length (files s)"
    "\<forall>f<length (files s). fs ! f = (files s ! f)\<lparr>f_ref := f_ref (files s ! f) + int (count_list (p_ofile (procs s ! me)) (Some f))\<rparr>"
proof -
  have "dup_ofile NOFILE (p_ofile (procs s ! me)) (replicate NOFILE None) = p_ofile (procs s ! me)"
    using assms(4) by (intro nth_equalityI) (auto simp: dup_ofile_def)
  with fork_files_upto [OF assms(1) [unfolded fork_files_def] assms(2,3) _ _ assms(6)] that assms(4,5)
  show ?thesis by auto
qed

lemma kfork_Ok:
  fixes s :: "'a filest_scheme"
  assumes "kfork ls s me = Ok (r, t)" "r \<noteq> -1" "table_ok s"
    and me: "me < length (procs s)" "p_state (procs s ! me) \<noteq> UNUSED"
  obtains np m where "np \<noteq> me" "np < length (procs s)" "p_state (procs s ! np) = UNUSED" "r = nextpid s"
    "child_of s me (procs s ! me) (procs t ! np)" "\<forall>j. j \<noteq> np \<longrightarrow> procs t ! j = procs s ! j"
    "length (procs t) = length (procs s)" "nextpid t = nextpid s + 1"
    "mem (km t) = tf_set (memmove m (p_trapframe (procs t ! np)) (p_trapframe (procs s ! me)) TRAPFRAME_SIZE)
       (p_trapframe (procs t ! np)) Ta0 0"
    "\<forall>f<length (files s). f_ref (files t ! f) = f_ref (files s ! f) + int (count_list (p_ofile (procs s ! me)) (Some f))"
proof -
  from assms(1) obtain a s1 where a: "allocproc ls s = Ok (a, s1)" by (auto simp: kfork_def)
  with assms(1,2) obtain np where np: "a = Some np" by (cases a) (auto simp: kfork_def)
  obtain k tf pt where al: "find_index (\<lambda>p. p_state p = UNUSED) (procs s) = Some np"
    and s1: "s1 = s\<lparr>nextpid := nextpid s + 1, km := k, procs := (procs s)[np := allocated ls (nextpid s) tf pt (procs s ! np)]\<rparr>"
    using allocproc_Some [OF a [unfolded np]] by metis
  have n: "np < length (procs s)" "p_state (procs s ! np) = UNUSED" using al by (auto simp: find_index_Some_iff)
  have ne: "np \<noteq> me" using n(2) me(2) by auto
  let ?p = "procs s ! me" and ?c = "allocated ls (nextpid s) tf pt (procs s ! np)"
  define s3 where "s3 = (\<lambda>k2. s1\<lparr>procs := (procs s)[np := ?c\<lparr>p_sz := p_sz ?p\<rparr>],
      km := k2\<lparr>mem := tf_set (memmove (mem k2) tf (p_trapframe ?p) TRAPFRAME_SIZE) tf Ta0 0\<rparr>\<rparr>)"
  have p1: "procs s1 ! me = ?p" "procs s1 ! np = ?c" "length (procs s1) = length (procs s)"
    using ne n by (simp_all add: s1)
  have tf: "p_trapframe ?c = tf" by (simp add: allocated_def)
  define fin where "fin = (\<lambda>(s4 :: 'a filest_scheme) c. set_proc (snd (idup s4 c)) np (\<lambda>q. q\<lparr>p_cwd := Some c,
      p_name := safestrcpy_name (p_name ?p), p_tracing := p_tracing ?p\<rparr>))"
  have "\<exists>k2 s4 c. fork_files (s3 k2) me np = Ok s4 \<and> p_cwd (procs s4 ! me) = Some c \<and>
      r = p_pid (procs (fin s4 c) ! np) \<and>
      t = set_proc (set_proc (fin s4 c) np (\<lambda>q. q\<lparr>p_parent := Some me\<rparr>)) np (\<lambda>q. q\<lparr>p_state := RUNNABLE\<rparr>)"
    using assms(1,2) n ne
    by (auto simp: kfork_def a np Let_def p1 s3_def set_proc_def set_km_def tf s1 fin_def
        split: if_splits option.splits)
  then obtain k2 s4 c where ff: "fork_files (s3 k2) me np = Ok s4" and cwd: "p_cwd (procs s4 ! me) = Some c"
    and r: "r = p_pid (procs (fin s4 c) ! np)"
    and t: "t = set_proc (set_proc (fin s4 c) np (\<lambda>q. q\<lparr>p_parent := Some me\<rparr>)) np (\<lambda>q. q\<lparr>p_state := RUNNABLE\<rparr>)"
    by blast
  have p3: "procs (s3 k2) ! me = ?p" "procs (s3 k2) ! np = ?c\<lparr>p_sz := p_sz ?p\<rparr>" "length (procs (s3 k2)) = length (procs s)"
      "files (s3 k2) = files s" "nextpid (s3 k2) = nextpid s + 1"
    using ne n by (simp_all add: s3_def s1)
  have tab: "?p \<in> set (procs s)" "procs s ! np \<in> set (procs s)" using me n by auto
  have pp: "length (p_ofile ?p) = NOFILE" "\<forall>f. Some f \<in> set (p_ofile ?p) \<longrightarrow> f < length (files s)"
      "p_ofile ?c = replicate NOFILE None"
    using tab assms(3) n(2) unfolding table_ok_def by (blast, blast, simp add: allocated_def)
  obtain fs where s4: "s4 = (s3 k2)\<lparr>procs := (procs (s3 k2))[np := (procs (s3 k2) ! np)\<lparr>p_ofile := p_ofile ?p\<rparr>], files := fs\<rparr>"
    and fs: "\<forall>f<length (files s). fs ! f = (files s ! f)\<lparr>f_ref := f_ref (files s ! f) + int (count_list (p_ofile ?p) (Some f))\<rparr>"
    by (rule fork_files_Ok [OF ff ne [symmetric]]) (use n in \<open>simp_all add: p3 pp\<close>)
  have p4: "procs s4 ! me = ?p" "procs s4 ! np = ?c\<lparr>p_sz := p_sz ?p, p_ofile := p_ofile ?p\<rparr>" "length (procs s4) = length (procs s)"
    using ne n by (simp_all add: s4 p3)
  have pt: "procs t ! np = ?c\<lparr>p_sz := p_sz ?p, p_ofile := p_ofile ?p, p_cwd := Some c,
      p_name := safestrcpy_name (p_name ?p), p_tracing := p_tracing ?p, p_parent := Some me, p_state := RUNNABLE\<rparr>"
    using n by (simp add: t set_proc_def fin_def idup_def set_inode_def p4)
  show ?thesis
  proof (rule that [of np "mem k2"])
    show "r = nextpid s" using n by (simp add: r fin_def set_proc_def idup_def set_inode_def p4 allocated_def)
    show "child_of s me ?p (procs t ! np)"
      using cwd by (simp add: child_of_def pt p4 allocated_def safestrcpy_name_def)
    show "\<forall>j. j \<noteq> np \<longrightarrow> procs t ! j = procs s ! j"
      by (simp add: t set_proc_def fin_def idup_def set_inode_def s4 s3_def)
    show "length (procs t) = length (procs s)"
      by (simp add: t set_proc_def fin_def idup_def set_inode_def s4 s3_def)
    show "nextpid t = nextpid s + 1"
      by (simp add: t set_proc_def fin_def idup_def set_inode_def s4 p3)
    show "mem (km t) = tf_set (memmove (mem k2) (p_trapframe (procs t ! np)) (p_trapframe ?p) TRAPFRAME_SIZE)
       (p_trapframe (procs t ! np)) Ta0 0"
      by (simp add: pt tf, simp add: t set_proc_def fin_def idup_def set_inode_def s4 s3_def allocated_def)
    show "\<forall>f<length (files s). f_ref (files t ! f) = f_ref (files s ! f) + int (count_list (p_ofile ?p) (Some f))"
      using fs by (simp add: t set_proc_def fin_def idup_def set_inode_def s4)
  qed (use n ne in auto)
qed


lemma fork_files_pids:
  assumes "fork_files s me np = Ok t"
  shows "map p_pid (procs t) = map p_pid (procs s)"
proof (rule fold_res_inv [OF assms [unfolded fork_files_def], where P = "\<lambda>u. map p_pid (procs u) = map p_pid (procs s)"])
  fix i u v
  assume u: "map p_pid (procs u) = map p_pid (procs s)"
    and "(case p_ofile (procs u ! me) ! i of None \<Rightarrow> Ok u
          | Some f \<Rightarrow> bnd (filedup u f) (\<lambda>s. Ok (set_proc s np (\<lambda>p. p\<lparr>p_ofile := (p_ofile p)[i := Some f]\<rparr>)))) = Ok v"
  then have "v = u \<or> (\<exists>g f. procs v = (procs u)[np := (procs u ! np)\<lparr>p_ofile := f\<rparr>])"
    by (auto simp: filedup_def set_file_def set_proc_def split: option.splits if_splits)
  then show "map p_pid (procs v) = map p_pid (procs s)"
    using u by (auto simp: map_update) (metis list_update_id map_update)
qed simp

lemma kfork_fails:
  assumes "kfork ls s me = Ok (-1, t)" "0 < nextpid s"
  shows "nextpid s \<le> nextpid t \<and> (procs t = procs s \<or> (\<exists>np<length (procs s). p_state (procs s ! np) = UNUSED \<and>
    (\<exists>p. procs t = (procs s)[np := freed p])))"
proof -
  from assms(1) obtain a s1 where a: "allocproc ls s = Ok (a, s1)" by (auto simp: kfork_def)
  show ?thesis
  proof (cases a)
    case None
    with assms(1) a have "t = s1" by (simp add: kfork_def)
    then show ?thesis
      using allocproc_None [OF a [unfolded None]] by (auto simp: find_index_Some_iff) blast
  next
    case (Some np)
    obtain k tf pt where al: "find_index (\<lambda>p. p_state p = UNUSED) (procs s) = Some np"
      and s1: "s1 = s\<lparr>nextpid := nextpid s + 1, km := k, procs := (procs s)[np := allocated ls (nextpid s) tf pt (procs s ! np)]\<rparr>"
      using allocproc_Some [OF a [unfolded Some]] by metis
    have n: "np < length (procs s)" "p_state (procs s ! np) = UNUSED" using al by (auto simp: find_index_Some_iff)
    from assms(1) obtain r k2 where uv:
      "uvmcopy (km s1) (p_pagetable (procs s1 ! me)) (p_pagetable (procs s1 ! np)) (p_sz (procs s1 ! me)) = Ok (r, k2)"
      by (auto simp: kfork_def a Some Let_def)
    have "r < 0"
    proof (rule ccontr)
      assume "\<not> r < 0"
      define s3 where "s3 = set_proc (set_km s1 k2) np (\<lambda>q. q\<lparr>p_sz := p_sz (procs s1 ! me)\<rparr>)"
      define s3' where "s3' = set_km s3 ((km s3)\<lparr>mem := tf_set (memmove (mem (km s3)) (p_trapframe (procs s3 ! np))
        (p_trapframe (procs s1 ! me)) TRAPFRAME_SIZE) (p_trapframe (procs s3 ! np)) Ta0 0\<rparr>)"
      have "\<exists>s4 c. fork_files s3' me np = Ok s4 \<and>
          p_pid (procs (set_proc (snd (idup s4 c)) np (\<lambda>q. q\<lparr>p_cwd := Some c,
             p_name := safestrcpy_name (p_name (procs s1 ! me)), p_tracing := p_tracing (procs s1 ! me)\<rparr>)) ! np) = -1"
        unfolding s3'_def s3_def using assms(1) uv \<open>\<not> r < 0\<close>
        by (auto simp: kfork_def a Some Let_def split: option.splits if_splits)
      then obtain s4 c where ff: "fork_files s3' me np = Ok s4"
        and r: "p_pid (procs (set_proc (snd (idup s4 c)) np (\<lambda>q. q\<lparr>p_cwd := Some c,
             p_name := safestrcpy_name (p_name (procs s1 ! me)), p_tracing := p_tracing (procs s1 ! me)\<rparr>)) ! np) = -1"
        by blast
      have p3: "procs s3' = (procs s1)[np := (procs s1 ! np)\<lparr>p_sz := p_sz (procs s1 ! me)\<rparr>]"
        by (simp add: s3'_def s3_def set_proc_def set_km_def)
      have pid: "map p_pid (procs s3') = map p_pid (procs s1)"
        unfolding p3 map_update by simp (metis list_update_id map_update)
      have "map p_pid (procs s4) = map p_pid (procs s1)" using fork_files_pids [OF ff] pid by simp
      then have "p_pid (procs s4 ! np) = p_pid (procs s1 ! np)" "length (procs s4) = length (procs s1)"
        using n s1 map_eq_imp_length_eq [OF \<open>map p_pid (procs s4) = map p_pid (procs s1)\<close>]
        by (metis length_list_update nth_map pst.select_convs(2) pst.surjective pst.update_convs(2))+
      then show False using r assms(2) n by (simp add: set_proc_def idup_def set_inode_def s1 allocated_def)
    qed
    then obtain u where "freeproc (set_km s1 k2) np = Ok t"
      using assms(1) uv by (auto simp: kfork_def a Some Let_def)
    then show ?thesis using n by (elim freeproc_Ok) (auto simp: set_km_def s1)
  qed
qed


section \<open>A new process\<close>

lemma layout_vpn: "vpn TRAMPOLINE = 2 ^ 26 - 1" "vpn TRAPFRAME = 2 ^ 26 - 2"
    "unat TRAMPOLINE = (2 ^ 26 - 1) * PGSIZE" "unat TRAPFRAME = (2 ^ 26 - 2) * PGSIZE"
  by (simp_all add: TRAPFRAME_def TRAMPOLINE_def MAXVA_def PGSIZE_def)

lemma uvmcreate_ok:
  assumes "kmem_inv k (p # ps)"
  obtains k' where "uvmcreate k = (p, k')" "pt_inv k' ps p" "\<And>n. pmap (mem k') p n = 0" "p \<noteq> 0"
proof -
  obtain k1 where k1: "kalloc k = (p, k1)" "kmem_inv k1 ps" "kend k1 = kend k"
    "\<And>a. mem k1 a = (if in_page p a then 5 else mem k a)" using kalloc_page [OF assms] by blast
  let ?k = "k1\<lparr>mem := memset (mem k1) p 0 PGSIZE\<rparr>"
  have p: "p \<noteq> 0" "page_ok k p" "p \<notin> set ps"
    using kpages.invar_distinct [OF assms] kpages.invar_good [OF assms] by auto
  have ok: "page_ok ?k p" using p(2) k1(3) by (simp add: page_ok_def)
  have inv: "kmem_inv ?k ps"
    using p by (intro kmem_inv_write [OF k1(2), of p]) (auto simp: page_ok_def memset_page)
  have z: "mem ?k b = 0" if "in_page p b" for b using that by (simp add: memset_page)
  note f = pt_inv_fresh [OF inv ok p(3) z]
  have "uvmcreate k = (p, ?k)" using k1(1) p(1) by (simp add: uvmcreate_def)
  with f p(1) that show ?thesis by blast
qed

lemma proc_pagetable_ok:
  assumes "kmem_inv k ps" "5 \<le> length ps"
  obtains pt k' ps' where "proc_pagetable ls k tf = Ok (pt, k')" "pt \<noteq> 0" "pt_inv k' ps' pt"
    "\<And>v. v < 2 ^ 26 \<Longrightarrow> pmap (mem k') pt v =
       (if v = 2 ^ 26 - 1 then PA2PTE (sym_trampoline ls) OR (PTE_R OR PTE_X) OR PTE_V
        else if v = 2 ^ 26 - 2 then PA2PTE tf OR (PTE_R OR PTE_W) OR PTE_V else 0)"
proof -
  obtain p qs where ps: "ps = p # qs" "4 \<le> length qs" using assms(2) by (cases ps) auto
  obtain k1 where k1: "uvmcreate k = (p, k1)" "pt_inv k1 qs p" "\<And>n. pmap (mem k1) p n = 0" "p \<noteq> 0"
    using uvmcreate_ok assms(1) ps(1) by metis
  have "\<exists>k2 ps2 j. mappages k1 p TRAMPOLINE (of_nat (1 * PGSIZE)) (sym_trampoline ls) (PTE_R OR PTE_X) = Ok (0, k2) \<and>
     pt_inv k2 ps2 p \<and> j \<le> 2 * 1 \<and> ps2 = drop j qs \<and>
     (\<forall>v<2 ^ 26. pmap (mem k2) p v =
        (if vpn TRAMPOLINE \<le> v \<and> v < vpn TRAMPOLINE + 1
         then PA2PTE (sym_trampoline ls + of_nat ((v - vpn TRAMPOLINE) * PGSIZE)) OR (PTE_R OR PTE_X) OR PTE_V
         else pmap (mem k1) p v))"
    using ps(2) by (intro mappages_ok [OF k1(2)]) (simp_all add: k1(3) layout_vpn page_aligned_def pte_has_def PGSIZE_def)
  then obtain k2 j where k2: "mappages k1 p TRAMPOLINE (of_nat PGSIZE) (sym_trampoline ls) (PTE_R OR PTE_X) = Ok (0, k2)"
     "pt_inv k2 (drop j qs) p" "j \<le> 2"
    and pm2: "\<And>v. v < 2 ^ 26 \<Longrightarrow> pmap (mem k2) p v =
        (if v = 2 ^ 26 - 1 then PA2PTE (sym_trampoline ls) OR (PTE_R OR PTE_X) OR PTE_V else 0)"
    unfolding layout_vpn k1(3) by (auto simp: less_Suc_eq_le)
  have "\<exists>k3 ps3 i. mappages k2 p TRAPFRAME (of_nat (1 * PGSIZE)) tf (PTE_R OR PTE_W) = Ok (0, k3) \<and>
     pt_inv k3 ps3 p \<and> i \<le> 2 * 1 \<and> ps3 = drop i (drop j qs) \<and>
     (\<forall>v<2 ^ 26. pmap (mem k3) p v =
        (if vpn TRAPFRAME \<le> v \<and> v < vpn TRAPFRAME + 1
         then PA2PTE (tf + of_nat ((v - vpn TRAPFRAME) * PGSIZE)) OR (PTE_R OR PTE_W) OR PTE_V
         else pmap (mem k2) p v))"
    using ps(2) k2(3) by (intro mappages_ok [OF k2(2)]) (simp_all add: pm2 layout_vpn page_aligned_def pte_has_def PGSIZE_def)
  then obtain k3 ps3 where k3: "mappages k2 p TRAPFRAME (of_nat PGSIZE) tf (PTE_R OR PTE_W) = Ok (0, k3)" "pt_inv k3 ps3 p"
    and pm3: "\<And>v. v < 2 ^ 26 \<Longrightarrow> pmap (mem k3) p v =
        (if v = 2 ^ 26 - 2 then PA2PTE tf OR (PTE_R OR PTE_W) OR PTE_V else pmap (mem k2) p v)"
    unfolding layout_vpn by (auto simp: less_Suc_eq_le)
  show ?thesis
  proof (rule that [of p k3 ps3])
    show "proc_pagetable ls k tf = Ok (p, k3)"
      using k1(1,4) k2(1) k3(1) by (simp add: proc_pagetable_def)
  qed (use k1(4) k3(2) pm3 pm2 in \<open>auto\<close>)
qed

lemma allocproc_ok:
  assumes "kmem_inv (km s) ps" "6 \<le> length ps" "find_index (\<lambda>p. p_state p = UNUSED) (procs s) = Some i"
  obtains tf pt k' ps' where
    "allocproc ls s = Ok (Some i, s\<lparr>nextpid := nextpid s + 1, km := k',
       procs := (procs s)[i := allocated ls (nextpid s) tf pt (procs s ! i)]\<rparr>)"
    "tf \<in> set ps" "pt_inv k' ps' pt" 
    "\<And>v. v < 2 ^ 26 \<Longrightarrow> pmap (mem k') pt v =
       (if v = 2 ^ 26 - 1 then PA2PTE (sym_trampoline ls) OR (PTE_R OR PTE_X) OR PTE_V
        else if v = 2 ^ 26 - 2 then PA2PTE tf OR (PTE_R OR PTE_W) OR PTE_V else 0)"
proof -
  obtain tf qs where ps: "ps = tf # qs" "5 \<le> length qs" using assms(2) by (cases ps) auto
  obtain k1 where k1: "kalloc (km s) = (tf, k1)" "kmem_inv k1 qs" using kalloc_page assms(1) ps(1) by metis
  have tf: "tf \<noteq> 0" using kpages.invar_distinct [OF assms(1)] ps(1) by auto
  obtain pt k' ps' where k': "proc_pagetable ls k1 tf = Ok (pt, k')" "pt \<noteq> 0" "pt_inv k' ps' pt"
    and pm: "\<And>v. v < 2 ^ 26 \<Longrightarrow> pmap (mem k') pt v =
       (if v = 2 ^ 26 - 1 then PA2PTE (sym_trampoline ls) OR (PTE_R OR PTE_X) OR PTE_V
        else if v = 2 ^ 26 - 2 then PA2PTE tf OR (PTE_R OR PTE_W) OR PTE_V else 0)"
    by (rule proc_pagetable_ok [OF k1(2) ps(2), of ls tf]) blast
  have i: "i < length (procs s)" using assms(3) by (simp add: find_index_Some_iff)
  have "allocproc ls s = Ok (Some i, s\<lparr>nextpid := nextpid s + 1, km := k',
       procs := (procs s)[i := allocated ls (nextpid s) tf pt (procs s ! i)]\<rparr>)"
    using assms(3) k1(1) tf k' i
    by (simp add: allocproc_def allocpid_def set_proc_def set_km_def Let_def allocated_def)
  then show ?thesis using that k'(3) pm ps(1) by force
qed


section \<open>Process ids\<close>

text \<open>Ids of processes in use are positive, below \<open>nextpid\<close> and different; a free slot has id 0.\<close>

definition pid_ok :: "int \<Rightarrow> proc \<Rightarrow> bool" where
  "pid_ok n p \<longleftrightarrow> (if p_state p = UNUSED then p_pid p = 0 else 0 < p_pid p \<and> p_pid p < n)"

definition pids_ok :: "'a pst_scheme \<Rightarrow> bool" where
  "pids_ok s \<longleftrightarrow> 0 < nextpid s \<and> (\<forall>i<length (procs s). pid_ok (nextpid s) (procs s ! i)) \<and>
     (\<forall>i<length (procs s). \<forall>j<length (procs s). p_pid (procs s ! i) = p_pid (procs s ! j) \<longrightarrow>
        p_pid (procs s ! i) \<noteq> 0 \<longrightarrow> i = j)"

lemma pid_ok_mono: "pid_ok n p \<Longrightarrow> n \<le> m \<Longrightarrow> pid_ok m p"
  by (auto simp: pid_ok_def split: if_splits)

lemma pid_ok_freed [simp]: "pid_ok n (freed p)" "p_pid (freed p) = 0"
  by (simp_all add: pid_ok_def freed_def)

text \<open>One slot changes, to a free one or to a process with the next id; or none.\<close>

lemma pids_ok_update:
  assumes ok: "pids_ok s" and n: "nextpid s \<le> nextpid t" and l: "length (procs t) = length (procs s)"
    and same: "\<And>j. j \<noteq> i \<Longrightarrow> p_pid (procs t ! j) = p_pid (procs s ! j) \<and>
       (p_state (procs t ! j) = UNUSED \<longleftrightarrow> p_state (procs s ! j) = UNUSED)"
    and new: "pid_ok (nextpid t) (procs t ! i)"
      "p_pid (procs t ! i) = 0 \<or> p_pid (procs t ! i) = p_pid (procs s ! i) \<or> p_pid (procs t ! i) \<ge> nextpid s"
  shows "pids_ok t"
proof -
  have s: "0 < nextpid s" "\<And>i. i < length (procs s) \<Longrightarrow> pid_ok (nextpid s) (procs s ! i)"
    "\<And>i j. i < length (procs s) \<Longrightarrow> j < length (procs s) \<Longrightarrow> p_pid (procs s ! i) = p_pid (procs s ! j) \<Longrightarrow>
        p_pid (procs s ! i) \<noteq> 0 \<Longrightarrow> i = j"
    using ok unfolding pids_ok_def by blast+
  have lt: "p_pid (procs s ! j) < nextpid s" if "j < length (procs s)" for j
    using s(1) s(2) [OF that] by (auto simp: pid_ok_def split: if_splits)
  have a: "pid_ok (nextpid t) (procs t ! j)" if "j < length (procs t)" for j
  proof (cases "j = i")
    case False
    then have "pid_ok (nextpid s) (procs t ! j)" using same [OF False] s(2) [of j] that l by (auto simp: pid_ok_def)
    then show ?thesis using n by (rule pid_ok_mono)
  qed (use new in simp)
  have key: "j = i" if j: "j < length (procs s)" "i < length (procs s)" "p_pid (procs t ! j) = p_pid (procs t ! i)"
      "p_pid (procs t ! j) \<noteq> 0" for j
  proof (rule ccontr)
    assume "j \<noteq> i"
    then have e: "p_pid (procs t ! j) = p_pid (procs s ! j)" using same by blast
    from new(2) show False
    proof (elim disjE)
      assume "p_pid (procs t ! i) = 0" then show False using j by simp
    next
      assume "p_pid (procs t ! i) = p_pid (procs s ! i)"
      then have "p_pid (procs s ! j) = p_pid (procs s ! i)" "p_pid (procs s ! j) \<noteq> 0" using e j by simp_all
      with s(3) [OF j(1,2)] \<open>j \<noteq> i\<close> show False by blast
    next
      assume "nextpid s \<le> p_pid (procs t ! i)"
      then show False using e j(3) lt [OF j(1)] by linarith
    qed
  qed
  have b: "j = k" if jk: "j < length (procs s)" "k < length (procs s)" "p_pid (procs t ! j) = p_pid (procs t ! k)"
      "p_pid (procs t ! j) \<noteq> 0" for j k
  proof (cases "j = i \<or> k = i")
    case True
    then show ?thesis using key [of j] key [of k] jk by metis
  next
    case False
    then have "p_pid (procs s ! j) = p_pid (procs s ! k)" "p_pid (procs s ! j) \<noteq> 0" using same [of j] same [of k] jk by simp_all
    then show ?thesis using s(3) [OF jk(1,2)] by blast
  qed
  show ?thesis unfolding pids_ok_def
  proof (intro conjI allI impI)
    show "0 < nextpid t" using s(1) n by simp
  qed (use a b l in auto)
qed

lemma no_user_page:
  assumes "pt_inv k ps pt" "\<not> bit f 4"
    and "\<And>v. v < 2 ^ 26 \<Longrightarrow> pmap (mem k) pt v =
       (if v = 2 ^ 26 - 1 then PA2PTE a OR (PTE_R OR PTE_X) OR PTE_V
        else if v = 2 ^ 26 - 2 then PA2PTE b OR (PTE_R OR PTE_W) OR PTE_V else 0)"
  shows "walkaddr k pt va = 0"
proof (cases "va \<ge> MAXVA")
  case True
  then show ?thesis by (simp add: walkaddr_def)
next
  case False
  then have va: "unat va < 2 ^ 38" by (simp add: MAXVA_def word_le_nat_alt)
  then have v: "vpn va < 2 ^ 26" by (simp add: PGSIZE_def less_mult_imp_div_less)
  have nb: "\<not> bit (PA2PTE x) 4" for x by (simp add: PA2PTE_def bit_push_bit_iff)
  have "\<not> pte_has (pmap (mem k) pt (vpn va)) PTE_U"
    unfolding assms(3) [OF v] using nb by (simp add: pte_has_U bit_or_iff PTE_R_def PTE_W_def PTE_X_def PTE_V_def)
  then show ?thesis using walkaddr_pmap [OF assms(1) va] by (simp add: Let_def)
qed

lemma find_unused:
  assumes "\<exists>p\<in>set (procs s). p_state p = UNUSED"
  obtains i where "find_index (\<lambda>p. p_state p = UNUSED) (procs s) = Some i"
  using assms by (cases "find_index (\<lambda>p. p_state p = UNUSED) (procs s)") (auto simp: find_index_None_iff)

section \<open>A small table\<close>

definition ls_ex :: linksyms where
  "ls_ex = \<lparr>sym_etext = 0x80008000, sym_trampoline = 0x80007000, sym_forkret = 0x80001900, sym_usertrap = 0x80002400,
     sym_uservec = 0x80007000, sym_kernelvec = 0x80005500\<rparr>"

definition proc_ex :: filest where
  "proc_ex = \<lparr>km = vm_ex,
     procs = [\<lparr>p_state = RUNNING, p_chan = None, p_killed = 0, p_xstate = 0, p_pid = 1, p_parent = None,
         p_kstack = KSTACK 0, p_sz = 0, p_pagetable = 0x80110000, p_trapframe = 0x80111000,
         p_context = \<lparr>ctx_ra = 0, ctx_sp = 0, ctx_s = []\<rparr>, p_ofile = Some 0 # replicate 15 None, p_cwd = Some 0,
         p_name = [105, 110, 105, 116], p_tracing = 5\<rparr>,
       \<lparr>p_state = UNUSED, p_chan = None, p_killed = 0, p_xstate = 0, p_pid = 0, p_parent = None,
         p_kstack = KSTACK 1, p_sz = 0, p_pagetable = 0, p_trapframe = 0,
         p_context = \<lparr>ctx_ra = 0, ctx_sp = 0, ctx_s = []\<rparr>, p_ofile = replicate 16 None, p_cwd = None,
         p_name = [], p_tracing = 0\<rparr>],
     nextpid = 2, initproc = Some 0, ticks = 0, bufs = [], disk = (\<lambda>_. []), wtrace = [], log_start = 2,
     log_outstanding = 0, log_committing = False, log_dev = 1, log_ncommit = 0, lh_n = 0, lh_block = replicate LOGBLOCKS 0,
     sb = \<lparr>sb_magic = FSMAGIC, sb_size = 2000, sb_nblocks = 1953, sb_ninodes = 200, sb_nlog = 31, sb_logstart = 2,
       sb_inodestart = 33, sb_bmapstart = 46\<rparr>,
     inodes = [\<lparr>i_dev = 1, i_inum = 1, i_ref = 1, i_lock = initsleeplock ''inode'', i_valid = False, i_type = 0,
       i_major = 0, i_minor = 0, i_nlink = 0, i_size = 0, i_addrs = []\<rparr>],
     pipes = (\<lambda>_. \<lparr>pi_data = [], pi_nread = 0, pi_nwrite = 0, pi_readopen = False, pi_writeopen = False\<rparr>),
     files = [\<lparr>f_type = FD_DEVICE, f_ref = 1, f_readable = True, f_writable = True, f_pipe = 0, f_ip = 0, f_off = 0,
       f_major = 1\<rparr>]\<rparr>"

lemma proc_ex_simps:
  "km proc_ex = vm_ex" "nextpid proc_ex = 2" "find_index (\<lambda>p. p_state p = UNUSED) (procs proc_ex) = Some 1"
  "\<exists>p\<in>set (procs proc_ex). p_state p = UNUSED" "length (procs proc_ex) = 2" "p_state (procs proc_ex ! 0) = RUNNING"
  "kmem_inv (km proc_ex) vm_ex_free" "6 \<le> length vm_ex_free"
  using vm_ex_kmem by (simp_all add: proc_ex_def vm_ex_free_def)

lemma proc_ex_table: "table_ok proc_ex"
  unfolding table_ok_def by (simp add: proc_ex_def NOFILE_def numeral_nat)

lemma proc_ex_pids: "pids_ok proc_ex"
  by (auto simp: pids_ok_def pid_ok_def proc_ex_def less_Suc_eq numeral_2_eq_2 nth_Cons')

lemma proc_ex_fork: "\<exists>t. kfork ls proc_ex 0 = Ok (2, t)"
proof -
  obtain tf pt k' where a: "allocproc ls proc_ex = Ok (Some 1, proc_ex\<lparr>nextpid := nextpid proc_ex + 1, km := k',
       procs := (procs proc_ex)[1 := allocated ls (nextpid proc_ex) tf pt (procs proc_ex ! 1)]\<rparr>)"
    by (rule allocproc_ok [OF proc_ex_simps(7,8,3), of ls]) blast
  have "uvmcopy k r q 0 = Ok (0, k)" for k r q by (simp add: uvmcopy_def) (subst uvmcopy_loop.simps, simp)
  then show ?thesis
    unfolding kfork_def a
    by (simp add: Let_def proc_ex_def allocated_def set_km_def set_proc_def fork_files_def NOFILE_def
        upt_rec numeral_nat filedup_def set_file_def idup_def set_inode_def)
qed

section \<open>Properties\<close>




lemma fork_frames:
  assumes m: "m = tf_set (memmove m0 d p TRAPFRAME_SIZE) d Ta0 0"
    and b: "unat p + TRAPFRAME_SIZE < 2 ^ 64" "unat d + TRAPFRAME_SIZE < 2 ^ 64" "disjoint_ranges d p TRAPFRAME_SIZE"
  shows "tf_get m d Ta0 = 0" "q \<noteq> Ta0 \<Longrightarrow> tf_get m d q = tf_get m p q"
proof -
  show "tf_get m d Ta0 = 0" unfolding m by simp
  show "tf_get m d q = tf_get m p q" if "q \<noteq> Ta0"
    unfolding m using that tf_copy [OF b(1,2)] b(3) by (simp add: tf_set_apart)
qed



lemma pids_ok_slot:
  assumes "pids_ok s" "pids_ok s \<Longrightarrow> i < length (procs s) \<Longrightarrow> p_pid (f (procs s ! i)) = p_pid (procs s ! i) \<and>
     (p_state (f (procs s ! i)) = UNUSED \<longleftrightarrow> p_state (procs s ! i) = UNUSED)"
    "procs t = (procs s)[i := f (procs s ! i)]" "nextpid t = nextpid s"
  shows "pids_ok t"
proof (cases "i < length (procs s)")
  case True
  then show ?thesis
    using assms by (intro pids_ok_update [OF assms(1), of t i]) (auto simp: pid_ok_def pids_ok_def)
next
  case False
  then show ?thesis using assms by (simp add: pids_ok_def)
qed

lemma kfork_pids:
  assumes "kfork ls s me = Ok (r, t)" "pids_ok s" "table_ok s" "me < length (procs s)" "p_state (procs s ! me) \<noteq> UNUSED"
  shows "pids_ok t"
proof (cases "r = -1")
  case True
  have n: "0 < nextpid s" using assms(3) by (simp add: table_ok_def)
  consider "procs t = procs s" "nextpid s \<le> nextpid t" | np p where "np < length (procs s)" "nextpid s \<le> nextpid t"
      "procs t = (procs s)[np := freed p]"
    using kfork_fails [OF assms(1) [unfolded True] n] by blast
  then show ?thesis
  proof cases
    case 1
    then show ?thesis using assms(2) pid_ok_mono [OF _ 1(2)] by (auto simp: pids_ok_def)
  next
    case 2
    then show ?thesis by (intro pids_ok_update [OF assms(2), of t np]) auto
  qed
next
  case False
  obtain np where np: "np < length (procs s)" "child_of s me (procs s ! me) (procs t ! np)"
      "\<forall>j. j \<noteq> np \<longrightarrow> procs t ! j = procs s ! j" "length (procs t) = length (procs s)" "nextpid t = nextpid s + 1"
    using kfork_Ok [OF assms(1) False assms(3-5)] by metis
  have "0 < nextpid s" using assms(3) by (simp add: table_ok_def)
  then show ?thesis using np by (intro pids_ok_update [OF assms(2), of t np]) (auto simp: child_of_def pid_ok_def)
qed

lemma kwait_pids:
  assumes "kwait s me addr = Ok (r, t)" "pids_ok s"
  shows "pids_ok t"
proof (cases "find_index (\<lambda>p. p_parent p = Some me \<and> p_state p = ZOMBIE) (procs s)")
  case None
  then show ?thesis using assms by (auto simp: kwait_def split: if_splits)
next
  case (Some i)
  then have i: "i < length (procs s)" by (simp add: find_index_Some_iff)
  have co: "\<exists>k. u = s\<lparr>km := k\<rparr>" if "copyout_proc s me addr bs = Ok (c, u)" for c u bs
    using that by (auto simp: copyout_proc_def set_km_def Let_def)
  obtain c u where cu: "(if addr \<noteq> 0 then copyout_proc s me addr (le_bytes 4 (nat (p_xstate (procs s ! i) mod 2 ^ 32)))
               else Ok (0, s)) = Ok (c, u)" and rest: "c < 0 \<and> t = u \<or> freeproc u i = Ok t"
    using assms(1) Some by (auto simp: kwait_def Let_def split: if_splits)
  have u: "procs u = procs s" "nextpid u = nextpid s" using cu by (auto split: if_splits dest!: co)
  from rest show ?thesis
  proof (elim disjE conjE)
    assume "t = u" then show ?thesis using assms(2) u by (simp add: pids_ok_def)
  next
    assume "freeproc u i = Ok t"
    then obtain k where "t = u\<lparr>km := k, procs := (procs u)[i := freed (procs u ! i)]\<rparr>" by (rule freeproc_Ok)
    then show ?thesis using u i by (intro pids_ok_update [OF assms(2), of t i]) auto
  qed
qed

lemma table_pids:
  assumes "pids_ok s"
  shows "pids_ok (snd (kkill s pid))" "pids_ok (setkilled s i)" "yield s i = Ok t \<Longrightarrow> p_state (procs s ! i) = RUNNING \<Longrightarrow> pids_ok t"
    "scheduler_pick s i = Some t \<Longrightarrow> pids_ok t"
proof -
  show "pids_ok (snd (kkill s pid))"
  proof (cases "find_index (\<lambda>p. p_pid p = pid) (procs s)")
    case (Some j)
    show ?thesis
      by (rule pids_ok_slot [OF assms, where i = j and f = "\<lambda>p. p\<lparr>p_killed := 1,
            p_state := if p_state p = SLEEPING then RUNNABLE else p_state p\<rparr>"]) (simp_all add: kkill_def Some set_proc_def)
  qed (simp add: kkill_def assms)
  show "pids_ok (setkilled s i)"
    by (rule pids_ok_slot [OF assms, where i = i and f = "\<lambda>p. p\<lparr>p_killed := 1\<rparr>"]) (simp_all add: setkilled_def set_proc_def)
  show "pids_ok t" if "yield s i = Ok t" "p_state (procs s ! i) = RUNNING"
    using that by (intro pids_ok_slot [OF assms, where i = i and f = "\<lambda>p. p\<lparr>p_state := RUNNABLE\<rparr>"])
      (auto simp: yield_def sched_def set_proc_def split: if_splits)
  show "pids_ok t" if "scheduler_pick s i = Some t"
    using that by (intro pids_ok_slot [OF assms, where i = i and f = "\<lambda>p. p\<lparr>p_state := RUNNING\<rparr>"])
      (auto simp: scheduler_pick_def set_proc_def split: if_splits)
qed

lemma wakeup_pids: "pids_ok s \<Longrightarrow> pids_ok (wakeup s w ch)"
proof -
  have "length (procs (wakeup s w ch)) = length (procs s)" "nextpid (wakeup s w ch) = nextpid s"
    by (simp_all add: wakeup_def)
  moreover have "p_pid (procs (wakeup s w ch) ! i) = p_pid (procs s ! i)"
      "p_state (procs (wakeup s w ch) ! i) = UNUSED \<longleftrightarrow> p_state (procs s ! i) = UNUSED" if "i < length (procs s)" for i
    using that by (auto simp: wakeup_def Let_def)
  ultimately show "pids_ok s \<Longrightarrow> pids_ok (wakeup s w ch)" by (simp add: pids_ok_def pid_ok_def)
qed



text \<open>C38: \<open>kkill\<close> compares ids without looking at the state of the slot, and a free slot has id 0. So
  \<open>kkill(0)\<close> reports success whenever the table has a free slot, and as \<open>allocproc\<close> does not clear
  \<open>killed\<close>, the next process that is created starts its life killed.\<close>

theorem kkill_zero:
  assumes "pids_ok s" "kmem_inv (km s) ps" "6 \<le> length ps" "\<exists>p\<in>set (procs s). p_state p = UNUSED"
  shows "\<exists>t i u. kkill s 0 = (0, t) \<and> allocproc ls t = Ok (Some i, u) \<and> p_state (procs u ! i) = USED \<and> killed u i = 1"
proof -
  obtain i where i: "find_index (\<lambda>p. p_state p = UNUSED) (procs s) = Some i" using find_unused [OF assms(4)] by blast
  then have ii: "i < length (procs s)" "p_state (procs s ! i) = UNUSED" "\<forall>j<i. p_state (procs s ! j) \<noteq> UNUSED"
    by (auto simp: find_index_Some_iff)
  have pid: "p_pid (procs s ! j) = 0 \<longleftrightarrow> p_state (procs s ! j) = UNUSED" if "j < length (procs s)" for j
    using assms(1) that by (auto simp: pids_ok_def pid_ok_def split: if_splits)
  have z: "find_index (\<lambda>p. p_pid p = 0) (procs s) = Some i" using ii pid by (auto simp: find_index_Some_iff)
  let ?t = "set_proc s i (\<lambda>p. p\<lparr>p_killed := 1, p_state := if p_state p = SLEEPING then RUNNABLE else p_state p\<rparr>)"
  have k: "kkill s 0 = (0, ?t)" by (simp add: kkill_def z)
  have "find_index (\<lambda>p. p_state p = UNUSED) (procs ?t) = Some i"
    using ii by (auto simp: find_index_Some_iff set_proc_def)
  moreover have "km ?t = km s" by (simp add: set_proc_def)
  ultimately obtain tf pt k' where "allocproc ls ?t = Ok (Some i, ?t\<lparr>nextpid := nextpid ?t + 1, km := k',
       procs := (procs ?t)[i := allocated ls (nextpid ?t) tf pt (procs ?t ! i)]\<rparr>)"
    using allocproc_ok [of ?t ps i ls thesis] assms(2,3) by metis
  moreover have "procs ?t ! i = (procs s ! i)\<lparr>p_killed := 1, p_state := UNUSED\<rparr>" "i < length (procs ?t)"
    using ii by (simp_all add: set_proc_def)
  ultimately show ?thesis using k by (auto simp: killed_def allocated_def)
qed

theorem kkill_zero_witness:
  "\<exists>t i u. kkill proc_ex 0 = (0, t) \<and> allocproc ls_ex t = Ok (Some i, u) \<and> killed u i = 1"
  using kkill_zero [OF proc_ex_pids proc_ex_simps(7,8,4), of ls_ex] by blast

end
