(* ===== verification/Exec.thy ===== *)
theory Exec
  imports Proc
begin

text \<open>
  Replacing a process image (\<open>kernel/exec.c\<close>, \<open>kernel/elf.h\<close>). The argument vector is the list
  of the argument strings, each its bytes without the terminating zero; \<open>sys_exec\<close> passes at most
  31 of them. The \<open>goto bad\<close> exits are the calls of \<open>exec_bad\<close>.
\<close>

section \<open>Definitions\<close>

definition MAXARG :: nat where [param_defs]: "MAXARG = 32"
definition USERSTACK :: u64 where [param_defs]: "USERSTACK = 1"
definition ELF_MAGIC :: nat where [param_defs]: "ELF_MAGIC = 0x464C457F"
definition ELF_PROG_LOAD :: nat where [param_defs]: "ELF_PROG_LOAD = 1"
definition ELFHDR_SIZE :: nat where [param_defs]: "ELFHDR_SIZE = 64"
definition PROGHDR_SIZE :: nat where [param_defs]: "PROGHDR_SIZE = 56"

record elfhdr =
  e_magic :: nat
  e_entry :: u64
  e_phoff :: u64
  e_phnum :: nat

record proghdr =
  ph_type :: nat
  ph_flags :: nat
  ph_off :: u64
  ph_vaddr :: u64
  ph_filesz :: u64
  ph_memsz :: u64

definition get64 :: "u8 list \<Rightarrow> nat \<Rightarrow> u64" where
  "get64 b o1 = of_nat (get32 b o1) + push_bit 32 (of_nat (get32 b (o1 + 4)))"

definition get_elfhdr :: "u8 list \<Rightarrow> elfhdr" where
  "get_elfhdr b = \<lparr>e_magic = get32 b 0, e_entry = get64 b 24, e_phoff = get64 b 32, e_phnum = get16 b 56\<rparr>"

definition get_proghdr :: "u8 list \<Rightarrow> proghdr" where
  "get_proghdr b = \<lparr>ph_type = get32 b 0, ph_flags = get32 b 4, ph_off = get64 b 8, ph_vaddr = get64 b 16,
     ph_filesz = get64 b 32, ph_memsz = get64 b 40\<rparr>"

definition flags2perm :: "nat \<Rightarrow> u64" where
  "flags2perm flags =
     (let perm = (if odd flags then PTE_X else 0)
      in if odd (flags div 2) then perm OR PTE_W else perm)"

function loadseg_loop ::
    "'a filest_scheme \<Rightarrow> nat \<Rightarrow> u64 \<Rightarrow> u64 \<Rightarrow> nat \<Rightarrow> nat \<Rightarrow> nat \<Rightarrow> nat \<Rightarrow> (int \<times> 'a filest_scheme) res" where
  "loadseg_loop s me pagetable va ip offset sz i =
     (if i < sz then
        let pa = walkaddr (km s) pagetable (va + of_nat i) in
        if pa = 0 then Panic ''loadseg: address should exist''
        else let n = (if sz - i < PGSIZE then sz - i else PGSIZE) in
          bnd (readi s me ip (KernDst pa) ((offset + i) mod 2 ^ 32) n) (\<lambda>(r, _, s).
            if r \<noteq> int n then Ok (-1, s)
            else loadseg_loop s me pagetable va ip offset sz (i + PGSIZE))
      else Ok (0, s))"
  by pat_completeness auto
termination
  by (relation "measure (\<lambda>(s, me, pt, va, ip, off, sz, i). sz - i)") (auto simp: PGSIZE_def)

declare loadseg_loop.simps [simp del]

definition loadseg ::
    "'a filest_scheme \<Rightarrow> nat \<Rightarrow> u64 \<Rightarrow> u64 \<Rightarrow> nat \<Rightarrow> nat \<Rightarrow> nat \<Rightarrow> (int \<times> 'a filest_scheme) res" where
  "loadseg s me pagetable va ip offset sz =
     loadseg_loop s me pagetable va ip (offset mod 2 ^ 32) (sz mod 2 ^ 32) 0"

text \<open>The program-header loop: success flag, the new size, the state.\<close>

fun exec_segs ::
    "'a filest_scheme \<Rightarrow> nat \<Rightarrow> nat \<Rightarrow> u64 \<Rightarrow> u64 \<Rightarrow> nat \<Rightarrow> nat list \<Rightarrow> (bool \<times> u64 \<times> 'a filest_scheme) res" where
  "exec_segs s me ip pagetable sz phoff [] = Ok (True, sz, s)"
| "exec_segs s me ip pagetable sz phoff (i # is) =
     bnd (readi s me ip BufDst ((phoff + i * PROGHDR_SIZE) mod 2 ^ 32) PROGHDR_SIZE) (\<lambda>(r, bs, s).
       if r \<noteq> int PROGHDR_SIZE then Ok (False, sz, s)
       else let ph = get_proghdr bs in
         if ph_type ph \<noteq> ELF_PROG_LOAD then exec_segs s me ip pagetable sz phoff is
         else if ph_memsz ph < ph_filesz ph then Ok (False, sz, s)
         else if ph_vaddr ph + ph_memsz ph < ph_vaddr ph then Ok (False, sz, s)
         else if unat (ph_vaddr ph) mod PGSIZE \<noteq> 0 then Ok (False, sz, s)
         else bnd (uvmalloc (km s) pagetable sz (ph_vaddr ph + ph_memsz ph) (flags2perm (ph_flags ph))) (\<lambda>(sz1, k).
           let s = set_km s k in
           if sz1 = 0 then Ok (False, sz, s)
           else bnd (loadseg s me pagetable (ph_vaddr ph) ip (unat (ph_off ph)) (unat (ph_filesz ph))) (\<lambda>(r, s).
             if r < 0 then Ok (False, sz1, s)
             else exec_segs s me ip pagetable sz1 phoff is)))"

text \<open>Pushing the argument strings: the stack pointer and the addresses, \<open>None\<close> on \<open>goto bad\<close>.\<close>

definition align16 :: "u64 \<Rightarrow> u64" where
  "align16 sp = sp - sp mod 16"

fun push_args ::
    "kmem \<Rightarrow> proc \<Rightarrow> u64 \<Rightarrow> u64 \<Rightarrow> u64 \<Rightarrow> u8 list list \<Rightarrow> u64 list \<Rightarrow> ((u64 \<times> u64 list) option \<times> kmem) res" where
  "push_args k p pagetable sp stackbase [] ustack = Ok (Some (sp, ustack), k)"
| "push_args k p pagetable sp stackbase (a # as) ustack =
     (if length ustack \<ge> MAXARG then Ok (None, k)
      else let sp = align16 (sp - of_nat (length a + 1)) in
        if sp < stackbase then Ok (None, k)
        else bnd (copyout k (p_sz p) (p_pagetable p) pagetable sp (a @ [0])) (\<lambda>(r, k).
          if r < 0 then Ok (None, k)
          else push_args k p pagetable sp stackbase as (ustack @ [sp])))"

text \<open>The \<open>bad\<close> label: \<open>ip\<close> is the inode still locked, if any.\<close>

definition exec_bad :: "'a filest_scheme \<Rightarrow> nat \<Rightarrow> u64 \<Rightarrow> u64 \<Rightarrow> nat option \<Rightarrow> (int \<times> 'a filest_scheme) res" where
  "exec_bad s me pagetable sz ip =
     bnd (if pagetable \<noteq> 0 then bnd (proc_freepagetable (km s) pagetable sz) (\<lambda>k. Ok (set_km s k)) else Ok s) (\<lambda>s.
     bnd (case ip of None \<Rightarrow> Ok s | Some i \<Rightarrow> bnd (iunlockput s me i) (\<lambda>s. end_op s me)) (\<lambda>s.
       Ok (-1, s)))"

text \<open>The second half of \<open>kexec\<close>: the stack, the arguments and the commit to the new image.\<close>

definition exec_image ::
    "'a filest_scheme \<Rightarrow> nat \<Rightarrow> u8 list \<Rightarrow> u8 list list \<Rightarrow> u64 \<Rightarrow> u64 \<Rightarrow> u64 \<Rightarrow> (int \<times> 'a filest_scheme) res" where
  "exec_image s me path argv pagetable sz0 entry =
     (let p = procs s ! me; oldsz = p_sz p; sz = PGROUNDUP sz0 in
      bnd (uvmalloc (km s) pagetable sz (sz + (USERSTACK + 1) * of_nat PGSIZE) PTE_W) (\<lambda>(sz1, k).
        if sz1 = 0 then exec_bad (set_km s k) me pagetable sz None
        else let sz = sz1 in
        bnd (uvmclear k pagetable (sz - (USERSTACK + 1) * of_nat PGSIZE)) (\<lambda>k.
        let stackbase = sz - USERSTACK * of_nat PGSIZE in
        bnd (push_args k p pagetable sz stackbase argv []) (\<lambda>(r, k).
          case r of None \<Rightarrow> exec_bad (set_km s k) me pagetable sz None
          | Some (sp, ustack) \<Rightarrow>
              let argc = length ustack;
                  sp = align16 (sp - of_nat ((argc + 1) * 8)) in
              if sp < stackbase then exec_bad (set_km s k) me pagetable sz None
              else bnd (copyout k (p_sz p) (p_pagetable p) pagetable sp
                          (concat (map (\<lambda>a. le_bytes 8 (unat a)) (ustack @ [0])))) (\<lambda>(r, k).
                if r < 0 then exec_bad (set_km s k) me pagetable sz None
                else
                  let tf = p_trapframe p;
                      m = tf_set (mem k) tf Ta1 sp;
                      m = tf_set m tf Tepc entry;
                      m = tf_set m tf Tsp sp;
                      s = set_proc (set_km s (k\<lparr>mem := m\<rparr>)) me (\<lambda>q. q\<lparr>
                            p_name := safestrcpy_name (rev (takeWhile (\<lambda>c. c \<noteq> SLASH) (rev path))),
                            p_pagetable := pagetable, p_sz := sz\<rparr>)
                  in bnd (proc_freepagetable (km s) (p_pagetable p) oldsz) (\<lambda>k.
                       Ok (int argc, set_km s k)))))))"

definition kexec ::
    "linksyms \<Rightarrow> 'a filest_scheme \<Rightarrow> nat \<Rightarrow> u8 list \<Rightarrow> u8 list list \<Rightarrow> (int \<times> 'a filest_scheme) res" where
  "kexec ls s me path argv =
     bnd (begin_op s) (\<lambda>s.
     bnd (namei s me path) (\<lambda>(r, s).
       case r of
         None \<Rightarrow> bnd (end_op s me) (\<lambda>s. Ok (-1, s))
       | Some ip \<Rightarrow>
           bnd (ilock s me ip) (\<lambda>s.
           bnd (readi s me ip BufDst 0 ELFHDR_SIZE) (\<lambda>(r, bs, s).
             if r \<noteq> int ELFHDR_SIZE then exec_bad s me 0 0 (Some ip)
             else let elf = get_elfhdr bs in
               if e_magic elf \<noteq> ELF_MAGIC then exec_bad s me 0 0 (Some ip)
               else bnd (proc_pagetable ls (km s) (p_trapframe (procs s ! me))) (\<lambda>(pagetable, k).
                 let s = set_km s k in
                 if pagetable = 0 then exec_bad s me 0 0 (Some ip)
                 else bnd (exec_segs s me ip pagetable 0 (unat (e_phoff elf)) [0..<e_phnum elf]) (\<lambda>(ok, sz, s).
                   if \<not> ok then exec_bad s me pagetable sz (Some ip)
                   else bnd (iunlockput s me ip) (\<lambda>s.
                     bnd (end_op s me) (\<lambda>s.
                       exec_image s me path argv pagetable sz (e_entry elf)))))))))"

end
