(* ===== verification/Sysfile.thy ===== *)
theory Sysfile
  imports Exec
begin

text \<open>
  System-call arguments (the first half of \<open>kernel/syscall.c\<close>) and the file-system calls
  (\<open>kernel/sysfile.c\<close>). A call takes the state and the index of the calling process and gives the
  value that goes to register \<open>a0\<close> and the new state. \<open>pad\<close> of \<open>sys_fstat\<close> is the stack
  contents under the padding of \<open>struct stat\<close>; \<open>dv\<close> is the device switch.
\<close>

section \<open>Definitions\<close>

subsection \<open>Arguments\<close>

definition fetchaddr :: "'a pst_scheme \<Rightarrow> nat \<Rightarrow> u64 \<Rightarrow> (u64 option \<times> 'a pst_scheme) res" where
  "fetchaddr s me addr =
     (let sz = p_sz (procs s ! me) in
      if addr \<ge> sz \<or> addr + 8 > sz then Ok (None, s)
      else bnd (copyin_proc s me addr 8) (\<lambda>(r, s). Ok (map_option (\<lambda>bs. get64 bs 0) r, s)))"

text \<open>The string fetched; its length is what the source returns.\<close>

definition fetchstr :: "'a pst_scheme \<Rightarrow> nat \<Rightarrow> u64 \<Rightarrow> nat \<Rightarrow> u8 list option" where
  "fetchstr s me addr mx = copyinstr (km s) (p_pagetable (procs s ! me)) addr mx"

definition argraw :: "'a pst_scheme \<Rightarrow> nat \<Rightarrow> nat \<Rightarrow> u64 res" where
  "argraw s me n =
     (let tf = p_trapframe (procs s ! me); m = mem (km s) in
      if n = 0 then Ok (tf_get m tf Ta0)
      else if n = 1 then Ok (tf_get m tf Ta1)
      else if n = 2 then Ok (tf_get m tf Ta2)
      else if n = 3 then Ok (tf_get m tf Ta3)
      else if n = 4 then Ok (tf_get m tf Ta4)
      else if n = 5 then Ok (tf_get m tf Ta5)
      else Panic ''argraw'')"

definition argint :: "'a pst_scheme \<Rightarrow> nat \<Rightarrow> nat \<Rightarrow> int res" where
  "argint s me n = bnd (argraw s me n) (\<lambda>v. Ok (sint (ucast v :: u32)))"

definition argaddr :: "'a pst_scheme \<Rightarrow> nat \<Rightarrow> nat \<Rightarrow> u64 res" where
  "argaddr s me n = argraw s me n"

definition argstr :: "'a pst_scheme \<Rightarrow> nat \<Rightarrow> nat \<Rightarrow> nat \<Rightarrow> u8 list option res" where
  "argstr s me n mx = bnd (argaddr s me n) (\<lambda>addr. Ok (fetchstr s me addr mx))"

definition argfd :: "'a pst_scheme \<Rightarrow> nat \<Rightarrow> nat \<Rightarrow> (nat \<times> nat) option res" where
  "argfd s me n =
     bnd (argint s me n) (\<lambda>fd.
       Ok (if fd < 0 \<or> fd \<ge> int NOFILE then None
           else map_option (\<lambda>f. (nat fd, f)) (p_ofile (procs s ! me) ! nat fd)))"

definition fdalloc :: "'a pst_scheme \<Rightarrow> nat \<Rightarrow> nat \<Rightarrow> nat option \<times> 'a pst_scheme" where
  "fdalloc s me f =
     (case find_index (\<lambda>x. x = None) (p_ofile (procs s ! me)) of
        None \<Rightarrow> (None, s)
      | Some fd \<Rightarrow> (Some fd, set_proc s me (\<lambda>p. p\<lparr>p_ofile := (p_ofile p)[fd := Some f]\<rparr>)))"

definition MAXPATH :: nat where [param_defs]: "MAXPATH = 128"

subsection \<open>Descriptors\<close>

definition sys_dup :: "'a filest_scheme \<Rightarrow> nat \<Rightarrow> (int \<times> 'a filest_scheme) res" where
  "sys_dup s me =
     bnd (argfd s me 0) (\<lambda>r. case r of None \<Rightarrow> Ok (-1, s)
     | Some (_, f) \<Rightarrow>
         (case fdalloc s me f of (None, s) \<Rightarrow> Ok (-1, s)
          | (Some fd, s) \<Rightarrow> bnd (filedup s f) (\<lambda>s. Ok (int fd, s))))"

definition sys_read :: "'a filest_scheme devsw \<Rightarrow> 'a filest_scheme \<Rightarrow> nat \<Rightarrow> (int \<times> 'a filest_scheme) res" where
  "sys_read dv s me =
     bnd (argaddr s me 1) (\<lambda>p. bnd (argint s me 2) (\<lambda>n. bnd (argfd s me 0) (\<lambda>r.
       case r of None \<Rightarrow> Ok (-1, s) | Some (_, f) \<Rightarrow> fileread dv s me f p n)))"

definition sys_write :: "'a filest_scheme devsw \<Rightarrow> 'a filest_scheme \<Rightarrow> nat \<Rightarrow> (int \<times> 'a filest_scheme) res" where
  "sys_write dv s me =
     bnd (argaddr s me 1) (\<lambda>p. bnd (argint s me 2) (\<lambda>n. bnd (argfd s me 0) (\<lambda>r.
       case r of None \<Rightarrow> Ok (-1, s) | Some (_, f) \<Rightarrow> filewrite dv s me f p n)))"

definition sys_close :: "'a filest_scheme \<Rightarrow> nat \<Rightarrow> (int \<times> 'a filest_scheme) res" where
  "sys_close s me =
     bnd (argfd s me 0) (\<lambda>r. case r of None \<Rightarrow> Ok (-1, s)
     | Some (fd, f) \<Rightarrow>
         bnd (fileclose (set_proc s me (\<lambda>p. p\<lparr>p_ofile := (p_ofile p)[fd := None]\<rparr>)) me f) (\<lambda>s. Ok (0, s)))"

definition sys_fstat :: "u8 list \<Rightarrow> 'a filest_scheme \<Rightarrow> nat \<Rightarrow> (int \<times> 'a filest_scheme) res" where
  "sys_fstat pad s me =
     bnd (argaddr s me 1) (\<lambda>st. bnd (argfd s me 0) (\<lambda>r.
       case r of None \<Rightarrow> Ok (-1, s) | Some (_, f) \<Rightarrow> filestat s me pad f st))"

subsection \<open>Links\<close>

definition finish_op :: "'a filest_scheme \<Rightarrow> nat \<Rightarrow> int \<Rightarrow> (int \<times> 'a filest_scheme) res" where
  "finish_op s me v = bnd (end_op s me) (\<lambda>s. Ok (v, s))"

definition sys_link_bad :: "'a filest_scheme \<Rightarrow> nat \<Rightarrow> nat \<Rightarrow> (int \<times> 'a filest_scheme) res" where
  "sys_link_bad s me ip =
     bnd (ilock s me ip) (\<lambda>s.
     bnd (iupdate (set_inode s ip (\<lambda>x. x\<lparr>i_nlink := i_nlink x - 1\<rparr>)) me ip) (\<lambda>s.
     bnd (iunlockput s me ip) (\<lambda>s. finish_op s me (-1))))"

definition sys_link :: "'a filest_scheme \<Rightarrow> nat \<Rightarrow> (int \<times> 'a filest_scheme) res" where
  "sys_link s me =
     bnd (argstr s me 0 MAXPATH) (\<lambda>old. case old of None \<Rightarrow> Ok (-1, s) | Some old \<Rightarrow>
     bnd (argstr s me 1 MAXPATH) (\<lambda>new. case new of None \<Rightarrow> Ok (-1, s) | Some new \<Rightarrow>
     bnd (begin_op s) (\<lambda>s.
     bnd (namei s me old) (\<lambda>(r, s). case r of None \<Rightarrow> finish_op s me (-1)
     | Some ip \<Rightarrow>
         bnd (ilock s me ip) (\<lambda>s.
           if i_type (inodes s ! ip) = T_DIR then bnd (iunlockput s me ip) (\<lambda>s. finish_op s me (-1))
           else
             bnd (iupdate (set_inode s ip (\<lambda>x. x\<lparr>i_nlink := i_nlink x + 1\<rparr>)) me ip) (\<lambda>s.
             bnd (iunlock s me ip) (\<lambda>s.
             bnd (nameiparent s me new) (\<lambda>(r, s). case r of None \<Rightarrow> sys_link_bad s me ip
             | Some (dp, name) \<Rightarrow>
                 bnd (ilock s me dp) (\<lambda>s.
                 bnd (if i_dev (inodes s ! dp) \<noteq> i_dev (inodes s ! ip) then Ok (-1, s)
                      else dirlink s me dp name (i_inum (inodes s ! ip))) (\<lambda>(r, s).
                   if r < 0 then bnd (iunlockput s me dp) (\<lambda>s. sys_link_bad s me ip)
                   else bnd (iunlockput s me dp) (\<lambda>s. bnd (iput s me ip) (\<lambda>s. finish_op s me 0))))))))))))"

fun isdirempty_loop :: "'a filest_scheme \<Rightarrow> nat \<Rightarrow> nat \<Rightarrow> nat list \<Rightarrow> (bool \<times> 'a filest_scheme) res" where
  "isdirempty_loop s me dp [] = Ok (True, s)"
| "isdirempty_loop s me dp (off # offs) =
     bnd (readi s me dp BufDst off DIRENT_SIZE) (\<lambda>(r, bs, s).
       if r \<noteq> int DIRENT_SIZE then Panic ''isdirempty: readi''
       else if de_inum (get_dirent bs) \<noteq> 0 then Ok (False, s)
       else isdirempty_loop s me dp offs)"

definition isdirempty :: "'a filest_scheme \<Rightarrow> nat \<Rightarrow> nat \<Rightarrow> (bool \<times> 'a filest_scheme) res" where
  "isdirempty s me dp = isdirempty_loop s me dp (drop 2 (dir_offsets (i_size (inodes s ! dp))))"

definition dot :: "u8 list" where "dot = [46]"
definition dotdot :: "u8 list" where "dotdot = [46, 46]"

definition sys_unlink :: "'a filest_scheme \<Rightarrow> nat \<Rightarrow> (int \<times> 'a filest_scheme) res" where
  "sys_unlink s me =
     bnd (argstr s me 0 MAXPATH) (\<lambda>path. case path of None \<Rightarrow> Ok (-1, s) | Some path \<Rightarrow>
     bnd (begin_op s) (\<lambda>s.
     bnd (nameiparent s me path) (\<lambda>(r, s). case r of None \<Rightarrow> finish_op s me (-1)
     | Some (dp, name) \<Rightarrow>
         bnd (ilock s me dp) (\<lambda>s.
           if namecmp name dot \<or> namecmp name dotdot
           then bnd (iunlockput s me dp) (\<lambda>s. finish_op s me (-1))
           else bnd (dirlookup s me dp name) (\<lambda>(r, s).
             case r of None \<Rightarrow> bnd (iunlockput s me dp) (\<lambda>s. finish_op s me (-1))
             | Some (ip, off) \<Rightarrow>
                 bnd (ilock s me ip) (\<lambda>s.
                   if i_nlink (inodes s ! ip) < 1 then Panic ''unlink: nlink < 1''
                   else bnd (if i_type (inodes s ! ip) = T_DIR then isdirempty s me ip else Ok (True, s)) (\<lambda>(empty, s).
                     if \<not> empty then
                       bnd (iunlockput s me ip) (\<lambda>s. bnd (iunlockput s me dp) (\<lambda>s. finish_op s me (-1)))
                     else bnd (writei s me dp (BufSrc (replicate DIRENT_SIZE 0)) off DIRENT_SIZE) (\<lambda>(r, s).
                       if r \<noteq> int DIRENT_SIZE then Panic ''unlink: writei''
                       else
                         bnd (if i_type (inodes s ! ip) = T_DIR
                              then iupdate (set_inode s dp (\<lambda>x. x\<lparr>i_nlink := i_nlink x - 1\<rparr>)) me dp
                              else Ok s) (\<lambda>s.
                         bnd (iunlockput s me dp) (\<lambda>s.
                         bnd (iupdate (set_inode s ip (\<lambda>x. x\<lparr>i_nlink := i_nlink x - 1\<rparr>)) me ip) (\<lambda>s.
                         bnd (iunlockput s me ip) (\<lambda>s. finish_op s me 0))))))))))))"

subsection \<open>Creating and opening\<close>

definition create_fail :: "'a filest_scheme \<Rightarrow> nat \<Rightarrow> nat \<Rightarrow> nat \<Rightarrow> (nat option \<times> 'a filest_scheme) res" where
  "create_fail s me dp ip =
     bnd (iupdate (set_inode s ip (\<lambda>x. x\<lparr>i_nlink := 0\<rparr>)) me ip) (\<lambda>s.
     bnd (iunlockput s me ip) (\<lambda>s.
     bnd (iunlockput s me dp) (\<lambda>s. Ok (None, s))))"

text \<open>The inode returned is locked.\<close>

definition create ::
    "'a filest_scheme \<Rightarrow> nat \<Rightarrow> u8 list \<Rightarrow> int \<Rightarrow> int \<Rightarrow> int \<Rightarrow> (nat option \<times> 'a filest_scheme) res" where
  "create s me path ty major minor =
     bnd (nameiparent s me path) (\<lambda>(r, s). case r of None \<Rightarrow> Ok (None, s)
     | Some (dp, name) \<Rightarrow>
         bnd (ilock s me dp) (\<lambda>s.
         bnd (dirlookup s me dp name) (\<lambda>(r, s).
           case r of
             Some (ip, _) \<Rightarrow>
               bnd (iunlockput s me dp) (\<lambda>s.
               bnd (ilock s me ip) (\<lambda>s.
                 if ty = T_FILE \<and> (i_type (inodes s ! ip) = T_FILE \<or> i_type (inodes s ! ip) = T_DEVICE)
                 then Ok (Some ip, s)
                 else bnd (iunlockput s me ip) (\<lambda>s. Ok (None, s))))
           | None \<Rightarrow>
               bnd (ialloc s me (i_dev (inodes s ! dp)) ty) (\<lambda>(r, s).
                 case r of None \<Rightarrow> bnd (iunlockput s me dp) (\<lambda>s. Ok (None, s))
                 | Some ip \<Rightarrow>
                     bnd (ilock s me ip) (\<lambda>s.
                     bnd (iupdate (set_inode s ip (\<lambda>x. x\<lparr>i_major := major, i_minor := minor, i_nlink := 1\<rparr>)) me ip) (\<lambda>s.
                     bnd (if ty = T_DIR then
                            bnd (dirlink s me ip dot (i_inum (inodes s ! ip))) (\<lambda>(r, s).
                              if r < 0 then Ok (-1, s)
                              else dirlink s me ip dotdot (i_inum (inodes s ! dp)))
                          else Ok (0, s)) (\<lambda>(r, s).
                       if r < 0 then create_fail s me dp ip
                       else bnd (dirlink s me dp name (i_inum (inodes s ! ip))) (\<lambda>(r, s).
                         if r < 0 then create_fail s me dp ip
                         else
                           bnd (if ty = T_DIR
                                then iupdate (set_inode s dp (\<lambda>x. x\<lparr>i_nlink := i_nlink x + 1\<rparr>)) me dp
                                else Ok s) (\<lambda>s.
                           bnd (iunlockput s me dp) (\<lambda>s. Ok (Some ip, s)))))))))))"

definition O_RDONLY :: int where "O_RDONLY = 0"
definition O_WRONLY :: int where "O_WRONLY = 1"
definition O_RDWR :: int where "O_RDWR = 2"
definition O_CREATE :: int where "O_CREATE = 0x200"
definition O_TRUNC :: int where "O_TRUNC = 0x400"

definition has_flag :: "int \<Rightarrow> int \<Rightarrow> bool" where
  "has_flag omode fl \<longleftrightarrow> omode AND fl \<noteq> 0"

definition sys_open :: "'a filest_scheme \<Rightarrow> nat \<Rightarrow> (int \<times> 'a filest_scheme) res" where
  "sys_open s me =
     bnd (argint s me 1) (\<lambda>omode.
     bnd (argstr s me 0 MAXPATH) (\<lambda>path. case path of None \<Rightarrow> Ok (-1, s) | Some path \<Rightarrow>
     bnd (begin_op s) (\<lambda>s.
     bnd (if has_flag omode O_CREATE then create s me path T_FILE 0 0
          else bnd (namei s me path) (\<lambda>(r, s). case r of None \<Rightarrow> Ok (None, s)
               | Some ip \<Rightarrow>
                   bnd (ilock s me ip) (\<lambda>s.
                     if i_type (inodes s ! ip) = T_DIR \<and> omode \<noteq> O_RDONLY
                     then bnd (iunlockput s me ip) (\<lambda>s. Ok (None, s))
                     else Ok (Some ip, s)))) (\<lambda>(r, s).
       case r of None \<Rightarrow> finish_op s me (-1)
       | Some ip \<Rightarrow>
           let x = inodes s ! ip in
           if i_type x = T_DEVICE \<and> (i_major x < 0 \<or> i_major x \<ge> NDEV)
           then bnd (iunlockput s me ip) (\<lambda>s. finish_op s me (-1))
           else (case filealloc s of
               (None, s) \<Rightarrow> bnd (iunlockput s me ip) (\<lambda>s. finish_op s me (-1))
             | (Some f, s) \<Rightarrow>
                 (case fdalloc s me f of
                    (None, s) \<Rightarrow>
                      bnd (fileclose s me f) (\<lambda>s. bnd (iunlockput s me ip) (\<lambda>s. finish_op s me (-1)))
                  | (Some fd, s) \<Rightarrow>
                      let s = (if i_type x = T_DEVICE
                               then set_file s f (\<lambda>y. y\<lparr>f_type := FD_DEVICE, f_major := i_major x\<rparr>)
                               else set_file s f (\<lambda>y. y\<lparr>f_type := FD_INODE, f_off := 0\<rparr>));
                          s = set_file s f (\<lambda>y. y\<lparr>f_ip := ip, f_readable := \<not> has_flag omode O_WRONLY,
                                f_writable := has_flag omode O_WRONLY \<or> has_flag omode O_RDWR\<rparr>)
                      in bnd (if has_flag omode O_TRUNC \<and> i_type x = T_FILE then itrunc s me ip else Ok s) (\<lambda>s.
                         bnd (iunlock s me ip) (\<lambda>s. finish_op s me (int fd)))))))))"

definition sys_mkdir :: "'a filest_scheme \<Rightarrow> nat \<Rightarrow> (int \<times> 'a filest_scheme) res" where
  "sys_mkdir s me =
     bnd (begin_op s) (\<lambda>s.
     bnd (argstr s me 0 MAXPATH) (\<lambda>path. case path of None \<Rightarrow> finish_op s me (-1) | Some path \<Rightarrow>
     bnd (create s me path T_DIR 0 0) (\<lambda>(r, s). case r of None \<Rightarrow> finish_op s me (-1)
     | Some ip \<Rightarrow> bnd (iunlockput s me ip) (\<lambda>s. finish_op s me 0))))"

text \<open>The device numbers become \<open>short\<close>s when they are passed to \<open>create\<close>.\<close>

definition to_short :: "int \<Rightarrow> int" where
  "to_short i = short_of (of_short i)"

definition sys_mknod :: "'a filest_scheme \<Rightarrow> nat \<Rightarrow> (int \<times> 'a filest_scheme) res" where
  "sys_mknod s me =
     bnd (begin_op s) (\<lambda>s.
     bnd (argint s me 1) (\<lambda>major.
     bnd (argint s me 2) (\<lambda>minor.
     bnd (argstr s me 0 MAXPATH) (\<lambda>path. case path of None \<Rightarrow> finish_op s me (-1) | Some path \<Rightarrow>
     bnd (create s me path T_DEVICE (to_short major) (to_short minor)) (\<lambda>(r, s).
       case r of None \<Rightarrow> finish_op s me (-1)
       | Some ip \<Rightarrow> bnd (iunlockput s me ip) (\<lambda>s. finish_op s me 0))))))"

definition sys_chdir :: "'a filest_scheme \<Rightarrow> nat \<Rightarrow> (int \<times> 'a filest_scheme) res" where
  "sys_chdir s me =
     bnd (begin_op s) (\<lambda>s.
     bnd (argstr s me 0 MAXPATH) (\<lambda>path. case path of None \<Rightarrow> finish_op s me (-1) | Some path \<Rightarrow>
     bnd (namei s me path) (\<lambda>(r, s). case r of None \<Rightarrow> finish_op s me (-1)
     | Some ip \<Rightarrow>
         bnd (ilock s me ip) (\<lambda>s.
           if i_type (inodes s ! ip) \<noteq> T_DIR then bnd (iunlockput s me ip) (\<lambda>s. finish_op s me (-1))
           else bnd (iunlock s me ip) (\<lambda>s.
             case p_cwd (procs s ! me) of None \<Rightarrow> Panic ''kerneltrap''
             | Some c \<Rightarrow>
                 bnd (iput s me c) (\<lambda>s.
                 bnd (end_op s me) (\<lambda>s.
                   Ok (0, set_proc s me (\<lambda>p. p\<lparr>p_cwd := Some ip\<rparr>)))))))))"

subsection \<open>Exec and pipe\<close>

text \<open>The argument loop of \<open>sys_exec\<close>: the pages allocated and the strings, with a flag for
  \<open>goto bad\<close>.\<close>

fun exec_args ::
    "'a filest_scheme \<Rightarrow> nat \<Rightarrow> u64 \<Rightarrow> nat list \<Rightarrow> u64 list \<Rightarrow> u8 list list \<Rightarrow>
     (bool \<times> u64 list \<times> u8 list list \<times> 'a filest_scheme) res" where
  "exec_args s me uargv [] pages strs = Ok (False, pages, strs, s)"
| "exec_args s me uargv (i # is) pages strs =
     bnd (fetchaddr s me (uargv + 8 * of_nat i)) (\<lambda>(r, s).
       case r of None \<Rightarrow> Ok (False, pages, strs, s)
       | Some uarg \<Rightarrow>
           if uarg = 0 then Ok (True, pages, strs, s)
           else (case kalloc (km s) of (pg, k) \<Rightarrow>
             let s = set_km s k in
             if pg = 0 then Ok (False, pages, strs, s)
             else (case fetchstr s me uarg PGSIZE of
                 None \<Rightarrow> Ok (False, pages @ [pg], strs, s)
               | Some str \<Rightarrow>
                   exec_args (set_km s ((km s)\<lparr>mem := write_bytes (mem (km s)) pg (str @ [0])\<rparr>))
                     me uargv is (pages @ [pg]) (strs @ [str]))))"

definition free_pages :: "'a filest_scheme \<Rightarrow> u64 list \<Rightarrow> 'a filest_scheme res" where
  "free_pages s pages = fold_res (\<lambda>pg s. bnd (kfree (km s) pg) (\<lambda>k. Ok (set_km s k))) pages s"

definition sys_exec :: "linksyms \<Rightarrow> 'a filest_scheme \<Rightarrow> nat \<Rightarrow> (int \<times> 'a filest_scheme) res" where
  "sys_exec ls s me =
     bnd (argaddr s me 1) (\<lambda>uargv.
     bnd (argstr s me 0 MAXPATH) (\<lambda>path. case path of None \<Rightarrow> Ok (-1, s) | Some path \<Rightarrow>
     bnd (exec_args s me uargv [0..<MAXARG] [] []) (\<lambda>(ok, pages, argv, s).
       if \<not> ok then bnd (free_pages s pages) (\<lambda>s. Ok (-1, s))
       else bnd (kexec ls s me path argv) (\<lambda>(r, s).
         bnd (free_pages s pages) (\<lambda>s. Ok (r, s))))))"

definition clear_fd :: "'a filest_scheme \<Rightarrow> nat \<Rightarrow> nat \<Rightarrow> 'a filest_scheme" where
  "clear_fd s me fd = set_proc s me (\<lambda>p. p\<lparr>p_ofile := (p_ofile p)[fd := None]\<rparr>)"

definition close_both :: "'a filest_scheme \<Rightarrow> nat \<Rightarrow> nat \<Rightarrow> nat \<Rightarrow> (int \<times> 'a filest_scheme) res" where
  "close_both s me rfile wfile =
     bnd (fileclose s me rfile) (\<lambda>s. bnd (fileclose s me wfile) (\<lambda>s. Ok (-1, s)))"

definition sys_pipe :: "'a filest_scheme \<Rightarrow> nat \<Rightarrow> (int \<times> 'a filest_scheme) res" where
  "sys_pipe s me =
     bnd (argaddr s me 0) (\<lambda>fdarray.
     bnd (pipealloc s me) (\<lambda>(r, s). case r of None \<Rightarrow> Ok (-1, s)
     | Some (rfile, wfile) \<Rightarrow>
         (case fdalloc s me rfile of
            (None, s) \<Rightarrow> close_both s me rfile wfile
          | (Some fd0, s) \<Rightarrow>
              (case fdalloc s me wfile of
                 (None, s) \<Rightarrow> close_both (clear_fd s me fd0) me rfile wfile
               | (Some fd1, s) \<Rightarrow>
                   bnd (copyout_proc s me fdarray (le_bytes 4 fd0)) (\<lambda>(r, s).
                   bnd (if r < 0 then Ok (-1, s)
                        else copyout_proc s me (fdarray + 4) (le_bytes 4 fd1)) (\<lambda>(r, s).
                     if r < 0 then close_both (clear_fd (clear_fd s me fd0) me fd1) me rfile wfile
                     else Ok (0, s)))))))"

end
