(* ===== verification/Console.thy ===== *)
theory Console
  imports Sysfile Race Printf
begin

text \<open>
  The console (\<open>kernel/console.c\<close>) and the UART driver under it (\<open>kernel/uart.c\<close>). This theory
  completes the kernel state \<open>kst\<close>: the input buffer \<open>cons\<close>, the transmitter's \<open>tx_busy\<close>,
  the bytes written to the transmit register (\<open>uart_out\<close>), the bytes waiting in the receiver
  (\<open>uart_in\<close>), and the shared counter of theory \<open>Race\<close>.

  \<open>uartwrite\<close> sleeps for the transmitter after every byte, and \<open>consoleread\<close> for input; as in
  theory \<open>Pipe\<close> these calls are cut into uninterrupted segments.
\<close>

section \<open>Definitions\<close>

definition INPUT_BUF_SIZE :: nat where [param_defs]: "INPUT_BUF_SIZE = 128"
definition CONSOLE :: int where [param_defs]: "CONSOLE = 1"

record cons_s =
  c_buf :: "u8 list"
  c_r :: u32
  c_w :: u32
  c_e :: u32

record kst = filest +
  cons :: cons_s
  tx_busy :: bool
  uart_out :: "u8 list"
  uart_in :: "u8 list"
  race :: shared_resource

definition set_cons :: "'a kst_scheme \<Rightarrow> (cons_s \<Rightarrow> cons_s) \<Rightarrow> 'a kst_scheme" where
  "set_cons s f = s\<lparr>cons := f (cons s)\<rparr>"

subsection \<open>UART\<close>

definition uartputc_sync :: "'a kst_scheme \<Rightarrow> u8 \<Rightarrow> 'a kst_scheme" where
  "uartputc_sync s c = s\<lparr>uart_out := uart_out s @ [c]\<rparr>"

text \<open>A segment of \<open>uartwrite\<close>: from entry or wake-up to the next sleep or the return.\<close>

fun uartwrite_seg :: "'a kst_scheme \<Rightarrow> u8 list \<Rightarrow> u8 list \<times> 'a kst_scheme" where
  "uartwrite_seg s [] = ([], s)"
| "uartwrite_seg s (b # bs) =
     (if tx_busy s then (b # bs, s)
      else uartwrite_seg (s\<lparr>uart_out := uart_out s @ [b], tx_busy := True\<rparr>) bs)"

definition uartwrite :: "'a kst_scheme \<Rightarrow> u8 list \<Rightarrow> 'a kst_scheme res" where
  "uartwrite s bs = (case uartwrite_seg s bs of ([], s) \<Rightarrow> Ok s | (_ # _, s) \<Rightarrow> Blocks ChUartTx)"

text \<open>-1 is \<open>None\<close>.\<close>

definition uartgetc :: "'a kst_scheme \<Rightarrow> u8 option \<times> 'a kst_scheme" where
  "uartgetc s = (case uart_in s of [] \<Rightarrow> (None, s) | b # bs \<Rightarrow> (Some b, s\<lparr>uart_in := bs\<rparr>))"

subsection \<open>Console output\<close>

definition BACKSPACE :: int where [param_defs]: "BACKSPACE = 0x100"

definition consputc :: "'a kst_scheme \<Rightarrow> int \<Rightarrow> 'a kst_scheme" where
  "consputc s c =
     (if c = BACKSPACE then uartputc_sync (uartputc_sync (uartputc_sync s 8) 32) 8
      else uartputc_sync s (of_int c))"

definition kprint :: "'a kst_scheme \<Rightarrow> string \<Rightarrow> 'a kst_scheme" where
  "kprint s str = fold (\<lambda>c s. consputc s (of_char c)) str s"

text \<open>Batches of 32 bytes; a batch that has to wait for the transmitter blocks the call.\<close>

function consolewrite_loop :: "'a kst_scheme \<Rightarrow> nat \<Rightarrow> u64 \<Rightarrow> int \<Rightarrow> int \<Rightarrow> (int \<times> 'a kst_scheme) res" where
  "consolewrite_loop s me src n i =
     (if i < n then
        let nn = min 32 (n - i) in
        bnd (either_copyin s me (UserSrc (src + of_int i)) (nat nn)) (\<lambda>(r, s).
          case r of None \<Rightarrow> Ok (i, s)
          | Some bs \<Rightarrow> bnd (uartwrite s bs) (\<lambda>s. consolewrite_loop s me src n (i + nn)))
      else Ok (i, s))"
  by pat_completeness auto
termination
  by (relation "measure (\<lambda>(s, me, src, n, i). nat (n - i))") auto

declare consolewrite_loop.simps [simp del]

definition consolewrite :: "'a kst_scheme \<Rightarrow> nat \<Rightarrow> u64 \<Rightarrow> int \<Rightarrow> (int \<times> 'a kst_scheme) res" where
  "consolewrite s me src n = consolewrite_loop s me src n 0"

subsection \<open>Console input\<close>

definition ctrl_D :: u8 where "ctrl_D = 4"
definition ctrl_U :: u8 where "ctrl_U = 21"
definition ctrl_H :: u8 where "ctrl_H = 8"
definition ctrl_P :: u8 where "ctrl_P = 16"
definition DEL :: u8 where "DEL = 127"
definition NEWLINE :: u8 where "NEWLINE = 10"
definition RETURN :: u8 where "RETURN = 13"

lemmas key_defs = ctrl_D_def ctrl_U_def ctrl_H_def ctrl_P_def DEL_def NEWLINE_def RETURN_def

text \<open>A segment of \<open>consoleread\<close>: \<open>got\<close> bytes have been delivered, \<open>left\<close> are still wanted. It
  ends with the result or asleep with the counts to resume from.\<close>

function consoleread_seg ::
    "'a kst_scheme \<Rightarrow> nat \<Rightarrow> u64 \<Rightarrow> nat \<Rightarrow> nat \<Rightarrow> 'a kst_scheme seg res" where
  "consoleread_seg s me dst got left =
     (if left = 0 then Ok (Done (int got) s)
      else if c_r (cons s) = c_w (cons s) then
        if killed s me \<noteq> 0 then Ok (Done (-1) s) else Ok (Sleeps ChConsR got s)
      else
        let c = c_buf (cons s) ! (unat (c_r (cons s)) mod INPUT_BUF_SIZE);
            s1 = set_cons s (\<lambda>k. k\<lparr>c_r := c_r k + 1\<rparr>)
        in if c = ctrl_D then
             Ok (Done (int got) (if got > 0 then set_cons s1 (\<lambda>k. k\<lparr>c_r := c_r k - 1\<rparr>) else s1))
           else bnd (either_copyout s1 me (UserDst (dst + of_nat got)) [c]) (\<lambda>(r, s2).
             if r = -1 then Ok (Done (int got) s2)
             else if c = NEWLINE then Ok (Done (int got + 1) s2)
             else consoleread_seg s2 me dst (got + 1) (left - 1)))"
  by pat_completeness auto
termination
  by (relation "measure (\<lambda>(s, me, dst, got, left). left)") auto

declare consoleread_seg.simps [simp del]

definition consoleread :: "'a kst_scheme \<Rightarrow> nat \<Rightarrow> u64 \<Rightarrow> int \<Rightarrow> (int \<times> 'a kst_scheme) res" where
  "consoleread s me dst n = bnd (consoleread_seg s me dst 0 (nat n)) seg_result"

text \<open>The kill-line loop takes back edited bytes down to the last newline; at most the buffer's size.\<close>

fun kill_line :: "nat \<Rightarrow> 'a kst_scheme \<Rightarrow> 'a kst_scheme" where
  "kill_line 0 s = s"
| "kill_line (Suc k) s =
     (if c_e (cons s) \<noteq> c_w (cons s) \<and>
         c_buf (cons s) ! (unat (c_e (cons s) - 1) mod INPUT_BUF_SIZE) \<noteq> NEWLINE
      then kill_line k (consputc (set_cons s (\<lambda>x. x\<lparr>c_e := c_e x - 1\<rparr>)) BACKSPACE)
      else s)"

definition bytes_string :: "u8 list \<Rightarrow> string" where
  "bytes_string bs = map (\<lambda>b. char_of (unat b)) bs"

definition print_procdump :: "'a kst_scheme \<Rightarrow> 'a kst_scheme" where
  "print_procdump s =
     fold (\<lambda>(pid, st, name) s.
             kprint (kprint s (printk ''%d %s %s'' [W (of_int pid), S (Some st), S (Some (bytes_string name))]))
               [CHR 0x0A])
       (procdump s) (kprint s [CHR 0x0A])"

text \<open>\<open>me\<close> is the process interrupted, if any; \<open>wakeup\<close> passes over it.\<close>

definition consoleintr :: "'a kst_scheme \<Rightarrow> nat option \<Rightarrow> u8 \<Rightarrow> 'a kst_scheme" where
  "consoleintr s me c =
     (if c = ctrl_P then print_procdump s
      else if c = ctrl_U then kill_line INPUT_BUF_SIZE s
      else if c = ctrl_H \<or> c = DEL then
        (if c_e (cons s) \<noteq> c_w (cons s)
         then consputc (set_cons s (\<lambda>k. k\<lparr>c_e := c_e k - 1\<rparr>)) BACKSPACE else s)
      else if c \<noteq> 0 \<and> c_e (cons s) - c_r (cons s) < of_nat INPUT_BUF_SIZE then
        let c = (if c = RETURN then NEWLINE else c);
            s = consputc s (uint c);
            s = set_cons s (\<lambda>k. k\<lparr>c_buf := (c_buf k)[unat (c_e k) mod INPUT_BUF_SIZE := c], c_e := c_e k + 1\<rparr>)
        in if c = NEWLINE \<or> c = ctrl_D \<or> c_e (cons s) - c_r (cons s) = of_nat INPUT_BUF_SIZE
           then wakeup (set_cons s (\<lambda>k. k\<lparr>c_w := c_e k\<rparr>)) me ChConsR
           else s
      else s)"

text \<open>\<open>idle\<close> is the transmitter's idle bit when the handler reads it.\<close>

definition uartintr :: "'a kst_scheme \<Rightarrow> nat option \<Rightarrow> bool \<Rightarrow> 'a kst_scheme" where
  "uartintr s me idle =
     (let s = (if idle then wakeup (s\<lparr>tx_busy := False\<rparr>) me ChUartTx else s)
      in fold (\<lambda>c s. consoleintr s me c) (uart_in s) (s\<lparr>uart_in := []\<rparr>))"

definition devsw_init :: "'a kst_scheme devsw" where
  "devsw_init = ((\<lambda>m. if m = CONSOLE then Some consoleread else None),
                 (\<lambda>m. if m = CONSOLE then Some consolewrite else None))"

section \<open>Printing\<close>

lemma consputc_char: "consputc s (of_char c) = s\<lparr>uart_out := uart_out s @ [of_char c]\<rparr>"
proof -
  have r: "(of_char c :: int) < 256" using nat_of_char_less_256 [of c] by (simp flip: of_nat_of_char [of c, where ?'a = int])
  have "of_int (of_char c) = (of_char c :: u8)"
    by (simp flip: of_nat_of_char [of c, where ?'a = int] of_nat_of_char [of c, where ?'a = u8])
  then show ?thesis using r by (simp add: consputc_def uartputc_sync_def BACKSPACE_def)
qed

lemma kprint_eq: "kprint s str = s\<lparr>uart_out := uart_out s @ map of_char str\<rparr>"
proof -
  have "fold (\<lambda>c s. consputc s (of_char c)) str s = s\<lparr>uart_out := uart_out s @ map of_char str\<rparr>"
    by (induction str arbitrary: s) (simp_all add: consputc_char)
  then show ?thesis by (simp add: kprint_def)
qed

end
