(* ===== verification/Syscall.thy ===== *)
theory Syscall
  imports Console
begin

text \<open>
  The process-related calls (\<open>kernel/sysproc.c\<close>), the dispatcher with its tracing
  (\<open>kernel/syscall.c\<close>) and trap handling (\<open>kernel/trap.c\<close>, \<open>forkret\<close> of
  \<open>kernel/proc.c\<close>).

  A call that returns gives the value for register \<open>a0\<close>; \<open>exit\<close> does not return, which is the
  value \<open>None\<close> with the state it leaves behind. The trap handlers take the control and status
  registers they read as a record.
\<close>

section \<open>Definitions\<close>

subsection \<open>Process calls\<close>

type_synonym 's sysret = "(int option \<times> 's) res"

definition returns :: "(int \<times> 's) res \<Rightarrow> 's sysret" where
  "returns r = bnd r (\<lambda>(v, s). Ok (Some v, s))"

definition SYS_exit :: nat where "SYS_exit = 2"

text \<open>The test on \<open>p->tracing\<close> that the dispatcher and \<open>sys_exit\<close> make: 1, or the bit of the call.\<close>

definition traced :: "int \<Rightarrow> nat \<Rightarrow> bool" where
  "traced tracing num \<longleftrightarrow> tracing = 1 \<or> tracing AND (push_bit num 1) \<noteq> 0"

definition sys_exit :: "'a kst_scheme \<Rightarrow> nat \<Rightarrow> 'a kst_scheme sysret" where
  "sys_exit s me =
     bnd (argint s me 0) (\<lambda>n.
       let p = procs s ! me;
           s = (if traced (p_tracing p) SYS_exit
                then kprint s (printk (''%d: exit -> %d'' @ [CHR 0x0A]) [W (of_int (p_pid p)), W (of_int n)]) else s)
       in bnd (kexit s me n) (\<lambda>s. Ok (None, s)))"

definition sys_getpid :: "'a kst_scheme \<Rightarrow> nat \<Rightarrow> 'a kst_scheme sysret" where
  "sys_getpid s me = Ok (Some (p_pid (procs s ! me)), s)"

definition sys_fork :: "linksyms \<Rightarrow> 'a kst_scheme \<Rightarrow> nat \<Rightarrow> 'a kst_scheme sysret" where
  "sys_fork ls s me = returns (kfork ls s me)"

definition sys_wait :: "'a kst_scheme \<Rightarrow> nat \<Rightarrow> 'a kst_scheme sysret" where
  "sys_wait s me = bnd (argaddr s me 0) (\<lambda>p. returns (kwait s me p))"

definition SBRK_EAGER :: int where "SBRK_EAGER = 1"

definition sys_sbrk :: "'a kst_scheme \<Rightarrow> nat \<Rightarrow> 'a kst_scheme sysret" where
  "sys_sbrk s me =
     bnd (argint s me 0) (\<lambda>n.
     bnd (argint s me 1) (\<lambda>t.
       let addr = p_sz (procs s ! me) in
       if t = SBRK_EAGER \<or> n < 0 then
         bnd (growproc s me n) (\<lambda>(r, s). if r < 0 then Ok (Some (-1), s) else Ok (Some (uint addr), s))
       else if addr + of_int n < addr then Ok (Some (-1), s)
       else if addr + of_int n > TRAPFRAME then Ok (Some (-1), s)
       else Ok (Some (uint addr), set_proc s me (\<lambda>p. p\<lparr>p_sz := p_sz p + of_int n\<rparr>))))"

text \<open>\<open>sys_pause\<close> tests its condition on entry and after each wake-up; \<open>ticks0\<close> is the count it
  started from.\<close>

definition pause_check :: "'a kst_scheme \<Rightarrow> nat \<Rightarrow> u32 \<Rightarrow> int \<Rightarrow> 'a kst_scheme sysret" where
  "pause_check s me ticks0 n =
     (if ticks s - ticks0 < of_int n then
        if killed s me \<noteq> 0 then Ok (Some (-1), s) else Blocks ChTicks
      else Ok (Some 0, s))"

definition sys_pause :: "'a kst_scheme \<Rightarrow> nat \<Rightarrow> 'a kst_scheme sysret" where
  "sys_pause s me = bnd (argint s me 0) (\<lambda>n. pause_check s me (ticks s) (if n < 0 then 0 else n))"

definition sys_kill :: "'a kst_scheme \<Rightarrow> nat \<Rightarrow> 'a kst_scheme sysret" where
  "sys_kill s me = bnd (argint s me 0) (\<lambda>pid. returns (Ok (kkill s pid)))"

definition sys_uptime :: "'a kst_scheme \<Rightarrow> nat \<Rightarrow> 'a kst_scheme sysret" where
  "sys_uptime s me = Ok (Some (uint (ticks s)), s)"

definition sys_trace :: "'a kst_scheme \<Rightarrow> nat \<Rightarrow> 'a kst_scheme sysret" where
  "sys_trace s me =
     bnd (argint s me 0) (\<lambda>on. Ok (Some 0, set_proc s me (\<lambda>p. p\<lparr>p_tracing := on\<rparr>)))"

text \<open>\<open>race_increment\<close> as the caller sees it when nothing interferes (theory \<open>Race\<close> has its
  interleavings): each iteration stores the counter and \<open>total_ops\<close> one higher.\<close>

definition race_once :: "shared_resource \<Rightarrow> shared_resource" where
  "race_once r = r\<lparr>counter := counter r + 1, total_ops := total_ops r + 1\<rparr>"

definition sys_race_inc :: "'a kst_scheme \<Rightarrow> nat \<Rightarrow> 'a kst_scheme sysret" where
  "sys_race_inc s me =
     bnd (argint s me 0) (\<lambda>iters. bnd (argint s me 1) (\<lambda>_.
       Ok (Some 0, s\<lparr>race := (race_once ^^ nat iters) (race s)\<rparr>)))"

definition sys_race_get :: "'a kst_scheme \<Rightarrow> nat \<Rightarrow> 'a kst_scheme sysret" where
  "sys_race_get s me = Ok (Some (sint (counter (race s))), s)"

definition sys_race_reset :: "'a kst_scheme \<Rightarrow> nat \<Rightarrow> 'a kst_scheme sysret" where
  "sys_race_reset s me = Ok (Some 0, s\<lparr>race := (race s)\<lparr>counter := 0, total_ops := 0\<rparr>\<rparr>)"

subsection \<open>Dispatch\<close>

text \<open>The table of handlers by call number; \<open>None\<close> is a number outside it.\<close>

definition syscalls :: "linksyms \<Rightarrow> u8 list \<Rightarrow> int \<Rightarrow> ('a kst_scheme \<Rightarrow> nat \<Rightarrow> 'a kst_scheme sysret) option" where
  "syscalls ls pad num =
     (if num = 1 then Some (sys_fork ls)
      else if num = 2 then Some sys_exit
      else if num = 3 then Some sys_wait
      else if num = 4 then Some (\<lambda>s me. returns (sys_pipe s me))
      else if num = 5 then Some (\<lambda>s me. returns (sys_read devsw_init s me))
      else if num = 6 then Some sys_kill
      else if num = 7 then Some (\<lambda>s me. returns (sys_exec ls s me))
      else if num = 8 then Some (\<lambda>s me. returns (sys_fstat pad s me))
      else if num = 9 then Some (\<lambda>s me. returns (sys_chdir s me))
      else if num = 10 then Some (\<lambda>s me. returns (sys_dup s me))
      else if num = 11 then Some sys_getpid
      else if num = 12 then Some sys_sbrk
      else if num = 13 then Some sys_pause
      else if num = 14 then Some sys_uptime
      else if num = 15 then Some (\<lambda>s me. returns (sys_open s me))
      else if num = 16 then Some (\<lambda>s me. returns (sys_write devsw_init s me))
      else if num = 17 then Some (\<lambda>s me. returns (sys_mknod s me))
      else if num = 18 then Some (\<lambda>s me. returns (sys_unlink s me))
      else if num = 19 then Some (\<lambda>s me. returns (sys_link s me))
      else if num = 20 then Some (\<lambda>s me. returns (sys_mkdir s me))
      else if num = 21 then Some (\<lambda>s me. returns (sys_close s me))
      else if num = 22 then Some (\<lambda>s me. bnd (sys_sync s) (\<lambda>v. Ok (Some v, s)))
      else if num = 23 then Some sys_trace
      else if num = 24 then Some sys_race_inc
      else if num = 25 then Some sys_race_get
      else if num = 26 then Some sys_race_reset
      else None)"

definition syscallnames :: "string list" where
  "syscallnames = ['''', ''fork'', ''exit'', ''wait'', ''pipe'', ''read'', ''kill'', ''exec'', ''fstat'',
     ''chdir'', ''dup'', ''getpid'', ''sbrk'', ''pause'', ''uptime'', ''open'', ''write'', ''mknod'',
     ''unlink'', ''link'', ''mkdir'', ''close'', ''sync'', ''trace'', ''race_inc'', ''race_get'', ''race_reset'']"

definition set_a0 :: "'a kst_scheme \<Rightarrow> nat \<Rightarrow> u64 \<Rightarrow> 'a kst_scheme" where
  "set_a0 s me v =
     set_km s ((km s)\<lparr>mem := tf_set (mem (km s)) (p_trapframe (procs s ! me)) Ta0 v\<rparr>)"

definition trace_line :: "int \<Rightarrow> string \<Rightarrow> u64 \<Rightarrow> string" where
  "trace_line pid name v =
     printk (''%d: %s -> %ld'' @ [CHR 0x0A]) [W (of_int pid), S (Some name), W v]"

text \<open>The flag is whether the call returned to the dispatcher.\<close>

definition syscall :: "linksyms \<Rightarrow> u8 list \<Rightarrow> 'a kst_scheme \<Rightarrow> nat \<Rightarrow> (bool \<times> 'a kst_scheme) res" where
  "syscall ls pad s me =
     (let p = procs s ! me;
          num = sint (ucast (tf_get (mem (km s)) (p_trapframe p) Ta7) :: u32)
      in case (if num > 0 \<and> num < 27 then syscalls ls pad num else None) of
           Some call \<Rightarrow>
             bnd (call s me) (\<lambda>(r, s).
               case r of None \<Rightarrow> Ok (False, s)
               | Some v \<Rightarrow>
                   let s = set_a0 s me (of_int v); p = procs s ! me in
                   if nat num \<noteq> SYS_exit \<and> traced (p_tracing p) (nat num)
                   then Ok (True, kprint s (trace_line (p_pid p) (syscallnames ! nat num)
                              (tf_get (mem (km s)) (p_trapframe p) Ta0)))
                   else Ok (True, s))
         | None \<Rightarrow>
             let s = kprint s (printk (''%d %s: unknown sys call %d'' @ [CHR 0x0A])
                       [W (of_int (p_pid p)), S (Some (bytes_string (p_name p))), W (of_int num)])
             in Ok (True, set_a0 s me (- 1)))"

subsection \<open>Traps\<close>

record csr =
  r_sstatus :: u64
  r_scause :: u64
  r_sepc :: u64
  r_stval :: u64
  r_satp :: u64
  r_tp :: u64
  plic_irq :: int          \<comment> \<open>what \<open>plic_claim\<close> returns\<close>
  uart_idle :: bool        \<comment> \<open>the transmitter's idle bit\<close>

definition SSTATUS_SPP :: u64 where "SSTATUS_SPP = push_bit 8 1"
definition SSTATUS_SPIE :: u64 where "SSTATUS_SPIE = push_bit 5 1"
definition UART0_IRQ :: int where "UART0_IRQ = 10"
definition VIRTIO0_IRQ :: int where "VIRTIO0_IRQ = 1"

definition clockintr :: "'a kst_scheme \<Rightarrow> nat option \<Rightarrow> csr \<Rightarrow> 'a kst_scheme" where
  "clockintr s me c =
     (if r_tp c = 0 then wakeup (s\<lparr>ticks := ticks s + 1\<rparr>) me ChTicks else s)"

text \<open>A disk interrupt completes transfers inside \<open>virtio_disk_rw\<close>, which the file system sees as
  synchronous: it leaves this state alone.\<close>

definition devintr :: "'a kst_scheme \<Rightarrow> nat option \<Rightarrow> csr \<Rightarrow> int \<times> 'a kst_scheme" where
  "devintr s me c =
     (if r_scause c = 0x8000000000000009 then
        (1, if plic_irq c = UART0_IRQ then uartintr s me (uart_idle c)
            else if plic_irq c = VIRTIO0_IRQ then s
            else if plic_irq c \<noteq> 0
            then kprint s (printk (''unexpected interrupt irq=%d'' @ [CHR 0x0A]) [W (of_int (plic_irq c))])
            else s)
      else if r_scause c = 0x8000000000000005 then (2, clockintr s me c)
      else (0, s))"

text \<open>What \<open>prepare_return\<close> leaves in the trap frame and in \<open>sstatus\<close>, \<open>sepc\<close> and \<open>stvec\<close>.\<close>

record uret =
  u_sstatus :: u64
  u_sepc :: u64
  u_stvec :: u64
  u_satp :: u64

definition MAKE_SATP :: "u64 \<Rightarrow> u64" where
  "MAKE_SATP pagetable = push_bit 60 8 OR drop_bit 12 pagetable"

definition prepare_return :: "linksyms \<Rightarrow> csr \<Rightarrow> 'a kst_scheme \<Rightarrow> nat \<Rightarrow> uret \<times> 'a kst_scheme" where
  "prepare_return ls c s me =
     (let p = procs s ! me; tf = p_trapframe p; m = mem (km s);
          m = tf_set m tf Tkernel_satp (r_satp c);
          m = tf_set m tf Tkernel_sp (p_kstack p + of_nat PGSIZE);
          m = tf_set m tf Tkernel_trap (sym_usertrap ls);
          m = tf_set m tf Tkernel_hartid (r_tp c)
      in (\<lparr>u_sstatus = (r_sstatus c AND NOT SSTATUS_SPP) OR SSTATUS_SPIE, u_sepc = tf_get m tf Tepc,
           u_stvec = TRAMPOLINE + (sym_uservec ls - sym_trampoline ls), u_satp = MAKE_SATP (p_pagetable p)\<rparr>,
          set_km s ((km s)\<lparr>mem := m\<rparr>)))"

text \<open>How a trap from user space ends: back to user space, in the scheduler after giving up the CPU
  (to be resumed at \<open>prepare_return\<close>), or gone for good.\<close>

datatype 's trapend = ToUser uret 's | Yields 's | Exited 's

definition exit_if_killed :: "'a kst_scheme \<Rightarrow> nat \<Rightarrow> ('a kst_scheme \<Rightarrow> 'a kst_scheme trapend res) \<Rightarrow> 'a kst_scheme trapend res" where
  "exit_if_killed s me k = (if killed s me \<noteq> 0 then bnd (kexit s me (-1)) (\<lambda>s. Ok (Exited s)) else k s)"

text \<open>The end of \<open>usertrap\<close>, common to all causes.\<close>

definition trap_leave :: "linksyms \<Rightarrow> csr \<Rightarrow> nat \<Rightarrow> int \<Rightarrow> 'a kst_scheme \<Rightarrow> 'a kst_scheme trapend res" where
  "trap_leave ls c me which_dev s = exit_if_killed s me (\<lambda>s.
     if which_dev = 2 then bnd (yield s me) (\<lambda>s. Ok (Yields s))
     else case prepare_return ls c s me of (u, s) \<Rightarrow> Ok (ToUser u s))"

definition usertrap :: "linksyms \<Rightarrow> u8 list \<Rightarrow> csr \<Rightarrow> 'a kst_scheme \<Rightarrow> nat \<Rightarrow> 'a kst_scheme trapend res" where
  "usertrap ls pad c s me =
     (if r_sstatus c AND SSTATUS_SPP \<noteq> 0 then Panic ''usertrap: not from user mode''
      else
        let tf = p_trapframe (procs s ! me);
            s = set_km s ((km s)\<lparr>mem := tf_set (mem (km s)) tf Tepc (r_sepc c)\<rparr>);
            leave = trap_leave ls c me
        in if r_scause c = 8 then
             exit_if_killed s me (\<lambda>s.
               let m = mem (km s);
                   s = set_km s ((km s)\<lparr>mem := tf_set m tf Tepc (tf_get m tf Tepc + 4)\<rparr>)
               in bnd (syscall ls pad s me) (\<lambda>(back, s). if back then leave 0 s else Ok (Exited s)))
           else case devintr s (Some me) c of (which_dev, s) \<Rightarrow>
             if which_dev \<noteq> 0 then leave which_dev s
             else
               bnd (if r_scause c = 15 \<or> r_scause c = 13
                    then let p = procs s ! me in
                         bnd (vmfault (km s) (p_sz p) (p_pagetable p) (p_pagetable p) (r_stval c)) (\<lambda>(pa, k).
                           Ok (pa \<noteq> 0, set_km s k))
                    else Ok (False, s)) (\<lambda>(handled, s).
                 if handled then leave 0 s
                 else
                   let s = kprint s (printk (''usertrap(): unexpected scause 0x%lx pid=%d'' @ [CHR 0x0A])
                             [W (r_scause c), W (of_int (p_pid (procs s ! me)))]);
                       s = kprint s (printk (''            sepc=0x%lx stval=0x%lx'' @ [CHR 0x0A])
                             [W (r_sepc c), W (r_stval c)])
                   in leave 0 (setkilled s me)))"

text \<open>\<open>intr\<close> is the interrupt-enable bit on entry; the process is the one running on this CPU, if any.\<close>

definition kerneltrap :: "csr \<Rightarrow> bool \<Rightarrow> 'a kst_scheme \<Rightarrow> nat option \<Rightarrow> 'a kst_scheme res" where
  "kerneltrap c intr s me =
     (if r_sstatus c AND SSTATUS_SPP = 0 then Panic ''kerneltrap: not from supervisor mode''
      else if intr then Panic ''kerneltrap: interrupts enabled''
      else case devintr s me c of (which_dev, s) \<Rightarrow>
        if which_dev = 0 then Panic ''kerneltrap''
        else case me of
            Some p \<Rightarrow> if which_dev = 2 then yield s p else Ok s
          | None \<Rightarrow> Ok s)"

definition init_path :: "u8 list" where
  "init_path = [47, 105, 110, 105, 116]"

definition forkret :: "linksyms \<Rightarrow> csr \<Rightarrow> bool \<Rightarrow> 'a kst_scheme \<Rightarrow> nat \<Rightarrow> (uret \<times> 'a kst_scheme) res" where
  "forkret ls c is_first s me =
     bnd (if is_first then
            bnd (fsinit s me ROOTDEV) (\<lambda>s.
            bnd (kexec ls s me init_path [init_path]) (\<lambda>(r, s).
              let s = set_a0 s me (of_int r) in if r = -1 then Panic ''exec'' else Ok s))
          else Ok s) (\<lambda>s. Ok (prepare_return ls c s me))"

section \<open>The dispatcher\<close>

lemma syscalls_total: "0 < num \<Longrightarrow> num < 27 \<Longrightarrow> \<exists>call. syscalls ls pad (int num) = Some call"
  unfolding syscalls_def by simp arith

lemma trace_line_eq:
  "trace_line pid name v =
     printint digits (scast (ucast (of_int pid :: u64) :: u32)) 10 True @ '': '' @ name @ '' -> '' @
     printint digits v 10 True @ [CHR 0x0A]"
  by (simp add: trace_line_def printk.simps conversion_def char_at_def Let_def)

lemma set_a0_simps [simp]:
  "procs (set_a0 s me v) = procs s" "uart_out (set_a0 s me v) = uart_out s"
  "tf_get (mem (km (set_a0 s me v))) (p_trapframe (procs s ! me)) Ta0 = v"
  by (simp_all add: set_a0_def set_km_def)

lemma traced_iff: "traced tr num \<longleftrightarrow> tr = 1 \<or> bit tr num"
  by (simp add: traced_def push_bit_eq_mult and_exp_eq_0_iff_not_bit)

text \<open>A concrete kernel state, with one process that is about to call \<open>getpid\<close> with tracing on.\<close>

definition demo_proc :: proc where
  "demo_proc = \<lparr>p_state = RUNNING, p_chan = None, p_killed = 0, p_xstate = 0, p_pid = 7, p_parent = None,
     p_kstack = 0, p_sz = 0, p_pagetable = 0, p_trapframe = 0x1000,
     p_context = \<lparr>ctx_ra = 0, ctx_sp = 0, ctx_s = []\<rparr>, p_ofile = replicate NOFILE None, p_cwd = None,
     p_name = [115, 104], p_tracing = 1\<rparr>"

definition demo_kernel :: kst where
  "demo_kernel = \<lparr>km = \<lparr>mem = tf_set (\<lambda>_. 0) 0x1000 Ta7 11, freelist = 0, kend = 0x80030000\<rparr>, procs = [demo_proc], nextpid = 8,
     initproc = None, ticks = 0, bufs = [], disk = (\<lambda>_. []), wtrace = [], log_start = 0, log_outstanding = 0,
     log_committing = False, log_dev = 0, log_ncommit = 0, lh_n = 0, lh_block = [],
     sb = \<lparr>sb_magic = FSMAGIC, sb_size = 2000, sb_nblocks = 1953, sb_ninodes = 200, sb_nlog = 31, sb_logstart = 2,
       sb_inodestart = 33, sb_bmapstart = 46\<rparr>, inodes = [], pipes = (\<lambda>_. \<lparr>pi_data = [], pi_nread = 0, pi_nwrite = 0, pi_readopen = False, pi_writeopen = False\<rparr>), files = [], cons = \<lparr>c_buf = replicate INPUT_BUF_SIZE 0, c_r = 0, c_w = 0, c_e = 0\<rparr>, tx_busy = False, uart_out = [],
     uart_in = [], race = race_init\<rparr>"

lemmas demo_defs = demo_kernel_def demo_proc_def

lemma demo_simps [simp]:
  "procs demo_kernel = [demo_proc]" "uart_out demo_kernel = []" "mem (km demo_kernel) = tf_set (\<lambda>_. 0) 0x1000 Ta7 11"
  "p_trapframe demo_proc = 0x1000" "p_pid demo_proc = 7" "p_tracing demo_proc = 1"
  by (simp_all add: demo_defs)

section \<open>Properties\<close>

text \<open>C39: a system call that returns leaves its result in the caller's \<open>a0\<close>, and the dispatcher writes
  to the console exactly when the process (as the call leaves it) has tracing on (1) or has the bit of
  this call set: the line \<open>pid: name -> result\<close>. \<open>exit\<close>, which does not return, is traced by its handler.\<close>

theorem syscall_trace:
  assumes num: "sint (ucast (tf_get (mem (km s)) (p_trapframe (procs s ! me)) Ta7) :: u32) = int num"
    and "0 < num" "num < 27" "num \<noteq> SYS_exit"
    and call: "syscalls ls pad (int num) = Some call" "call s me = Ok (Some v, s1)"
    and p: "p = procs s1 ! me"
  shows "\<exists>t. syscall ls pad s me = Ok (True, t) \<and> procs t = procs s1 \<and>
           tf_get (mem (km t)) (p_trapframe p) Ta0 = of_int v \<and>
           uart_out t = uart_out s1 @
             (if p_tracing p = 1 \<or> bit (p_tracing p) num
              then map of_char (printint digits (scast (ucast (of_int (p_pid p) :: u64) :: u32)) 10 True @
                     '': '' @ syscallnames ! num @ '' -> '' @ printint digits (of_int v) 10 True @ [CHR 0x0A])
              else [])"
proof -
  have "\<exists>t. syscall ls pad s me = Ok (True, t) \<and> procs t = procs s1 \<and>
          tf_get (mem (km t)) (p_trapframe p) Ta0 = of_int v \<and>
          uart_out t = uart_out s1 @
            (if p_tracing p = 1 \<or> bit (p_tracing p) num
             then map of_char (trace_line (p_pid p) (syscallnames ! num) (of_int v)) else [])"
    unfolding syscall_def Let_def num
    using assms(2-4) by (simp add: call p kprint_eq traced_iff)
  then show ?thesis unfolding trace_line_eq .
qed

theorem syscall_trace_witness:
  "\<forall>ls pad. \<exists>t. syscall ls pad demo_kernel 0 = Ok (True, t) \<and>
     uart_out t = map of_char (''7: getpid -> 7'' @ [CHR 0x0A])"
proof (intro allI)
  fix ls pad
  have n: "sint (ucast (tf_get (mem (km demo_kernel)) (p_trapframe (procs demo_kernel ! 0)) Ta7) :: u32) = int 11"
    by simp
  have c: "syscalls ls pad (int 11) = Some sys_getpid" by (simp add: syscalls_def)
  have r: "sys_getpid demo_kernel 0 = Ok (Some 7, demo_kernel)" by (simp add: sys_getpid_def)
  have p: "printint digits 7 10 True = ''7''" by code_simp
  have nm: "syscallnames ! 11 = ''getpid''" by (simp add: syscallnames_def)
  show "\<exists>t. syscall ls pad demo_kernel 0 = Ok (True, t) \<and> uart_out t = map of_char (''7: getpid -> 7'' @ [CHR 0x0A])"
    using syscall_trace [OF n _ _ _ c r refl] by (auto simp: p nm SYS_exit_def)
qed

section \<open>What an interrupt leaves alone\<close>

lemma km_wakeup [simp]: "km (wakeup s me ch) = km s"
  by (simp add: wakeup_def)

lemma km_console [simp]:
  "km (consputc s c) = km s" "km (set_cons s f) = km s" "km (kprint s str) = km s"
  by (simp_all add: consputc_def uartputc_sync_def set_cons_def kprint_eq)

lemma km_kill_line [simp]: "km (kill_line k s) = km s"
  by (induction k arbitrary: s) simp_all

lemma km_print_procdump [simp]: "km (print_procdump s) = km s"
  unfolding print_procdump_def
  by (rule fold_frame [where f = km, THEN trans]) (auto split: prod.splits)

lemma km_consoleintr [simp]: "km (consoleintr s me c) = km s"
  by (simp add: consoleintr_def Let_def)

lemma km_uartintr [simp]: "km (uartintr s me idle) = km s"
  unfolding uartintr_def Let_def
  by (rule fold_frame [where f = km, THEN trans]) simp_all

lemma km_devintr [simp]: "km (snd (devintr s me c)) = km s"
  by (simp add: devintr_def clockintr_def)

lemma trapframe_wakeup [simp]:
  "me < length (procs s) \<Longrightarrow> p_trapframe (procs (wakeup s who ch) ! me) = p_trapframe (procs s ! me)"
  by (simp add: wakeup_def Let_def)

lemma length_procs_wakeup [simp]: "length (procs (wakeup s who ch)) = length (procs s)"
  by (simp add: wakeup_def)

lemma procs_console [simp]:
  "procs (consputc s c) = procs s" "procs (set_cons s f) = procs s" "procs (kprint s str) = procs s"
  by (simp_all add: consputc_def uartputc_sync_def set_cons_def kprint_eq)

lemma procs_kill_line [simp]: "procs (kill_line k s) = procs s"
  by (induction k arbitrary: s) simp_all

lemma procs_print_procdump [simp]: "procs (print_procdump s) = procs s"
  unfolding print_procdump_def
  by (rule fold_frame [where f = procs, THEN trans]) (auto split: prod.splits)

text \<open>What no interrupt handler changes in the process table.\<close>

definition fixed_part :: "'a pst_scheme \<Rightarrow> (u64 \<times> int) list" where
  "fixed_part s = map (\<lambda>p. (p_trapframe p, p_killed p)) (procs s)"

lemma fixed_part_nth:
  assumes "fixed_part t = fixed_part s" "me < length (procs s)"
  shows "p_trapframe (procs t ! me) = p_trapframe (procs s ! me)" "killed t me = killed s me"
    "length (procs t) = length (procs s)"
proof -
  show "length (procs t) = length (procs s)" using assms(1) by (metis fixed_part_def length_map)
  moreover have "fixed_part t ! me = fixed_part s ! me" using assms(1) by simp
  ultimately show "p_trapframe (procs t ! me) = p_trapframe (procs s ! me)" "killed t me = killed s me"
    using assms(2) by (simp_all add: fixed_part_def killed_def)
qed

lemma fixed_part_wakeup [simp]: "fixed_part (wakeup s who ch) = fixed_part s"
  by (rule nth_equalityI) (simp_all add: fixed_part_def wakeup_def Let_def)

lemma fixed_part_console [simp]:
  "fixed_part (consputc s c) = fixed_part s" "fixed_part (set_cons s f) = fixed_part s"
  "fixed_part (kprint s str) = fixed_part s" "fixed_part (kill_line k s) = fixed_part s"
  "fixed_part (print_procdump s) = fixed_part s" "fixed_part (s\<lparr>ticks := n\<rparr>) = fixed_part s"
  "fixed_part (s\<lparr>tx_busy := d\<rparr>) = fixed_part s" "fixed_part (s\<lparr>uart_in := l\<rparr>) = fixed_part s"
  "fixed_part (set_km s m) = fixed_part s"
  by (simp_all add: fixed_part_def set_km_def)

lemma fixed_part_consoleintr [simp]: "fixed_part (consoleintr s me c) = fixed_part s"
  by (simp add: consoleintr_def Let_def)

lemma fixed_part_uartintr [simp]: "fixed_part (uartintr s me idle) = fixed_part s"
  unfolding uartintr_def Let_def
  by (rule fold_frame [where f = fixed_part, THEN trans]) simp_all

lemma fixed_part_devintr [simp]: "fixed_part (snd (devintr s me c)) = fixed_part s"
  by (simp add: devintr_def clockintr_def)

lemma prepare_return_simps:
  assumes "prepare_return ls c s me = (u, t)"
  shows "procs t = procs s" "u_sstatus u = (r_sstatus c AND NOT SSTATUS_SPP) OR SSTATUS_SPIE"
    "u_sepc u = tf_get (mem (km s)) (p_trapframe (procs s ! me)) Tepc"
    "tf_get (mem (km t)) (p_trapframe (procs s ! me)) Tepc = u_sepc u"
    "u_satp u = MAKE_SATP (p_pagetable (procs s ! me))"
    "tf_get (mem (km t)) (p_trapframe (procs s ! me)) Tkernel_sp = p_kstack (procs s ! me) + of_nat PGSIZE"
    "tf_get (mem (km t)) (p_trapframe (procs s ! me)) Tkernel_trap = sym_usertrap ls"
  using assms by (auto simp: prepare_return_def Let_def set_km_def)

lemma exit_if_killed_eq_ToUser:
  "exit_if_killed s me k = Ok (ToUser u t) \<longleftrightarrow> killed s me = 0 \<and> k s = Ok (ToUser u t)"
  by (simp add: exit_if_killed_def)

lemma trap_leave_ToUser:
  assumes "trap_leave ls c me d s = Ok (ToUser u t)"
  shows "killed s me = 0" "prepare_return ls c s me = (u, t)"
  using assms by (auto simp: trap_leave_def exit_if_killed_eq_ToUser split: if_splits prod.splits)



definition ext_irq :: csr where
  "ext_irq = \<lparr>r_sstatus = 0x20, r_scause = 0x8000000000000009, r_sepc = 0x1234, r_stval = 0, r_satp = 0,
     r_tp = 0, plic_irq = 0, uart_idle = False\<rparr>"

lemma usertrap_device_aux:
  assumes "r_sstatus c AND SSTATUS_SPP = 0" "r_scause c = 0x8000000000000009"
    and me: "me < length (procs s)" "killed s me = 0"
  shows "\<exists>u t. usertrap ls pad c s me = Ok (ToUser u t) \<and> u_sepc u = r_sepc c"
proof -
  define s0 where "s0 = set_km s ((km s)\<lparr>mem := tf_set (mem (km s)) (p_trapframe (procs s ! me)) Tepc (r_sepc c)\<rparr>)"
  obtain s1 where dev: "devintr s0 (Some me) c = (1, s1)"
    using assms(2) by (simp add: devintr_def)
  have p0: "procs s0 = procs s" by (simp add: s0_def set_km_def)
  have "km (snd (devintr s0 (Some me) c)) = km s0" "fixed_part (snd (devintr s0 (Some me) c)) = fixed_part s0"
    by simp_all
  then have k: "km s1 = km s0" "fixed_part s1 = fixed_part s0" by (simp_all add: dev)
  note f = fixed_part_nth [OF k(2), of me]
  obtain u t where pr: "prepare_return ls c s1 me = (u, t)" by fastforce
  have "usertrap ls pad c s me = trap_leave ls c me 1 s1"
    using assms(1,2) dev by (simp add: usertrap_def Let_def flip: s0_def)
  also have "\<dots> = Ok (ToUser u t)"
    using f me by (simp add: trap_leave_def exit_if_killed_def killed_def p0 pr)
  finally have "usertrap ls pad c s me = Ok (ToUser u t)" .
  moreover have "u_sepc u = r_sepc c"
    using prepare_return_simps(3) [OF pr] f me k(1) by (simp add: p0) (simp add: s0_def set_km_def)
  ultimately show ?thesis by blast
qed

text \<open>a device interrupt that arrives in user space is transparent to a process that has not been
  killed: it resumes at the interrupted instruction, whatever device interrupted.\<close>

theorem usertrap_device:
  assumes "r_sstatus c AND SSTATUS_SPP = 0" "r_scause c = 0x8000000000000009"
    and "me < length (procs s)" "killed s me = 0"
  shows "\<exists>u t. usertrap ls pad c s me = Ok (ToUser u t) \<and> u_sepc u = r_sepc c"
  using usertrap_device_aux [OF assms] .

theorem usertrap_device_witness:
  "\<forall>ls pad. \<exists>u t. usertrap ls pad ext_irq demo_kernel 0 = Ok (ToUser u t) \<and> u_sepc u = 0x1234"
  using usertrap_device [of ext_irq 0 demo_kernel]
  by (simp add: ext_irq_def SSTATUS_SPP_def killed_def demo_proc_def)


text \<open>An exception that no handler claims kills the process: two lines are printed and the call
  ends in \<open>kexit (-1)\<close>, never in user space.\<close>

theorem usertrap_fault:
  assumes "r_sstatus c AND SSTATUS_SPP = 0"
    and "r_scause c \<notin> {8, 13, 15, 0x8000000000000005, 0x8000000000000009}"
    and me: "me < length (procs s)"
  shows "\<exists>s'. usertrap ls pad c s me = bnd (kexit s' me (-1)) (\<lambda>s. Ok (Exited s)) \<and> killed s' me = 1 \<and>
     uart_out s' = uart_out s @ map of_char
       (''usertrap(): unexpected scause 0x'' @ printint digits (r_scause c) 16 False @ '' pid='' @
        printint digits (scast (ucast (of_int (p_pid (procs s ! me)) :: u64) :: u32)) 10 True @ [CHR 0x0A] @
        ''            sepc=0x'' @ printint digits (r_sepc c) 16 False @ '' stval=0x'' @
        printint digits (r_stval c) 16 False @ [CHR 0x0A])"
proof -
  have pk1: "printk (''usertrap(): unexpected scause 0x%lx pid=%d'' @ [CHR 0x0A]) [W x, W y] =
    ''usertrap(): unexpected scause 0x'' @ printint digits x 16 False @ '' pid='' @
        printint digits (scast (ucast y :: u32)) 10 True @ [CHR 0x0A]" for x y
    by (simp add: printk.simps conversion_def char_at_def Let_def)
  have pk2: "printk (''            sepc=0x%lx stval=0x%lx'' @ [CHR 0x0A]) [W x, W y] =
    ''            sepc=0x'' @ printint digits x 16 False @ '' stval=0x'' @
        printint digits y 16 False @ [CHR 0x0A]" for x y
    by (simp add: printk.simps conversion_def char_at_def Let_def)
  define s0 where "s0 = set_km s ((km s)\<lparr>mem := tf_set (mem (km s)) (p_trapframe (procs s ! me)) Tepc (r_sepc c)\<rparr>)"
  define s1 where "s1 = kprint s0 (printk (''usertrap(): unexpected scause 0x%lx pid=%d'' @ [CHR 0x0A])
      [W (r_scause c), W (of_int (p_pid (procs s0 ! me)))])"
  define s2 where "s2 = kprint s1 (printk (''            sepc=0x%lx stval=0x%lx'' @ [CHR 0x0A]) [W (r_sepc c), W (r_stval c)])"
  have k: "killed (setkilled s2 me) me = 1"
    using me by (simp add: killed_def setkilled_def set_proc_def s2_def s1_def) (simp add: s0_def set_km_def)
  have "usertrap ls pad c s me = trap_leave ls c me 0 (setkilled s2 me)"
    unfolding s2_def s1_def s0_def using assms(1,2) by (simp add: usertrap_def Let_def devintr_def)
  then have "usertrap ls pad c s me = bnd (kexit (setkilled s2 me) me (-1)) (\<lambda>s. Ok (Exited s))"
    by (simp add: trap_leave_def exit_if_killed_def k)
  moreover have "uart_out (setkilled s2 me) = uart_out s2" by (simp add: setkilled_def set_proc_def)
  moreover have p0: "procs s0 = procs s" "uart_out s0 = uart_out s" by (simp_all add: s0_def set_km_def)
  have "uart_out s2 = uart_out s @ map of_char
       (''usertrap(): unexpected scause 0x'' @ printint digits (r_scause c) 16 False @ '' pid='' @
        printint digits (scast (ucast (of_int (p_pid (procs s ! me)) :: u64) :: u32)) 10 True @ [CHR 0x0A] @
        ''            sepc=0x'' @ printint digits (r_sepc c) 16 False @ '' stval=0x'' @
        printint digits (r_stval c) 16 False @ [CHR 0x0A])"
    unfolding s2_def s1_def kprint_eq pk1 pk2 p0 by simp
  ultimately show ?thesis
    using k by (intro exI [of _ "setkilled s2 me"]) simp
qed


theorem usertrap_fault_witness:
  "\<forall>ls pad. \<exists>s'. usertrap ls pad (ext_irq\<lparr>r_scause := 2\<rparr>) demo_kernel 0 =
       bnd (kexit s' 0 (-1)) (\<lambda>s. Ok (Exited s)) \<and> killed s' 0 = 1"
  using usertrap_fault [of "ext_irq\<lparr>r_scause := 2\<rparr>" 0 demo_kernel]
  by (fastforce simp: ext_irq_def SSTATUS_SPP_def)

end
