(* ===== verification/Virtio.thy ===== *)
theory Virtio
  imports Bio "HOL-Library.Multiset"
begin

text \<open>
  The disk driver (\<open>kernel/virtio_disk.c\<close>, \<open>kernel/virtio.h\<close>): the descriptor table, the two
  rings shared with the device, the request that a process submits and sleeps on, and the interrupt
  that completes it. The arrays of the driver are maps from indices; the physical address in a
  descriptor is one of the three things that the driver puts there. \<open>virtio_disk_rw\<close> is cut at its
  sleeps. The device is not part of the source: its register accesses are parameters of
  \<open>virtio_disk_init\<close>, and what it does with the rings is the environment of theory \<open>DiskProtocol\<close>. The memory fences have no
  counterpart, since steps are atomic; neither have the notification of the device and the
  acknowledgement of the interrupt, since the device and the handler may take a step at any time.
\<close>

section \<open>Definitions\<close>

definition NUM :: nat where [param_defs]: "NUM = 8"

definition VRING_DESC_F_NEXT :: u16 where "VRING_DESC_F_NEXT = 1"
definition VRING_DESC_F_WRITE :: u16 where "VRING_DESC_F_WRITE = 2"
definition VIRTIO_BLK_T_IN :: u32 where "VIRTIO_BLK_T_IN = 0"
definition VIRTIO_BLK_T_OUT :: u32 where "VIRTIO_BLK_T_OUT = 1"

datatype vaddr = ANull | AOp nat | AData nat | AStatus nat

record virtq_desc =
  d_addr :: vaddr
  d_len :: u32
  d_flags :: u16
  d_next :: nat

record virtio_blk_req =
  rq_type :: u32
  rq_reserved :: u32
  rq_sector :: u64

record vdisk =
  vdesc :: "nat \<Rightarrow> virtq_desc"
  avail_idx :: u16
  avail_ring :: "nat \<Rightarrow> nat"
  used_ridx :: u16
  used_ring :: "nat \<Rightarrow> nat"
  vfree :: "nat \<Rightarrow> bool"
  vused_idx :: u16
  info_b :: "nat \<Rightarrow> nat option"
  info_status :: "nat \<Rightarrow> u8"
  vops :: "nat \<Rightarrow> virtio_blk_req"

definition zero_desc :: virtq_desc where
  "zero_desc = \<lparr>d_addr = ANull, d_len = 0, d_flags = 0, d_next = 0\<rparr>"

subsection \<open>Initialisation\<close>

datatype mmio_reg = MAGIC_VALUE | VERSION | DEVICE_ID | VENDOR_ID | DEVICE_FEATURES | DRIVER_FEATURES
  | QUEUE_SEL | QUEUE_NUM_MAX | QUEUE_NUM | QUEUE_READY | QUEUE_NOTIFY | INTERRUPT_STATUS | INTERRUPT_ACK
  | STATUS | QUEUE_DESC_LOW | QUEUE_DESC_HIGH | DRIVER_DESC_LOW | DRIVER_DESC_HIGH | DEVICE_DESC_LOW | DEVICE_DESC_HIGH

definition VIRTIO_CONFIG_S_ACKNOWLEDGE :: u32 where "VIRTIO_CONFIG_S_ACKNOWLEDGE = 1"
definition VIRTIO_CONFIG_S_DRIVER :: u32 where "VIRTIO_CONFIG_S_DRIVER = 2"
definition VIRTIO_CONFIG_S_DRIVER_OK :: u32 where "VIRTIO_CONFIG_S_DRIVER_OK = 4"
definition VIRTIO_CONFIG_S_FEATURES_OK :: u32 where "VIRTIO_CONFIG_S_FEATURES_OK = 8"

text \<open>The bits that the driver does not accept, in the order in which it clears them: read-only disk,
  SCSI commands, writeback mode, several queues, any layout, event indices, indirect descriptors.\<close>

definition refused_features :: "nat list" where
  "refused_features = [5, 7, 11, 12, 27, 29, 28]"

definition negotiate :: "u64 \<Rightarrow> u64" where
  "negotiate features = fold (\<lambda>n f. f AND NOT (push_bit n 1)) refused_features features"

text \<open>The structures in memory once \<open>virtio_disk_init\<close> has cleared the three pages and marked every
  descriptor free.\<close>

definition disk_reset :: "vdisk \<Rightarrow> vdisk" where
  "disk_reset v = v\<lparr>vdesc := (\<lambda>_. zero_desc), avail_idx := 0, avail_ring := (\<lambda>_. 0), used_ridx := 0, used_ring := (\<lambda>_. 0),
     vfree := (\<lambda>i. i < NUM \<or> vfree v i)\<rparr>"

text \<open>The device is a state with its register reads and writes, \<open>rd\<close> and \<open>wr\<close>. The pages of the three
  structures are the last component of the result.\<close>

definition virtio_disk_init ::
    "('d \<Rightarrow> mmio_reg \<Rightarrow> u32) \<Rightarrow> ('d \<Rightarrow> mmio_reg \<Rightarrow> u32 \<Rightarrow> 'd) \<Rightarrow> 'd \<Rightarrow> kmem \<Rightarrow> vdisk \<Rightarrow>
     ('d \<times> kmem \<times> vdisk \<times> u64 list) res" where
  "virtio_disk_init rd wr d k v =
     (if rd d MAGIC_VALUE \<noteq> 0x74726976 \<or> rd d VERSION \<noteq> 2 \<or> rd d DEVICE_ID \<noteq> 2 \<or> rd d VENDOR_ID \<noteq> 0x554d4551
      then Panic ''could not find virtio disk''
      else
        let status = 0;
            d = wr d STATUS status;
            status = status OR VIRTIO_CONFIG_S_ACKNOWLEDGE;
            d = wr d STATUS status;
            status = status OR VIRTIO_CONFIG_S_DRIVER;
            d = wr d STATUS status;
            features = negotiate (ucast (rd d DEVICE_FEATURES));
            d = wr d DRIVER_FEATURES (ucast features);
            status = status OR VIRTIO_CONFIG_S_FEATURES_OK;
            d = wr d STATUS status;
            status = rd d STATUS
        in if status AND VIRTIO_CONFIG_S_FEATURES_OK = 0 then Panic ''virtio disk FEATURES_OK unset''
        else
          let d = wr d QUEUE_SEL 0
          in if rd d QUEUE_READY \<noteq> 0 then Panic ''virtio disk should not be ready''
          else if rd d QUEUE_NUM_MAX = 0 then Panic ''virtio disk has no queue 0''
          else if rd d QUEUE_NUM_MAX < of_nat NUM then Panic ''virtio disk max queue too short''
          else
            let (pdesc, k) = kalloc k; (pavail, k) = kalloc k; (pused, k) = kalloc k
            in if pdesc = 0 \<or> pavail = 0 \<or> pused = 0 then Panic ''virtio disk kalloc''
            else
              let k = fold (\<lambda>p k. k\<lparr>mem := memset (mem k) p 0 PGSIZE\<rparr>) [pdesc, pavail, pused] k;
                  d = wr d QUEUE_NUM (of_nat NUM);
                  d = wr d QUEUE_DESC_LOW (ucast pdesc);
                  d = wr d QUEUE_DESC_HIGH (ucast (drop_bit 32 pdesc));
                  d = wr d DRIVER_DESC_LOW (ucast pavail);
                  d = wr d DRIVER_DESC_HIGH (ucast (drop_bit 32 pavail));
                  d = wr d DEVICE_DESC_LOW (ucast pused);
                  d = wr d DEVICE_DESC_HIGH (ucast (drop_bit 32 pused));
                  d = wr d QUEUE_READY 1;
                  status = status OR VIRTIO_CONFIG_S_DRIVER_OK;
                  d = wr d STATUS status
              in Ok (d, k, disk_reset v, [pdesc, pavail, pused]))"

subsection \<open>Descriptors\<close>

definition alloc_desc :: "vdisk \<Rightarrow> (nat \<times> vdisk) option" where
  "alloc_desc v =
     map_option (\<lambda>i. (i, v\<lparr>vfree := (vfree v)(i := False)\<rparr>)) (find (vfree v) [0..<NUM])"

definition free_desc :: "'a bst_scheme \<Rightarrow> vdisk \<Rightarrow> nat \<Rightarrow> nat \<Rightarrow> ('a bst_scheme \<times> vdisk) res" where
  "free_desc s v me i =
     (if i \<ge> NUM then Panic ''free_desc 1''
      else if vfree v i then Panic ''free_desc 2''
      else Ok (wakeup s (Some me) ChDiskFree,
               v\<lparr>vdesc := (vdesc v)(i := zero_desc), vfree := (vfree v)(i := True)\<rparr>))"

lemma free_desc_less:
  "free_desc s v me i = Ok (s', v') \<Longrightarrow> card {j. j < NUM \<and> \<not> vfree v' j} < card {j. j < NUM \<and> \<not> vfree v j}"
proof -
  assume "free_desc s v me i = Ok (s', v')"
  then have "i < NUM" "\<not> vfree v i" "v' = v\<lparr>vdesc := (vdesc v)(i := zero_desc), vfree := (vfree v)(i := True)\<rparr>"
    by (auto simp: free_desc_def split: if_splits)
  then have "{j. j < NUM \<and> \<not> vfree v' j} \<subset> {j. j < NUM \<and> \<not> vfree v j}" by auto
  then show ?thesis by (intro psubset_card_mono) auto
qed

function free_chain :: "'a bst_scheme \<Rightarrow> vdisk \<Rightarrow> nat \<Rightarrow> nat \<Rightarrow> ('a bst_scheme \<times> vdisk) res" where
  "free_chain s v me i =
     (let flag = d_flags (vdesc v i); nxt = d_next (vdesc v i) in
      case free_desc s v me i of
        Ok (s, v) \<Rightarrow> if flag AND VRING_DESC_F_NEXT \<noteq> 0 then free_chain s v me nxt else Ok (s, v)
      | Panic m \<Rightarrow> Panic m
      | Blocks c \<Rightarrow> Blocks c)"
  by pat_completeness auto
termination
  by (relation "measure (\<lambda>(s, v, me, i). card {j. j < NUM \<and> \<not> vfree v j})") (auto intro: free_desc_less)

declare free_chain.simps [simp del]

text \<open>The loop of \<open>alloc3_desc\<close>: \<open>n\<close> descriptors are still to be found and \<open>ixs\<close> are.\<close>

fun alloc3_loop :: "'a bst_scheme \<Rightarrow> vdisk \<Rightarrow> nat \<Rightarrow> nat list \<Rightarrow> nat \<Rightarrow> (nat list option \<times> 'a bst_scheme \<times> vdisk) res" where
  "alloc3_loop s v me ixs 0 = Ok (Some ixs, s, v)"
| "alloc3_loop s v me ixs (Suc n) =
     (case alloc_desc v of
        Some (i, v) \<Rightarrow> alloc3_loop s v me (ixs @ [i]) n
      | None \<Rightarrow> bnd (fold_res (\<lambda>j (s, v). free_desc s v me j) ixs (s, v)) (\<lambda>(s, v). Ok (None, s, v)))"

definition alloc3_desc :: "'a bst_scheme \<Rightarrow> vdisk \<Rightarrow> nat \<Rightarrow> (nat list option \<times> 'a bst_scheme \<times> vdisk) res" where
  "alloc3_desc s v me = alloc3_loop s v me [] 3"

subsection \<open>Requests\<close>

definition format_req :: "vdisk \<Rightarrow> nat \<Rightarrow> nat \<Rightarrow> bool \<Rightarrow> nat \<Rightarrow> nat \<Rightarrow> nat \<Rightarrow> vdisk" where
  "format_req v b blockno wr i0 i1 i2 =
     (let sector = ucast (of_nat blockno * 2 :: u32) :: u64;
          op = \<lparr>rq_type = (if wr then VIRTIO_BLK_T_OUT else VIRTIO_BLK_T_IN), rq_reserved = 0, rq_sector = sector\<rparr>;
          d0 = \<lparr>d_addr = AOp i0, d_len = 16, d_flags = VRING_DESC_F_NEXT, d_next = i1\<rparr>;
          d1 = \<lparr>d_addr = AData b, d_len = of_nat BSIZE,
                d_flags = (if wr then 0 else VRING_DESC_F_WRITE) OR VRING_DESC_F_NEXT, d_next = i2\<rparr>;
          d2 = \<lparr>d_addr = AStatus i0, d_len = 1, d_flags = VRING_DESC_F_WRITE, d_next = 0\<rparr>
      in v\<lparr>vops := (vops v)(i0 := op), vdesc := (vdesc v)(i0 := d0, i1 := d1, i2 := d2),
           info_status := (info_status v)(i0 := 0xff)\<rparr>)"

text \<open>The first part of \<open>virtio_disk_rw\<close>, up to the sleep on the buffer. When there are not three free
  descriptors it sleeps on \<open>disk.free\<close> first and tries again when woken: the result \<open>None\<close>.\<close>

definition virtio_disk_rw_start ::
    "'a bst_scheme \<Rightarrow> vdisk \<Rightarrow> nat \<Rightarrow> nat \<Rightarrow> bool \<Rightarrow> ((nat \<times> nat \<times> nat) option \<times> 'a bst_scheme \<times> vdisk) res" where
  "virtio_disk_rw_start s v me b wr =
     bnd (alloc3_desc s v me) (\<lambda>(ixs, s, v).
       case ixs of
         None \<Rightarrow> Ok (None, s, v)
       | Some ixs \<Rightarrow>
           let i0 = ixs ! 0; i1 = ixs ! 1; i2 = ixs ! 2;
               v = format_req v b (b_blockno (bufs s ! b)) wr i0 i1 i2;
               s = set_buf s b (\<lambda>x. x\<lparr>b_disk := True\<rparr>);
               v = v\<lparr>info_b := (info_b v)(i0 := Some b)\<rparr>;
               v = v\<lparr>avail_ring := (avail_ring v)(unat (avail_idx v) mod NUM := i0)\<rparr>;
               v = v\<lparr>avail_idx := avail_idx v + 1\<rparr>
           in Ok (Some (i0, i1, i2), s, v))"

text \<open>The last part, when a wakeup finds that the disk has let go of the buffer; while it has not, the
  process goes back to sleep.\<close>

definition virtio_disk_rw_finish :: "'a bst_scheme \<Rightarrow> vdisk \<Rightarrow> nat \<Rightarrow> nat \<Rightarrow> nat \<Rightarrow> ('a bst_scheme \<times> vdisk) res" where
  "virtio_disk_rw_finish s v me b i0 =
     (if b_disk (bufs s ! b) then Blocks (ChDisk b)
      else free_chain s (v\<lparr>info_b := (info_b v)(i0 := None)\<rparr>) me i0)"

subsection \<open>The interrupt\<close>

text \<open>A null buffer pointer would fault in the kernel.\<close>

function virtio_disk_intr :: "'a bst_scheme \<Rightarrow> vdisk \<Rightarrow> ('a bst_scheme \<times> vdisk) res" where
  "virtio_disk_intr s v =
     (if vused_idx v = used_ridx v then Ok (s, v)
      else let i = used_ring v (unat (vused_idx v) mod NUM) in
        if info_status v i \<noteq> 0 then Panic ''virtio_disk_intr status''
        else case info_b v i of
          None \<Rightarrow> Panic ''kerneltrap''
        | Some b \<Rightarrow>
            virtio_disk_intr (wakeup (set_buf s b (\<lambda>x. x\<lparr>b_disk := False\<rparr>)) None (ChDisk b))
              (v\<lparr>vused_idx := vused_idx v + 1\<rparr>))"
  by pat_completeness auto

lemma ring_closer: "(a :: u16) \<noteq> b \<Longrightarrow> unat (b - (a + 1)) = unat (b - a) - 1 \<and> 0 < unat (b - a)"
proof -
  assume "a \<noteq> b"
  then have "b - a \<noteq> 0" by simp
  then have "1 \<le> b - a" by (simp add: word_le_nat_alt unat_gt_0 Suc_leI)
  then have "unat (b - a - 1) = unat (b - a) - 1" by (simp add: unat_sub)
  then show ?thesis using \<open>b - a \<noteq> 0\<close> by (simp add: diff_diff_eq unat_gt_0)
qed

termination virtio_disk_intr
  by (relation "measure (\<lambda>(s, v). unat (used_ridx v - vused_idx v))") (auto dest: ring_closer)

declare virtio_disk_intr.simps [simp del]

section \<open>The rings are bounded queues\<close>

type_synonym vring = "(nat \<Rightarrow> nat) \<times> u16 \<times> u16"

definition ring_len :: "vring \<Rightarrow> nat" where
  "ring_len q = (case q of (ring, lo, hi) \<Rightarrow> unat (hi - lo))"

definition ring_items :: "vring \<Rightarrow> nat list" where
  "ring_items q = (case q of (ring, lo, hi) \<Rightarrow> map (\<lambda>k. ring (unat (lo + of_nat k) mod NUM)) [0..<unat (hi - lo)])"

definition ring_ok :: "vring \<Rightarrow> bool" where
  "ring_ok q \<longleftrightarrow> ring_len q \<le> NUM"

definition ring_put :: "nat \<Rightarrow> vring \<Rightarrow> vring" where
  "ring_put x q = (case q of (ring, lo, hi) \<Rightarrow> (ring(unat hi mod NUM := x), lo, hi + 1))"

definition ring_peek :: "vring \<Rightarrow> nat" where
  "ring_peek q = (case q of (ring, lo, hi) \<Rightarrow> ring (unat lo mod NUM))"

definition ring_drop :: "vring \<Rightarrow> vring" where
  "ring_drop q = (case q of (ring, lo, hi) \<Rightarrow> (ring, lo + 1, hi))"

text \<open>The indices count modulo \<open>2 ^ 16\<close>, a multiple of the size of the rings.\<close>

lemma ring_slot: "unat (lo + of_nat k :: u16) mod NUM = (unat lo + k) mod NUM"
proof -
  have "unat (lo + of_nat k :: u16) = (unat lo + k) mod 2 ^ 16" by (simp add: unat_word_ariths unat_of_nat mod_simps)
  then show ?thesis by (simp add: NUM_def mod_mod_cancel)
qed

lemma ring_slots_distinct: "i < NUM \<Longrightarrow> j < NUM \<Longrightarrow> (n + i) mod NUM = (n + j) mod NUM \<longleftrightarrow> i = j"
proof -
  have "(n + i) mod NUM = (if n mod NUM + i < NUM then n mod NUM + i else n mod NUM + i - NUM)" if "i < NUM" for i
  proof -
    obtain r where r: "r = n mod NUM" "r < NUM" by (simp add: NUM_def)
    have "(n + i) mod NUM = (r + i) mod NUM" by (simp add: r mod_add_left_eq)
    then show ?thesis using r(2) that unfolding r(1) [symmetric] by (auto simp: le_mod_geq not_less)
  qed
  then show "i < NUM \<Longrightarrow> j < NUM \<Longrightarrow> ?thesis" by auto
qed

lemma ring_hi: "unat (hi - lo :: u16) = n \<Longrightarrow> hi = lo + of_nat n"
  by auto

lemma ring_items_put:
  assumes "unat (hi - lo) < NUM"
  shows "ring_items (ring_put x (ring, lo, hi)) = ring_items (ring, lo, hi) @ [x]" "ring_len (ring_put x (ring, lo, hi)) = Suc (unat (hi - lo))"
proof -
  let ?n = "unat (hi - lo)"
  have "hi + 1 - lo = of_nat (Suc ?n)" by (simp add: algebra_simps)
  moreover have "Suc ?n < 2 ^ LENGTH(16)" using assms by (simp add: NUM_def)
  ultimately have n: "unat (hi + 1 - lo) = Suc ?n" by (simp only: unat_of_nat_small)
  have slot: "unat hi mod NUM = (unat lo + ?n) mod NUM" using ring_slot [of lo ?n] ring_hi [OF refl, of hi lo] by simp
  have "(ring(unat hi mod NUM := x)) (unat (lo + of_nat k) mod NUM) = (if k = ?n then x else ring (unat (lo + of_nat k) mod NUM))"
    if "k < Suc ?n" for k
    using that assms slot ring_slots_distinct [of k ?n "unat lo"] by (simp add: ring_slot)
  then show "ring_items (ring_put x (ring, lo, hi)) = ring_items (ring, lo, hi) @ [x]"
    by (simp add: ring_items_def ring_put_def n)
  show "ring_len (ring_put x (ring, lo, hi)) = Suc ?n" using n by (simp add: ring_len_def ring_put_def)
qed

lemma ring_items_drop:
  assumes "lo \<noteq> hi"
  shows "ring_items (ring, lo, hi) = ring_peek (ring, lo, hi) # ring_items (ring_drop (ring, lo, hi))"
proof -
  let ?n = "unat (hi - (lo + 1))"
  have n: "unat (hi - lo) = Suc ?n" using ring_closer [OF assms] by simp
  have "[0..<Suc ?n] = 0 # map Suc [0..<?n]" by (simp add: upt_conv_Cons map_Suc_upt)
  then show ?thesis unfolding ring_items_def ring_peek_def ring_drop_def prod.case n
    by (simp add: algebra_simps)
qed

interpretation vq: fifo_queue ring_ok ring_items NUM "\<lambda>q. ring_len q = NUM" "\<lambda>q. ring_len q = 0" ring_put ring_peek ring_drop
proof unfold_locales
  fix q :: vring and x
  obtain ring lo hi where q: "q = (ring, lo, hi)" by (cases q) auto
  have len: "length (ring_items q) = ring_len q" by (simp add: q ring_items_def ring_len_def)
  assume ok: "ring_ok q"
  show "(ring_len q = NUM) = (length (ring_items q) = NUM)" "(ring_len q = 0) = (ring_items q = [])" "length (ring_items q) \<le> NUM"
    using ok len by (auto simp: ring_ok_def)
  show "ring_ok (ring_put x q) \<and> ring_items (ring_put x q) = ring_items q @ [x]" if "length (ring_items q) < NUM"
    using that ring_items_put [of hi lo] by (simp add: q ring_ok_def ring_items_def)
  assume "ring_items q \<noteq> []"
  then have "lo \<noteq> hi" by (auto simp: q ring_items_def)
  then have "ring_items q = ring_peek q # ring_items (ring_drop q)" "ring_len (ring_drop q) \<le> ring_len q"
    using ring_items_drop [of lo hi ring] ring_closer [of lo hi] by (auto simp: q ring_len_def ring_drop_def)
  then show "ring_peek q = hd (ring_items q)" "ring_ok (ring_drop q) \<and> ring_items (ring_drop q) = tl (ring_items q)"
    using ok by (auto simp: ring_ok_def)
qed

end
