(* ===== verification/DiskProtocol.thy ===== *)
theory DiskProtocol
  imports Virtio
begin

text \<open>
  The disk driver of theory \<open>Virtio\<close> against a device that follows the virtio protocol. The device is
  an environment, not part of the source: it fetches heads from the available ring, decodes the chain
  of descriptors behind a head, carries out the transfers it has fetched in any order and reports each
  on the used ring. Its steps and those of the driver interleave as the relation \<open>vreach\<close> allows; the
  invariant \<open>vinv\<close> holds in every reachable state, and the driver's panics cannot happen there.
\<close>

section \<open>The driver and the device together\<close>

text \<open>A request in flight: the local variables of a process inside \<open>virtio_disk_rw\<close>.\<close>

record req =
  r_b :: nat
  r_wr :: bool
  r_blk :: nat
  r_i0 :: nat
  r_i1 :: nat
  r_i2 :: nat

definition ixs :: "req \<Rightarrow> nat list" where
  "ixs r = [r_i0 r, r_i1 r, r_i2 r]"

text \<open>A transfer, as the device carries it out: buffer, direction and block.\<close>

type_synonym xfer = "nat \<times> bool \<times> nat"

definition xfer_of :: "req \<Rightarrow> xfer" where
  "xfer_of r = (r_b r, r_wr r, r_blk r)"

text \<open>The device follows the chain from a head. A chain that is not a block request is no transfer
  (\<open>None\<close>).\<close>

definition dev_decode :: "vdisk \<Rightarrow> nat \<Rightarrow> (xfer \<times> nat) option" where
  "dev_decode v h =
     (let d0 = vdesc v h; d1 = vdesc v (d_next d0); d2 = vdesc v (d_next d1) in
      case (d_addr d0, d_addr d1, d_addr d2) of
        (AOp i, AData b, AStatus st) \<Rightarrow>
          if d_flags d0 = VRING_DESC_F_NEXT \<and> d_flags d1 AND VRING_DESC_F_NEXT \<noteq> 0 \<and>
             d_flags d2 = VRING_DESC_F_WRITE \<and> d_len d1 = of_nat BSIZE \<and>
             (d_flags d1 AND VRING_DESC_F_WRITE \<noteq> 0) = (rq_type (vops v i) = VIRTIO_BLK_T_IN)
          then Some ((b, rq_type (vops v i) = VIRTIO_BLK_T_OUT, unat (rq_sector (vops v i)) div 2), st)
          else None
      | _ \<Rightarrow> None)"

definition dev_xfer :: "'a bst_scheme \<Rightarrow> xfer \<Rightarrow> 'a bst_scheme" where
  "dev_xfer s x = (case x of (b, wr, blk) \<Rightarrow>
     if wr then s\<lparr>disk := (disk s)(blk := b_data (bufs s ! b)), wtrace := wtrace s @ [(blk, b_data (bufs s ! b))]\<rparr>
     else set_buf s b (\<lambda>y. y\<lparr>b_data := disk s blk\<rparr>))"

record vsys =
  sv :: vdisk
  sb :: bst
  reqs :: "req list"
  dev_last :: u16
  pend :: "nat list"
  xlog :: "xfer list"
  flog :: "xfer list"

definition avq :: "vsys \<Rightarrow> vring" where
  "avq S = (avail_ring (sv S), dev_last S, avail_idx (sv S))"

definition usq :: "vsys \<Rightarrow> vring" where
  "usq S = (used_ring (sv S), vused_idx (sv S), used_ridx (sv S))"

definition drop_nth :: "nat \<Rightarrow> 'a list \<Rightarrow> 'a list" where
  "drop_nth k xs = take k xs @ drop (Suc k) xs"

text \<open>
  The steps: a process starts a request for a buffer that is not in flight, or finds too few
  descriptors; the device fetches the next head, or carries out a request it has fetched, in any
  order; the interrupt handler runs; a process whose buffer has been released finishes; and
  anything else happens to the rest of the state.
\<close>

inductive vreach :: "vsys \<Rightarrow> bool" where
  vr_init: "vused_idx v = 0 \<Longrightarrow>
    vreach \<lparr>sv = disk_reset v, sb = s, reqs = [], dev_last = 0, pend = [], xlog = [], flog = []\<rparr>"
| vr_start: "vreach S \<Longrightarrow> b < length (bufs (sb S)) \<Longrightarrow> b \<notin> r_b ` set (reqs S) \<Longrightarrow> b_blockno (bufs (sb S) ! b) < 2 ^ 31 \<Longrightarrow>
    virtio_disk_rw_start (sb S) (sv S) me b wr = Ok (Some (i0, i1, i2), s, v) \<Longrightarrow>
    vreach (S\<lparr>sv := v, sb := s, reqs := reqs S @
      [\<lparr>r_b = b, r_wr = wr, r_blk = b_blockno (bufs (sb S) ! b), r_i0 = i0, r_i1 = i1, r_i2 = i2\<rparr>]\<rparr>)"
| vr_wait: "vreach S \<Longrightarrow> virtio_disk_rw_start (sb S) (sv S) me b wr = Ok (None, s, v) \<Longrightarrow> vreach (S\<lparr>sv := v, sb := s\<rparr>)"
| vr_fetch: "vreach S \<Longrightarrow> dev_last S \<noteq> avail_idx (sv S) \<Longrightarrow>
    vreach (S\<lparr>dev_last := dev_last S + 1, pend := ring_peek (avq S) # pend S\<rparr>)"
| vr_xfer: "vreach S \<Longrightarrow> h \<in> set (pend S) \<Longrightarrow> dev_decode (sv S) h = Some (x, st) \<Longrightarrow>
    vreach (S\<lparr>sv := (sv S)\<lparr>info_status := (info_status (sv S))(st := 0),
                used_ring := (used_ring (sv S))(unat (used_ridx (sv S)) mod NUM := h), used_ridx := used_ridx (sv S) + 1\<rparr>,
              sb := dev_xfer (sb S) x, pend := remove1 h (pend S), xlog := xlog S @ [x]\<rparr>)"
| vr_intr: "vreach S \<Longrightarrow> virtio_disk_intr (sb S) (sv S) = Ok (s, v) \<Longrightarrow> vreach (S\<lparr>sv := v, sb := s\<rparr>)"
| vr_finish: "vreach S \<Longrightarrow> k < length (reqs S) \<Longrightarrow>
    virtio_disk_rw_finish (sb S) (sv S) me (r_b (reqs S ! k)) (r_i0 (reqs S ! k)) = Ok (s, v) \<Longrightarrow>
    vreach (S\<lparr>sv := v, sb := s, reqs := drop_nth k (reqs S), flog := flog S @ [xfer_of (reqs S ! k)]\<rparr>)"
| vr_other: "vreach S \<Longrightarrow> length (bufs s) = length (bufs (sb S)) \<Longrightarrow> \<forall>r \<in> set (reqs S). bufs s ! r_b r = bufs (sb S) ! r_b r \<Longrightarrow>
    vreach (S\<lparr>sb := s\<rparr>)"

subsection \<open>The invariant\<close>

definition req_ok :: "vsys \<Rightarrow> req \<Rightarrow> bool" where
  "req_ok S r \<longleftrightarrow>
     vdesc (sv S) (r_i0 r) = \<lparr>d_addr = AOp (r_i0 r), d_len = 16, d_flags = VRING_DESC_F_NEXT, d_next = r_i1 r\<rparr> \<and>
     vdesc (sv S) (r_i1 r) = \<lparr>d_addr = AData (r_b r), d_len = of_nat BSIZE,
       d_flags = (if r_wr r then 0 else VRING_DESC_F_WRITE) OR VRING_DESC_F_NEXT, d_next = r_i2 r\<rparr> \<and>
     vdesc (sv S) (r_i2 r) = \<lparr>d_addr = AStatus (r_i0 r), d_len = 1, d_flags = VRING_DESC_F_WRITE, d_next = 0\<rparr> \<and>
     vops (sv S) (r_i0 r) = \<lparr>rq_type = (if r_wr r then VIRTIO_BLK_T_OUT else VIRTIO_BLK_T_IN), rq_reserved = 0,
       rq_sector = ucast (of_nat (r_blk r) * 2 :: u32)\<rparr> \<and>
     info_b (sv S) (r_i0 r) = Some (r_b r) \<and>
     r_blk r = b_blockno (bufs (sb S) ! r_b r) \<and> r_blk r < 2 ^ 31 \<and> r_b r < length (bufs (sb S))"

definition owned :: "vsys \<Rightarrow> req \<Rightarrow> bool" where
  "owned S r \<longleftrightarrow> b_disk (bufs (sb S) ! r_b r)"

abbreviation heads :: "req list \<Rightarrow> nat multiset" where
  "heads rs \<equiv> mset (map r_i0 rs)"

text \<open>The request has been carried out: the device has put it on the used ring, or the interrupt
  handler has taken it from there.\<close>

definition carried :: "vsys \<Rightarrow> req \<Rightarrow> bool" where
  "carried S r \<longleftrightarrow> r_i0 r \<in> set (ring_items (usq S)) \<or> \<not> owned S r"

definition vinv :: "vsys \<Rightarrow> bool" where
  "vinv S \<longleftrightarrow>
     distinct (concat (map ixs (reqs S))) \<and>
     (\<forall>i. i \<in> set (concat (map ixs (reqs S))) \<longleftrightarrow> i < NUM \<and> \<not> vfree (sv S) i) \<and>
     distinct (map r_b (reqs S)) \<and>
     (\<forall>r \<in> set (reqs S). req_ok S r) \<and>
     heads (reqs S) = mset (ring_items (avq S)) + mset (pend S) + mset (ring_items (usq S)) + heads (filter (\<lambda>r. \<not> owned S r) (reqs S)) \<and>
     (\<forall>i \<in> set (ring_items (usq S)). info_status (sv S) i = 0) \<and>
     mset (xlog S) = mset (flog S) + mset (map xfer_of (filter (carried S) (reqs S)))"

subsection \<open>Consequences of the invariant\<close>

lemma vinvD:
  assumes "vinv S"
  shows "distinct (concat (map ixs (reqs S)))" "\<And>i. i \<in> set (concat (map ixs (reqs S))) \<longleftrightarrow> i < NUM \<and> \<not> vfree (sv S) i"
    "distinct (map r_b (reqs S))" "\<And>r. r \<in> set (reqs S) \<Longrightarrow> req_ok S r"
    "heads (reqs S) = mset (ring_items (avq S)) + mset (pend S) + mset (ring_items (usq S)) + heads (filter (\<lambda>r. \<not> owned S r) (reqs S))"
    "\<And>i. i \<in> set (ring_items (usq S)) \<Longrightarrow> info_status (sv S) i = 0"
    "mset (xlog S) = mset (flog S) + mset (map xfer_of (filter (carried S) (reqs S)))" "distinct (reqs S)"
  using assms distinct_map [of r_b "reqs S"] unfolding vinv_def by blast+

lemma length_ixs: "length (concat (map ixs rs)) = 3 * length rs"
  by (induction rs) (simp_all add: ixs_def)

lemma distinct_heads: "distinct (concat (map ixs rs)) \<Longrightarrow> distinct (map r_i0 rs)"
  by (induction rs) (auto simp: ixs_def)

lemma in_ixs: "r \<in> set rs \<Longrightarrow> i \<in> set (ixs r) \<Longrightarrow> i \<in> set (concat (map ixs rs))"
  by auto

lemma same_ixs:
  assumes "distinct (concat (map ixs rs))" "r \<in> set rs" "r' \<in> set rs" "i \<in> set (ixs r)" "i \<in> set (ixs r')"
  shows "r = r'"
  using assms by (induction rs) auto

lemma ixs_distinct: "distinct (concat (map ixs rs)) \<Longrightarrow> r \<in> set rs \<Longrightarrow> distinct (ixs r)"
  by (induction rs) auto

lemma vinv_few:
  assumes "vinv S"
  shows "length (reqs S) \<le> 2"
proof -
  have "distinct (concat (map ixs (reqs S)))" "set (concat (map ixs (reqs S))) \<subseteq> {..<NUM}" using assms by (auto simp: vinv_def)
  then have "length (concat (map ixs (reqs S))) \<le> NUM" by (metis card_lessThan card_mono distinct_card finite_lessThan)
  then show ?thesis by (simp add: length_ixs NUM_def)
qed

lemma vinv_sizes:
  assumes "vinv S"
  shows "length (ring_items (avq S)) + length (pend S) + length (ring_items (usq S)) \<le> 2"
proof -
  have "size (heads (reqs S)) = size (mset (ring_items (avq S)) + mset (pend S) + mset (ring_items (usq S)) + heads (filter (\<lambda>r. \<not> owned S r) (reqs S)))"
    using assms by (simp add: vinv_def)
  then show ?thesis using vinv_few [OF assms] by (simp del: mset_map mset_filter)
qed

lemma vinv_head:
  assumes "vinv S" "h \<in> set (pend S) \<or> h \<in> set (ring_items (usq S)) \<or> h \<in> set (ring_items (avq S))"
  obtains r where "r \<in> set (reqs S)" "r_i0 r = h" "owned S r" "h \<in> set (pend S) \<Longrightarrow> h \<notin> set (ring_items (usq S))"
    "h \<in> set (pend S) \<Longrightarrow> count (mset (pend S)) h = 1" "\<And>r'. r' \<in> set (reqs S) \<Longrightarrow> r_i0 r' = h \<Longrightarrow> r' = r"
proof -
  let ?d = "heads (filter (\<lambda>r. \<not> owned S r) (reqs S))"
  have m: "heads (reqs S) = mset (ring_items (avq S)) + mset (pend S) + mset (ring_items (usq S)) + ?d"
    and d: "distinct (concat (map ixs (reqs S)))" using assms(1) by (auto simp: vinv_def)
  have c: "count (heads (reqs S)) h \<le> 1"
    using distinct_heads [OF d] by (metis count_mset_0_iff distinct_count_atmost_1 le_numeral_extra(4) zero_le_one)
  have mem: "h \<in># mset (ring_items (avq S)) + mset (pend S) + mset (ring_items (usq S))" using assms(2) by auto
  then have "0 < count (mset (ring_items (avq S)) + mset (pend S) + mset (ring_items (usq S))) h" by (simp only: count_greater_zero_iff)
  then have pos: "0 < count (mset (ring_items (avq S))) h + count (mset (pend S)) h + count (mset (ring_items (usq S))) h" by (simp only: count_union)
  then have c0: "count ?d h = 0" and c1: "count (mset (ring_items (avq S))) h + count (mset (pend S)) h + count (mset (ring_items (usq S))) h = 1"
    using c pos unfolding m count_union by linarith+
  have "h \<in># heads (reqs S)" using mem unfolding m by auto
  then obtain r where r: "r \<in> set (reqs S)" "r_i0 r = h" by auto
  have o: "owned S r" using c0 r by (auto simp: count_eq_zero_iff)
  have u: "r' = r" if "r' \<in> set (reqs S)" "r_i0 r' = h" for r'
    using same_ixs [OF d that(1) r(1), of h] that(2) r(2) by (simp add: ixs_def)
  show thesis
  proof (rule that [OF r o _ _ u])
    assume "h \<in> set (pend S)"
    then have "0 < count (mset (pend S)) h" by (simp add: count_mset_gt_0)
    then have "count (mset (ring_items (usq S))) h = 0" and one: "count (mset (pend S)) h = 1" using c1 by linarith+
    then show "h \<notin> set (ring_items (usq S))" by (simp only: count_mset_0_iff not_False_eq_True)
    show "count (mset (pend S)) h = 1" by (rule one)
  qed
qed

lemma req_decode:
  assumes "req_ok S r"
  shows "dev_decode (sv S) (r_i0 r) = Some (xfer_of r, r_i0 r)"
proof -
  have "unat (ucast (of_nat (r_blk r) * 2 :: u32) :: u64) = 2 * r_blk r"
    using assms by (simp add: req_ok_def unsigned_ucast_eq unat_word_ariths unsigned_of_nat take_bit_nat_eq_self)
  then show ?thesis
    using assms unfolding req_ok_def dev_decode_def xfer_of_def Let_def
    by (simp add: VRING_DESC_F_NEXT_def VRING_DESC_F_WRITE_def VIRTIO_BLK_T_OUT_def VIRTIO_BLK_T_IN_def)
qed

subsection \<open>Every step keeps the invariant\<close>

text \<open>The invariant depends on the buffers in flight and on the driver's structures only.\<close>

lemma vinv_frame:
  assumes "vinv S" "reqs T = reqs S" "sv T = sv S" "dev_last T = dev_last S" "pend T = pend S" "xlog T = xlog S" "flog T = flog S"
    "length (bufs (sb T)) = length (bufs (sb S))"
    "\<And>r. r \<in> set (reqs S) \<Longrightarrow> b_disk (bufs (sb T) ! r_b r) = b_disk (bufs (sb S) ! r_b r) \<and> b_blockno (bufs (sb T) ! r_b r) = b_blockno (bufs (sb S) ! r_b r)"
  shows "vinv T"
proof -
  have q: "avq T = avq S" "usq T = usq S" using assms by (simp_all add: avq_def usq_def)
  have o: "owned T r = owned S r" "carried T r = carried S r" if "r \<in> set (reqs S)" for r
    using assms(9) [OF that] by (auto simp: owned_def carried_def q)
  have f: "filter (\<lambda>r. \<not> owned T r) (reqs S) = filter (\<lambda>r. \<not> owned S r) (reqs S)" "filter (carried T) (reqs S) = filter (carried S) (reqs S)"
    using o by (auto intro: filter_cong)
  have "req_ok T r = req_ok S r" if "r \<in> set (reqs S)" for r
    using assms(9) [OF that] assms(3,8) by (simp add: req_ok_def)
  then show ?thesis using assms(1) unfolding vinv_def assms(2-7) q f by simp
qed

lemma vinv_fetch:
  assumes "vinv S" "dev_last S \<noteq> avail_idx (sv S)"
  shows "vinv (S\<lparr>dev_last := dev_last S + 1, pend := ring_peek (avq S) # pend S\<rparr>)" (is "vinv ?T")
proof -
  have "ring_items (avq S) = ring_peek (avq S) # ring_items (avq ?T)"
    using ring_items_drop [OF assms(2), of "avail_ring (sv S)"] by (simp add: avq_def ring_drop_def)
  moreover have "usq ?T = usq S" "owned ?T = owned S" "carried ?T = carried S" "req_ok ?T = req_ok S"
    by (auto simp: usq_def owned_def carried_def req_ok_def fun_eq_iff)
  ultimately show ?thesis using assms(1) unfolding vinv_def by simp
qed

lemma nth_update_same: "(\<And>y. f (g y) = f y) \<Longrightarrow> f (xs[b := g (xs ! b)] ! i) = f (xs ! i)"
  by (cases "i = b"; cases "b < length xs") (simp_all add: list_update_beyond)

lemma set_buf_same:
  "length (bufs (set_buf s b g)) = length (bufs s)" "(\<And>y. f (g y) = f y) \<Longrightarrow> f (bufs (set_buf s b g) ! i) = f (bufs s ! i)"
  by (simp_all add: set_buf_def nth_update_same)

lemma dev_xfer_bufs:
  "length (bufs (dev_xfer s x)) = length (bufs s)" "b_disk (bufs (dev_xfer s x) ! i) = b_disk (bufs s ! i)"
  "b_blockno (bufs (dev_xfer s x) ! i) = b_blockno (bufs s ! i)"
  by (simp_all add: dev_xfer_def set_buf_same split: prod.split)

lemma mset_filter_add:
  "distinct xs \<Longrightarrow> r \<in> set xs \<Longrightarrow> \<not> P r \<Longrightarrow> (\<And>y. y \<in> set xs \<Longrightarrow> Q y \<longleftrightarrow> P y \<or> y = r) \<Longrightarrow>
     mset (filter Q xs) = mset (filter P xs) + {#r#}"
proof (induction xs)
  case (Cons y xs)
  have Q: "Q z \<longleftrightarrow> P z \<or> z = r" if "z \<in> set (y # xs)" for z using Cons.prems(4) that by blast
  show ?case
  proof (cases "y = r")
    case True
    then have "filter Q xs = filter P xs" using Q Cons.prems(1) by (intro filter_cong) auto
    then show ?thesis using True Q [of y] Cons.prems(3) by simp
  next
    case False
    then have "mset (filter Q xs) = mset (filter P xs) + {#r#}" using Cons by simp
    then show ?thesis using Q [of y] False by simp
  qed
qed simp

lemma vinv_xfer:
  assumes "vinv S" "h \<in> set (pend S)" "dev_decode (sv S) h = Some (x, st)"
  shows "vinv (S\<lparr>sv := (sv S)\<lparr>info_status := (info_status (sv S))(st := 0),
                used_ring := (used_ring (sv S))(unat (used_ridx (sv S)) mod NUM := h), used_ridx := used_ridx (sv S) + 1\<rparr>,
              sb := dev_xfer (sb S) x, pend := remove1 h (pend S), xlog := xlog S @ [x]\<rparr>)" (is "vinv ?T")
proof -
  obtain r where r: "r \<in> set (reqs S)" "r_i0 r = h" "owned S r" "h \<notin> set (ring_items (usq S))"
    "\<And>r'. r' \<in> set (reqs S) \<Longrightarrow> r_i0 r' = h \<Longrightarrow> r' = r"
    using vinv_head [OF assms(1), of h] assms(2) by metis
  have x: "x = xfer_of r" "st = h"
    using req_decode [OF vinvD(4) [OF assms(1) r(1)]] assms(3) r(2) by auto
  have "unat (used_ridx (sv S) - vused_idx (sv S)) < NUM"
    using vinv_sizes [OF assms(1)] by (simp add: usq_def ring_items_def NUM_def)
  from ring_items_put(1) [OF this, of h "used_ring (sv S)"]
  have u: "ring_items (usq ?T) = ring_items (usq S) @ [h]" by (simp add: usq_def ring_put_def)
  have a: "avq ?T = avq S" by (simp add: avq_def)
  have o: "owned ?T = owned S" by (simp add: owned_def dev_xfer_bufs fun_eq_iff)
  have k: "req_ok ?T = req_ok S" by (simp add: req_ok_def dev_xfer_bufs fun_eq_iff)
  have h: "r_i0 r' = h \<longleftrightarrow> r' = r" if "r' \<in> set (reqs S)" for r' using r(2,5) that by blast
  have c: "carried ?T r' \<longleftrightarrow> carried S r' \<or> r' = r" if "r' \<in> set (reqs S)" for r'
    using h [OF that] unfolding carried_def o u by auto
  have nc: "\<not> carried S r" using r(2-4) by (simp add: carried_def)
  from mset_filter_add [OF vinvD(8) [OF assms(1)] r(1), of "carried S" "carried ?T", OF nc c]
  have m: "mset (map xfer_of (filter (carried ?T) (reqs S))) = mset (map xfer_of (filter (carried S) (reqs S))) + {#x#}"
    by (simp only: mset_map image_mset_union image_mset_single x)
  have p: "mset (pend S) = mset (remove1 h (pend S)) + {#h#}" using assms(2) by simp
  have s: "\<forall>i \<in> set (ring_items (usq ?T)). info_status (sv ?T) i = 0" using assms(1) unfolding u by (auto simp: vinv_def x(2))
  have f: "sv ?T = (sv S)\<lparr>info_status := (info_status (sv S))(st := 0),
                used_ring := (used_ring (sv S))(unat (used_ridx (sv S)) mod NUM := h), used_ridx := used_ridx (sv S) + 1\<rparr>" by simp
  show ?thesis
    unfolding vinv_def
  proof (intro conjI)
    show "heads (reqs ?T) = mset (ring_items (avq ?T)) + mset (pend ?T) + mset (ring_items (usq ?T)) + heads (filter (\<lambda>r. \<not> owned ?T r) (reqs ?T))"
      using vinvD(5) [OF assms(1), unfolded p] unfolding o a u by (simp add: ac_simps del: mset_remove1 mset_map mset_filter)
    show "mset (xlog ?T) = mset (flog ?T) + mset (map xfer_of (filter (carried ?T) (reqs ?T)))"
      using vinvD(7) [OF assms(1)] m by simp
  qed (use vinvD(1-4) [OF assms(1)] s in \<open>simp_all add: k\<close>)
qed

lemma wakeup_bufs [simp]: "bufs (wakeup s me ch) = bufs s" "disk (wakeup s me ch) = disk s"
  by (simp_all add: wakeup_def)

text \<open>One round of the interrupt handler.\<close>

lemma vinv_intr_round:
  assumes "vinv S" "vused_idx (sv S) \<noteq> used_ridx (sv S)"
  defines "h \<equiv> used_ring (sv S) (unat (vused_idx (sv S)) mod NUM)"
  shows "\<exists>b. info_status (sv S) h = 0 \<and> info_b (sv S) h = Some b \<and>
    vinv (S\<lparr>sv := (sv S)\<lparr>vused_idx := vused_idx (sv S) + 1\<rparr>,
            sb := wakeup (set_buf (sb S) b (\<lambda>x. x\<lparr>b_disk := False\<rparr>)) None (ChDisk b)\<rparr>)"
proof -
  have u0: "ring_items (usq S) = h # ring_items (used_ring (sv S), vused_idx (sv S) + 1, used_ridx (sv S))"
    using ring_items_drop [OF assms(2), of "used_ring (sv S)"] by (simp add: usq_def ring_peek_def ring_drop_def h_def)
  then have hu: "h \<in> set (ring_items (usq S))" by simp
  obtain r where r: "r \<in> set (reqs S)" "r_i0 r = h" "owned S r" "\<And>r'. r' \<in> set (reqs S) \<Longrightarrow> r_i0 r' = h \<Longrightarrow> r' = r"
    using vinv_head [OF assms(1), of h] hu by metis
  note ok = vinvD(4) [OF assms(1) r(1)]
  let ?T = "S\<lparr>sv := (sv S)\<lparr>vused_idx := vused_idx (sv S) + 1\<rparr>,
            sb := wakeup (set_buf (sb S) (r_b r) (\<lambda>x. x\<lparr>b_disk := False\<rparr>)) None (ChDisk (r_b r))\<rparr>"
  have u: "ring_items (usq S) = h # ring_items (usq ?T)" using u0 by (simp add: usq_def)
  have a: "avq ?T = avq S" by (simp add: avq_def)
  have same: "r' = r \<longleftrightarrow> r_b r' = r_b r" if "r' \<in> set (reqs S)" for r'
    using vinvD(3) [OF assms(1)] r(1) that by (auto simp: distinct_map inj_on_def)
  have o: "owned ?T r' \<longleftrightarrow> owned S r' \<and> r' \<noteq> r" if "r' \<in> set (reqs S)" for r'
    using same [OF that] ok by (auto simp: owned_def set_buf_def req_ok_def nth_list_update)
  have k: "req_ok ?T r' = req_ok S r'" for r' by (simp add: req_ok_def set_buf_same)
  have hr: "r_i0 r' = h \<longleftrightarrow> r' = r" if "r' \<in> set (reqs S)" for r' using r(2,4) that by blast
  have c: "carried ?T r' = carried S r'" if "r' \<in> set (reqs S)" for r'
    using o [OF that] hr [OF that] unfolding carried_def u by auto
  have "mset (filter (\<lambda>r. \<not> owned ?T r) (reqs S)) = mset (filter (\<lambda>r. \<not> owned S r) (reqs S)) + {#r#}"
    by (rule mset_filter_add [OF vinvD(8) [OF assms(1)] r(1)]) (use r(3) o in auto)
  then have m: "heads (filter (\<lambda>r. \<not> owned ?T r) (reqs S)) = heads (filter (\<lambda>r. \<not> owned S r) (reqs S)) + {#h#}"
    by (simp only: mset_map image_mset_union image_mset_single r(2))
  have f: "filter (carried ?T) (reqs S) = filter (carried S) (reqs S)" using c by (intro filter_cong) auto
  have "vinv ?T"
    unfolding vinv_def
  proof (intro conjI)
    show "heads (reqs ?T) = mset (ring_items (avq ?T)) + mset (pend ?T) + mset (ring_items (usq ?T)) + heads (filter (\<lambda>r. \<not> owned ?T r) (reqs ?T))"
      using vinvD(5) [OF assms(1)] m unfolding a u by simp
    show "mset (xlog ?T) = mset (flog ?T) + mset (map xfer_of (filter (carried ?T) (reqs ?T)))"
      using vinvD(7) [OF assms(1)] f by simp
    show "\<forall>i \<in> set (ring_items (usq ?T)). info_status (sv ?T) i = 0" using vinvD(6) [OF assms(1)] unfolding u by simp
  qed (use vinvD(1-4) [OF assms(1)] k in simp_all)
  then show ?thesis using ok hu vinvD(6) [OF assms(1)] r(2) by (intro exI [of _ "r_b r"]) (auto simp: req_ok_def)
qed

lemma vinv_intr:
  assumes "vinv S"
  shows "\<exists>s v. virtio_disk_intr (sb S) (sv S) = Ok (s, v) \<and> vinv (S\<lparr>sv := v, sb := s\<rparr>) \<and> vused_idx v = used_ridx v"
  using assms
proof (induction "unat (used_ridx (sv S) - vused_idx (sv S))" arbitrary: S)
  case 0
  then have "vused_idx (sv S) = used_ridx (sv S)" by (simp add: unat_eq_zero)
  then show ?case using 0 by (subst virtio_disk_intr.simps) simp
next
  case (Suc n)
  then have ne: "vused_idx (sv S) \<noteq> used_ridx (sv S)" by auto
  from vinv_intr_round [OF Suc.prems ne] obtain b where
    b: "info_status (sv S) (used_ring (sv S) (unat (vused_idx (sv S)) mod NUM)) = 0"
      "info_b (sv S) (used_ring (sv S) (unat (vused_idx (sv S)) mod NUM)) = Some b" and
    T: "vinv (S\<lparr>sv := (sv S)\<lparr>vused_idx := vused_idx (sv S) + 1\<rparr>,
            sb := wakeup (set_buf (sb S) b (\<lambda>x. x\<lparr>b_disk := False\<rparr>)) None (ChDisk b)\<rparr>)" (is "vinv ?T") by blast
  have "n = unat (used_ridx (sv ?T) - vused_idx (sv ?T))" using ring_closer [OF ne] Suc.hyps(2) by simp
  from Suc.hyps(1) [OF this T] show ?case using ne b by (subst virtio_disk_intr.simps) simp
qed

lemma free_chain_req:
  assumes "req_ok S r" "distinct (ixs r)" "\<forall>i \<in> set (ixs r). i < NUM \<and> \<not> vfree (sv S) i"
  shows "\<exists>s. free_chain (sb S) ((sv S)\<lparr>info_b := f\<rparr>) me (r_i0 r) =
      Ok (s, (sv S)\<lparr>info_b := f, vdesc := (vdesc (sv S))(r_i0 r := zero_desc, r_i1 r := zero_desc, r_i2 r := zero_desc),
                   vfree := (vfree (sv S))(r_i0 r := True, r_i1 r := True, r_i2 r := True)\<rparr>) \<and> bufs s = bufs (sb S)"
proof -
  have fl: "VRING_DESC_F_NEXT AND VRING_DESC_F_NEXT \<noteq> 0" "(x OR VRING_DESC_F_NEXT) AND VRING_DESC_F_NEXT \<noteq> 0"
    "VRING_DESC_F_WRITE AND VRING_DESC_F_NEXT = 0" for x
    by (simp_all add: VRING_DESC_F_NEXT_def VRING_DESC_F_WRITE_def bit.conj_disj_distrib2)
  note d = assms(1) [unfolded req_ok_def]
  have i: "r_i0 r < NUM" "r_i1 r < NUM" "r_i2 r < NUM" "\<not> vfree (sv S) (r_i0 r)" "\<not> vfree (sv S) (r_i1 r)" "\<not> vfree (sv S) (r_i2 r)"
    "r_i0 r \<noteq> r_i1 r" "r_i0 r \<noteq> r_i2 r" "r_i1 r \<noteq> r_i2 r" "r_i1 r \<noteq> r_i0 r" "r_i2 r \<noteq> r_i0 r" "r_i2 r \<noteq> r_i1 r"
    using assms(2,3) by (auto simp: ixs_def)
  show ?thesis
    using d i fl
    by (subst free_chain.simps, simp add: free_desc_def, subst free_chain.simps, simp add: free_desc_def,
        subst free_chain.simps, simp add: free_desc_def)
qed

lemma vinv_finish:
  assumes "vinv S" "k < length (reqs S)"
    "virtio_disk_rw_finish (sb S) (sv S) me (r_b (reqs S ! k)) (r_i0 (reqs S ! k)) = Ok (s, v)"
  shows "vinv (S\<lparr>sv := v, sb := s, reqs := drop_nth k (reqs S), flog := flog S @ [xfer_of (reqs S ! k)]\<rparr>)" (is "vinv ?T")
proof -
  let ?r = "reqs S ! k" and ?xs = "take k (reqs S)" and ?ys = "drop (Suc k) (reqs S)"
  have R: "reqs S = ?xs @ ?r # ?ys" using assms(2) by (rule id_take_nth_drop)
  have T: "reqs ?T = ?xs @ ?ys" by (simp add: drop_nth_def)
  have r: "?r \<in> set (reqs S)" using assms(2) by simp
  note ok = vinvD(4) [OF assms(1)] and dist = vinvD(1) [OF assms(1)]
  have no: "\<not> owned S ?r" using assms(3) by (auto simp: virtio_disk_rw_finish_def owned_def split: if_splits)
  have mem: "\<forall>i \<in> set (ixs ?r). i < NUM \<and> \<not> vfree (sv S) i" using vinvD(2) [OF assms(1)] in_ixs [OF r] by blast
  from free_chain_req [OF ok [OF r] ixs_distinct [OF dist r] mem, of "(info_b (sv S))(r_i0 ?r := None)" me]
  have v: "v = (sv S)\<lparr>info_b := (info_b (sv S))(r_i0 ?r := None),
       vdesc := (vdesc (sv S))(r_i0 ?r := zero_desc, r_i1 ?r := zero_desc, r_i2 ?r := zero_desc),
       vfree := (vfree (sv S))(r_i0 ?r := True, r_i1 ?r := True, r_i2 ?r := True)\<rparr>" and s: "bufs s = bufs (sb S)"
    using assms(3) no by (auto simp: virtio_disk_rw_finish_def owned_def)
  have q: "avq ?T = avq S" "usq ?T = usq S" "owned ?T = owned S" "carried ?T = carried S"
    by (simp_all add: avq_def usq_def owned_def carried_def v s fun_eq_iff)
  have D: "distinct (concat (map ixs (?xs @ ?r # ?ys)))" "distinct (map r_b (?xs @ ?r # ?ys))"
    using dist vinvD(3) [OF assms(1)] R by metis+
  have apart: "i \<notin> set (ixs ?r)" if "r' \<in> set (?xs @ ?ys)" "i \<in> set (ixs r')" for r' i
    using D(1) that by auto
  have k: "req_ok ?T r'" if r': "r' \<in> set (?xs @ ?ys)" for r'
  proof -
    have "req_ok S r'" using ok r' by (metis R Un_iff list.set_intros(2) set_append)
    moreover have "r_i0 r' \<notin> set (ixs ?r)" "r_i1 r' \<notin> set (ixs ?r)" "r_i2 r' \<notin> set (ixs ?r)"
      using apart [OF r'] by (simp_all add: ixs_def [of r'])
    ultimately show ?thesis by (simp add: req_ok_def v s ixs_def)
  qed
  have fr: "i \<in> set (concat (map ixs (?xs @ ?ys))) \<longleftrightarrow> i < NUM \<and> \<not> vfree v i" for i
  proof -
    have "i \<in> set (concat (map ixs (?xs @ ?r # ?ys))) \<longleftrightarrow> i < NUM \<and> \<not> vfree (sv S) i" using vinvD(2) [OF assms(1)] R by metis
    moreover have "vfree v i \<longleftrightarrow> vfree (sv S) i \<or> i \<in> set (ixs ?r)" by (auto simp: v ixs_def)
    ultimately show ?thesis using D(1) by auto
  qed
  have nc: "carried S ?r" using no by (simp add: carried_def)
  have m: "heads (?xs @ ?r # ?ys) = mset (ring_items (avq S)) + mset (pend S) + mset (ring_items (usq S)) + heads (filter (\<lambda>r. \<not> owned S r) (?xs @ ?r # ?ys))"
    "mset (xlog S) = mset (flog S) + mset (map xfer_of (filter (carried S) (?xs @ ?r # ?ys)))"
    using vinvD(5,7) [OF assms(1)] R by metis+
  show ?thesis
    unfolding vinv_def T q
  proof (intro conjI)
    show "heads (?xs @ ?ys) = mset (ring_items (avq S)) + mset (pend ?T) + mset (ring_items (usq S)) + heads (filter (\<lambda>r. \<not> owned S r) (?xs @ ?ys))"
      using m(1) no by simp
    show "mset (xlog ?T) = mset (flog ?T) + mset (map xfer_of (filter (carried S) (?xs @ ?ys)))" using m(2) nc by simp
    show "\<forall>i \<in> set (ring_items (usq S)). info_status (sv ?T) i = 0" using vinvD(6) [OF assms(1)] by (simp add: v)
    show "\<forall>i. i \<in> set (concat (map ixs (?xs @ ?ys))) \<longleftrightarrow> i < NUM \<and> \<not> vfree (sv ?T) i" using fr by simp
  qed (use D k in auto)
qed

subsection \<open>Starting a request\<close>

lemma free_descs:
  "distinct is \<Longrightarrow> \<forall>i \<in> set is. i < NUM \<and> \<not> vfree v i \<Longrightarrow>
     \<exists>s'. fold_res (\<lambda>j (s, v). free_desc s v me j) is (s, v) =
       Ok (s', v\<lparr>vdesc := (\<lambda>i. if i \<in> set is then zero_desc else vdesc v i), vfree := (\<lambda>i. vfree v i \<or> i \<in> set is)\<rparr>) \<and>
       bufs s' = bufs s"
proof (induction "is" arbitrary: s v)
  case (Cons i "is")
  let ?v = "v\<lparr>vdesc := (vdesc v)(i := zero_desc), vfree := (vfree v)(i := True)\<rparr>"
  have "free_desc s v me i = Ok (wakeup s (Some me) ChDiskFree, ?v)" using Cons.prems by (simp add: free_desc_def)
  moreover have p: "distinct is" "\<forall>j \<in> set is. j < NUM \<and> \<not> vfree ?v j" using Cons.prems by auto
  moreover obtain s' where "fold_res (\<lambda>j (s, v). free_desc s v me j) is (wakeup s (Some me) ChDiskFree, ?v) =
      Ok (s', ?v\<lparr>vdesc := (\<lambda>i. if i \<in> set is then zero_desc else vdesc ?v i), vfree := (\<lambda>i. vfree ?v i \<or> i \<in> set is)\<rparr>)"
      "bufs s' = bufs s"
    using Cons.IH [OF p] by (metis wakeup_bufs(1))
  ultimately show ?case by (auto simp: fun_upd_def fun_eq_iff intro!: vdisk.equality)
qed simp

lemma alloc_desc_cases:
  obtains "alloc_desc v = None" "\<forall>i<NUM. \<not> vfree v i"
  | i where "alloc_desc v = Some (i, v\<lparr>vfree := (vfree v)(i := False)\<rparr>)" "i < NUM" "vfree v i"
proof (cases "find (vfree v) [0..<NUM]")
  case None
  then show thesis using that(1) by (auto simp: alloc_desc_def find_None_iff)
next
  case (Some i)
  then have "i \<in> set [0..<NUM] \<and> vfree v i" by (metis find_Some_iff nth_mem)
  then show thesis using that(2) [of i] Some by (simp add: alloc_desc_def)
qed

text \<open>\<open>alloc3_desc\<close> takes three free descriptors, or none.\<close>

lemma alloc3_loop_ok:
  assumes "distinct is" "\<forall>i \<in> set is. i < NUM \<and> \<not> vfree v i"
  shows "(\<exists>js. alloc3_loop s v me is n = Ok (Some (is @ js), s, v\<lparr>vfree := (\<lambda>i. vfree v i \<and> i \<notin> set js)\<rparr>) \<and>
      length js = n \<and> distinct js \<and> (\<forall>i \<in> set js. i < NUM \<and> vfree v i)) \<or>
    (\<exists>s' d. alloc3_loop s v me is n = Ok (None, s', v\<lparr>vdesc := d, vfree := (\<lambda>i. vfree v i \<or> i \<in> set is)\<rparr>) \<and>
      bufs s' = bufs s \<and> (\<forall>i. i \<notin> set is \<and> \<not> vfree v i \<longrightarrow> d i = vdesc v i))"
  using assms
proof (induction n arbitrary: "is" v)
  case 0
  then show ?case by (auto intro!: exI [of _ "[]"])
next
  case (Suc n)
  show ?case
  proof (cases rule: alloc_desc_cases [of v])
    case 1
    obtain s' where "fold_res (\<lambda>j (s, v). free_desc s v me j) is (s, v) =
       Ok (s', v\<lparr>vdesc := (\<lambda>i. if i \<in> set is then zero_desc else vdesc v i), vfree := (\<lambda>i. vfree v i \<or> i \<in> set is)\<rparr>)"
       "bufs s' = bufs s" using free_descs [OF Suc.prems] by blast
    then show ?thesis using 1 by auto
  next
    case (2 i)
    let ?v = "v\<lparr>vfree := (vfree v)(i := False)\<rparr>"
    have e: "alloc3_loop s v me is (Suc n) = alloc3_loop s ?v me (is @ [i]) n" using 2 by simp
    have p: "distinct (is @ [i])" "\<forall>j \<in> set (is @ [i]). j < NUM \<and> \<not> vfree ?v j" using Suc.prems 2 by auto
    from Suc.IH [OF p] show ?thesis
    proof
      assume "\<exists>js. alloc3_loop s ?v me (is @ [i]) n = Ok (Some ((is @ [i]) @ js), s, ?v\<lparr>vfree := (\<lambda>k. vfree ?v k \<and> k \<notin> set js)\<rparr>) \<and>
        length js = n \<and> distinct js \<and> (\<forall>k \<in> set js. k < NUM \<and> vfree ?v k)"
      then obtain js where js: "alloc3_loop s ?v me (is @ [i]) n = Ok (Some ((is @ [i]) @ js), s, ?v\<lparr>vfree := (\<lambda>k. vfree ?v k \<and> k \<notin> set js)\<rparr>)"
        "length js = n" "distinct js" "\<forall>k \<in> set js. k < NUM \<and> vfree ?v k" by blast
      have "?v\<lparr>vfree := (\<lambda>k. vfree ?v k \<and> k \<notin> set js)\<rparr> = v\<lparr>vfree := (\<lambda>k. vfree v k \<and> k \<notin> set (i # js))\<rparr>"
        by (auto simp: fun_eq_iff intro!: vdisk.equality)
      then show ?thesis using js 2 unfolding e by (intro disjI1 exI [of _ "i # js"]) (auto split: if_splits)
    next
      assume "\<exists>s' d. alloc3_loop s ?v me (is @ [i]) n = Ok (None, s', ?v\<lparr>vdesc := d, vfree := (\<lambda>k. vfree ?v k \<or> k \<in> set (is @ [i]))\<rparr>) \<and>
        bufs s' = bufs s \<and> (\<forall>k. k \<notin> set (is @ [i]) \<and> \<not> vfree ?v k \<longrightarrow> d k = vdesc ?v k)"
      then obtain s' d where d: "alloc3_loop s ?v me (is @ [i]) n = Ok (None, s', ?v\<lparr>vdesc := d, vfree := (\<lambda>k. vfree ?v k \<or> k \<in> set (is @ [i]))\<rparr>)"
        "bufs s' = bufs s" "\<forall>k. k \<notin> set (is @ [i]) \<and> \<not> vfree ?v k \<longrightarrow> d k = vdesc ?v k" by blast
      have "?v\<lparr>vdesc := d, vfree := (\<lambda>k. vfree ?v k \<or> k \<in> set (is @ [i]))\<rparr> = v\<lparr>vdesc := d, vfree := (\<lambda>k. vfree v k \<or> k \<in> set is)\<rparr>"
        using 2 by (auto simp: fun_eq_iff intro!: vdisk.equality)
      moreover have "d k = vdesc v k" if "k \<notin> set is" "\<not> vfree v k" for k
      proof -
        have "k \<noteq> i" using that 2 by auto
        then show ?thesis using d(3) that by simp
      qed
      ultimately show ?thesis using d(1,2) unfolding e by (intro disjI2 exI [of _ s'] exI [of _ d]) simp
    qed
  qed
qed

lemma rw_start_cases:
  obtains (wait) s' d where "virtio_disk_rw_start s v me b wr = Ok (None, s', v\<lparr>vdesc := d\<rparr>)" "bufs s' = bufs s"
    "\<forall>i. \<not> vfree v i \<longrightarrow> d i = vdesc v i"
  | (started) i0 i1 i2 where "distinct [i0, i1, i2]" "\<forall>i \<in> {i0, i1, i2}. i < NUM \<and> vfree v i"
    "virtio_disk_rw_start s v me b wr = Ok (Some (i0, i1, i2), set_buf s b (\<lambda>x. x\<lparr>b_disk := True\<rparr>),
       (format_req (v\<lparr>vfree := (\<lambda>i. vfree v i \<and> i \<notin> {i0, i1, i2})\<rparr>) b (b_blockno (bufs s ! b)) wr i0 i1 i2)
         \<lparr>info_b := (info_b v)(i0 := Some b), avail_ring := (avail_ring v)(unat (avail_idx v) mod NUM := i0), avail_idx := avail_idx v + 1\<rparr>)"
proof -
  have "distinct ([] :: nat list)" "\<forall>i \<in> set []. i < NUM \<and> \<not> vfree v i" by simp_all
  from alloc3_loop_ok [OF this, of s me 3] show thesis
  proof
    assume "\<exists>js. alloc3_loop s v me [] 3 = Ok (Some ([] @ js), s, v\<lparr>vfree := (\<lambda>i. vfree v i \<and> i \<notin> set js)\<rparr>) \<and>
      length js = 3 \<and> distinct js \<and> (\<forall>i \<in> set js. i < NUM \<and> vfree v i)"
    then obtain js where a: "alloc3_desc s v me = Ok (Some js, s, v\<lparr>vfree := (\<lambda>i. vfree v i \<and> i \<notin> set js)\<rparr>)"
      and js: "length js = 3" "distinct js" "\<forall>i \<in> set js. i < NUM \<and> vfree v i" by (auto simp: alloc3_desc_def)
    obtain i0 i1 i2 where i: "js = [i0, i1, i2]" using js(1) by (auto simp: numeral_3_eq_3 length_Suc_conv)
    show thesis using js a by (intro started [of i0 i1 i2]) (simp_all add: i virtio_disk_rw_start_def Let_def format_req_def)
  next
    assume "\<exists>s' d. alloc3_loop s v me [] 3 = Ok (None, s', v\<lparr>vdesc := d, vfree := (\<lambda>i. vfree v i \<or> i \<in> set [])\<rparr>) \<and>
      bufs s' = bufs s \<and> (\<forall>i. i \<notin> set [] \<and> \<not> vfree v i \<longrightarrow> d i = vdesc v i)"
    then obtain s' d where "alloc3_desc s v me = Ok (None, s', v\<lparr>vdesc := d\<rparr>)" "bufs s' = bufs s" "\<forall>i. \<not> vfree v i \<longrightarrow> d i = vdesc v i"
      by (auto simp: alloc3_desc_def)
    then show thesis by (intro wait [of s' d]) (simp_all add: virtio_disk_rw_start_def)
  qed
qed

lemma vinv_wait:
  assumes "vinv S" "virtio_disk_rw_start (sb S) (sv S) me b wr = Ok (None, s, v)"
  shows "vinv (S\<lparr>sv := v, sb := s\<rparr>)" (is "vinv ?T")
proof (cases rule: rw_start_cases [of "sb S" "sv S" me b wr])
  case (wait s' d)
  then have v: "v = (sv S)\<lparr>vdesc := d\<rparr>" "bufs s = bufs (sb S)" using assms(2) by auto
  have q: "avq ?T = avq S" "usq ?T = usq S" "owned ?T = owned S" "carried ?T = carried S"
    by (simp_all add: avq_def usq_def owned_def carried_def v fun_eq_iff)
  have "req_ok ?T r" if r: "r \<in> set (reqs S)" for r
  proof -
    have "d i = vdesc (sv S) i" if "i \<in> set (ixs r)" for i
      using vinvD(2) [OF assms(1)] in_ixs [OF r that] wait(3) by blast
    then show ?thesis using vinvD(4) [OF assms(1) r] by (simp add: req_ok_def v ixs_def)
  qed
  then show ?thesis using vinvD [OF assms(1)] unfolding vinv_def q by (simp add: v)
next
  case started
  then show ?thesis using assms(2) by simp
qed

lemma vinv_start:
  assumes "vinv S" "b < length (bufs (sb S))" "b \<notin> r_b ` set (reqs S)" "b_blockno (bufs (sb S) ! b) < 2 ^ 31"
    "virtio_disk_rw_start (sb S) (sv S) me b wr = Ok (Some (i0, i1, i2), s, v)"
  shows "vinv (S\<lparr>sv := v, sb := s, reqs := reqs S @
      [\<lparr>r_b = b, r_wr = wr, r_blk = b_blockno (bufs (sb S) ! b), r_i0 = i0, r_i1 = i1, r_i2 = i2\<rparr>]\<rparr>)" (is "vinv ?T")
proof (cases rule: rw_start_cases [of "sb S" "sv S" me b wr])
  case (started j0 j1 j2)
  let ?r = "\<lparr>r_b = b, r_wr = wr, r_blk = b_blockno (bufs (sb S) ! b), r_i0 = i0, r_i1 = i1, r_i2 = i2\<rparr>"
  let ?k = "b_blockno (bufs (sb S) ! b)"
  from started assms(5) have d: "distinct [i0, i1, i2]" and fr: "\<And>i. i \<in> {i0, i1, i2} \<Longrightarrow> i < NUM \<and> vfree (sv S) i"
    and s: "s = set_buf (sb S) b (\<lambda>x. x\<lparr>b_disk := True\<rparr>)"
    and v: "v = (format_req ((sv S)\<lparr>vfree := (\<lambda>i. vfree (sv S) i \<and> i \<notin> {i0, i1, i2})\<rparr>) b ?k wr i0 i1 i2)
         \<lparr>info_b := (info_b (sv S))(i0 := Some b), avail_ring := (avail_ring (sv S))(unat (avail_idx (sv S)) mod NUM := i0),
          avail_idx := avail_idx (sv S) + 1\<rparr>"
    by auto
  have fresh: "i \<notin> {i0, i1, i2}" if "i \<in> set (concat (map ixs (reqs S)))" for i using vinvD(2) [OF assms(1)] that fr by blast
  have "unat (avail_idx (sv S) - dev_last S) < NUM" using vinv_sizes [OF assms(1)] by (simp add: avq_def ring_items_def NUM_def)
  from ring_items_put(1) [OF this, of i0 "avail_ring (sv S)"]
  have a: "ring_items (avq ?T) = ring_items (avq S) @ [i0]" by (simp add: avq_def ring_put_def v)
  have u: "usq ?T = usq S" by (simp add: usq_def v format_req_def)
  have nb: "r_b r \<noteq> b" if "r \<in> set (reqs S)" for r using assms(3) that by auto
  have o1: "owned ?T r = owned S r" if "r \<in> set (reqs S)" for r
    using nb [OF that] by (simp add: owned_def s set_buf_def)
  then have o2: "carried ?T r = carried S r" if "r \<in> set (reqs S)" for r
    using that unfolding carried_def u by simp
  have on: "owned ?T ?r" using assms(2) by (simp add: owned_def s set_buf_def)
  have heads_used: "i \<in> set (concat (map ixs (reqs S)))" if hu: "i \<in> set (ring_items (usq S))" for i
  proof -
    obtain r where "r \<in> set (reqs S)" "r_i0 r = i" using vinv_head [OF assms(1), of i] hu by metis
    then show ?thesis using in_ixs [of r "reqs S" i] by (simp add: ixs_def)
  qed
  have cn: "\<not> carried ?T ?r" using on heads_used [of i0] fresh [of i0] by (auto simp: carried_def u)
  have f: "filter (\<lambda>r. \<not> owned ?T r) (reqs ?T) = filter (\<lambda>r. \<not> owned S r) (reqs S)" "filter (carried ?T) (reqs ?T) = filter (carried S) (reqs S)"
    using o1 o2 on cn by (auto intro: filter_cong)
  have k: "req_ok ?T r" if r: "r \<in> set (reqs S)" for r
  proof -
    have "r_i0 r \<notin> {i0, i1, i2}" "r_i1 r \<notin> {i0, i1, i2}" "r_i2 r \<notin> {i0, i1, i2}"
      using fresh in_ixs [OF r] by (simp_all add: ixs_def)
    then show ?thesis using vinvD(4) [OF assms(1) r] nb [OF r] by (simp add: req_ok_def v s set_buf_def format_req_def)
  qed
  have kn: "req_ok ?T ?r" using d assms(2,4) by (simp add: req_ok_def v s set_buf_def format_req_def)
  show ?thesis
    unfolding vinv_def
  proof (intro conjI)
    show "distinct (concat (map ixs (reqs ?T)))" using vinvD(1) [OF assms(1)] d fresh by (auto simp: ixs_def)
    show "\<forall>i. i \<in> set (concat (map ixs (reqs ?T))) \<longleftrightarrow> i < NUM \<and> \<not> vfree (sv ?T) i"
    proof
      fix i
      have "i \<in> set (concat (map ixs (reqs ?T))) \<longleftrightarrow> i \<in> set (concat (map ixs (reqs S))) \<or> i \<in> {i0, i1, i2}" by (simp add: ixs_def) blast
      also have "\<dots> \<longleftrightarrow> (i < NUM \<and> \<not> vfree (sv S) i) \<or> i \<in> {i0, i1, i2}" by (simp only: vinvD(2) [OF assms(1)])
      also have "\<dots> \<longleftrightarrow> i < NUM \<and> \<not> vfree (sv ?T) i" using fr [of i] by (auto simp: v format_req_def)
      finally show "i \<in> set (concat (map ixs (reqs ?T))) \<longleftrightarrow> i < NUM \<and> \<not> vfree (sv ?T) i" .
    qed
    show "distinct (map r_b (reqs ?T))" using vinvD(3) [OF assms(1)] assms(3) by auto
    show "\<forall>r \<in> set (reqs ?T). req_ok ?T r" using k kn by auto
    show "heads (reqs ?T) = mset (ring_items (avq ?T)) + mset (pend ?T) + mset (ring_items (usq ?T)) + heads (filter (\<lambda>r. \<not> owned ?T r) (reqs ?T))"
      unfolding f a u using vinvD(5) [OF assms(1)] by (simp del: mset_filter)
    show "\<forall>i \<in> set (ring_items (usq ?T)). info_status (sv ?T) i = 0"
      unfolding u using vinvD(6) [OF assms(1)] heads_used fresh by (auto simp: v format_req_def)
    show "mset (xlog ?T) = mset (flog ?T) + mset (map xfer_of (filter (carried ?T) (reqs ?T)))"
      unfolding f using vinvD(7) [OF assms(1)] by simp
  qed
qed (use assms(5) in simp)

lemma vinv_init:
  "vused_idx v = 0 \<Longrightarrow> vinv \<lparr>sv = disk_reset v, sb = s, reqs = [], dev_last = 0, pend = [], xlog = [], flog = []\<rparr>"
  by (auto simp: vinv_def avq_def usq_def ring_items_def disk_reset_def)

lemma vreach_vinv: "vreach S \<Longrightarrow> vinv S"
proof (induction rule: vreach.induct)
  case (vr_init v s)
  then show ?case by (intro vinv_init)
next
  case vr_start
  then show ?case by (metis vinv_start)
next
  case vr_wait
  then show ?case by (metis vinv_wait)
next
  case vr_fetch
  then show ?case by (intro vinv_fetch)
next
  case vr_xfer
  then show ?case by (intro vinv_xfer)
next
  case vr_intr
  then show ?case using vinv_intr by fastforce
next
  case vr_finish
  then show ?case by (metis vinv_finish)
next
  case (vr_other S s)
  then show ?case by (intro vinv_frame [OF vr_other.IH]) auto
qed

subsection \<open>What the operations do in a reachable state\<close>

lemma rw_start_ok: "\<exists>y. virtio_disk_rw_start s v me b wr = Ok y"
  by (cases rule: rw_start_cases [of s v me b wr]) auto

lemma rw_finish_ok:
  assumes "vinv S" "r \<in> set (reqs S)" "\<not> owned S r"
  shows "\<exists>y. virtio_disk_rw_finish (sb S) (sv S) me (r_b r) (r_i0 r) = Ok y"
proof -
  have "\<forall>i \<in> set (ixs r). i < NUM \<and> \<not> vfree (sv S) i" using vinvD(2) [OF assms(1)] in_ixs [OF assms(2)] by blast
  from free_chain_req [OF vinvD(4) [OF assms(1,2)] ixs_distinct [OF vinvD(1) [OF assms(1)] assms(2)] this,
      of "(info_b (sv S))(r_i0 r := None)" me]
  show ?thesis using assms(3) by (auto simp: virtio_disk_rw_finish_def owned_def)
qed

lemma dev_xfer_rw: "req_ok S r \<Longrightarrow> dev_xfer (sb S) (xfer_of r) = virtio_rw (sb S) (r_b r) (r_wr r)"
  by (simp add: dev_xfer_def xfer_of_def virtio_rw_def Let_def req_ok_def set_buf_def)

lemma disk_init_reset: "virtio_disk_init rd wr d k v = Ok (d', k', v', ps) \<Longrightarrow> v' = disk_reset v"
  unfolding virtio_disk_init_def Let_def by (simp split: if_splits prod.splits)

section \<open>Properties\<close>

text \<open>C22: the disk driver never panics on a device that follows the protocol. A successful
  \<open>virtio_disk_init\<close> starts in a reachable state, and in a reachable state \<open>virtio_disk_rw\<close> can start,
  the interrupt handler returns having taken every completion, a request whose buffer the handler has
  released finishes, and the descriptors in use are exactly the three of each request in flight.\<close>

theorem driver_never_panics:
  "(virtio_disk_init rd wr d k v = Ok (d', k', v', ps) \<and> vused_idx v = 0 \<longrightarrow>
      vreach \<lparr>sv = v', sb = s, reqs = [], dev_last = 0, pend = [], xlog = [], flog = []\<rparr>) \<and>
   (vreach S \<longrightarrow>
      (\<exists>y. virtio_disk_rw_start (sb S) (sv S) me b w = Ok y) \<and>
      (\<exists>s' w'. virtio_disk_intr (sb S) (sv S) = Ok (s', w') \<and> vused_idx w' = used_ridx w') \<and>
      (\<forall>r \<in> set (reqs S). if owned S r
         then virtio_disk_rw_finish (sb S) (sv S) me (r_b r) (r_i0 r) = Blocks (ChDisk (r_b r))
         else \<exists>y. virtio_disk_rw_finish (sb S) (sv S) me (r_b r) (r_i0 r) = Ok y) \<and>
      distinct (concat (map ixs (reqs S))) \<and> set (concat (map ixs (reqs S))) = {i. i < NUM \<and> \<not> vfree (sv S) i})"
proof (intro conjI impI ballI)
  assume "virtio_disk_init rd wr d k v = Ok (d', k', v', ps) \<and> vused_idx v = 0"
  then show "vreach \<lparr>sv = v', sb = s, reqs = [], dev_last = 0, pend = [], xlog = [], flog = []\<rparr>"
    using disk_init_reset [of rd wr d k v d' k' v' ps] vreach.vr_init [of v s] by simp
next
  assume "vreach S"
  then have inv: "vinv S" by (rule vreach_vinv)
  show "\<exists>y. virtio_disk_rw_start (sb S) (sv S) me b w = Ok y" by (rule rw_start_ok)
  show "\<exists>s' w'. virtio_disk_intr (sb S) (sv S) = Ok (s', w') \<and> vused_idx w' = used_ridx w'" using vinv_intr [OF inv] by blast
  show "distinct (concat (map ixs (reqs S)))" by (rule vinvD(1) [OF inv])
  show "set (concat (map ixs (reqs S))) = {i. i < NUM \<and> \<not> vfree (sv S) i}" using vinvD(2) [OF inv] by blast
  fix r
  assume "r \<in> set (reqs S)"
  then show "if owned S r
         then virtio_disk_rw_finish (sb S) (sv S) me (r_b r) (r_i0 r) = Blocks (ChDisk (r_b r))
         else \<exists>y. virtio_disk_rw_finish (sb S) (sv S) me (r_b r) (r_i0 r) = Ok y"
    using rw_finish_ok [OF inv, of r me] by (auto simp: virtio_disk_rw_finish_def owned_def)
qed

text \<open>C23: the driver and the device together implement the disk operation that the rest of the kernel
  is verified against. The device understands every chain it is handed as the request of the process
  that submitted it and carries out exactly the transfer \<open>virtio_rw\<close> of that buffer, and the transfers
  carried out are, each exactly once, those of the finished requests and of the requests in flight
  that the device has put on the used ring.\<close>

theorem driver_carries_out_once:
  assumes "vreach S"
  shows "(\<forall>h \<in> set (pend S). \<exists>r \<in> set (reqs S). r_i0 r = h \<and> owned S r \<and>
            dev_decode (sv S) h = Some (xfer_of r, r_i0 r) \<and>
            dev_xfer (sb S) (xfer_of r) = virtio_rw (sb S) (r_b r) (r_wr r)) \<and>
         mset (xlog S) = mset (flog S) + mset (map xfer_of (filter (carried S) (reqs S)))"
proof (intro conjI ballI)
  note inv = vreach_vinv [OF assms]
  show "mset (xlog S) = mset (flog S) + mset (map xfer_of (filter (carried S) (reqs S)))" by (rule vinvD(7) [OF inv])
  fix h
  assume "h \<in> set (pend S)"
  then obtain r where r: "r \<in> set (reqs S)" "r_i0 r = h" "owned S r" using vinv_head [OF inv, of h] by metis
  note ok = vinvD(4) [OF inv r(1)]
  show "\<exists>r \<in> set (reqs S). r_i0 r = h \<and> owned S r \<and> dev_decode (sv S) h = Some (xfer_of r, r_i0 r) \<and>
      dev_xfer (sb S) (xfer_of r) = virtio_rw (sb S) (r_b r) (r_wr r)"
    using r req_decode [OF ok] dev_xfer_rw [OF ok] by (intro bexI [of _ r]) auto
qed

section \<open>Witnesses\<close>

definition vdisk_ex :: vdisk where
  "vdisk_ex = disk_reset \<lparr>vdesc = (\<lambda>_. zero_desc), avail_idx = 0, avail_ring = (\<lambda>_. 0), used_ridx = 0, used_ring = (\<lambda>_. 0),
     vfree = (\<lambda>_. False), vused_idx = 0, info_b = (\<lambda>_. None), info_status = (\<lambda>_. 0),
     vops = (\<lambda>_. \<lparr>rq_type = 0, rq_reserved = 0, rq_sector = 0\<rparr>)\<rparr>"

definition sb_ex :: bst where
  "sb_ex = \<lparr>km = kmem_ex, procs = [], nextpid = 1, initproc = None, ticks = 0,
     bufs = [\<lparr>b_valid = False, b_disk = False, b_dev = 1, b_blockno = 40, b_lock = \<lparr>sl_locked = True, sl_name = ''buffer'', sl_pid = 1\<rparr>, b_refcnt = 1,
             b_prev = 0, b_next = 0, b_data = []\<rparr>], disk = (\<lambda>n. replicate BSIZE (of_nat n)), wtrace = []\<rparr>"

definition vsys0_ex :: vsys where
  "vsys0_ex = \<lparr>sv = vdisk_ex, sb = sb_ex, reqs = [], dev_last = 0, pend = [], xlog = [], flog = []\<rparr>"

definition req_ex :: req where
  "req_ex = \<lparr>r_b = 0, r_wr = False, r_blk = 40, r_i0 = 0, r_i1 = 1, r_i2 = 2\<rparr>"

definition vdisk1_ex :: vdisk where
  "vdisk1_ex = (format_req (vdisk_ex\<lparr>vfree := (vfree vdisk_ex)(0 := False, 1 := False, 2 := False)\<rparr>) 0 40 False 0 1 2)
     \<lparr>info_b := (\<lambda>_. None)(0 := Some 0), avail_ring := (\<lambda>_. 0)(0 := 0), avail_idx := 1\<rparr>"

text \<open>A read of block 40, which the device has fetched.\<close>

definition vsys_ex :: vsys where
  "vsys_ex = \<lparr>sv = vdisk1_ex, sb = set_buf sb_ex 0 (\<lambda>b. b\<lparr>b_disk := True\<rparr>), reqs = [req_ex], dev_last = 1, pend = [0], xlog = [], flog = []\<rparr>"

lemma vsys0_ex_reach: "vreach vsys0_ex"
  unfolding vsys0_ex_def vdisk_ex_def by (rule vreach.vr_init) simp

lemma upt_NUM: "[0..<NUM] = [0, 1, 2, 3, 4, 5, 6, 7]"
  by (simp add: NUM_def upt_conv_Cons)

lemma alloc_ex:
  "alloc3_desc s vdisk_ex me = Ok (Some [0, 1, 2], s, vdisk_ex\<lparr>vfree := (vfree vdisk_ex)(0 := False, 1 := False, 2 := False)\<rparr>)"
  by (simp add: alloc3_desc_def numeral_3_eq_3 alloc_desc_def upt_NUM vdisk_ex_def disk_reset_def) (simp add: NUM_def)

lemma start_ex:
  "virtio_disk_rw_start sb_ex vdisk_ex 0 0 False = Ok (Some (0, 1, 2), set_buf sb_ex 0 (\<lambda>b. b\<lparr>b_disk := True\<rparr>), vdisk1_ex)"
  unfolding virtio_disk_rw_start_def alloc_ex bnd.simps vdisk1_ex_def Let_def
  by (simp add: format_req_def) (simp add: vdisk_ex_def disk_reset_def sb_ex_def)

lemma vsys_ex_reach: "vreach vsys_ex"
proof -
  have "vreach (vsys0_ex\<lparr>sv := vdisk1_ex, sb := set_buf sb_ex 0 (\<lambda>b. b\<lparr>b_disk := True\<rparr>), reqs := reqs vsys0_ex @
      [\<lparr>r_b = 0, r_wr = False, r_blk = b_blockno (bufs (sb vsys0_ex) ! 0), r_i0 = 0, r_i1 = 1, r_i2 = 2\<rparr>]\<rparr>)" (is "vreach ?S")
    by (rule vreach.vr_start [OF vsys0_ex_reach, where me = 0]) (simp_all add: vsys0_ex_def start_ex [simplified] del: One_nat_def, simp_all add: sb_ex_def)
  moreover have "vsys_ex = ?S\<lparr>dev_last := dev_last ?S + 1, pend := ring_peek (avq ?S) # pend ?S\<rparr>"
    by (simp add: vsys_ex_def vsys0_ex_def req_ex_def sb_ex_def ring_peek_def avq_def vdisk1_ex_def format_req_def)
  moreover have "dev_last ?S \<noteq> avail_idx (sv ?S)" by (simp add: vsys0_ex_def vdisk1_ex_def)
  ultimately show ?thesis using vreach.vr_fetch by metis
qed

theorem driver_carries_out_once_witness:
  "vreach vsys_ex \<and> pend vsys_ex = [0] \<and> dev_decode (sv vsys_ex) 0 = Some ((0, False, 40), 0) \<and>
   (\<exists>r \<in> set (reqs vsys_ex). r_i0 r = 0 \<and> owned vsys_ex r \<and> dev_xfer (sb vsys_ex) (xfer_of r) = virtio_rw (sb vsys_ex) (r_b r) (r_wr r))"
proof -
  note w = driver_carries_out_once [OF vsys_ex_reach]
  moreover have "pend vsys_ex = [0]" "reqs vsys_ex = [req_ex]" by (simp_all add: vsys_ex_def)
  moreover from this have "dev_decode (sv vsys_ex) 0 = Some (xfer_of req_ex, r_i0 req_ex)" using w by simp
  ultimately show ?thesis using vsys_ex_reach by (simp add: xfer_of_def req_ex_def)
qed

definition disk_mem_ex :: kmem where
  "disk_mem_ex = \<lparr>mem = (\<lambda>_. 0)(0x80100001 := 0x10, 0x80100002 := 0x10, 0x80100003 := 0x80,
      0x80101001 := 0x20, 0x80101002 := 0x10, 0x80101003 := 0x80), freelist = 0x80100000, kend = 0x80021000\<rparr>"

definition mmio_ex :: "mmio_reg \<Rightarrow> u32" where
  "mmio_ex = (\<lambda>_. 0)(MAGIC_VALUE := 0x74726976, VERSION := 2, DEVICE_ID := 2, VENDOR_ID := 0x554d4551, QUEUE_NUM_MAX := 1024)"

lemma disk_reset_ex: "disk_reset vdisk_ex = vdisk_ex"
  by (auto simp: vdisk_ex_def disk_reset_def)

lemma init_ex: "\<exists>d k. virtio_disk_init id (\<lambda>d r x. d(r := x)) mmio_ex disk_mem_ex vdisk_ex = Ok (d, k, vdisk_ex, [0x80100000, 0x80101000, 0x80102000])"
  by (simp add: virtio_disk_init_def disk_reset_ex Let_def mmio_ex_def kalloc_def disk_mem_ex_def load64_def memset_apply VIRTIO_CONFIG_S_ACKNOWLEDGE_def
      VIRTIO_CONFIG_S_DRIVER_def VIRTIO_CONFIG_S_FEATURES_OK_def VIRTIO_CONFIG_S_DRIVER_OK_def NUM_def PGSIZE_def)

theorem driver_never_panics_witness:
  "\<exists>d k. virtio_disk_init id (\<lambda>d r x. d(r := x)) mmio_ex disk_mem_ex vdisk_ex = Ok (d, k, vdisk_ex, [0x80100000, 0x80101000, 0x80102000]) \<and>
     vreach vsys0_ex \<and> vreach vsys_ex \<and> req_ex \<in> set (reqs vsys_ex) \<and> owned vsys_ex req_ex \<and>
     virtio_disk_rw_finish (sb vsys_ex) (sv vsys_ex) 0 0 0 = Blocks (ChDisk 0) \<and> {i. i < NUM \<and> \<not> vfree (sv vsys_ex) i} = {0, 1, 2}"
proof -
  obtain d k where i: "virtio_disk_init id (\<lambda>d r x. d(r := x)) mmio_ex disk_mem_ex vdisk_ex = Ok (d, k, vdisk_ex, [0x80100000, 0x80101000, 0x80102000])"
    using init_ex by blast
  note w = driver_never_panics [of id "\<lambda>d r x. d(r := x)" mmio_ex disk_mem_ex vdisk_ex d k vdisk_ex "[0x80100000, 0x80101000, 0x80102000]" sb_ex vsys_ex 0 0 False]
  have u: "vused_idx vdisk_ex = 0" by (simp add: vdisk_ex_def disk_reset_def)
  have r: "reqs vsys_ex = [req_ex]" "owned vsys_ex req_ex" "r_b req_ex = 0" "r_i0 req_ex = 0" "ixs req_ex = [0, 1, 2]"
    by (simp_all add: vsys_ex_def owned_def req_ex_def set_buf_def sb_ex_def ixs_def)
  have "vreach vsys0_ex" using w i u unfolding vsys0_ex_def by blast
  moreover have "virtio_disk_rw_finish (sb vsys_ex) (sv vsys_ex) 0 0 0 = Blocks (ChDisk 0)" using w vsys_ex_reach r by simp
  moreover have "{i. i < NUM \<and> \<not> vfree (sv vsys_ex) i} = {0, 1, 2}" using w vsys_ex_reach r(1,5) by auto
  ultimately show ?thesis using i vsys_ex_reach r(1,2) by auto
qed

end
