(* ===== verification/Umalloc.thy ===== *)
theory Umalloc
  imports Prelude
begin

text \<open>
  The memory allocator of user programs (\<open>user/umalloc.c\<close>). The heap is a map from addresses to the
  16-byte units that \<open>union header\<close> lays over it; the units of an allocated block belong to the program.
  Addresses are natural numbers, since a pointer that overflows has no meaning in C; the 32-bit sizes
  wrap around. The loops over the circular free list are partial functions, and the properties show
  that they end. Whether \<open>sbrk\<close> grants memory is up to the kernel, the parameter \<open>grant\<close>.
\<close>

section \<open>Definitions\<close>

record header =
  h_ptr :: nat
  h_size :: nat

text \<open>\<open>ubase\<close> is the address of the static variable \<open>base\<close>, and \<open>ubrk\<close> the end of the process's memory.\<close>

record uheap =
  cells :: "nat \<Rightarrow> header"
  ubase :: nat
  freep :: nat
  ubrk :: nat

definition uint32 :: "nat \<Rightarrow> nat" where
  "uint32 n = n mod 2 ^ 32"

definition int32 :: "nat \<Rightarrow> int" where
  "int32 n = sint (of_nat n :: 32 word)"

partial_function (option) free_find :: "(nat \<Rightarrow> header) \<Rightarrow> nat \<Rightarrow> nat \<Rightarrow> nat option" where
  "free_find m bp p =
     (if bp > p \<and> bp < h_ptr (m p) then Some p
      else if p \<ge> h_ptr (m p) \<and> (bp > p \<or> bp < h_ptr (m p)) then Some p
      else free_find m bp (h_ptr (m p)))"

definition free_join :: "(nat \<Rightarrow> header) \<Rightarrow> nat \<Rightarrow> nat \<Rightarrow> (nat \<Rightarrow> header)" where
  "free_join m bp p =
     (let m = (if bp + 16 * h_size (m bp) = h_ptr (m p)
               then let m = m(bp := (m bp)\<lparr>h_size := uint32 (h_size (m bp) + h_size (m (h_ptr (m p))))\<rparr>)
                    in m(bp := (m bp)\<lparr>h_ptr := h_ptr (m (h_ptr (m p)))\<rparr>)
               else m(bp := (m bp)\<lparr>h_ptr := h_ptr (m p)\<rparr>))
      in if p + 16 * h_size (m p) = bp
         then let m = m(p := (m p)\<lparr>h_size := uint32 (h_size (m p) + h_size (m bp))\<rparr>)
              in m(p := (m p)\<lparr>h_ptr := h_ptr (m bp)\<rparr>)
         else m(p := (m p)\<lparr>h_ptr := bp\<rparr>))"

definition free :: "uheap \<Rightarrow> nat \<Rightarrow> uheap option" where
  "free s ap =
     (let bp = ap - 16
      in map_option (\<lambda>p. s\<lparr>cells := free_join (cells s) bp p, freep := p\<rparr>) (free_find (cells s) bp (freep s)))"

text \<open>\<open>sbrk\<close> with \<open>SBRK_EAGER\<close>: the old end of memory and the new one. A decrease beyond the start wraps
  around in \<open>growproc\<close>, where \<open>uvmdealloc\<close> then changes nothing.\<close>

definition sbrk :: "(nat \<Rightarrow> int \<Rightarrow> bool) \<Rightarrow> uheap \<Rightarrow> int \<Rightarrow> (nat \<times> uheap) option" where
  "sbrk grant s n =
     (if n > 0 then if grant (ubrk s) n then Some (ubrk s, s\<lparr>ubrk := nat (int (ubrk s) + n)\<rparr>) else None
      else if int (ubrk s) + n < 0 then Some (ubrk s, s)
      else Some (ubrk s, s\<lparr>ubrk := nat (int (ubrk s) + n)\<rparr>))"

definition morecore :: "(nat \<Rightarrow> int \<Rightarrow> bool) \<Rightarrow> uheap \<Rightarrow> nat \<Rightarrow> (nat \<times> uheap) option" where
  "morecore grant s nu =
     (let nu = (if nu < 4096 then 4096 else nu)
      in case sbrk grant s (int32 (nu * 16)) of
           None \<Rightarrow> Some (0, s)
         | Some (hp, s) \<Rightarrow>
             let s = s\<lparr>cells := (cells s)(hp := (cells s hp)\<lparr>h_size := nu\<rparr>)\<rparr>
             in map_option (\<lambda>s. (freep s, s)) (free s (hp + 16)))"

definition malloc_take :: "uheap \<Rightarrow> nat \<Rightarrow> nat \<Rightarrow> nat \<Rightarrow> nat \<times> uheap" where
  "malloc_take s nunits prevp p =
     (let m = cells s
      in if h_size (m p) = nunits
         then (p + 16, s\<lparr>cells := m(prevp := (m prevp)\<lparr>h_ptr := h_ptr (m p)\<rparr>), freep := prevp\<rparr>)
         else let m = m(p := (m p)\<lparr>h_size := h_size (m p) - nunits\<rparr>);
                  p = p + 16 * h_size (m p);
                  m = m(p := (m p)\<lparr>h_size := nunits\<rparr>)
              in (p + 16, s\<lparr>cells := m, freep := prevp\<rparr>))"

partial_function (option) malloc_loop :: "(nat \<Rightarrow> int \<Rightarrow> bool) \<Rightarrow> uheap \<Rightarrow> nat \<Rightarrow> nat \<Rightarrow> nat \<Rightarrow> (nat \<times> uheap) option" where
  "malloc_loop grant s nunits prevp p =
     (if h_size (cells s p) \<ge> nunits then Some (malloc_take s nunits prevp p)
      else if p = freep s
      then Option.bind (morecore grant s nunits) (\<lambda>(p, s).
             if p = 0 then Some (0, s) else malloc_loop grant s nunits p (h_ptr (cells s p)))
      else malloc_loop grant s nunits p (h_ptr (cells s p)))"

definition units :: "nat \<Rightarrow> nat" where
  "units nbytes = uint32 ((nbytes + 16 - 1) div 16 + 1)"

definition malloc :: "(nat \<Rightarrow> int \<Rightarrow> bool) \<Rightarrow> uheap \<Rightarrow> nat \<Rightarrow> (nat \<times> uheap) option" where
  "malloc grant s nbytes =
     (let nunits = units nbytes;
          s = (if freep s = 0
               then s\<lparr>freep := ubase s, cells := (cells s)(ubase s := \<lparr>h_ptr = ubase s, h_size = 0\<rparr>)\<rparr> else s)
      in malloc_loop grant s nunits (freep s) (h_ptr (cells s (freep s))))"

section \<open>The free list\<close>

fun chain :: "(nat \<Rightarrow> header) \<Rightarrow> nat list \<Rightarrow> nat \<Rightarrow> bool" where
  "chain m [] e \<longleftrightarrow> True"
| "chain m (a # xs) e \<longleftrightarrow> h_ptr (m a) = hd (xs @ [e]) \<and> chain m xs e"

lemma chain_append: "chain m (xs @ ys) e \<longleftrightarrow> chain m xs (hd (ys @ [e])) \<and> chain m ys e"
proof (induction xs)
  case (Cons a xs)
  then show ?case by (cases xs) auto
qed simp

lemma chain_upd [simp]: "a \<notin> set xs \<Longrightarrow> chain (m(a := v)) xs e = chain m xs e"
  by (induction xs) auto

lemma chain_size [simp]: "h_ptr v = h_ptr (m a) \<Longrightarrow> chain (m(a := v)) xs e = chain m xs e"
  by (induction xs) auto

text \<open>The search of \<open>free\<close> ends at the last free block below the one to be freed, wherever it starts.\<close>

lemma free_find_low:
  assumes "sorted_wrt (<) (us @ p # vs)" "\<forall>a \<in> set (us @ p # vs). a < bp" "\<forall>a \<in> set zs. bp < a"
    "chain m (us @ p # vs) (hd (zs @ [e]))" "e < bp" "e \<le> p"
  shows "free_find m bp p = Some (last (p # vs))"
  using assms
proof (induction vs arbitrary: us p)
  case Nil
  then have "h_ptr (m p) = hd (zs @ [e])" by (simp add: chain_append)
  then show ?case using Nil by (cases zs) (auto simp: free_find.simps [of m bp p])
next
  case (Cons v vs)
  then have "h_ptr (m p) = v" "p < v" "v < bp" by (auto simp: chain_append sorted_wrt_append)
  then have "free_find m bp p = free_find m bp v" by (auto simp: free_find.simps [of m bp p])
  also have "\<dots> = Some (last (v # vs))" using Cons.prems \<open>p < v\<close> by (intro Cons.IH [of "us @ [p]"]) auto
  finally show ?case by simp
qed

lemma free_find_high:
  assumes "sorted_wrt (<) (us @ p # vs)" "\<forall>a \<in> set (us @ p # vs). bp < a" "chain m (us @ p # vs) e" "e < bp"
  shows "free_find m bp p = free_find m bp e"
  using assms
proof (induction vs arbitrary: us p)
  case Nil
  then have "h_ptr (m p) = e" by (simp add: chain_append)
  then show ?case using Nil by (auto simp: free_find.simps [of m bp p])
next
  case (Cons v vs)
  then have "h_ptr (m p) = v" "p < v" "bp < p" by (auto simp: chain_append sorted_wrt_append)
  then have "free_find m bp p = free_find m bp v" by (auto simp: free_find.simps [of m bp p])
  also have "\<dots> = free_find m bp e" using Cons.prems by (intro Cons.IH [of "us @ [p]"]) auto
  finally show ?case .
qed

lemma free_find_ok:
  assumes "sorted_wrt (<) (xs @ zs)" "xs \<noteq> []" "\<forall>a \<in> set xs. a < bp" "\<forall>a \<in> set zs. bp < a"
    "chain m (xs @ zs) (hd xs)" "p \<in> set (xs @ zs)"
  shows "free_find m bp p = Some (last xs)"
proof -
  have c: "chain m xs (hd (zs @ [hd xs]))" "chain m zs (hd xs)" using assms(5) by (simp_all add: chain_append)
  have s: "sorted_wrt (<) xs" "sorted_wrt (<) zs" using assms(1) by (simp_all add: sorted_wrt_append)
  have h: "hd xs < bp" using assms(2,3) by simp
  have low: "free_find m bp q = Some (last xs)" if q: "q \<in> set xs" for q
  proof -
    obtain us vs where x: "xs = us @ q # vs" using q by (meson split_list)
    have "hd xs \<le> q" using s(1) unfolding x by (cases us) auto
    then show ?thesis using free_find_low [of us q vs bp zs m "hd xs"] assms(3,4) c(1) s(1) h by (simp add: x)
  qed
  show ?thesis
  proof (cases "p \<in> set xs")
    case False
    then obtain us vs where z: "zs = us @ p # vs" using assms(6) by (metis Un_iff set_append split_list)
    have "free_find m bp p = free_find m bp (hd xs)"
      using free_find_high [of us p vs bp m "hd xs"] assms(4) c(2) s(2) h by (simp add: z)
    then show ?thesis using low [of "hd xs"] assms(2) by simp
  qed (rule low)
qed

section \<open>The invariant\<close>

abbreviation sz :: "uheap \<Rightarrow> nat \<Rightarrow> nat" where
  "sz s a \<equiv> h_size (cells s a)"

text \<open>\<open>fs\<close> are the free blocks in the order of their addresses, and \<open>al\<close> the allocated ones, both by
  the address of their header.\<close>

definition uinv :: "uheap \<Rightarrow> nat list \<Rightarrow> nat set \<Rightarrow> bool" where
  "uinv s fs al \<longleftrightarrow>
     0 < ubase s \<and> freep s \<in> set (ubase s # fs) \<and> sorted_wrt (<) (ubase s # fs) \<and>
     chain (cells s) (ubase s # fs) (ubase s) \<and> sz s (ubase s) = 0 \<and>
     ubrk s \<le> 2 ^ 36 \<and> 16 dvd ubrk s \<and> ubase s + 16 \<le> ubrk s \<and> set fs \<inter> al = {} \<and>
     (\<forall>a \<in> set fs \<union> al. 0 < sz s a \<and> 16 dvd a \<and> ubase s + 16 \<le> a \<and> a + 16 * sz s a \<le> ubrk s) \<and>
     (\<forall>a \<in> set fs \<union> al. \<forall>b \<in> set fs \<union> al. a < b \<longrightarrow> a + 16 * sz s a \<le> b)"

lemma uinvD:
  assumes "uinv s fs al"
  shows "0 < ubase s" "freep s \<in> set (ubase s # fs)" "sorted_wrt (<) (ubase s # fs)"
    "chain (cells s) (ubase s # fs) (ubase s)" "sz s (ubase s) = 0"
    "ubrk s \<le> 2 ^ 36" "16 dvd ubrk s" "ubase s + 16 \<le> ubrk s" "set fs \<inter> al = {}"
    "\<And>a. a \<in> set fs \<union> al \<Longrightarrow> 0 < sz s a \<and> 16 dvd a \<and> ubase s + 16 \<le> a \<and> a + 16 * sz s a \<le> ubrk s"
    "\<And>a b. a \<in> set fs \<union> al \<Longrightarrow> b \<in> set fs \<union> al \<Longrightarrow> a < b \<Longrightarrow> a + 16 * sz s a \<le> b"
  using assms unfolding uinv_def by blast+

text \<open>The units of the allocated blocks keep their contents.\<close>

definition keeps :: "nat set \<Rightarrow> uheap \<Rightarrow> uheap \<Rightarrow> bool" where
  "keeps al s t \<longleftrightarrow> (\<forall>a \<in> al. \<forall>c \<in> {a..<a + 16 * sz s a}. cells t c = cells s c)"

lemma keepsI:
  "(\<And>c. c \<notin> C \<Longrightarrow> cells t c = cells s c) \<Longrightarrow> (\<And>a c. a \<in> al \<Longrightarrow> c \<in> C \<Longrightarrow> c \<notin> {a..<a + 16 * sz s a}) \<Longrightarrow> keeps al s t"
  unfolding keeps_def by blast

text \<open>An address that starts a free block, or \<open>base\<close>, or another allocated block, is in no allocated block.\<close>

lemma outside:
  assumes "uinv s fs al" "c \<in> set (ubase s # fs) \<union> al" "a \<in> al" "a \<noteq> c"
  shows "c \<notin> {a..<a + 16 * sz s a}"
proof (cases "c = ubase s")
  case True
  then show ?thesis using uinvD(10) [OF assms(1), of a] assms(3) by auto
next
  case False
  then have "c \<in> set fs \<union> al" using assms(2) by simp
  then show ?thesis using uinvD(11) [OF assms(1), of a c] assms(3,4) by auto
qed

subsection \<open>Freeing a block\<close>

definition link_free :: "(nat \<Rightarrow> header) \<Rightarrow> nat \<Rightarrow> nat \<Rightarrow> (nat \<Rightarrow> header)" where
  "link_free m bp p = m(bp := (m bp)\<lparr>h_ptr := h_ptr (m p)\<rparr>, p := (m p)\<lparr>h_ptr := bp\<rparr>)"

definition join :: "(nat \<Rightarrow> header) \<Rightarrow> nat \<Rightarrow> nat \<Rightarrow> (nat \<Rightarrow> header)" where
  "join m a b = (if a + 16 * h_size (m a) = b then m(a := \<lparr>h_ptr = h_ptr (m b), h_size = uint32 (h_size (m a) + h_size (m b))\<rparr>) else m)"

text \<open>\<open>free\<close> links the block into the list and joins it with its neighbours.\<close>

lemma free_join_steps:
  assumes "p \<noteq> bp" "h_ptr (m p) \<noteq> bp" "h_ptr (m p) = p \<Longrightarrow> bp + 16 * h_size (m bp) \<noteq> p"
  shows "free_join m bp p = join (join (link_free m bp p) bp (h_ptr (m p))) p bp"
  using assms by (auto simp: free_join_def join_def link_free_def Let_def fun_eq_iff)

lemma uinv_link:
  assumes "uinv s (xs @ zs) al" "bp \<in> al" "\<forall>a \<in> set xs. a < bp" "\<forall>a \<in> set zs. bp < a"
  defines "p \<equiv> last (ubase s # xs)"
  shows "uinv (s\<lparr>cells := link_free (cells s) bp p, freep := p\<rparr>) (xs @ bp # zs) (al - {bp})" (is "uinv ?t _ _")
proof -
  note inv = uinvD [OF assms(1)]
  have b: "ubase s < bp" using inv(10) [of bp] assms(2) by simp
  have p: "p \<in> set (ubase s # xs)" unfolding p_def by (rule last_in_set) simp
  then have "p < bp" using assms(3) b by auto
  then have z: "sz ?t a = sz s a" for a by (simp add: link_free_def)
  obtain ws where e: "ubase s # xs = ws @ [p]" unfolding p_def by (metis append_butlast_last_id list.distinct(1))
  have f: "ubase s # xs @ ys = ws @ p # ys" for ys using e by (metis append.assoc append_Cons append_Nil)
  have c: "chain (cells s) ws p" "h_ptr (cells s p) = hd (zs @ [ubase s])" "chain (cells s) zs (ubase s)"
    using inv(4) unfolding f by (simp_all add: chain_append)
  have so: "sorted_wrt (<) (ubase s # xs)" "sorted_wrt (<) zs" using inv(3) by (auto simp: sorted_wrt_append)
  have np: "p \<notin> set ws" "p \<notin> set zs"
    using so(1) [unfolded e] \<open>p < bp\<close> assms(4) by (auto simp: sorted_wrt_append)
  have nb: "bp \<notin> set ws" "bp \<notin> set zs"
    using assms(3,4) b e by (metis butlast_snoc in_set_butlastD less_irrefl set_ConsD)+
  have "chain (cells ?t) ws p" "chain (cells ?t) zs (ubase s)"
    using c(1,3) np nb by (simp_all add: link_free_def)
  then have "chain (cells ?t) (ubase s # xs @ bp # zs) (ubase s)"
    using c(2) \<open>p < bp\<close> unfolding f by (simp add: chain_append link_free_def)
  moreover have "sorted_wrt (<) (ubase s # xs @ bp # zs)" using inv(3) assms(3,4) b by (auto simp: sorted_wrt_append)
  moreover have u: "set (xs @ bp # zs) \<union> (al - {bp}) = set (xs @ zs) \<union> al" using assms(2) by auto
  ultimately show ?thesis
    using inv p assms(2) unfolding uinv_def z u by auto
qed

lemma uinv_join:
  assumes "uinv s (us @ a # b # vs) al" "freep s \<noteq> b"
  shows "\<exists>vs'. uinv (s\<lparr>cells := join (cells s) a b\<rparr>) (us @ a # vs') al \<and>
    sz s a \<le> h_size (join (cells s) a b a) \<and>
    (\<exists>d \<in> set (us @ a # vs'). d \<le> b \<and> b + 16 * sz s b \<le> d + 16 * h_size (join (cells s) a b d))"
proof (cases "a + 16 * sz s a = b")
  case True
  note inv = uinvD [OF assms(1)]
  let ?t = "s\<lparr>cells := join (cells s) a b\<rparr>"
  have a: "0 < sz s a" "ubase s < a" "a + 16 * sz s a \<le> ubrk s" using inv(10) [of a] by auto
  have b: "0 < sz s b" "b + 16 * sz s b \<le> ubrk s" using inv(10) [of b] by auto
  have "16 * (sz s a + sz s b) \<le> ubrk s - a" using a b True by simp
  then have "sz s a + sz s b < 2 ^ 32" using inv(6) a(2) by simp
  then have m: "cells ?t = (cells s)(a := \<lparr>h_ptr = h_ptr (cells s b), h_size = sz s a + sz s b\<rparr>)"
    using True by (simp add: join_def uint32_def)
  have so: "sorted_wrt (<) (ubase s # us @ a # b # vs)" by (rule inv(3))
  have na: "a \<notin> set (ubase s # us)" "a \<notin> set vs" "b \<notin> set us" "b \<notin> set vs" using so by (auto simp: sorted_wrt_append)
  have "chain (cells s) (ubase s # us) a" "h_ptr (cells s b) = hd (vs @ [ubase s])" "chain (cells s) vs (ubase s)"
    using inv(4) chain_append [of "cells s" "ubase s # us" "a # b # vs" "ubase s"] by simp_all
  then have c: "chain (cells ?t) (ubase s # us @ a # vs) (ubase s)"
    using na chain_append [of "cells ?t" "ubase s # us" "a # vs" "ubase s"] unfolding m by simp
  have mid: "d < a \<or> d = a \<or> b \<le> d" if "d \<in> set (us @ a # b # vs) \<union> al" for d
    using inv(11) [of a d] that True by fastforce
  have z: "sz ?t d = (if d = a then sz s a + sz s b else sz s d)" for d by (simp add: m)
  have ap: "d + 16 * sz ?t d \<le> e" if de: "d \<in> set (us @ a # vs) \<union> al" "e \<in> set (us @ a # vs) \<union> al" "d < e" for d e
  proof (cases "d = a")
    case d: True
    have "e \<noteq> b" using de(2) na inv(9) True a(1) by auto
    then have "b < e" using mid [of e] de d by force
    then show ?thesis using inv(11) [of b e] de(2) d True unfolding z by auto
  next
    case False
    then show ?thesis using inv(11) [of d e] de unfolding z by auto
  qed
  have "uinv ?t (us @ a # vs) al"
    unfolding uinv_def
  proof (intro conjI)
    show "\<forall>d \<in> set (us @ a # vs) \<union> al. 0 < sz ?t d \<and> 16 dvd d \<and> ubase ?t + 16 \<le> d \<and> d + 16 * sz ?t d \<le> ubrk ?t"
    proof
      fix d
      assume "d \<in> set (us @ a # vs) \<union> al"
      then have "0 < sz s d \<and> 16 dvd d \<and> ubase s + 16 \<le> d \<and> d + 16 * sz s d \<le> ubrk s" using inv(10) [of d] by auto
      then show "0 < sz ?t d \<and> 16 dvd d \<and> ubase ?t + 16 \<le> d \<and> d + 16 * sz ?t d \<le> ubrk ?t" using a(1) b(2) True unfolding z by simp
    qed
    show "\<forall>d \<in> set (us @ a # vs) \<union> al. \<forall>e \<in> set (us @ a # vs) \<union> al. d < e \<longrightarrow> d + 16 * sz ?t d \<le> e" using ap by blast
    show "freep ?t \<in> set (ubase ?t # us @ a # vs)" using inv(2) assms(2) by auto
    show "sorted_wrt (<) (ubase ?t # us @ a # vs)" using so by (auto simp: sorted_wrt_append)
    show "chain (cells ?t) (ubase ?t # us @ a # vs) (ubase ?t)" using c by simp
    show "sz ?t (ubase ?t) = 0" using inv(5) a(2) unfolding z by simp
    show "set (us @ a # vs) \<inter> al = {}" using inv(9) by auto
  qed (use inv(1,6-8) in simp_all)
  moreover have "b + 16 * sz s b \<le> a + 16 * sz ?t a" "sz s a \<le> sz ?t a" using True unfolding z by simp_all
  ultimately show ?thesis using True by (intro exI [of _ vs]) auto
next
  case False
  then have "join (cells s) a b = cells s" by (simp add: join_def)
  then show ?thesis using assms(1) by (intro exI [of _ "b # vs"]) auto
qed

lemma uinv_join_at:
  assumes "uinv (s\<lparr>cells := m, freep := p\<rparr>) (us @ a # b # vs) al" "p \<noteq> b"
  obtains vs' d where "uinv (s\<lparr>cells := join m a b, freep := p\<rparr>) (us @ a # vs') al" "h_size (m a) \<le> h_size (join m a b a)"
    "d \<in> set (us @ a # vs')" "d \<le> b" "b + 16 * h_size (m b) \<le> d + 16 * h_size (join m a b d)"
proof -
  let ?t = "s\<lparr>cells := m, freep := p\<rparr>"
  have c: "cells ?t = m" "freep ?t = p" and e: "?t\<lparr>cells := join m a b\<rparr> = s\<lparr>cells := join m a b, freep := p\<rparr>" by simp_all
  from uinv_join [of ?t us a b vs al, unfolded c, unfolded e, OF assms] show thesis using that by blast
qed

lemma sorted_split:
  "sorted_wrt (<) (fs :: nat list) \<Longrightarrow> bp \<notin> set fs \<Longrightarrow> fs = filter (\<lambda>a. a < bp) fs @ filter (\<lambda>a. bp < a) fs"
proof (induction fs)
  case (Cons a fs)
  then show ?case
  proof (cases "a < bp")
    case False
    then have "\<forall>c \<in> set fs. bp < c" using Cons.prems by auto
    then have "filter (\<lambda>a. a < bp) fs = []" "filter (\<lambda>a. bp < a) fs = fs" by (auto simp: filter_empty_conv)
    then show ?thesis using False Cons.prems(2) by auto
  qed auto
qed simp

text \<open>A block that is freed becomes part of a free block.\<close>

lemma free_ok:
  assumes "uinv s fs al" "bp \<in> al"
  shows "\<exists>s' fs'. free s (bp + 16) = Some s' \<and> uinv s' fs' (al - {bp}) \<and> keeps (al - {bp}) s s' \<and> ubase s' = ubase s \<and> ubrk s' = ubrk s \<and>
    (\<exists>d \<in> set fs'. d \<le> bp \<and> bp + 16 * sz s bp \<le> d + 16 * sz s' d)"
proof -
  note inv = uinvD [OF assms(1)]
  define xs where "xs = filter (\<lambda>a. a < bp) fs"
  define zs where "zs = filter (\<lambda>a. bp < a) fs"
  have so: "sorted_wrt (<) fs" using inv(3) by simp
  have nb: "bp \<notin> set fs" "ubase s < bp" using inv(9) inv(10) [of bp] assms(2) by auto
  have fs: "fs = xs @ zs" using sorted_split [OF so nb(1)] by (simp add: xs_def zs_def)
  have x: "\<forall>a \<in> set xs. a < bp" and z: "\<forall>a \<in> set zs. bp < a" by (auto simp: xs_def zs_def)
  define p where "p = last (ubase s # xs)"
  have p: "p \<in> set (ubase s # xs)" unfolding p_def by (rule last_in_set) simp
  have pb: "p < bp" using p x nb by auto
  have fi: "free_find (cells s) bp (freep s) = Some p"
    using free_find_ok [of "ubase s # xs" zs bp "cells s" "freep s"] inv(2-4) x z nb unfolding p_def fs by simp
  let ?nx = "h_ptr (cells s p)"
  obtain ws where e: "ubase s # xs = ws @ [p]" unfolding p_def by (metis append_butlast_last_id list.distinct(1))
  have nx: "?nx = hd (zs @ [ubase s])"
    using inv(4) chain_append [of "cells s" "ws @ [p]" zs "ubase s"] chain_append [of "cells s" ws "[p]"] unfolding fs append_Cons [symmetric] e by simp
  then have nxb: "?nx \<noteq> bp" and nxp: "?nx = p \<Longrightarrow> bp + 16 * sz s bp \<noteq> p" using z nb pb by (cases zs; auto)+
  let ?m1 = "link_free (cells s) bp p"
  have i1: "uinv (s\<lparr>cells := ?m1, freep := p\<rparr>) (xs @ bp # zs) (al - {bp})"
    using uinv_link [OF assms(1) [unfolded fs] assms(2) x z] unfolding p_def by simp
  have s1: "h_size (?m1 a) = sz s a" for a by (simp add: link_free_def)
  let ?m2 = "join ?m1 bp ?nx"
  have "\<exists>zs2. uinv (s\<lparr>cells := ?m2, freep := p\<rparr>) (xs @ bp # zs2) (al - {bp}) \<and> sz s bp \<le> h_size (?m2 bp)"
  proof (cases zs)
    case Nil
    then have "bp + 16 * h_size (?m1 bp) \<noteq> ?nx" using nx nb by simp
    then have "?m2 = ?m1" by (simp add: join_def)
    then show ?thesis using i1 s1 [of bp] by (intro exI [of _ zs]) simp
  next
    case (Cons b vs)
    then have b: "?nx = b" "p \<noteq> b" using nx z pb by auto
    show ?thesis
      by (rule uinv_join_at [OF i1 [unfolded Cons] b(2)]) (use b(1) s1 [of bp] in \<open>metis\<close>)
  qed
  then obtain zs2 where i2: "uinv (s\<lparr>cells := ?m2, freep := p\<rparr>) (xs @ bp # zs2) (al - {bp})" and s2: "sz s bp \<le> h_size (?m2 bp)" by blast
  let ?m3 = "join ?m2 p bp"
  let ?t = "s\<lparr>cells := ?m3, freep := p\<rparr>"
  have t: "free s (bp + 16) = Some ?t"
    using free_join_steps [of p bp "cells s"] pb nxb nxp by (simp add: free_def fi)
  have "\<exists>fs'. uinv ?t fs' (al - {bp}) \<and> (\<exists>d \<in> set fs'. d \<le> bp \<and> bp + 16 * h_size (?m2 bp) \<le> d + 16 * sz ?t d)"
  proof (cases "xs = []")
    case True
    then have "p = ubase s" by (simp add: p_def)
    then have "p + 16 * h_size (?m2 p) \<noteq> bp" using uinvD(5) [OF i2] nb(2) by simp
    then have "?m3 = ?m2" by (simp add: join_def)
    then show ?thesis using i2 by (intro exI [of _ "xs @ bp # zs2"]) auto
  next
    case False
    then obtain ws where w: "xs = ws @ [p]" unfolding p_def by (metis append_butlast_last_id last_ConsR)
    have "p \<noteq> bp" using pb by simp
    from uinv_join_at [where s = s and m = ?m2 and us = ws and a = p and b = bp and vs = zs2, OF _ this] i2 obtain vs' d where
      "uinv ?t (ws @ p # vs') (al - {bp})" "d \<in> set (ws @ p # vs')" "d \<le> bp" "bp + 16 * h_size (?m2 bp) \<le> d + 16 * h_size (?m3 d)"
      unfolding w by (metis append.assoc append_Cons append_Nil)
    then show ?thesis by (intro exI [of _ "ws @ p # vs'"]) auto
  qed
  then obtain fs' d where f: "uinv ?t fs' (al - {bp})" "d \<in> set fs'" "d \<le> bp" "bp + 16 * h_size (?m2 bp) \<le> d + 16 * sz ?t d" by blast
  have "?m3 c = cells s c" if "c \<noteq> bp" "c \<noteq> p" for c using that by (simp add: join_def link_free_def)
  moreover have "bp \<notin> {a..<a + 16 * sz s a} \<and> p \<notin> {a..<a + 16 * sz s a}" if "a \<in> al - {bp}" for a
  proof -
    have "p \<notin> al" using p inv(9) inv(10) [of p] unfolding fs by auto
    then have "a \<noteq> p" using that by auto
    then show ?thesis using outside [OF assms(1), of bp a] outside [OF assms(1), of p a] assms(2) that p unfolding fs by auto
  qed
  ultimately have "keeps (al - {bp}) s ?t" by (intro keepsI [of "{bp, p}"]) auto
  then show ?thesis using t f s2 by (intro exI [of _ ?t] exI [of _ fs']) auto
qed

subsection \<open>Taking a block\<close>

lemma take_exact:
  assumes "uinv s fs al" "ubase s # fs = us @ a # x # vs"
  defines "t \<equiv> s\<lparr>cells := (cells s)(a := (cells s a)\<lparr>h_ptr := h_ptr (cells s x)\<rparr>), freep := a\<rparr>"
  shows "\<exists>fs'. uinv t fs' (insert x al)" "keeps al s t" "x \<notin> al"
proof -
  note inv = uinvD [OF assms(1)]
  have x: "x \<in> set fs" using assms(2) by (cases us) auto
  then show "x \<notin> al" using inv(9) by auto
  obtain fs' where f: "us @ a # vs = ubase s # fs'" using assms(2) by (cases us) auto
  have so: "sorted_wrt (<) (us @ a # x # vs)" using inv(3) unfolding assms(2) .
  have set: "set fs = insert x (set fs')" "x \<notin> set fs'" "a \<in> set (ubase s # fs')"
    using assms(2) f so by (cases us; auto simp: sorted_wrt_append)+
  have na: "a \<notin> set us" "a \<notin> set vs" "a \<noteq> x" using so by (auto simp: sorted_wrt_append)
  have "chain (cells s) (us @ a # x # vs) (ubase s)" using inv(4) unfolding assms(2) .
  then have "chain (cells t) (us @ a # vs) (ubase s)" using na unfolding t_def by (simp add: chain_append)
  moreover have "sorted_wrt (<) (us @ a # vs)" using so by (auto simp: sorted_wrt_append)
  moreover have z: "sz t c = sz s c" for c by (simp add: t_def)
  moreover have u: "set fs' \<union> insert x al = set fs \<union> al" using set by auto
  ultimately have "uinv t fs' (insert x al)"
    using inv set unfolding uinv_def z u f by (auto simp: t_def)
  then show "\<exists>fs'. uinv t fs' (insert x al)" by blast
  show "keeps al s t"
  proof (rule keepsI [of "{a}"])
    fix d c
    assume d: "d \<in> al" "c \<in> {a}"
    then have "d \<noteq> a" using set(1,3) inv(9) inv(10) [of d] by auto
    then show "c \<notin> {d..<d + 16 * sz s d}" using outside [OF assms(1), of a d] set d by auto
  qed (simp add: t_def)
qed

lemma take_tail:
  assumes "uinv s fs al" "x \<in> set fs" "0 < n" "n < sz s x" "p \<in> set (ubase s # fs)"
  defines "h \<equiv> x + 16 * (sz s x - n)"
  defines "t \<equiv> s\<lparr>cells := (cells s)(x := (cells s x)\<lparr>h_size := sz s x - n\<rparr>, h := (cells s h)\<lparr>h_size := n\<rparr>), freep := p\<rparr>"
  shows "uinv t fs (insert h al)" "keeps al s t" "h \<notin> al"
proof -
  note inv = uinvD [OF assms(1)]
  have hx: "x < h" "h + 16 * n = x + 16 * sz s x" using assms(4) by (auto simp: h_def)
  have in_x: "c \<notin> set fs \<union> al" if "x < c" "c < x + 16 * sz s x" for c using inv(11) [of x c] that assms(2) by auto
  then have hn: "h \<notin> set fs" "h \<notin> al" using hx assms(3) by auto
  then show "h \<notin> al" by simp
  have z: "sz t c = (if c = h then n else if c = x then sz s x - n else sz s c)" for c using hx by (simp add: t_def)
  have x: "16 dvd x" "ubase s + 16 \<le> x" "x + 16 * sz s x \<le> ubrk s" using inv(10) [of x] assms(2) by auto
  have b: "ubase s < x" using x by simp
  have fa: "ubase s \<noteq> h" using hx b by simp
  have t: "ubase t = ubase s" "ubrk t = ubrk s" "freep t = p" by (simp_all add: t_def)
  have ch: "chain (cells t) (ubase s # fs) (ubase s)" using inv(4) hn hx fa b unfolding t_def by simp
  have ok: "0 < sz t c \<and> 16 dvd c \<and> ubase s + 16 \<le> c \<and> c + 16 * sz t c \<le> ubrk s" if "c \<in> set fs \<union> insert h al" for c
  proof (cases "c = h")
    case True
    then show ?thesis using x hx assms(3) by (simp add: z h_def)
  next
    case False
    then have "0 < sz s c \<and> 16 dvd c \<and> ubase s + 16 \<le> c \<and> c + 16 * sz s c \<le> ubrk s" using inv(10) [of c] that by auto
    then show ?thesis using False assms(4) by (auto simp: z)
  qed
  have ap: "c + 16 * sz t c \<le> d" if cd: "c \<in> set fs \<union> insert h al" "d \<in> set fs \<union> insert h al" "c < d" for c d
  proof -
    consider "c = h" "d \<noteq> h" | "c \<noteq> h" "d = h" | "c \<noteq> h" "d \<noteq> h" using cd(3) by auto
    then show ?thesis
    proof cases
      case 1
      then have "x < d" using cd hx by simp
      then show ?thesis using 1 cd(2) inv(11) [of x d] assms(2) hx by (simp add: z)
    next
      case 2
      then show ?thesis using cd inv(11) [of c x] in_x [of c] assms(2) hx
        by (cases "c = x"; cases "c < x") (auto simp: z h_def)
    next
      case 3
      then show ?thesis using cd inv(11) [of c d] assms(4) by (auto simp: z)
    qed
  qed
  show "uinv t fs (insert h al)"
    unfolding uinv_def t
  proof (intro conjI)
    show "sz t (ubase s) = 0" using inv(5) fa b by (simp add: z)
    show "set fs \<inter> insert h al = {}" using inv(9) hn by auto
  qed (use inv(1-3,6-8) assms(5) ch ok ap in blast)+
  show "keeps al s t"
  proof (rule keepsI [of "{x, h}"])
    fix d c
    assume d: "d \<in> al" "c \<in> {x, h}"
    have "d \<noteq> x" using d inv(9) assms(2) by auto
    then have "d + 16 * sz s d \<le> x \<or> x + 16 * sz s x \<le> d"
      using inv(11) [of d x] inv(11) [of x d] d assms(2) by (cases "d < x") auto
    then show "c \<notin> {d..<d + 16 * sz s d}" using d hx assms(3) by auto
  qed (simp add: t_def)
qed

subsection \<open>More memory\<close>

lemma uinv_grow:
  assumes "uinv s fs al" "0 < nu" "ubrk s + 16 * nu \<le> 2 ^ 36"
  defines "t \<equiv> s\<lparr>ubrk := ubrk s + 16 * nu, cells := (cells s)(ubrk s := (cells s (ubrk s))\<lparr>h_size := nu\<rparr>)\<rparr>"
  shows "uinv t fs (insert (ubrk s) al)" "keeps al s t" "ubrk s \<notin> al"
proof -
  note inv = uinvD [OF assms(1)]
  have below: "c < ubrk s" if "c \<in> set fs \<union> al" for c using inv(10) [OF that] by simp
  have nb: "ubrk s \<notin> set fs" "ubrk s \<notin> al" "ubase s \<noteq> ubrk s" using below inv(8) by auto
  then show "ubrk s \<notin> al" by simp
  have t: "ubase t = ubase s" "freep t = freep s" "ubrk t = ubrk s + 16 * nu" by (simp_all add: t_def)
  have z: "sz t c = (if c = ubrk s then nu else sz s c)" for c by (simp add: t_def)
  have ch: "chain (cells t) (ubase s # fs) (ubase s)" using inv(4) nb unfolding t_def by simp
  have ok: "0 < sz t c \<and> 16 dvd c \<and> ubase s + 16 \<le> c \<and> c + 16 * sz t c \<le> ubrk s + 16 * nu" if "c \<in> set fs \<union> insert (ubrk s) al" for c
  proof (cases "c = ubrk s")
    case True
    then show ?thesis using inv(7,8) assms(2) by (simp add: z)
  next
    case False
    then have "0 < sz s c \<and> 16 dvd c \<and> ubase s + 16 \<le> c \<and> c + 16 * sz s c \<le> ubrk s" using inv(10) [of c] that by auto
    then show ?thesis using False by (simp add: z)
  qed
  have ap: "c + 16 * sz t c \<le> d" if cd: "c \<in> set fs \<union> insert (ubrk s) al" "d \<in> set fs \<union> insert (ubrk s) al" "c < d" for c d
  proof -
    have c: "c \<in> set fs \<union> al" "c \<noteq> ubrk s" using cd below [of d] by auto
    then show ?thesis using cd inv(10) [OF c(1)] inv(11) [OF c(1), of d] by (auto simp: z)
  qed
  show "uinv t fs (insert (ubrk s) al)"
    unfolding uinv_def t
  proof (intro conjI)
    show "sz t (ubase s) = 0" using inv(5) nb(3) by (simp add: z)
    show "set fs \<inter> insert (ubrk s) al = {}" using inv(9) nb by auto
    show "16 dvd ubrk s + 16 * nu" using inv(7) by simp
    show "ubase s + 16 \<le> ubrk s + 16 * nu" using inv(8) by simp
  qed (use inv(1-3) assms(3) ch ok ap in blast)+
  show "keeps al s t"
  proof (rule keepsI [of "{ubrk s}"])
    fix a c
    assume "a \<in> al" "c \<in> {ubrk s}"
    then show "c \<notin> {a..<a + 16 * sz s a}" using inv(10) [of a] by auto
  qed (simp add: t_def)
qed

lemma keeps_size: "keeps al s t \<Longrightarrow> uinv s fs al \<Longrightarrow> a \<in> al \<Longrightarrow> sz t a = sz s a"
  using uinvD(10) [of s fs al a] by (force simp: keeps_def)

lemma keeps_trans: "keeps al s t \<Longrightarrow> keeps al t u \<Longrightarrow> uinv s fs al \<Longrightarrow> keeps al s u"
  using keeps_size [of al s t] by (auto simp: keeps_def)

definition kernel_grants :: "(nat \<Rightarrow> int \<Rightarrow> bool) \<Rightarrow> bool" where
  "kernel_grants grant \<longleftrightarrow> (\<forall>b n. grant b n \<longrightarrow> int b + n \<le> 2 ^ 36)"

lemma morecore_ok:
  assumes "uinv s fs al" "kernel_grants grant" "n < 2 ^ 27"
  obtains (none) "morecore grant s n = Some (0, s)"
  | (more) t fs' d where "morecore grant s n = Some (freep t, t)" "uinv t fs' al" "keeps al s t" "d \<in> set fs'" "n \<le> sz t d"
proof -
  define nu where "nu = (if n < 4096 then 4096 else n)"
  have nu: "0 < nu" "n \<le> nu" "nu < 2 ^ 27" using assms(3) by (auto simp: nu_def)
  have i: "int32 (nu * 16) = int (16 * nu)"
  proof -
    have "nu * 16 < 2 ^ 31" using nu(3) by simp
    then show ?thesis unfolding int32_def signed_of_nat by (simp add: signed_take_bit_int_eq_self)
  qed
  show thesis
  proof (cases "grant (ubrk s) (int (16 * nu))")
    case True
    then have "int (ubrk s) + int (16 * nu) \<le> 2 ^ 36" using assms(2) by (auto simp: kernel_grants_def)
    then have "int (ubrk s + 16 * nu) \<le> int (2 ^ 36)" by simp
    then have le: "ubrk s + 16 * nu \<le> 2 ^ 36" by (simp only: of_nat_le_iff)
    let ?t = "s\<lparr>ubrk := ubrk s + 16 * nu, cells := (cells s)(ubrk s := (cells s (ubrk s))\<lparr>h_size := nu\<rparr>)\<rparr>"
    note g = uinv_grow [OF assms(1) nu(1) le]
    from free_ok [OF g(1), of "ubrk s"] obtain u fs' d where
      u: "free ?t (ubrk s + 16) = Some u" "uinv u fs' (insert (ubrk s) al - {ubrk s})" "keeps (insert (ubrk s) al - {ubrk s}) ?t u"
        "d \<in> set fs'" "d \<le> ubrk s" "ubrk s + 16 * sz ?t (ubrk s) \<le> d + 16 * sz u d" by auto
    have al: "insert (ubrk s) al - {ubrk s} = al" using g(3) by auto
    have "nat (int (ubrk s) + int (16 * nu)) = ubrk s + 16 * nu" by linarith
    then have "morecore grant s n = Some (freep u, u)"
      using True u(1) nu(1) unfolding morecore_def nu_def [symmetric] Let_def i by (simp add: sbrk_def)
    then show thesis
    proof (rule more)
      show "uinv u fs' al" using u(2) unfolding al .
      show "keeps al s u" using keeps_trans [OF g(2) u(3) [unfolded al] assms(1)] .
      show "n \<le> sz u d" using u(5,6) nu(2) by simp
    qed (rule u(4))
  next
    case False
    then have "morecore grant s n = Some (0, s)"
      using nu(1) unfolding morecore_def nu_def [symmetric] Let_def i by (simp add: sbrk_def)
    then show thesis by (rule none)
  qed
qed

subsection \<open>The search for a block\<close>

lemma malloc_search:
  assumes "chain (cells s) (q # ws) e" "ws \<noteq> []" "last ws = freep s" "distinct ws"
  shows "if \<forall>a \<in> set ws. sz s a < n
    then malloc_loop grant s n q (hd ws) = Option.bind (morecore grant s n) (\<lambda>(p, s).
             if p = 0 then Some (0, s) else malloc_loop grant s n p (h_ptr (cells s p)))
    else \<exists>a x. a \<in> set (q # ws) \<and> x \<in> set ws \<and> h_ptr (cells s a) = x \<and> n \<le> sz s x \<and> malloc_loop grant s n q (hd ws) = Some (malloc_take s n a x)"
  using assms
proof (induction ws arbitrary: q)
  case (Cons x ws)
  show ?case
  proof (cases "n \<le> sz s x")
    case True
    then have "malloc_loop grant s n q x = Some (malloc_take s n q x)" by (simp add: malloc_loop.simps [of grant s n q x])
    then show ?thesis using Cons.prems(1) True by (auto simp: not_less intro!: exI [of _ q])
  next
    case small: False
    show ?thesis
    proof (cases "ws = []")
      case True
      then have "x = freep s" using Cons.prems(3) by simp
      then have "malloc_loop grant s n q x = Option.bind (morecore grant s n) (\<lambda>(p, s).
             if p = 0 then Some (0, s) else malloc_loop grant s n p (h_ptr (cells s p)))"
        using small by (subst malloc_loop.simps) simp
      then show ?thesis using small True by simp
    next
      case False
      then have "x \<noteq> freep s" using Cons.prems(3,4) by (metis distinct.simps(2) last_ConsR last_in_set)
      moreover have "h_ptr (cells s x) = hd ws" using Cons.prems(1) False by (cases ws) auto
      ultimately have "malloc_loop grant s n q x = malloc_loop grant s n x (hd ws)"
        using small by (simp add: malloc_loop.simps [of grant s n q x])
      moreover note Cons.IH [of x]
      ultimately show ?thesis using Cons.prems False small by (auto simp: not_less split: if_splits)
    qed
  qed
qed simp

text \<open>The search starts behind \<open>freep\<close> and ends there after one round.\<close>

lemma malloc_round:
  assumes "uinv s fs al" "0 < n"
  shows "if \<forall>a \<in> set fs. sz s a < n
    then malloc_loop grant s n (freep s) (h_ptr (cells s (freep s))) = Option.bind (morecore grant s n) (\<lambda>(p, s).
             if p = 0 then Some (0, s) else malloc_loop grant s n p (h_ptr (cells s p)))
    else \<exists>us a x vs. ubase s # fs = us @ a # x # vs \<and> n \<le> sz s x \<and>
      malloc_loop grant s n (freep s) (h_ptr (cells s (freep s))) = Some (malloc_take s n a x)"
proof -
  note inv = uinvD [OF assms(1)]
  obtain us vs where y: "ubase s # fs = us @ freep s # vs" using inv(2) by (meson split_list)
  let ?ws = "vs @ us @ [freep s]"
  have set: "set ?ws = set (ubase s # fs)" using y by auto
  have d: "distinct (us @ freep s # vs)" using inv(3) unfolding y by (simp add: strict_sorted_iff)
  have c: "chain (cells s) (us @ freep s # vs) (ubase s)" using inv(4) unfolding y .
  have h: "hd (us @ [freep s]) = ubase s" using y by (cases us) auto
  have h': "hd ((us @ [freep s]) @ zs) = ubase s" for zs using h by (cases us) auto
  have e: "hd ?ws = hd (vs @ [ubase s])" using h by (cases vs) auto
  have "chain (cells s) us (freep s)" "chain (cells s) (freep s # vs) (ubase s)" using c by (simp_all add: chain_append)
  then have ch: "chain (cells s) (freep s # ?ws) (hd ?ws)"
    using chain_append [of "cells s" "freep s # vs" "us @ [freep s]" "hd ?ws"] chain_append [of "cells s" us "[freep s]" "hd ?ws"]
    unfolding h' e by simp
  then have p: "h_ptr (cells s (freep s)) = hd ?ws" by (cases vs; cases us) auto
  have all: "(\<forall>a \<in> set ?ws. sz s a < n) \<longleftrightarrow> (\<forall>a \<in> set fs. sz s a < n)" unfolding set using inv(5) assms(2) by simp
  have find: "\<exists>us vs. ubase s # fs = us @ a # x # vs" if "a \<in> set (freep s # ?ws)" "x \<in> set ?ws" "h_ptr (cells s a) = x" "n \<le> sz s x" for a x
  proof -
    have "x \<noteq> ubase s" using that(4) inv(5) assms(2) by auto
    have "a \<in> set (ubase s # fs)" using that(1) set by auto
    then obtain us vs where a: "ubase s # fs = us @ a # vs" by (meson split_list)
    then have "chain (cells s) (us @ a # vs) (ubase s)" using inv(4) by simp
    then have "hd (vs @ [ubase s]) = x" using that(3) by (simp add: chain_append)
    then have "vs = x # tl vs" using \<open>x \<noteq> ubase s\<close> by (cases vs) auto
    then show ?thesis using a by metis
  qed
  have "?ws \<noteq> []" "last ?ws = freep s" "distinct ?ws" using d by auto
  note r = malloc_search [OF ch this, of n grant, unfolded all, folded p]
  show ?thesis
  proof (cases "\<forall>a \<in> set fs. sz s a < n")
    case True
    then show ?thesis using r by simp
  next
    case False
    from r [unfolded if_not_P [OF False]] obtain a x where "a \<in> set (freep s # ?ws)" "x \<in> set ?ws" "h_ptr (cells s a) = x" "n \<le> sz s x"
        "malloc_loop grant s n (freep s) (h_ptr (cells s (freep s))) = Some (malloc_take s n a x)"
      by blast
    then show ?thesis unfolding if_not_P [OF False] using find [of a x] by blast
  qed
qed

lemma take_ok:
  assumes "uinv s fs al" "ubase s # fs = us @ a # x # vs" "0 < n" "n \<le> sz s x"
  obtains h t fs' where "malloc_take s n a x = (h + 16, t)" "uinv t fs' (insert h al)" "keeps al s t" "h \<notin> al" "sz t h = n"
proof (cases "sz s x = n")
  case True
  have "a \<noteq> x" using uinvD(3) [OF assms(1)] unfolding assms(2) by (auto simp: sorted_wrt_append)
  then show thesis using take_exact [OF assms(1,2)] True that [of x] by (auto simp: malloc_take_def Let_def)
next
  case False
  have "x \<in> set fs" "a \<in> set (ubase s # fs)" using assms(2) by (cases us; auto)+
  moreover have "n < sz s x" using False assms(4) by simp
  moreover note take_tail [OF assms(1) _ assms(3), of x a]
  ultimately show thesis using that [of "x + 16 * (sz s x - n)"] False assms(3) by (auto simp: malloc_take_def Let_def)
qed

lemma malloc_loop_ok:
  assumes "uinv s fs al" "kernel_grants grant" "0 < n" "n < 2 ^ 27"
  obtains (none) t where "malloc_loop grant s n (freep s) (h_ptr (cells s (freep s))) = Some (0, t)" "t = s"
  | (some) h t fs' where "malloc_loop grant s n (freep s) (h_ptr (cells s (freep s))) = Some (h + 16, t)"
      "uinv t fs' (insert h al)" "keeps al s t" "h \<notin> al" "sz t h = n"
proof (cases "\<forall>a \<in> set fs. sz s a < n")
  case False
  then obtain us a x vs where "ubase s # fs = us @ a # x # vs" "n \<le> sz s x"
      "malloc_loop grant s n (freep s) (h_ptr (cells s (freep s))) = Some (malloc_take s n a x)"
    using malloc_round [OF assms(1,3), of grant] by (auto split: if_splits)
  then show thesis using take_ok [OF assms(1) _ assms(3)] some by metis
next
  case True
  then have m: "malloc_loop grant s n (freep s) (h_ptr (cells s (freep s))) = Option.bind (morecore grant s n) (\<lambda>(p, s).
             if p = 0 then Some (0, s) else malloc_loop grant s n p (h_ptr (cells s p)))"
    using malloc_round [OF assms(1,3), of grant] by simp
  show thesis
  proof (cases rule: morecore_ok [OF assms(1,2,4)])
    case 1
    then show ?thesis using m none by simp
  next
    case (2 t fs' d)
    have "freep t \<noteq> 0" using uinvD(1,2) [OF 2(2)] uinvD(10) [OF 2(2), of "freep t"] by auto
    then have "malloc_loop grant s n (freep s) (h_ptr (cells s (freep s))) = malloc_loop grant t n (freep t) (h_ptr (cells t (freep t)))"
      using m 2(1) by simp
    moreover have "\<not> (\<forall>a \<in> set fs'. sz t a < n)" using 2(4,5) by (metis leD)
    then obtain us a x vs where "ubase t # fs' = us @ a # x # vs" "n \<le> sz t x"
        "malloc_loop grant t n (freep t) (h_ptr (cells t (freep t))) = Some (malloc_take t n a x)"
      using malloc_round [OF 2(2) assms(3), of grant] by (auto split: if_splits)
    moreover from take_ok [OF 2(2) this(1) assms(3) this(2)] obtain h u fs'' where
      "malloc_take t n a x = (h + 16, u)" "uinv u fs'' (insert h al)" "keeps al t u" "h \<notin> al" "sz u h = n" by metis
    ultimately show ?thesis using some [of h u fs''] keeps_trans [OF 2(3) _ assms(1)] by simp
  qed
qed

section \<open>Properties\<close>

text \<open>The heap of a program that holds the blocks \<open>al\<close>; before the first call of \<open>malloc\<close> there are none.\<close>

definition heap_ok :: "uheap \<Rightarrow> nat set \<Rightarrow> bool" where
  "heap_ok s al \<longleftrightarrow>
     (\<exists>fs. uinv s fs al) \<or>
     (freep s = 0 \<and> al = {} \<and> 0 < ubase s \<and> ubase s + 16 \<le> ubrk s \<and> 16 dvd ubrk s \<and> ubrk s \<le> 2 ^ 36)"

lemma units_bound: "nbytes \<le> 2 ^ 31 - 32 \<Longrightarrow> 0 < units nbytes \<and> units nbytes < 2 ^ 27 \<and> nbytes \<le> 16 * (units nbytes - 1) \<and> 16 * (units nbytes - 1) < nbytes + 16"
  by (simp add: units_def uint32_def) presburger

lemma malloc_init:
  assumes "heap_ok s al"
  obtains s1 fs where "uinv s1 fs al" "keeps al s s1" "\<And>a. a \<in> al \<Longrightarrow> sz s1 a = sz s a"
    "malloc grant s nbytes = malloc_loop grant s1 (units nbytes) (freep s1) (h_ptr (cells s1 (freep s1)))"
proof (cases "\<exists>fs. uinv s fs al")
  case True
  then obtain fs where i: "uinv s fs al" by blast
  then have "freep s \<noteq> 0" using uinvD(1,2) [OF i] uinvD(10) [OF i, of "freep s"] by auto
  then show thesis using that [OF i] by (simp add: malloc_def keeps_def)
next
  case False
  then have f: "freep s = 0" "al = {}" "0 < ubase s" "ubase s + 16 \<le> ubrk s" "16 dvd ubrk s" "ubrk s \<le> 2 ^ 36"
    using assms by (auto simp: heap_ok_def)
  let ?t = "s\<lparr>freep := ubase s, cells := (cells s)(ubase s := \<lparr>h_ptr = ubase s, h_size = 0\<rparr>)\<rparr>"
  have "uinv ?t [] al" using f by (simp add: uinv_def)
  then show thesis using that [of ?t "[]"] f by (simp add: malloc_def keeps_def)
qed

text \<open>C24: the allocator of user programs gives out disjoint blocks and always returns. For a request
  below 2 GiB \<open>malloc\<close> either reports that the kernel refused memory, or returns the aligned address of
  a block that is big enough and disjoint from every block the program holds, and either way leaves the
  contents of those blocks alone; \<open>free\<close> takes a block back and leaves the others alone. In particular
  the searches through the circular free list end.\<close>

theorem allocator_correct:
  assumes "heap_ok s al" "kernel_grants grant"
  shows "(nbytes \<le> 2 ^ 31 - 32 \<longrightarrow>
          (\<exists>t. malloc grant s nbytes = Some (0, t) \<and> heap_ok t al \<and> keeps al s t) \<or>
          (\<exists>h t. malloc grant s nbytes = Some (h + 16, t) \<and> heap_ok t (insert h al) \<and> keeps al s t \<and> 16 dvd h + 16 \<and>
             nbytes \<le> 16 * (sz t h - 1) \<and> h + 16 * sz t h \<le> ubrk t \<and>
             (\<forall>a \<in> al. a + 16 * sz s a \<le> h \<or> h + 16 * sz t h \<le> a))) \<and>
         (bp \<in> al \<longrightarrow> (\<exists>t. free s (bp + 16) = Some t \<and> heap_ok t (al - {bp}) \<and> keeps (al - {bp}) s t))"
proof (intro conjI impI)
  assume "nbytes \<le> 2 ^ 31 - 32"
  note n = units_bound [OF this]
  obtain s1 fs where s1: "uinv s1 fs al" "keeps al s s1" "\<And>a. a \<in> al \<Longrightarrow> sz s1 a = sz s a"
    and m: "malloc grant s nbytes = malloc_loop grant s1 (units nbytes) (freep s1) (h_ptr (cells s1 (freep s1)))"
    using malloc_init [OF assms(1), of grant nbytes] by metis
  show "(\<exists>t. malloc grant s nbytes = Some (0, t) \<and> heap_ok t al \<and> keeps al s t) \<or>
        (\<exists>h t. malloc grant s nbytes = Some (h + 16, t) \<and> heap_ok t (insert h al) \<and> keeps al s t \<and> 16 dvd h + 16 \<and>
             nbytes \<le> 16 * (sz t h - 1) \<and> h + 16 * sz t h \<le> ubrk t \<and> (\<forall>a \<in> al. a + 16 * sz s a \<le> h \<or> h + 16 * sz t h \<le> a))"
  proof (cases rule: malloc_loop_ok [OF s1(1) assms(2), of "units nbytes"])
    case 3
    then show ?thesis using m s1 by (auto simp: heap_ok_def)
  next
    case (4 h t fs')
    note inv = uinvD [OF 4(2)]
    have k: "keeps al s t" using s1(2,3) 4(3) by (auto simp: keeps_def)
    have "a + 16 * sz s a \<le> h \<or> h + 16 * sz t h \<le> a" if a: "a \<in> al" for a
    proof -
      have "sz t a = sz s a" using keeps_size [OF 4(3) s1(1) a] s1(3) [OF a] by simp
      then show ?thesis using inv(11) [of a h] inv(11) [of h a] a 4(4) by (cases a h rule: linorder_cases) auto
    qed
    moreover have "16 dvd h + 16" "h + 16 * sz t h \<le> ubrk t" using inv(10) [of h] by auto
    ultimately show ?thesis using m 4 k n by (intro disjI2 exI [of _ h] exI [of _ t]) (auto simp: heap_ok_def)
  qed (use n in auto)
next
  assume bp: "bp \<in> al"
  then obtain fs where "uinv s fs al" using assms(1) by (auto simp: heap_ok_def)
  from free_ok [OF this bp] show "\<exists>t. free s (bp + 16) = Some t \<and> heap_ok t (al - {bp}) \<and> keeps (al - {bp}) s t"
    by (auto simp: heap_ok_def)
qed

section \<open>Requests of 2 GiB and more\<close>

text \<open>\<open>morecore\<close> multiplies the units by 16 and passes the product to \<open>sbrk\<close> as an \<open>int\<close>. From 2 GiB on the
  product is negative or too small, the kernel grants nothing, and \<open>malloc\<close> still returns a block, which
  begins at the end of the process's memory.\<close>

definition heap_ex :: uheap where
  "heap_ex = \<lparr>cells = (\<lambda>_. \<lparr>h_ptr = 0, h_size = 0\<rparr>), ubase = 8192, freep = 0, ubrk = 16384\<rparr>"

lemmas malloc_steps = malloc_loop.simps [of _ _ _ 8192] free_find.simps [of _ 16384 8192] malloc_def morecore_def sbrk_def free_def
  free_join_def malloc_take_def units_def uint32_def int32_def Let_def heap_ex_def

theorem malloc_past_the_end: "\<exists>t. malloc (\<lambda>_ _. False) heap_ex (2 ^ 31) = Some (16400, t) \<and> ubrk t = 16384"
  by (simp add: malloc_steps)

section \<open>Witnesses\<close>

definition grant_ex :: "nat \<Rightarrow> int \<Rightarrow> bool" where
  "grant_ex b n \<longleftrightarrow> int b + n \<le> 2 ^ 20"

lemma malloc_ex: "\<exists>t. malloc grant_ex heap_ex 100 = Some (81808, t)"
  by (simp add: malloc_steps grant_ex_def)

theorem allocator_correct_witness:
  "\<exists>t u. malloc grant_ex heap_ex 100 = Some (81808, t) \<and> heap_ok t {81792} \<and> free t 81808 = Some u \<and> heap_ok u {}"
proof -
  have g: "kernel_grants grant_ex" by (auto simp: kernel_grants_def grant_ex_def)
  have h: "heap_ok heap_ex {}" by (simp add: heap_ok_def heap_ex_def)
  obtain t where t: "malloc grant_ex heap_ex 100 = Some (81808, t)" using malloc_ex by blast
  then have o: "heap_ok t {81792}" using allocator_correct [OF h g, of 100] by auto
  moreover obtain u where "free t 81808 = Some u" "heap_ok u {}" using allocator_correct [OF o g, of 100 81792] by auto
  ultimately show ?thesis using t by blast
qed

end
