(* ===== verification/User.thy ===== *)
theory User
  imports Ulib Sysfile
begin

text \<open>
  User programs, and the routines of \<open>user/ulib.c\<close> and \<open>user/printf.c\<close> that make system calls.

  A user program is a tree of system calls: it either exits or makes a system call of
  \<open>user/user.h\<close> and goes on with what the kernel replies. A call of \<open>fork\<close> is an ordinary node
  whose two continuations are the reply 0 (the child) and the child's id (the parent). A C function
  of a program takes the rest of the program as its last argument, so that a call of \<open>exit\<close>
  inside it drops the rest. A loop whose number of rounds depends on the kernel's replies has
  fuel; \<open>OutOfFuel\<close> is a program that has not got to its end within it.

  C strings are lists of characters without the terminating NUL; a character array that holds a
  NUL ends there when it is read as a string.
\<close>

section \<open>System calls seen from a program\<close>

datatype sysreq =
    SysFork | SysWait bool | SysPipe | SysWrite int string | SysRead int int | SysClose int | SysKill int
  | SysExec string "string list" | SysOpen string int | SysMknod string int int | SysUnlink string | SysFstat int
  | SysLink string string | SysMkdir string | SysChdir string | SysDup int | SysGetpid | SysSbrk int int
  | SysPause int | SysUptime | SysSync | SysTrace int | SysRaceInc int int | SysRaceGet | SysRaceReset

text \<open>A reply: the value returned, and what the call stores in the caller's memory: the bytes of a
  \<open>read\<close>, the descriptors of a \<open>pipe\<close>, the status of a \<open>wait\<close> and the \<open>struct stat\<close>
  of an \<open>fstat\<close>.\<close>

record reply =
  ret :: int
  bytes :: string
  pfds :: "int \<times> int"
  xstatus :: int
  ust :: stat

datatype uprog = Exit int | Sys sysreq "reply \<Rightarrow> uprog" | OutOfFuel

text \<open>Running a program against an environment that answers its calls.\<close>

primrec run :: "(sysreq \<Rightarrow> 'w \<Rightarrow> reply \<times> 'w) \<Rightarrow> uprog \<Rightarrow> 'w \<Rightarrow> (int \<times> 'w) option" where
  "run h (Exit c) = (\<lambda>w. Some (c, w))"
| "run h (Sys q k) = (\<lambda>w. case h q w of (r, w') \<Rightarrow> run h (k r) w')"
| "run h OutOfFuel = (\<lambda>w. None)"

section \<open>The user library\<close>

abbreviation nl :: string where "nl \<equiv> [CHR 0x0A]"

definition call :: "sysreq \<Rightarrow> uprog \<Rightarrow> uprog" where
  "call q k = Sys q (\<lambda>r. k)"

text \<open>\<open>fprintf\<close> sends each character with a \<open>write\<close> of its own (\<open>putc\<close>).\<close>

definition putc :: "int \<Rightarrow> char \<Rightarrow> uprog \<Rightarrow> uprog" where
  "putc fd c k = call (SysWrite fd [c]) k"

definition fprintf :: "int \<Rightarrow> string \<Rightarrow> varg list \<Rightarrow> uprog \<Rightarrow> uprog" where
  "fprintf fd fmt as k = foldr (putc fd) (vprintf False fmt as) k"

text \<open>\<open>gets\<close> reads a line of less than \<open>max\<close> characters from descriptor 0, one at a time.\<close>

function gets_loop :: "int \<Rightarrow> string \<Rightarrow> (string \<Rightarrow> uprog) \<Rightarrow> uprog" where
  "gets_loop mx buf k =
     (if int (length buf) + 1 < mx then
        Sys (SysRead 0 1) (\<lambda>r.
          if ret r < 1 then k buf
          else let c = char_at (bytes r) 0 in
            if c = CHR 0x0A \<or> c = CHR 0x0D then k (buf @ [c]) else gets_loop mx (buf @ [c]) k)
      else k buf)"
  by pat_completeness auto
termination
  by (relation "measure (\<lambda>(mx, buf, k). nat mx - length buf)") auto

declare gets_loop.simps [simp del]

definition gets :: "int \<Rightarrow> (string \<Rightarrow> uprog) \<Rightarrow> uprog" where
  "gets mx k = gets_loop mx [] k"

definition stat_call :: "string \<Rightarrow> stat \<Rightarrow> (int \<Rightarrow> stat \<Rightarrow> uprog) \<Rightarrow> uprog" where
  "stat_call n st k =
     Sys (SysOpen n O_RDONLY) (\<lambda>f.
       if ret f < 0 then k (-1) st
       else Sys (SysFstat (ret f)) (\<lambda>r. call (SysClose (ret f)) (k (ret r) (ust r))))"

section \<open>Lemmas\<close>

lemma run_call [simp]: "run h (call q k) w = run h k (snd (h q w))"
  by (simp add: call_def split: prod.split)

section \<open>Environments\<close>

text \<open>What a program sees of one input file and of its standard output: \<open>read\<close> takes some bytes,
  none only at the end of the file or when none are asked for, from the front of what is left, and
  \<open>write\<close> appends.\<close>

definition io_env :: "(sysreq \<Rightarrow> 'w \<Rightarrow> reply \<times> 'w) \<Rightarrow> int \<Rightarrow> ('w \<Rightarrow> string) \<Rightarrow> ('w \<Rightarrow> string) \<Rightarrow> bool" where
  "io_env h fd inp out \<longleftrightarrow>
     (\<forall>n w. case h (SysRead fd n) w of (r, w') \<Rightarrow>
        ret r = int (length (bytes r)) \<and> inp w = bytes r @ inp w' \<and> length (bytes r) \<le> nat n \<and>
        (0 < n \<and> bytes r = [] \<longrightarrow> inp w = []) \<and> out w' = out w) \<and>
     (\<forall>s w. case h (SysWrite 1 s) w of (r, w') \<Rightarrow> ret r = int (length s) \<and> out w' = out w @ s \<and> inp w' = inp w)"

lemma io_env_read:
  assumes "io_env h fd inp out" "h (SysRead fd n) w = (r, w')"
  shows "ret r = int (length (bytes r))" "inp w = bytes r @ inp w'" "length (bytes r) \<le> nat n"
    "0 < n \<Longrightarrow> bytes r = [] \<Longrightarrow> inp w = []" "out w' = out w"
proof -
  have "case h (SysRead fd n) w of (r, w') \<Rightarrow>
      ret r = int (length (bytes r)) \<and> inp w = bytes r @ inp w' \<and> length (bytes r) \<le> nat n \<and>
      (0 < n \<and> bytes r = [] \<longrightarrow> inp w = []) \<and> out w' = out w"
    by (rule assms(1) [unfolded io_env_def, THEN conjunct1, THEN spec, THEN spec])
  then show "ret r = int (length (bytes r))" "inp w = bytes r @ inp w'" "length (bytes r) \<le> nat n"
    "0 < n \<Longrightarrow> bytes r = [] \<Longrightarrow> inp w = []" "out w' = out w"
    unfolding assms(2) prod.case by blast+
qed

lemma io_env_write:
  assumes "io_env h fd inp out"
  shows "inp (snd (h (SysWrite 1 s) w)) = inp w" "out (snd (h (SysWrite 1 s) w)) = out w @ s"
    and io_env_written: "ret (fst (h (SysWrite 1 s) w)) = int (length s)"
proof -
  have "case h (SysWrite 1 s) w of (r, w') \<Rightarrow> ret r = int (length s) \<and> out w' = out w @ s \<and> inp w' = inp w"
    by (rule assms [unfolded io_env_def, THEN conjunct2, THEN spec, THEN spec])
  then show "inp (snd (h (SysWrite 1 s) w)) = inp w" "out (snd (h (SysWrite 1 s) w)) = out w @ s"
    "ret (fst (h (SysWrite 1 s) w)) = int (length s)"
    by (simp_all add: case_prod_beta)
qed

text \<open>An environment with a file that is delivered three bytes at a time.\<close>

definition bytes_reply :: "string \<Rightarrow> reply" where
  "bytes_reply s = \<lparr>ret = int (length s), bytes = s, pfds = (0, 0), xstatus = 0, ust = \<lparr>st_dev = 0, st_ino = 0, st_type = 0, st_nlink = 0, st_size = 0\<rparr>\<rparr>"

fun io_ex :: "sysreq \<Rightarrow> string \<times> string \<Rightarrow> reply \<times> string \<times> string" where
  "io_ex (SysRead fd n) (i, out) = (let k = min 3 (nat n) in (bytes_reply (take k i), drop k i, out))"
| "io_ex (SysWrite fd s) (i, out) = (bytes_reply s, i, out @ s)"
| "io_ex _ w = (bytes_reply [], w)"

lemma io_ex_env: "io_env io_ex fd fst snd"
  by (auto simp: io_env_def bytes_reply_def Let_def split: prod.splits)

end
