(* ===== verification/Utils.thy ===== *)
theory Utils
  imports User
begin

text \<open>
  The small user programs of \<open>user/\<close>: \<open>cat\<close>, \<open>echo\<close>, \<open>wc\<close>, \<open>ls\<close>, \<open>mkdir\<close>,
  \<open>rm\<close>, \<open>ln\<close>, \<open>kill\<close>, \<open>trace\<close>, \<open>uptime\<close>, \<open>sync\<close>, \<open>hello\<close>, \<open>init\<close> and the
  demonstration programs \<open>zombie\<close>, \<open>forktest\<close>, \<open>forphan\<close>, \<open>dorphan\<close>, \<open>logstress\<close>
  and \<open>stressfs\<close>. Each \<open>main\<close> is the program it runs; its fuel bounds the rounds of its
  loops over system calls.
\<close>

section \<open>Programs\<close>

subsection \<open>cat, echo, wc\<close>

fun cat :: "nat \<Rightarrow> int \<Rightarrow> uprog \<Rightarrow> uprog" where
  "cat 0 fd k = OutOfFuel"
| "cat (Suc f) fd k =
     Sys (SysRead fd 512) (\<lambda>r.
       if ret r > 0 then
         Sys (SysWrite 1 (take (nat (ret r)) (bytes r))) (\<lambda>w.
           if ret w \<noteq> ret r then fprintf 2 (''cat: write error'' @ nl) [] (Exit 1) else cat f fd k)
       else if ret r < 0 then fprintf 2 (''cat: read error'' @ nl) [] (Exit 1)
       else k)"

fun cat_files :: "nat \<Rightarrow> string list \<Rightarrow> uprog" where
  "cat_files f [] = Exit 0"
| "cat_files f (a # as) =
     Sys (SysOpen a O_RDONLY) (\<lambda>r.
       if ret r < 0 then fprintf 2 (''cat: cannot open %s'' @ nl) [S (Some a)] (Exit 1)
       else cat f (ret r) (call (SysClose (ret r)) (cat_files f as)))"

definition cat_main :: "nat \<Rightarrow> string list \<Rightarrow> uprog" where
  "cat_main f argv = (if length argv \<le> 1 then cat f 0 (Exit 0) else cat_files f (tl argv))"

fun echo_args :: "string list \<Rightarrow> uprog" where
  "echo_args [] = Exit 0"
| "echo_args (a # as) =
     call (SysWrite 1 a) (call (SysWrite 1 (if as \<noteq> [] then '' '' else nl)) (echo_args as))"

definition echo_main :: "string list \<Rightarrow> uprog" where
  "echo_main argv = echo_args (tl argv)"

text \<open>The counters of \<open>wc\<close>: lines, words, characters, and whether the last character was in a word.\<close>

type_synonym wcs = "u32 \<times> u32 \<times> u32 \<times> bool"

definition wc_space :: string where
  "wc_space = '' '' @ [CHR 0x0D, CHR 0x09, CHR 0x0A, CHR 0x0B]"

fun wc_char :: "char \<Rightarrow> wcs \<Rightarrow> wcs" where
  "wc_char x (l, w, c, inword) =
     (let c = c + 1; l = (if x = CHR 0x0A then l + 1 else l)
      in if strchr wc_space x \<noteq> None then (l, w, c, False)
         else if \<not> inword then (l, w + 1, c, True)
         else (l, w, c, inword))"

fun wc_loop :: "nat \<Rightarrow> int \<Rightarrow> string \<Rightarrow> wcs \<Rightarrow> uprog \<Rightarrow> uprog" where
  "wc_loop 0 fd name st k = OutOfFuel"
| "wc_loop (Suc f) fd name st k =
     Sys (SysRead fd 512) (\<lambda>r.
       if ret r > 0 then wc_loop f fd name (fold wc_char (take (nat (ret r)) (bytes r)) st) k
       else if ret r < 0 then fprintf 1 (''wc: read error'' @ nl) [] (Exit 1)
       else case st of (l, w, c, _) \<Rightarrow>
         fprintf 1 (''%d %d %d %s'' @ nl) [W (ucast l), W (ucast w), W (ucast c), S (Some name)] k)"

definition wc :: "nat \<Rightarrow> int \<Rightarrow> string \<Rightarrow> uprog \<Rightarrow> uprog" where
  "wc f fd name k = wc_loop f fd name (0, 0, 0, False) k"

fun wc_files :: "nat \<Rightarrow> string list \<Rightarrow> uprog" where
  "wc_files f [] = Exit 0"
| "wc_files f (a # as) =
     Sys (SysOpen a O_RDONLY) (\<lambda>r.
       if ret r < 0 then fprintf 1 (''wc: cannot open %s'' @ nl) [S (Some a)] (Exit 1)
       else wc f (ret r) a (call (SysClose (ret r)) (wc_files f as)))"

definition wc_main :: "nat \<Rightarrow> string list \<Rightarrow> uprog" where
  "wc_main f argv = (if length argv \<le> 1 then wc f 0 [] (Exit 0) else wc_files f (tl argv))"

subsection \<open>ls\<close>

definition fmtname :: "string \<Rightarrow> string" where
  "fmtname path =
     (let p = rev (takeWhile (\<lambda>c. c \<noteq> CHR ''/'') (rev path))
      in if length p \<ge> DIRSIZ then p else p @ replicate (DIRSIZ - length p) CHR '' '')"

definition ls_line :: "string \<Rightarrow> stat \<Rightarrow> uprog \<Rightarrow> uprog" where
  "ls_line path st k =
     fprintf 1 (''%s %d %d %d'' @ nl)
       [S (Some (fmtname path)), W (of_int (st_type st)), W (of_nat (st_ino st)), W (st_size st)] k"

fun ls_dir :: "nat \<Rightarrow> int \<Rightarrow> string \<Rightarrow> stat \<Rightarrow> uprog \<Rightarrow> uprog" where
  "ls_dir 0 fd path st k = OutOfFuel"
| "ls_dir (Suc f) fd path st k =
     Sys (SysRead fd 16) (\<lambda>r.
       if ret r \<noteq> 16 then k
       else if (of_char (char_at (bytes r) 0) :: nat) + 256 * of_char (char_at (bytes r) 1) = 0 then ls_dir f fd path st k
       else let buf = path @ ''/'' @ takeWhile (\<lambda>c. c \<noteq> CHR 0x00) (take DIRSIZ (drop 2 (bytes r)))
            in stat_call buf st (\<lambda>e st.
                 if e < 0 then fprintf 1 (''ls: cannot stat %s'' @ nl) [S (Some buf)] (ls_dir f fd path st k)
                 else ls_line buf st (ls_dir f fd path st k)))"

definition ls :: "nat \<Rightarrow> string \<Rightarrow> uprog \<Rightarrow> uprog" where
  "ls f path k =
     Sys (SysOpen path O_RDONLY) (\<lambda>ro.
       if ret ro < 0 then fprintf 2 (''ls: cannot open %s'' @ nl) [S (Some path)] k
       else let fd = ret ro; fin = call (SysClose fd) k in
         Sys (SysFstat fd) (\<lambda>r.
           if ret r < 0 then fprintf 2 (''ls: cannot stat %s'' @ nl) [S (Some path)] fin
           else let st = ust r in
             if st_type st = T_DEVICE \<or> st_type st = T_FILE then ls_line path st fin
             else if st_type st = T_DIR then
               (if length path + 1 + DIRSIZ + 1 > 512 then fprintf 1 (''ls: path too long'' @ nl) [] fin
                else ls_dir f fd path st fin)
             else fin))"

fun ls_files :: "nat \<Rightarrow> string list \<Rightarrow> uprog" where
  "ls_files f [] = Exit 0"
| "ls_files f (a # as) = ls f a (ls_files f as)"

definition ls_main :: "nat \<Rightarrow> string list \<Rightarrow> uprog" where
  "ls_main f argv = (if length argv < 2 then ls f ''.'' (Exit 0) else ls_files f (tl argv))"

subsection \<open>mkdir, rm, ln, kill, trace, uptime, sync, hello\<close>

fun mkdir_args :: "string list \<Rightarrow> uprog" where
  "mkdir_args [] = Exit 0"
| "mkdir_args (a # as) =
     Sys (SysMkdir a) (\<lambda>r.
       if ret r < 0 then fprintf 2 (''mkdir: %s failed to create'' @ nl) [S (Some a)] (Exit 0) else mkdir_args as)"

definition mkdir_main :: "string list \<Rightarrow> uprog" where
  "mkdir_main argv =
     (if length argv < 2 then fprintf 2 (''Usage: mkdir files...'' @ nl) [] (Exit 1) else mkdir_args (tl argv))"

fun rm_args :: "string list \<Rightarrow> uprog" where
  "rm_args [] = Exit 0"
| "rm_args (a # as) =
     Sys (SysUnlink a) (\<lambda>r.
       if ret r < 0 then fprintf 2 (''rm: %s failed to delete'' @ nl) [S (Some a)] (Exit 0) else rm_args as)"

definition rm_main :: "string list \<Rightarrow> uprog" where
  "rm_main argv =
     (if length argv < 2 then fprintf 2 (''Usage: rm files...'' @ nl) [] (Exit 1) else rm_args (tl argv))"

definition ln_main :: "string list \<Rightarrow> uprog" where
  "ln_main argv =
     (if length argv \<noteq> 3 then fprintf 2 (''Usage: ln old new'' @ nl) [] (Exit 1)
      else Sys (SysLink (argv ! 1) (argv ! 2)) (\<lambda>r.
        if ret r < 0 then fprintf 2 (''link %s %s: failed'' @ nl) [S (Some (argv ! 1)), S (Some (argv ! 2))] (Exit 0)
        else Exit 0))"

definition kill_main :: "string list \<Rightarrow> uprog" where
  "kill_main argv =
     (if length argv < 2 then fprintf 2 (''usage: kill pid...'' @ nl) [] (Exit 1)
      else foldr (\<lambda>a k. call (SysKill (atoi a)) k) (tl argv) (Exit 0))"

definition trace_main :: "string list \<Rightarrow> uprog" where
  "trace_main argv =
     (if length argv < 3
      then fprintf 2 (''Usage: %s <0|1> <command> [args...]'' @ nl) [S (if argv = [] then None else Some (argv ! 0))] (Exit 1)
      else Sys (SysTrace (atoi (argv ! 1))) (\<lambda>r.
        if ret r < 0 then fprintf 2 (''%s: trace failed'' @ nl) [S (Some (argv ! 0))] (Exit 1)
        else call (SysExec (argv ! 2) (drop 2 argv))
               (fprintf 2 (''exec %s failed'' @ nl) [S (Some (argv ! 2))] (Exit 1))))"

definition uptime_main :: uprog where
  "uptime_main = Sys SysUptime (\<lambda>r. fprintf 1 (''uptime: %d ticks'' @ nl) [W (of_int (ret r))] (Exit 0))"

definition sync_main :: uprog where
  "sync_main = call SysSync (Exit 0)"

definition hello_main :: uprog where
  "hello_main = fprintf 1 (''HI How R U'' @ nl) [] (fprintf 1 (''Greetings from the xv6 kernel!'' @ nl) [] (Exit 0))"

subsection \<open>init\<close>

fun init_loop :: "nat \<Rightarrow> uprog"
and init_wait :: "nat \<Rightarrow> int \<Rightarrow> uprog" where
  "init_loop 0 = OutOfFuel"
| "init_loop (Suc f) =
     fprintf 1 (''init: starting sh'' @ nl) []
       (Sys SysFork (\<lambda>r.
          if ret r < 0 then fprintf 1 (''init: fork failed'' @ nl) [] (Exit 1)
          else if ret r = 0 then
            call (SysExec ''sh'' [''sh'']) (fprintf 1 (''init: exec sh failed'' @ nl) [] (Exit 1))
          else init_wait f (ret r)))"
| "init_wait 0 pid = OutOfFuel"
| "init_wait (Suc f) pid =
     Sys (SysWait False) (\<lambda>r.
       if ret r = pid then init_loop f
       else if ret r < 0 then fprintf 1 (''init: wait returned an error'' @ nl) [] (Exit 1)
       else init_wait f pid)"

definition init_main :: "nat \<Rightarrow> uprog" where
  "init_main f =
     Sys (SysOpen ''console'' O_RDWR) (\<lambda>r.
       let start = call (SysDup 0) (call (SysDup 0) (init_loop f))
       in if ret r < 0 then call (SysMknod ''console'' 1 0) (call (SysOpen ''console'' O_RDWR) start) else start)"

subsection \<open>Demonstration programs\<close>

definition zombie_main :: uprog where
  "zombie_main = Sys SysFork (\<lambda>r. if ret r > 0 then call (SysPause 5) (Exit 0) else Exit 0)"

definition print :: "string \<Rightarrow> uprog \<Rightarrow> uprog" where
  "print s k = call (SysWrite 1 s) k"

fun forktest_wait :: "nat \<Rightarrow> uprog \<Rightarrow> uprog" where
  "forktest_wait 0 k = k"
| "forktest_wait (Suc n) k =
     Sys (SysWait False) (\<lambda>r. if ret r < 0 then print (''wait stopped early'' @ nl) (Exit 1) else forktest_wait n k)"

text \<open>The loop of \<open>forktest\<close> that forks until it fails: \<open>m\<close> calls are left of the \<open>N = 1000\<close> and
  \<open>n\<close> are made; the rest of the program gets \<open>n\<close>.\<close>

fun forktest_fork :: "nat \<Rightarrow> nat \<Rightarrow> (nat \<Rightarrow> uprog) \<Rightarrow> uprog" where
  "forktest_fork 0 n k = k n"
| "forktest_fork (Suc m) n k =
     Sys SysFork (\<lambda>r. if ret r < 0 then k n else if ret r = 0 then Exit 0 else forktest_fork m (Suc n) k)"

definition forktest :: "uprog \<Rightarrow> uprog" where
  "forktest k =
     print (''fork test'' @ nl)
       (forktest_fork 1000 0 (\<lambda>n.
          if n = 1000 then print (''fork claimed to work N times!'' @ nl) (Exit 1)
          else forktest_wait n
            (Sys (SysWait False) (\<lambda>r.
               if ret r \<noteq> -1 then print (''wait got too many'' @ nl) (Exit 1) else print (''fork test OK'' @ nl) k))))"

definition forktest_main :: uprog where
  "forktest_main = forktest (Exit 0)"

fun pause_forever :: "nat \<Rightarrow> uprog" where
  "pause_forever 0 = OutOfFuel"
| "pause_forever (Suc f) = call (SysPause 1000) (pause_forever f)"

definition forphan_main :: "nat \<Rightarrow> string list \<Rightarrow> uprog" where
  "forphan_main f argv =
     (let s = S (if argv = [] then None else Some (argv ! 0)); ff = ''file0'' in
      Sys (SysOpen ff (O_CREATE OR O_WRONLY)) (\<lambda>ro.
        if ret ro < 0 then fprintf 1 (''%s: open failed'' @ nl) [s] (Exit 1)
        else Sys (SysFstat (ret ro)) (\<lambda>rs.
          if ret rs < 0 then fprintf 2 (''%s: cannot stat %s'' @ nl) [s, S (Some ''ff'')] (Exit 1)
          else Sys (SysUnlink ff) (\<lambda>ru.
            if ret ru < 0 then fprintf 1 (''%s: unlink failed'' @ nl) [s] (Exit 1)
            else Sys (SysOpen ff O_RDONLY) (\<lambda>r.
              if ret r \<noteq> -1 then fprintf 1 (''%s: open successed'' @ nl) [s] (Exit 1)
              else fprintf 1 (''wait for kill and reclaim %d'' @ nl) [W (of_nat (st_ino (ust rs)))] (pause_forever f))))))"

definition dorphan_main :: "nat \<Rightarrow> string list \<Rightarrow> uprog" where
  "dorphan_main f argv =
     (let s = S (if argv = [] then None else Some (argv ! 0)) in
      Sys (SysMkdir ''dd'') (\<lambda>r.
        if ret r \<noteq> 0 then fprintf 1 (''%s: mkdir dd failed'' @ nl) [s] (Exit 1)
        else Sys (SysChdir ''dd'') (\<lambda>r.
          if ret r \<noteq> 0 then fprintf 1 (''%s: chdir dd failed'' @ nl) [s] (Exit 1)
          else Sys (SysUnlink ''../dd'') (\<lambda>r.
            if ret r < 0 then fprintf 1 (''%s: unlink failed'' @ nl) [s] (Exit 1)
            else fprintf 1 (''wait for kill and reclaim'' @ nl) [] (pause_forever f)))))"

text \<open>\<open>logstress\<close>: the child writes 250 times the 2000 bytes it has just set, which start at its
  500-byte buffer and run past its end.\<close>

fun logstress_writes :: "nat \<Rightarrow> int \<Rightarrow> string \<Rightarrow> uprog" where
  "logstress_writes 0 fd buf = Exit 0"
| "logstress_writes (Suc n) fd buf =
     Sys (SysWrite fd buf) (\<lambda>r.
       if ret r \<noteq> 2000 then fprintf 1 (''write failed %d'' @ nl) [W (of_int (ret r))] (Exit 1)
       else logstress_writes n fd buf)"

fun logstress_wait :: "nat \<Rightarrow> uprog" where
  "logstress_wait 0 = Exit 0"
| "logstress_wait (Suc n) =
     Sys (SysWait True) (\<lambda>r. if xstatus r \<noteq> 0 then Exit (xstatus r) else logstress_wait n)"

fun logstress_spawn :: "string \<Rightarrow> nat \<Rightarrow> string list \<Rightarrow> uprog \<Rightarrow> uprog" where
  "logstress_spawn a0 i [] k = k"
| "logstress_spawn a0 i (a # as) k =
     Sys SysFork (\<lambda>r.
       if ret r < 0 then fprintf 1 (''%s: fork failed'' @ nl) [S (Some a0)] (Exit 1)
       else if ret r = 0 then
         Sys (SysOpen a (O_CREATE OR O_RDWR)) (\<lambda>o1.
           if ret o1 < 0 then fprintf 1 (''%s: create %s failed'' @ nl) [S (Some a0), S (Some a)] (Exit 1)
           else logstress_writes 250 (ret o1) (replicate 2000 (char_of ((48 + i) mod 256))))
       else logstress_spawn a0 (Suc i) as k)"

definition logstress_main :: "string list \<Rightarrow> uprog" where
  "logstress_main argv =
     (if argv = [] then Exit 0
      else logstress_spawn (argv ! 0) 1 (tl argv) (logstress_wait (length argv - 1)))"

fun stressfs_fork :: "nat \<Rightarrow> nat \<Rightarrow> (nat \<Rightarrow> uprog) \<Rightarrow> uprog" where
  "stressfs_fork 0 i k = k i"
| "stressfs_fork (Suc m) i k = Sys SysFork (\<lambda>r. if ret r > 0 then k i else stressfs_fork m (Suc i) k)"

definition stressfs_main :: uprog where
  "stressfs_main =
     fprintf 1 (''stressfs starting'' @ nl) []
       (stressfs_fork 4 0 (\<lambda>i.
          fprintf 1 (''write %d'' @ nl) [W (of_nat i)]
            (let path = ''stressfs'' @ [char_of (48 + i)]; data = replicate 512 CHR ''a'' in
             Sys (SysOpen path (O_CREATE OR O_RDWR)) (\<lambda>r.
               (call (SysWrite (ret r) data) ^^ 20)
                 (call (SysClose (ret r))
                   (fprintf 1 (''read'' @ nl) []
                     (Sys (SysOpen path O_RDONLY) (\<lambda>r.
                        (call (SysRead (ret r) 512) ^^ 20)
                          (call (SysClose (ret r)) (call (SysWait False) (Exit 0)))))))))))"

section \<open>Behaviour\<close>

lemma fprintf_out:
  assumes "io_env h fd inp out"
  shows "\<exists>w'. run h (fprintf 1 fmt as k) w = run h k w' \<and> inp w' = inp w \<and> out w' = out w @ vprintf False fmt as"
proof -
  have "\<exists>w'. run h (foldr (putc 1) s k) w = run h k w' \<and> inp w' = inp w \<and> out w' = out w @ s" for s
  proof (induction s arbitrary: w)
    case (Cons c s)
    from Cons.IH [of "snd (h (SysWrite 1 [c]) w)"] show ?case
      by (auto simp: putc_def io_env_write [OF assms])
  qed auto
  then show ?thesis by (simp add: fprintf_def)
qed

lemma cat_run:
  assumes "io_env h fd inp out" "length (inp w) < f"
  shows "\<exists>w'. run h (cat f fd k) w = run h k w' \<and> inp w' = [] \<and> out w' = out w @ inp w"
  using assms(2)
proof (induction f arbitrary: w)
  case (Suc f)
  obtain r w1 where r: "h (SysRead fd 512) w = (r, w1)" by fastforce
  obtain r2 w2 where r2: "h (SysWrite 1 (bytes r)) w1 = (r2, w2)" by fastforce
  note e = io_env_read [OF assms(1) r]
  have w: "ret r2 = int (length (bytes r))" "inp w2 = inp w1" "out w2 = out w1 @ bytes r"
    using io_env_write [OF assms(1), of "bytes r" w1] io_env_written [OF assms(1), of "bytes r" w1] r2 by auto
  show ?case
  proof (cases "bytes r = []")
    case True
    then show ?thesis using e r by (auto intro!: exI [of _ w1])
  next
    case False
    then have "length (inp w2) < f" using e(2) w(2) Suc.prems by (cases "bytes r") auto
    from Suc.IH [OF this] show ?thesis using False r r2 e w by auto
  qed
qed simp

text \<open>A word starts where a character that is not white space follows the beginning or white space.\<close>

definition word_start :: "string \<Rightarrow> nat \<Rightarrow> bool" where
  "word_start s i \<longleftrightarrow> s ! i \<notin> set wc_space \<and> (i = 0 \<or> s ! (i - 1) \<in> set wc_space)"

definition count_of :: "(nat \<Rightarrow> bool) \<Rightarrow> nat \<Rightarrow> nat" where
  "count_of P n = length (filter P [0..<n])"

lemma count_of_simps [simp]:
  "count_of P 0 = 0" "count_of P (Suc n) = count_of P n + (if P n then 1 else 0)"
  by (simp_all add: count_of_def)

lemma count_of_cong: "(\<And>i. i < n \<Longrightarrow> P i = Q i) \<Longrightarrow> count_of P n = count_of Q n"
  by (induction n) auto

lemma wc_fold:
  "fold wc_char s (0, 0, 0, False) =
     (of_nat (count_of (\<lambda>i. s ! i = CHR 0x0A) (length s)), of_nat (count_of (word_start s) (length s)),
      of_nat (length s), s \<noteq> [] \<and> last s \<notin> set wc_space)"
proof (induction s rule: rev_induct)
  case (snoc x s)
  have l: "count_of (\<lambda>i. (s @ [x]) ! i = CHR 0x0A) (length s) = count_of (\<lambda>i. s ! i = CHR 0x0A) (length s)"
    "count_of (word_start (s @ [x])) (length s) = count_of (word_start s) (length s)"
    by (intro count_of_cong; simp add: nth_append word_start_def; fastforce)+
  have sp: "strchr wc_space x \<noteq> None \<longleftrightarrow> x \<in> set wc_space"
    by (simp add: strchr_None wc_space_def)
  have st: "word_start (s @ [x]) (length s) \<longleftrightarrow> x \<notin> set wc_space \<and> (s = [] \<or> last s \<in> set wc_space)"
    by (cases "s = []") (auto simp: word_start_def nth_append last_conv_nth)
  show ?case unfolding fold_append comp_def snoc.IH using l sp st by (auto simp: Let_def)
qed simp

lemma wc_loop_run:
  assumes "io_env h fd inp out" "length (inp w) < f"
  shows "\<exists>w'. run h (wc_loop f fd name st k) w = run h (case fold wc_char (inp w) st of (l, v, c, _) \<Rightarrow>
      fprintf 1 (''%d %d %d %s'' @ nl) [W (ucast l), W (ucast v), W (ucast c), S (Some name)] k) w' \<and> out w' = out w"
  using assms(2)
proof (induction f arbitrary: w st)
  case (Suc f)
  obtain r w1 where r: "h (SysRead fd 512) w = (r, w1)" by fastforce
  note e = io_env_read [OF assms(1) r]
  show ?case
  proof (cases "bytes r = []")
    case True
    then show ?thesis using e r by (auto intro!: exI [of _ w1])
  next
    case False
    then have "length (inp w1) < f" using e(2) Suc.prems by (cases "bytes r") auto
    from Suc.IH [OF this, of "fold wc_char (bytes r) st"] show ?thesis using False r e by auto
  qed
qed simp

section \<open>Properties\<close>

text \<open>C29: \<open>wc\<close> reports the number of newlines, of words and of characters of its input, whatever the
  sizes of the pieces in which \<open>read\<close> delivers it; words are the maximal runs of characters that are
  not white space, and one that spans two pieces counts once.\<close>

theorem wc_counts:
  assumes "io_env h fd inp out"
  shows "\<exists>w'. run h (wc (Suc (length (inp w))) fd name (Exit 0)) w = Some (0, w') \<and>
    out w' = out w @ printf (''%d %d %d %s'' @ nl)
      [W (ucast (of_nat (count_of (\<lambda>i. inp w ! i = CHR 0x0A) (length (inp w))) :: u32)),
       W (ucast (of_nat (count_of (word_start (inp w)) (length (inp w))) :: u32)),
       W (ucast (of_nat (length (inp w)) :: u32)), S (Some name)]"
proof -
  obtain w1 where "run h (wc (Suc (length (inp w))) fd name (Exit 0)) w = run h (fprintf 1 (''%d %d %d %s'' @ nl)
      [W (ucast (of_nat (count_of (\<lambda>i. inp w ! i = CHR 0x0A) (length (inp w))) :: u32)),
       W (ucast (of_nat (count_of (word_start (inp w)) (length (inp w))) :: u32)),
       W (ucast (of_nat (length (inp w)) :: u32)), S (Some name)] (Exit 0)) w1" "out w1 = out w"
    using wc_loop_run [OF assms, of w "Suc (length (inp w))" name "(0, 0, 0, False)" "Exit 0"]
    unfolding wc_fold wc_def by auto
  then show ?thesis using fprintf_out [OF assms, of _ _ "Exit 0" w1] by (fastforce simp: printf_def)
qed

theorem wc_counts_witness:
  "\<exists>w'. run io_ex (wc 8 0 ''f'' (Exit 0)) (''ab cd'' @ [CHR 0x0A] @ ''e'', []) = Some (0, w') \<and> snd w' = ''1 3 7 f'' @ [CHR 0x0A]"
proof -
  let ?s = "''ab cd'' @ [CHR 0x0A] @ ''e''"
  have len: "length ?s = 7" by simp
  have c: "count_of (\<lambda>i. ?s ! i = CHR 0x0A) 7 = 1" "count_of (word_start ?s) 7 = 3"
    by (simp_all add: eval_nat_numeral word_start_def wc_space_def)
  have p: "printf (''%d %d %d %s'' @ nl)
      [W (ucast (of_nat 1 :: u32)), W (ucast (of_nat 3 :: u32)), W (ucast (of_nat 7 :: u32)), S (Some ''f'')] =
      ''1 3 7 f'' @ [CHR 0x0A]"
    by code_simp
  have w: "fst (?s, []) = ?s" "Suc 7 = 8" "snd (?s, []) @ ''1 3 7 f'' @ [CHR 0x0A] = ''1 3 7 f'' @ [CHR 0x0A]" by simp_all
  from wc_counts [OF io_ex_env, of "(?s, [])" 0 "''f''"]
  show ?thesis unfolding w len c p .
qed

text \<open>\<open>cat\<close> copies: it writes to its standard output exactly the bytes that are left of the file,
  in order, and reaches its end.\<close>

theorem cat_copies:
  assumes "io_env h fd inp out"
  shows "\<exists>w'. run h (cat (Suc (length (inp w))) fd (Exit 0)) w = Some (0, w') \<and> inp w' = [] \<and> out w' = out w @ inp w"
  using cat_run [OF assms, of w "Suc (length (inp w))" "Exit 0"] by auto

theorem cat_copies_witness:
  "\<exists>w'. run io_ex (cat 6 0 (Exit 0)) (''abcde'', []) = Some (0, w') \<and> snd w' = ''abcde''"
  using cat_copies [OF io_ex_env, of "(''abcde'', [])"] by (auto simp: eval_nat_numeral)

end
