(* ===== verification/Grep.thy ===== *)
theory Grep
  imports User
begin

text \<open>
  The program \<open>user/grep.c\<close>: its regular-expression matcher and the loop that cuts its input
  into lines. The matcher is shown equivalent to a reference semantics of the patterns; the loop
  is shown to print exactly the matching lines, in whatever pieces the input arrives.
\<close>

section \<open>Definitions\<close>

subsection \<open>The matcher\<close>

function matchhere :: "string \<Rightarrow> string \<Rightarrow> bool"
and matchstar :: "char \<Rightarrow> string \<Rightarrow> string \<Rightarrow> bool" where
  "matchhere [] text = True"
| "matchhere (c # re) text =
     (if re \<noteq> [] \<and> hd re = CHR ''*'' then matchstar c (tl re) text
      else if c = CHR ''$'' \<and> re = [] then text = []
      else case text of
             [] \<Rightarrow> False
           | t # text' \<Rightarrow> if c = CHR ''.'' \<or> c = t then matchhere re text' else False)"
| "matchstar c re text =
     (if matchhere re text then True
      else case text of
             [] \<Rightarrow> False
           | t # text' \<Rightarrow> if t = c \<or> c = CHR ''.'' then matchstar c re text' else False)"
  by pat_completeness auto
termination
  by (relation "measure (\<lambda>x. case x of Inl (re, text) \<Rightarrow> 2 * (length re + length text)
                                     | Inr (c, re, text) \<Rightarrow> 2 * (length re + length text) + 1)")
    (auto simp: neq_Nil_conv)

declare matchstar.simps [simp del]

fun match_loop :: "string \<Rightarrow> string \<Rightarrow> bool" where
  "match_loop re [] = matchhere re []"
| "match_loop re (t # text) = (if matchhere re (t # text) then True else match_loop re text)"

definition match :: "string \<Rightarrow> string \<Rightarrow> bool" where
  "match re text = (if re \<noteq> [] \<and> hd re = CHR ''^'' then matchhere (tl re) text else match_loop re text)"

subsection \<open>The program\<close>

text \<open>The inner loop of \<open>grep\<close>: the lines complete in the buffer. \<open>b\<close> is what lies between
  \<open>p\<close> and the NUL at \<open>buf[m]\<close>; the rest of the program gets what is left of it.\<close>

function grep_lines :: "string \<Rightarrow> string \<Rightarrow> (string \<Rightarrow> uprog) \<Rightarrow> uprog" where
  "grep_lines pattern b k =
     (case strchr b CHR 0x0A of
        None \<Rightarrow> k b
      | Some q \<Rightarrow>
          (if match pattern (take q b)
           then call (SysWrite 1 (take (Suc q) b)) (grep_lines pattern (drop (Suc q) b) k)
           else grep_lines pattern (drop (Suc q) b) k))"
  by pat_completeness auto

termination grep_lines
  by (relation "measure (\<lambda>(pattern, b, k). length b)") (auto dest!: strchr_Some)

declare grep_lines.simps [simp del]

text \<open>The outer loop: \<open>m\<close> is the length of \<open>b\<close>, and \<open>sizeof buf\<close> is 1024.\<close>

fun grep :: "nat \<Rightarrow> string \<Rightarrow> int \<Rightarrow> string \<Rightarrow> uprog \<Rightarrow> uprog" where
  "grep 0 pattern fd b k = OutOfFuel"
| "grep (Suc f) pattern fd b k =
     Sys (SysRead fd (1024 - int (length b) - 1)) (\<lambda>r.
       if ret r > 0
       then grep_lines pattern (b @ take (nat (ret r)) (bytes r)) (\<lambda>b. grep f pattern fd b k)
       else k)"

fun grep_files :: "nat \<Rightarrow> string \<Rightarrow> string list \<Rightarrow> uprog" where
  "grep_files f pattern [] = Exit 0"
| "grep_files f pattern (a # as) =
     Sys (SysOpen a O_RDONLY) (\<lambda>r.
       if ret r < 0 then fprintf 1 (''grep: cannot open %s'' @ [CHR 0x0A]) [S (Some a)] (Exit 1)
       else grep f pattern (ret r) [] (call (SysClose (ret r)) (grep_files f pattern as)))"

definition grep_main :: "nat \<Rightarrow> string list \<Rightarrow> uprog" where
  "grep_main f argv =
     (if length argv \<le> 1 then fprintf 2 (''usage: grep pattern [file ...]'' @ [CHR 0x0A]) [] (Exit 1)
      else if length argv \<le> 2 then grep f (argv ! 1) 0 [] (Exit 0)
      else grep_files f (argv ! 1) (drop 2 argv))"

section \<open>The language of a pattern\<close>

text \<open>A pattern is a sequence of items: a character (\<open>.\<close> stands for any), a starred character, or
  the end of the text. Each item accepts pieces of text.\<close>

datatype item = One char | Star char | End

fun items :: "string \<Rightarrow> item list" where
  "items [] = []"
| "items [c] = (if c = CHR ''$'' then [End] else [One c])"
| "items (c # d # re) = (if d = CHR ''*'' then Star c # items re else One c # items (d # re))"

definition accepts :: "char \<Rightarrow> char \<Rightarrow> bool" where
  "accepts c t \<longleftrightarrow> c = CHR ''.'' \<or> t = c"

fun piece :: "item \<Rightarrow> string \<Rightarrow> bool" where
  "piece (One c) w \<longleftrightarrow> (\<exists>t. w = [t] \<and> accepts c t)"
| "piece (Star c) w \<longleftrightarrow> (\<forall>t\<in>set w. accepts c t)"
| "piece End w \<longleftrightarrow> w = []"

definition matches_prefix :: "item list \<Rightarrow> string \<Rightarrow> bool" where
  "matches_prefix is text \<longleftrightarrow>
     (\<exists>ws post. text = concat ws @ post \<and> list_all2 piece is ws \<and> (End \<in> set is \<longrightarrow> post = []))"

lemma matches_Nil [simp]: "matches_prefix [] text"
  by (auto simp: matches_prefix_def)

lemma matches_Cons:
  assumes "i \<noteq> End"
  shows "matches_prefix (i # is) text \<longleftrightarrow> (\<exists>w rest. text = w @ rest \<and> piece i w \<and> matches_prefix is rest)"
proof
  assume "matches_prefix (i # is) text"
  then obtain w ws post where "text = w @ concat ws @ post" "piece i w" "list_all2 piece is ws" "End \<in> set is \<longrightarrow> post = []"
    by (auto simp: matches_prefix_def list_all2_Cons1) (metis append.assoc append_Nil2)+
  then show "\<exists>w rest. text = w @ rest \<and> piece i w \<and> matches_prefix is rest"
    unfolding matches_prefix_def by blast
next
  assume "\<exists>w rest. text = w @ rest \<and> piece i w \<and> matches_prefix is rest"
  then obtain w ws post where "text = w @ concat ws @ post" "piece i w" "list_all2 piece is ws" "End \<in> set is \<longrightarrow> post = []"
    by (auto simp: matches_prefix_def)
  then show "matches_prefix (i # is) text"
    using assms unfolding matches_prefix_def by (intro exI [of _ "w # ws"] exI [of _ post]) auto
qed

lemma matches_One [simp]:
  "matches_prefix (One c # is) text \<longleftrightarrow> (\<exists>t text'. text = t # text' \<and> accepts c t \<and> matches_prefix is text')"
  by (auto simp: matches_Cons) (metis append_Cons append_Nil)

lemma matches_End [simp]: "matches_prefix [End] text \<longleftrightarrow> text = []"
  by (auto simp: matches_prefix_def list_all2_Cons1)

lemma matches_Star:
  "matches_prefix (Star c # is) text \<longleftrightarrow>
     matches_prefix is text \<or> (\<exists>t text'. text = t # text' \<and> accepts c t \<and> matches_prefix (Star c # is) text')"
  (is "?l = ?r")
proof
  assume ?l
  then obtain w rest where w: "text = w @ rest" "\<forall>t\<in>set w. accepts c t" "matches_prefix is rest"
    by (auto simp: matches_Cons)
  then show ?r by (cases w) (auto simp: matches_Cons)
next
  assume ?r
  then show ?l
  proof
    assume "matches_prefix is text"
    then show ?l by (simp add: matches_Cons) (metis append_Nil ball_empty empty_set)
  next
    assume "\<exists>t text'. text = t # text' \<and> accepts c t \<and> matches_prefix (Star c # is) text'"
    then obtain t w rest where "text = (t # w) @ rest" "\<forall>t\<in>set (t # w). accepts c t" "matches_prefix is rest"
      by (auto simp: matches_Cons)
    then show ?l using matches_Cons [of "Star c" "is" "text"] by (metis item.distinct(5) piece.simps(2))
  qed
qed

lemma matchhere_iff:
  "matchhere re text \<longleftrightarrow> matches_prefix (items re) text"
  "matchstar c re text \<longleftrightarrow> matches_prefix (Star c # items re) text"
proof (induction re "text" and c re "text" rule: matchhere_matchstar.induct)
  case (2 c re s)
  then show ?case
    by (cases re; cases s) (auto simp: accepts_def)
next
  case (3 c re s)
  then show ?case
    by (subst matches_Star, subst matchstar.simps) (auto simp: accepts_def split: list.splits)
qed simp

lemma match_loop_iff: "match_loop re text \<longleftrightarrow> (\<exists>pre post. text = pre @ post \<and> matchhere re post)"
  by (induction "text") (auto simp: Cons_eq_append_conv)

section \<open>Lines\<close>

text \<open>The complete lines of a text and what follows the last newline.\<close>

fun lines_of :: "string \<Rightarrow> string list \<times> string" where
  "lines_of [] = ([], [])"
| "lines_of (c # s) =
     (case lines_of s of (ls, r) \<Rightarrow>
        if c = CHR 0x0A then ([] # ls, r)
        else case ls of [] \<Rightarrow> ([], c # r) | l # ls \<Rightarrow> ((c # l) # ls, r))"

abbreviation printed :: "string \<Rightarrow> string list \<Rightarrow> string" where
  "printed pattern ls \<equiv> concat (map (\<lambda>l. l @ [CHR 0x0A]) (filter (match pattern) ls))"

lemma lines_of_none: "CHR 0x0A \<notin> set s \<Longrightarrow> lines_of s = ([], s)"
  by (induction s) auto

lemma lines_of_line:
  "CHR 0x0A \<notin> set a \<Longrightarrow> lines_of (a @ CHR 0x0A # s) = (a # fst (lines_of s), snd (lines_of s))"
  by (induction a) (auto split: prod.splits)

lemma lines_of_append:
  "lines_of (a @ b) = (fst (lines_of a) @ fst (lines_of (snd (lines_of a) @ b)), snd (lines_of (snd (lines_of a) @ b)))"
  by (induction a) (auto split: prod.splits list.splits)

lemma lines_of_rest: "CHR 0x0A \<notin> set (snd (lines_of s)) \<and> set (snd (lines_of s)) \<subseteq> set s \<and> length (snd (lines_of s)) \<le> length s"
  by (induction s) (auto split: prod.splits list.splits)

lemma lines_of_first:
  "CHR 0x0A \<notin> set b \<Longrightarrow> fst (lines_of (b @ s)) \<noteq> [] \<Longrightarrow> length b \<le> length (hd (fst (lines_of (b @ s))))"
  by (induction b) (auto split: prod.splits list.splits)

lemma grep_lines_run:
  assumes "io_env h fd inp out" "CHR 0x00 \<notin> set b"
  shows "\<exists>w'. run h (grep_lines pattern b k) w = run h (k (snd (lines_of b))) w' \<and>
    inp w' = inp w \<and> out w' = out w @ printed pattern (fst (lines_of b))"
  using assms(2)
proof (induction pattern b k arbitrary: w rule: grep_lines.induct)
  case (1 pattern b k)
  show ?case
  proof (cases "strchr b CHR 0x0A")
    case None
    then have "lines_of b = ([], b)" using 1 by (simp add: strchr_None lines_of_none)
    then show ?thesis using None by (subst grep_lines.simps) auto
  next
    case (Some q)
    note q = strchr_Some [OF Some]
    let ?d = "drop (Suc q) b"
    have b: "b = take q b @ CHR 0x0A # ?d" using q by (metis id_take_nth_drop)
    then have l: "lines_of b = (take q b # fst (lines_of ?d), snd (lines_of ?d))"
      using q lines_of_line [of "take q b" ?d] by metis
    have t: "take (Suc q) b = take q b @ [CHR 0x0A]" using q by (simp add: take_Suc_conv_app_nth)
    have nul: "CHR 0x00 \<notin> set ?d" using 1(3) by (meson in_set_dropD)
    let ?w = "snd (h (SysWrite 1 (take (Suc q) b)) w)"
    have w: "inp ?w = inp w" "out ?w = out w @ take (Suc q) b"
      using io_env_write [OF assms(1)] by auto
    show ?thesis
    proof (cases "match pattern (take q b)")
      case True
      from 1(1) [OF Some True nul, of ?w] show ?thesis
        using Some True w l t by (subst grep_lines.simps) (auto simp del: lines_of.simps)
    next
      case False
      from 1(2) [OF Some False nul, of w] show ?thesis
        using Some False l by (subst grep_lines.simps) (auto simp del: lines_of.simps)
    qed
  qed
qed

lemma grep_run:
  assumes env: "io_env h fd inp out"
    and "CHR 0x00 \<notin> set (b @ inp w)" "CHR 0x0A \<notin> set b" "length b \<le> 1023" "length (inp w) < f"
    and "\<forall>l \<in> set (fst (lines_of (b @ inp w))). length l \<le> 1022"
  shows "\<exists>w'. run h (grep f pattern fd b k) w = run h k w' \<and> out w' = out w @ printed pattern (fst (lines_of (b @ inp w)))"
  using assms(2-)
proof (induction f arbitrary: b w)
  case (Suc f)
  obtain r w1 where r: "h (SysRead fd (1024 - int (length b) - 1)) w = (r, w1)" by fastforce
  have e: "ret r = int (length (bytes r))" "inp w = bytes r @ inp w1" "length (bytes r) \<le> 1023 - length b"
    "length b < 1023 \<Longrightarrow> bytes r = [] \<Longrightarrow> inp w = []" "out w1 = out w"
    using io_env_read [OF env r] by auto
  show ?case
  proof (cases "bytes r = []")
    case True
    have "fst (lines_of (b @ inp w)) = []"
    proof (cases "length b < 1023")
      case True
      then show ?thesis using \<open>bytes r = []\<close> e(4) Suc.prems(2) by (simp add: lines_of_none)
    next
      case False
      show ?thesis
      proof (rule ccontr)
        assume n: "fst (lines_of (b @ inp w)) \<noteq> []"
        then have "hd (fst (lines_of (b @ inp w))) \<in> set (fst (lines_of (b @ inp w)))" by (rule list.set_sel(1))
        then show False using lines_of_first [OF Suc.prems(2) n] Suc.prems(5) False by fastforce
      qed
    qed
    then show ?thesis using r e True by (auto intro!: exI [of _ w1])
  next
    case False
    let ?b = "b @ bytes r"
    have nul: "CHR 0x00 \<notin> set ?b" using Suc.prems(1) e(2) by auto
    obtain w2 where w2: "run h (grep_lines pattern ?b (\<lambda>b. grep f pattern fd b k)) w1 = run h (grep f pattern fd (snd (lines_of ?b)) k) w2"
      "inp w2 = inp w1" "out w2 = out w @ printed pattern (fst (lines_of ?b))"
      using grep_lines_run [OF env nul] e(5) by metis
    have l: "lines_of (b @ inp w) = (fst (lines_of ?b) @ fst (lines_of (snd (lines_of ?b) @ inp w2)), snd (lines_of (snd (lines_of ?b) @ inp w2)))"
      using lines_of_append [of ?b "inp w2"] e(2) w2(2) by simp
    have "\<exists>w'. run h (grep f pattern fd (snd (lines_of ?b)) k) w2 = run h k w' \<and>
        out w' = out w2 @ printed pattern (fst (lines_of (snd (lines_of ?b) @ inp w2)))"
    proof (rule Suc.IH)
      show "CHR 0x00 \<notin> set (snd (lines_of ?b) @ inp w2)" using lines_of_rest [of ?b] Suc.prems(1) e(2) w2(2) by auto
      show "length (snd (lines_of ?b)) \<le> 1023" using lines_of_rest [of ?b] e(3) Suc.prems(3) by (simp; linarith)
      show "length (inp w2) < f" using Suc.prems(4) e(2) w2(2) False by (cases "bytes r") auto
      show "\<forall>l\<in>set (fst (lines_of (snd (lines_of ?b) @ inp w2))). length l \<le> 1022" using Suc.prems(5) l by simp
    qed (use lines_of_rest in blast)
    then show ?thesis using r e(1) w2 l False by (auto simp del: lines_of.simps)
  qed
qed simp

section \<open>Properties\<close>

text \<open>C27: the matcher of \<open>grep\<close> decides the language of its patterns: \<open>match\<close> holds of a text exactly
  when some piece of it, the beginning if the pattern starts with \<open>^\<close>, can be cut into words that
  the items of the pattern accept in turn, the piece reaching the end of the text when the pattern
  ends with \<open>$\<close>.\<close>

theorem match_iff_language:
  "match re text \<longleftrightarrow>
     (if re \<noteq> [] \<and> hd re = CHR ''^'' then matches_prefix (items (tl re)) text
      else (\<exists>pre post. text = pre @ post \<and> matches_prefix (items re) post))"
  by (simp add: match_def matchhere_iff match_loop_iff)

text \<open>C28: \<open>grep\<close> prints exactly the complete lines of its input that match, in order, whatever the
  sizes of the pieces in which \<open>read\<close> delivers the input, if every line fits in its buffer and
  there are no NUL characters; it ends after at most one round per byte.\<close>

theorem grep_prints_matching_lines:
  assumes "io_env h fd inp out" "CHR 0x00 \<notin> set (inp w)" "\<forall>l \<in> set (fst (lines_of (inp w))). length l \<le> 1022"
  shows "\<exists>w'. run h (grep (Suc (length (inp w))) pattern fd [] (Exit 0)) w = Some (0, w') \<and>
    out w' = out w @ concat (map (\<lambda>l. l @ [CHR 0x0A]) (filter (match pattern) (fst (lines_of (inp w)))))"
  using grep_run [OF assms(1), of "[]" w "Suc (length (inp w))" pattern "Exit 0"] assms(2,3) by simp

theorem grep_prints_matching_lines_witness:
  "\<exists>w'. run io_ex (grep 12 ''a.c'' 0 [] (Exit 0)) (''xabc'' @ [CHR 0x0A] @ ''acb'' @ [CHR 0x0A] @ ''az'', []) = Some (0, w') \<and>
    snd w' = ''xabc'' @ [CHR 0x0A]"
proof -
  from grep_prints_matching_lines [OF io_ex_env, of "(''xabc'' @ [CHR 0x0A] @ ''acb'' @ [CHR 0x0A] @ ''az'', [])" "''a.c''"]
  show ?thesis by (simp add: match_def eval_nat_numeral)
qed

end
