(* ===== verification/Shell.thy ===== *)
theory Shell
  imports User
begin

text \<open>
  The shell \<open>user/sh.c\<close>: its parser and the programs it runs.

  The parser works on a line \<open>s\<close> without NUL characters; a pointer into the line is an index, and
  the NUL that ends the line is at index \<open>length s\<close> (\<open>es\<close> in the source). A parsed command keeps
  the indices at which its words begin and end (\<open>argv\<close>/\<open>eargv\<close>, \<open>file\<close>/\<open>efile\<close>), and
  \<open>nulterminate\<close> then writes a NUL over the character after each word. \<open>malloc\<close> is taken to
  succeed. A call of \<open>panic\<close> is an error value of the parser.
\<close>

section \<open>Commands\<close>

type_synonym span = "nat \<times> nat"

datatype cmd =
    EXEC "span list"
  | REDIR cmd span int int
  | PIPE cmd cmd
  | LIST cmd cmd
  | BACK cmd

abbreviation execcmd :: "span list \<Rightarrow> cmd" where "execcmd args \<equiv> EXEC args"
abbreviation redircmd :: "cmd \<Rightarrow> span \<Rightarrow> int \<Rightarrow> int \<Rightarrow> cmd" where "redircmd subcmd f mode fd \<equiv> REDIR subcmd f mode fd"
abbreviation pipecmd :: "cmd \<Rightarrow> cmd \<Rightarrow> cmd" where "pipecmd left right \<equiv> PIPE left right"
abbreviation listcmd :: "cmd \<Rightarrow> cmd \<Rightarrow> cmd" where "listcmd left right \<equiv> LIST left right"
abbreviation backcmd :: "cmd \<Rightarrow> cmd" where "backcmd subcmd \<equiv> BACK subcmd"

definition MAXARGS :: nat where "MAXARGS = 10"

datatype perr = PPanic string | Leftovers string | NoFuel

fun pbind :: "perr + 'a \<Rightarrow> ('a \<Rightarrow> perr + 'b) \<Rightarrow> perr + 'b" where
  "pbind (Inl e) f = Inl e"
| "pbind (Inr x) f = f x"

section \<open>Tokens\<close>

definition whitespace :: string where
  "whitespace = '' '' @ [CHR 0x09, CHR 0x0D, CHR 0x0A, CHR 0x0B]"

definition symbols :: string where
  "symbols = ''<|>&;()''"

function skip_white :: "string \<Rightarrow> nat \<Rightarrow> nat" where
  "skip_white s p = (if p < length s \<and> strchr whitespace (s ! p) \<noteq> None then skip_white s (Suc p) else p)"
  by pat_completeness auto
termination
  by (relation "measure (\<lambda>(s, p). length s - p)") auto

function skip_word :: "string \<Rightarrow> nat \<Rightarrow> nat" where
  "skip_word s p =
     (if p < length s \<and> strchr whitespace (s ! p) = None \<and> strchr symbols (s ! p) = None
      then skip_word s (Suc p) else p)"
  by pat_completeness auto
termination
  by (relation "measure (\<lambda>(s, p). length s - p)") auto

declare skip_white.simps [simp del] skip_word.simps [simp del]

definition singles :: string where
  "singles = ''|();&<''"

text \<open>\<open>gettoken\<close> returns the token's kind, its beginning, its end, and the position after it and the
  white space that follows. \<open>token_at\<close> is its \<open>switch\<close>.\<close>

definition token_at :: "string \<Rightarrow> nat \<Rightarrow> char \<times> nat" where
  "token_at s q =
     (let c = char_at s q in
      if c = CHR 0x00 then (c, q)
      else if c \<in> set singles then (c, Suc q)
      else if c = CHR ''>'' then
        (if char_at s (Suc q) = CHR ''>'' then (CHR ''+'', Suc (Suc q)) else (c, Suc q))
      else (CHR ''a'', skip_word s q))"

definition gettoken :: "string \<Rightarrow> nat \<Rightarrow> char \<times> nat \<times> nat \<times> nat" where
  "gettoken s p =
     (let q = skip_white s p; (ret, eq) = token_at s q in (ret, q, eq, skip_white s eq))"

definition peek :: "string \<Rightarrow> nat \<Rightarrow> string \<Rightarrow> bool \<times> nat" where
  "peek s p toks =
     (let p = skip_white s p in (char_at s p \<noteq> CHR 0x00 \<and> strchr toks (char_at s p) \<noteq> None, p))"

lemma skip_white_le: "p \<le> skip_white s p \<and> (p \<le> length s \<longrightarrow> skip_white s p \<le> length s)"
proof (induction s p rule: skip_white.induct)
  case (1 s p)
  then show ?case by (subst (1 2) skip_white.simps) auto
qed

lemma skip_word_le: "p \<le> skip_word s p \<and> (p \<le> length s \<longrightarrow> skip_word s p \<le> length s)"
proof (induction s p rule: skip_word.induct)
  case (1 s p)
  then show ?case by (subst (1 2) skip_word.simps) auto
qed

lemma char_at_less: "char_at s p \<noteq> CHR 0x00 \<Longrightarrow> p < length s"
  by (simp add: char_at_def split: if_splits)

lemma peek_le: "peek s p toks = (b, p') \<Longrightarrow> p \<le> p' \<and> (p \<le> length s \<longrightarrow> p' \<le> length s) \<and> (b \<longrightarrow> p' < length s \<and> char_at s p' \<noteq> CHR 0x00)"
  using skip_white_le [of p s] char_at_less by (auto simp: peek_def Let_def)

lemma skip_word_gt:
  "p < length s \<Longrightarrow> s ! p \<notin> set (whitespace @ symbols) \<Longrightarrow> s ! p \<noteq> CHR 0x00 \<Longrightarrow> p < skip_word s p"
  using skip_word_le [of "Suc p" s]
  by (subst skip_word.simps) (auto simp: strchr_None whitespace_def symbols_def)

lemma strchr_white: "c \<noteq> CHR 0x00 \<Longrightarrow> strchr whitespace c \<noteq> None \<longleftrightarrow> c \<in> set whitespace"
  by (simp add: strchr_None whitespace_def)

lemma strchr_toks: "CHR 0x00 \<notin> set toks \<Longrightarrow> strchr toks c \<noteq> None \<longleftrightarrow> c \<in> set toks"
  by (simp add: strchr_None)

lemma skip_white_stop: "skip_white s p < length s \<Longrightarrow> s ! skip_white s p \<notin> set whitespace"
proof (induction s p rule: skip_white.induct)
  case (1 s p)
  then show ?case
    by (subst (asm) (2) skip_white.simps, subst skip_white.simps) (auto simp: strchr_None whitespace_def split: if_splits)
qed

lemma gettoken_eq:
  "gettoken s p = (c, q, eq, p') \<longleftrightarrow> q = skip_white s p \<and> token_at s q = (c, eq) \<and> p' = skip_white s eq"
  by (auto simp: gettoken_def Let_def split: prod.splits)

lemma token_at_NUL: "char_at s q = CHR 0x00 \<Longrightarrow> token_at s q = (CHR 0x00, q)"
  by (simp add: token_at_def)

lemma token_at_sym:
  "char_at s q \<in> set singles \<Longrightarrow> token_at s q = (char_at s q, Suc q)"
  "char_at s q = CHR ''>'' \<Longrightarrow> char_at s (Suc q) = CHR ''>'' \<Longrightarrow> token_at s q = (CHR ''+'', Suc (Suc q))"
  "char_at s q = CHR ''>'' \<Longrightarrow> char_at s (Suc q) \<noteq> CHR ''>'' \<Longrightarrow> token_at s q = (CHR ''>'', Suc q)"
  by (auto simp: token_at_def singles_def)

lemma token_at_word:
  "char_at s q \<noteq> CHR 0x00 \<Longrightarrow> char_at s q \<notin> set symbols \<Longrightarrow> token_at s q = (CHR ''a'', skip_word s q)"
  by (simp add: token_at_def symbols_def singles_def)

lemma token_at_cases:
  obtains "char_at s q = CHR 0x00" | "char_at s q \<in> set singles"
  | "char_at s q = CHR ''>''" "char_at s (Suc q) = CHR ''>''" | "char_at s q = CHR ''>''" "char_at s (Suc q) \<noteq> CHR ''>''"
  | "char_at s q \<noteq> CHR 0x00" "char_at s q \<notin> set symbols"
  by (cases "char_at s q \<in> set symbols") (auto simp: symbols_def singles_def)

lemma token_at_end:
  assumes "token_at s q = (c, eq)" "char_at s q \<noteq> CHR 0x00" "s ! q \<notin> set whitespace"
  shows "q < eq \<and> eq \<le> length s \<and> c \<noteq> CHR 0x00"
proof -
  have q: "q < length s" "s ! q = char_at s q" using char_at_less [OF assms(2)] by (auto simp: char_at_def)
  show ?thesis
  proof (cases rule: token_at_cases [of s q])
    case 3
    then show ?thesis using assms(1) q char_at_less [of s "Suc q"] by (auto simp: token_at_sym)
  next
    case 5
    then show ?thesis using assms q skip_word_gt [of q s] skip_word_le [of q s] by (auto simp: token_at_word)
  qed (use assms(1,2) q in \<open>auto simp: token_at_sym\<close>)
qed

lemma gettoken_bounds:
  assumes "gettoken s p = (c, q, eq, p')"
  shows "p \<le> q" "q \<le> eq" "eq \<le> p'" "p \<le> length s \<Longrightarrow> p' \<le> length s" "c \<noteq> CHR 0x00 \<Longrightarrow> q < eq \<and> eq \<le> length s"
proof -
  have q: "q = skip_white s p" "token_at s q = (c, eq)" "p' = skip_white s eq" using assms by (auto simp: gettoken_eq)
  have *: "(if char_at s q = CHR 0x00 then c = CHR 0x00 \<and> eq = q else q < eq \<and> eq \<le> length s)"
  proof (cases "char_at s q = CHR 0x00")
    case False
    then have "s ! q \<notin> set whitespace" using skip_white_stop [of s p] char_at_less [of s q] q(1) by simp
    then show ?thesis using False token_at_end [OF q(2)] by simp
  qed (use q(2) token_at_NUL in auto)
  then show "p \<le> q" "q \<le> eq" "eq \<le> p'" "p \<le> length s \<Longrightarrow> p' \<le> length s" "c \<noteq> CHR 0x00 \<Longrightarrow> q < eq \<and> eq \<le> length s"
    using q(1,3) skip_white_le [of p s] skip_white_le [of eq s] by (auto split: if_splits)
qed

section \<open>The parser\<close>

text \<open>\<open>parseredirs\<close> returns the redirections it finds, the first one innermost. \<open>redir\<close> wraps them
  around a command, which \<open>parseexec\<close> is still filling in when it calls \<open>parseredirs\<close>.\<close>

type_synonym redirection = "span \<times> int \<times> int"

function parseredirs :: "string \<Rightarrow> redirection list \<Rightarrow> nat \<Rightarrow> perr + redirection list \<times> nat" where
  "parseredirs s rs p =
     (case peek s p ''<>'' of (b, p) \<Rightarrow>
        if \<not> b then Inr (rs, p)
        else case gettoken s p of (tok, _, _, p) \<Rightarrow>
          case gettoken s p of (c, q, eq, p) \<Rightarrow>
            if c \<noteq> CHR ''a'' then Inl (PPanic ''missing file for redirection'')
            else parseredirs s
              (rs @ (if tok = CHR ''<'' then [((q, eq), O_RDONLY, 0)]
                     else if tok = CHR ''>'' then [((q, eq), O_WRONLY OR O_CREATE OR O_TRUNC, 1)]
                     else if tok = CHR ''+'' then [((q, eq), O_WRONLY OR O_CREATE, 1)]
                     else [])) p)"
  by pat_completeness auto
termination
proof (relation "measure (\<lambda>(s, rs, p). length s - p)", goal_cases)
  case (2 s rs p b p1 tok y1 q1 y2 q2 p2 c y3 q y4 eq p3)
  then have "p \<le> p1" "p1 < length s" "p1 \<le> p2" "p2 < p3"
    using peek_le [of s p "''<>''" b p1] gettoken_bounds [of s p1 tok q1 q2 p2] gettoken_bounds [of s p2 c q eq p3] by auto
  then show ?case by simp
qed simp

declare parseredirs.simps [simp del]

definition redir :: "cmd \<Rightarrow> redirection list \<Rightarrow> cmd" where
  "redir c rs = foldl (\<lambda>c (sp, mode, fd). redircmd c sp mode fd) c rs"

lemma parseredirs_le: "parseredirs s rs p = Inr (rs', p') \<Longrightarrow> p \<le> p' \<and> (p \<le> length s \<longrightarrow> p' \<le> length s)"
proof (induction s rs p arbitrary: rs' p' rule: parseredirs.induct)
  case (1 s rs p)
  obtain b p1 where b: "peek s p ''<>'' = (b, p1)" by fastforce
  obtain tok q1 q2 p2 where t: "gettoken s p1 = (tok, q1, q2, p2)" using prod_cases4 by blast
  obtain c q eq p3 where c: "gettoken s p2 = (c, q, eq, p3)" using prod_cases4 by blast
  have "parseredirs s rs p = Inr (rs', p')" by (rule "1.prems")
  then show ?case
    using "1.IH" [OF b [symmetric] _ t [symmetric] refl refl c [symmetric] refl refl]
      peek_le [OF b] gettoken_bounds [OF t] gettoken_bounds [OF c]
    unfolding parseredirs.simps [of s rs p] b t c prod.case by (auto split: if_splits)
qed

text \<open>The loop of \<open>parseexec\<close>: the words and redirections of a simple command.\<close>

function parse_args :: "string \<Rightarrow> span list \<Rightarrow> redirection list \<Rightarrow> nat \<Rightarrow> perr + cmd \<times> nat" where
  "parse_args s args rs p =
     (case peek s p ''|)&;'' of (b, p) \<Rightarrow>
        if b then Inr (redir (execcmd args) rs, p)
        else case gettoken s p of (tok, q, eq, p) \<Rightarrow>
          if tok = CHR 0x00 then Inr (redir (execcmd args) rs, p)
          else if tok \<noteq> CHR ''a'' then Inl (PPanic ''syntax'')
          else if Suc (length args) \<ge> MAXARGS then Inl (PPanic ''too many args'')
          else case parseredirs s rs p of
            Inl e \<Rightarrow> Inl e
          | Inr (rs, p) \<Rightarrow> parse_args s (args @ [(q, eq)]) rs p)"
  by pat_completeness auto
termination
proof (relation "measure (\<lambda>(s, args, rs, p). MAXARGS - length args)", goal_cases)
  case 2
  then show ?case by simp
qed simp

text \<open>The \<open>while\<close> loop of \<open>parseline\<close> over \<open>&\<close>.\<close>

function parse_back :: "string \<Rightarrow> cmd \<Rightarrow> nat \<Rightarrow> cmd \<times> nat" where
  "parse_back s cmd p =
     (case peek s p ''&'' of (b, p) \<Rightarrow>
        if b then case gettoken s p of (_, _, _, p) \<Rightarrow> parse_back s (backcmd cmd) p else (cmd, p))"
  by pat_completeness auto

lemma peek_gettoken:
  assumes "peek s p toks = (b, p1)" b "gettoken s p1 = (c, q, eq, p2)"
  shows "p \<le> p1" "p1 < length s" "p1 < p2" "p2 \<le> length s" "q = p1" "c \<noteq> CHR 0x00"
proof -
  have p1: "p1 = skip_white s p" "p1 < length s" "char_at s p1 \<noteq> CHR 0x00" using assms(1,2) peek_le [of s p toks b p1] by (auto simp: peek_def Let_def)
  then have w: "s ! p1 \<notin> set whitespace" using skip_white_stop [of s p] by simp
  then have "skip_white s p1 = p1" using p1(2,3) strchr_white [of "s ! p1"] by (subst skip_white.simps) (auto simp: char_at_def)
  then show q: "q = p1" using assms(3) by (simp add: gettoken_eq)
  then have "p1 < eq \<and> c \<noteq> CHR 0x00" using token_at_end [of s p1 c eq] assms(3) p1(3) w by (auto simp: gettoken_eq)
  then show "p \<le> p1" "p1 < length s" "p1 < p2" "p2 \<le> length s" "c \<noteq> CHR 0x00"
    using p1 skip_white_le [of p s] gettoken_bounds [OF assms(3)] by auto
qed

termination parse_back
proof (relation "measure (\<lambda>(s, cmd, p). length s - p)", goal_cases)
  case (2 s cmd p b p1 x1 y1 x2 y2 x3 p2)
  then show ?case using peek_gettoken [of s p "''&''" b p1 x1 x2 x3 p2] by auto
qed simp

declare parse_args.simps [simp del] parse_back.simps [simp del]

fun parseline :: "nat \<Rightarrow> string \<Rightarrow> nat \<Rightarrow> perr + cmd \<times> nat"
and parsepipe :: "nat \<Rightarrow> string \<Rightarrow> nat \<Rightarrow> perr + cmd \<times> nat"
and parseexec :: "nat \<Rightarrow> string \<Rightarrow> nat \<Rightarrow> perr + cmd \<times> nat"
and parseblock :: "nat \<Rightarrow> string \<Rightarrow> nat \<Rightarrow> perr + cmd \<times> nat" where
  "parseline 0 s p = Inl NoFuel"
| "parseline (Suc f) s p =
     pbind (parsepipe f s p) (\<lambda>(cmd, p).
       case parse_back s cmd p of (cmd, p) \<Rightarrow>
         case peek s p '';'' of (b, p) \<Rightarrow>
           if b then case gettoken s p of (_, _, _, p) \<Rightarrow> pbind (parseline f s p) (\<lambda>(cmd', p). Inr (listcmd cmd cmd', p))
           else Inr (cmd, p))"
| "parsepipe 0 s p = Inl NoFuel"
| "parsepipe (Suc f) s p =
     pbind (parseexec f s p) (\<lambda>(cmd, p).
       case peek s p ''|'' of (b, p) \<Rightarrow>
         if b then case gettoken s p of (_, _, _, p) \<Rightarrow> pbind (parsepipe f s p) (\<lambda>(cmd', p). Inr (pipecmd cmd cmd', p))
         else Inr (cmd, p))"
| "parseexec 0 s p = Inl NoFuel"
| "parseexec (Suc f) s p =
     (case peek s p ''('' of (b, p) \<Rightarrow>
        if b then parseblock f s p
        else pbind (parseredirs s [] p) (\<lambda>(rs, p). parse_args s [] rs p))"
| "parseblock 0 s p = Inl NoFuel"
| "parseblock (Suc f) s p =
     (case peek s p ''('' of (b, p) \<Rightarrow>
        if \<not> b then Inl (PPanic ''parseblock'')
        else case gettoken s p of (_, _, _, p) \<Rightarrow>
          pbind (parseline f s p) (\<lambda>(cmd, p).
            case peek s p '')'' of (b, p) \<Rightarrow>
              if \<not> b then Inl (PPanic ''syntax - missing )'')
              else case gettoken s p of (_, _, _, p) \<Rightarrow>
                pbind (parseredirs s [] p) (\<lambda>(rs, p). Inr (redir cmd rs, p))))"

text \<open>\<open>nulterminate\<close> on the array \<open>b\<close> that holds the line and its NUL.\<close>

fun nulterminate :: "cmd \<Rightarrow> string \<Rightarrow> string" where
  "nulterminate (EXEC args) b = fold (\<lambda>(q, eq) b. b[eq := CHR 0x00]) args b"
| "nulterminate (REDIR c (q, eq) mode fd) b = (nulterminate c b)[eq := CHR 0x00]"
| "nulterminate (PIPE l r) b = nulterminate r (nulterminate l b)"
| "nulterminate (LIST l r) b = nulterminate r (nulterminate l b)"
| "nulterminate (BACK c) b = nulterminate c b"

definition parse_fuel :: "string \<Rightarrow> nat" where
  "parse_fuel s = 4 * length s + 4"

definition parsecmd :: "string \<Rightarrow> perr + cmd \<times> string" where
  "parsecmd s =
     pbind (parseline (parse_fuel s) s 0) (\<lambda>(cmd, p).
       case peek s p [] of (_, p) \<Rightarrow>
         if p \<noteq> length s then Inl (Leftovers (drop p s))
         else Inr (cmd, nulterminate cmd (s @ [CHR 0x00])))"

section \<open>Running commands\<close>

definition sh_panic :: "string \<Rightarrow> uprog" where
  "sh_panic s = fprintf 2 (''%s'' @ nl) [S (Some s)] (Exit 1)"

definition fork1 :: "(int \<Rightarrow> uprog) \<Rightarrow> uprog" where
  "fork1 k = Sys SysFork (\<lambda>r. if ret r = -1 then sh_panic ''fork'' else k (ret r))"

definition cstr :: "string \<Rightarrow> nat \<Rightarrow> string" where
  "cstr b q = takeWhile (\<lambda>c. c \<noteq> CHR 0x00) (drop q b)"

fun runcmd :: "string \<Rightarrow> cmd \<Rightarrow> uprog" where
  "runcmd b (EXEC args) =
     (case args of [] \<Rightarrow> Exit 1
      | (q, _) # _ \<Rightarrow>
          call (SysExec (cstr b q) (map (\<lambda>(q, _). cstr b q) args))
            (fprintf 2 (''exec %s failed'' @ nl) [S (Some (cstr b q))] (Exit 0)))"
| "runcmd b (REDIR c (q, _) mode fd) =
     call (SysClose fd)
       (Sys (SysOpen (cstr b q) mode) (\<lambda>r.
          if ret r < 0 then fprintf 2 (''open %s failed'' @ nl) [S (Some (cstr b q))] (Exit 1) else runcmd b c))"
| "runcmd b (LIST l r) =
     fork1 (\<lambda>pid. if pid = 0 then runcmd b l else call (SysWait False) (runcmd b r))"
| "runcmd b (PIPE l r) =
     Sys SysPipe (\<lambda>pr.
       if ret pr < 0 then sh_panic ''pipe''
       else case pfds pr of (p0, p1) \<Rightarrow>
         fork1 (\<lambda>pid.
           if pid = 0
           then call (SysClose 1) (call (SysDup p1) (call (SysClose p0) (call (SysClose p1) (runcmd b l))))
           else fork1 (\<lambda>pid.
             if pid = 0
             then call (SysClose 0) (call (SysDup p0) (call (SysClose p0) (call (SysClose p1) (runcmd b r))))
             else call (SysClose p0) (call (SysClose p1) (call (SysWait False) (call (SysWait False) (Exit 0)))))))"
| "runcmd b (BACK c) = fork1 (\<lambda>pid. if pid = 0 then runcmd b c else Exit 0)"

definition getcmd :: "int \<Rightarrow> (int \<Rightarrow> string \<Rightarrow> uprog) \<Rightarrow> uprog" where
  "getcmd nbuf k = call (SysWrite 2 ''$ '') (gets nbuf (\<lambda>buf. k (if char_at buf 0 = CHR 0x00 then -1 else 0) buf))"

definition run_line :: "string \<Rightarrow> uprog" where
  "run_line cmd =
     (case parsecmd cmd of
        Inr (c, b) \<Rightarrow> runcmd b c
      | Inl (PPanic m) \<Rightarrow> sh_panic m
      | Inl (Leftovers l) \<Rightarrow> fprintf 2 (''leftovers: %s'' @ nl) [S (Some l)] (sh_panic ''syntax'')
      | Inl NoFuel \<Rightarrow> OutOfFuel)"

fun sh_loop :: "nat \<Rightarrow> uprog" where
  "sh_loop 0 = OutOfFuel"
| "sh_loop (Suc f) =
     getcmd 100 (\<lambda>e buf.
       if e < 0 then Exit 0
       else let cmd = dropWhile (\<lambda>c. c = CHR '' '' \<or> c = CHR 0x09) (cstr buf 0) in
         if char_at cmd 0 = CHR 0x0A then sh_loop f
         else if take 3 cmd = ''cd '' then
           (let dir = drop 3 (butlast cmd) in
            Sys (SysChdir dir) (\<lambda>r.
              if ret r < 0 then fprintf 2 (''cannot cd %s'' @ nl) [S (Some dir)] (sh_loop f) else sh_loop f))
         else fork1 (\<lambda>pid. if pid = 0 then run_line cmd else call (SysWait False) (sh_loop f)))"

fun sh_open :: "nat \<Rightarrow> uprog \<Rightarrow> uprog" where
  "sh_open 0 k = OutOfFuel"
| "sh_open (Suc f) k =
     Sys (SysOpen ''console'' O_RDWR) (\<lambda>r.
       if ret r \<ge> 0 then (if ret r \<ge> 3 then call (SysClose (ret r)) k else sh_open f k) else k)"

definition sh_main :: "nat \<Rightarrow> uprog" where
  "sh_main f = sh_open f (sh_loop f)"

section \<open>The parser ends and its words are intact\<close>

definition plain :: "char \<Rightarrow> bool" where
  "plain c \<longleftrightarrow> strchr whitespace c = None \<and> strchr symbols c = None"

definition span_ok :: "string \<Rightarrow> span \<Rightarrow> bool" where
  "span_ok s sp = (case sp of (q, eq) \<Rightarrow>
     q < eq \<and> eq \<le> length s \<and> (\<forall>i. q \<le> i \<and> i < eq \<longrightarrow> plain (s ! i)) \<and> (eq < length s \<longrightarrow> \<not> plain (s ! eq)))"

fun spans :: "cmd \<Rightarrow> span set" where
  "spans (EXEC args) = set args"
| "spans (REDIR c sp mode fd) = insert sp (spans c)"
| "spans (PIPE l r) = spans l \<union> spans r"
| "spans (LIST l r) = spans l \<union> spans r"
| "spans (BACK c) = spans c"

lemma spans_redir [simp]: "spans (redir c rs) = spans c \<union> fst ` set rs"
  unfolding redir_def by (induction rs arbitrary: c) auto

lemma skip_word_plain:
  "(\<forall>i. p \<le> i \<and> i < skip_word s p \<longrightarrow> plain (s ! i)) \<and> (skip_word s p < length s \<longrightarrow> \<not> plain (s ! skip_word s p))"
proof (induction s p rule: skip_word.induct)
  case (1 s p)
  show ?case
  proof (cases "p < length s \<and> plain (s ! p)")
    case True
    then have e: "skip_word s p = skip_word s (Suc p)" by (subst skip_word.simps) (simp add: plain_def)
    have IH: "\<forall>i. Suc p \<le> i \<and> i < skip_word s (Suc p) \<longrightarrow> plain (s ! i)"
      "skip_word s (Suc p) < length s \<longrightarrow> \<not> plain (s ! skip_word s (Suc p))"
      using 1 [OF True [unfolded plain_def]] by blast+
    have "plain (s ! i)" if "p \<le> i" "i < skip_word s (Suc p)" for i
      using IH(1) True that by (cases "i = p") auto
    then show ?thesis unfolding e using IH(2) by blast
  next
    case False
    then have "skip_word s p = p" by (subst skip_word.simps) (auto simp: plain_def)
    then show ?thesis using False by auto
  qed
qed

lemma token_at_a: "token_at s q = (CHR ''a'', eq) \<Longrightarrow> eq = skip_word s q"
proof (cases rule: token_at_cases [of s q])
  case 2
  then have "token_at s q = (char_at s q, Suc q)" "char_at s q \<noteq> CHR ''a''" using token_at_sym(1) by (auto simp: singles_def)
  then show "token_at s q = (CHR ''a'', eq) \<Longrightarrow> eq = skip_word s q" by simp
qed (simp_all add: token_at_NUL token_at_sym token_at_word)

lemma gettoken_word: "gettoken s p = (CHR ''a'', q, eq, p') \<Longrightarrow> span_ok s (q, eq)"
  using gettoken_bounds(5) [of s p "CHR ''a''" q eq p'] skip_word_plain [of q s] token_at_a [of s q eq]
  by (auto simp: gettoken_eq span_ok_def)

text \<open>The outcome of a parsing function called at \<open>p\<close>: not out of fuel; if a command, then one whose
  words are words of the line, and a position further on.\<close>

definition parses :: "string \<Rightarrow> nat \<Rightarrow> perr + cmd \<times> nat \<Rightarrow> bool" where
  "parses s p r =
     (case r of Inl e \<Rightarrow> e \<noteq> NoFuel
      | Inr (c, p') \<Rightarrow> p \<le> p' \<and> p' \<le> length s \<and> (\<forall>sp \<in> spans c. span_ok s sp))"

lemma parses_mono: "parses s p' r \<Longrightarrow> p \<le> p' \<Longrightarrow> parses s p r"
  by (auto simp: parses_def split: sum.splits)

lemma parses_bind:
  assumes "parses s p r" "\<And>c p'. p \<le> p' \<Longrightarrow> p' \<le> length s \<Longrightarrow> \<forall>sp \<in> spans c. span_ok s sp \<Longrightarrow> parses s p (k (c, p'))"
  shows "parses s p (pbind r k)"
  using assms by (cases r) (auto simp: parses_def)

lemma parses_bind_le:
  assumes "parses s p' r" "p \<le> p'" "\<And>c p'. p \<le> p' \<Longrightarrow> p' \<le> length s \<Longrightarrow> \<forall>sp \<in> spans c. span_ok s sp \<Longrightarrow> parses s p (k (c, p'))"
  shows "parses s p (pbind r k)"
  using assms(1,2) by (intro parses_bind assms(3)) (auto intro: parses_mono)

definition redirs :: "string \<Rightarrow> nat \<Rightarrow> perr + redirection list \<times> nat \<Rightarrow> bool" where
  "redirs s p r =
     (case r of Inl e \<Rightarrow> e \<noteq> NoFuel
      | Inr (rs, p') \<Rightarrow> p \<le> p' \<and> p' \<le> length s \<and> (\<forall>sp \<in> fst ` set rs. span_ok s sp))"

lemma redirs_mono: "redirs s p' r \<Longrightarrow> p \<le> p' \<Longrightarrow> redirs s p r"
  by (auto simp: redirs_def split: sum.splits)

lemma parseredirs_ok:
  assumes "p \<le> length s" "\<forall>sp \<in> fst ` set rs. span_ok s sp"
  shows "redirs s p (parseredirs s rs p)"
  using assms
proof (induction s rs p rule: parseredirs.induct)
  case (1 s rs p)
  obtain b p1 where b: "peek s p ''<>'' = (b, p1)" by fastforce
  obtain tok q1 q2 p2 where t: "gettoken s p1 = (tok, q1, q2, p2)" using prod_cases4 by blast
  obtain c q eq p3 where c: "gettoken s p2 = (c, q, eq, p3)" using prod_cases4 by blast
  note le = peek_le [OF b] gettoken_bounds [OF t] gettoken_bounds [OF c]
  show ?case
  proof (cases "b \<and> c = CHR ''a''")
    case True
    then have ok: "span_ok s (q, eq)" using gettoken_word c by simp
    have p3: "p \<le> p3" "p3 \<le> length s" using le "1.prems"(1) True by auto
    let ?rs = "rs @ (if tok = CHR ''<'' then [((q, eq), O_RDONLY, 0)]
                     else if tok = CHR ''>'' then [((q, eq), O_WRONLY OR O_CREATE OR O_TRUNC, 1)]
                     else if tok = CHR ''+'' then [((q, eq), O_WRONLY OR O_CREATE, 1)]
                     else [])"
    have e: "parseredirs s rs p = parseredirs s ?rs p3"
      by (subst parseredirs.simps) (simp only: b t c prod.case True if_True not_True_eq_False if_False simp_thms)
    have rs: "\<forall>sp \<in> fst ` set ?rs. span_ok s sp" using "1.prems"(2) ok by (auto split: if_splits)
    have "redirs s p3 (parseredirs s ?rs p3)"
      by (rule "1.IH" [OF b [symmetric] _ t [symmetric] refl refl c [symmetric] refl refl _ p3(2) rs]) (use True in simp_all)
    then show ?thesis unfolding e using p3(1) by (rule redirs_mono)
  next
    case False
    have "parseredirs s rs p = Inr (rs, p1) \<or> parseredirs s rs p = Inl (PPanic ''missing file for redirection'')"
      using False by (subst (1 2) parseredirs.simps) (auto simp only: b t c prod.case if_True if_False simp_thms split: if_splits)
    then show ?thesis using le "1.prems" by (auto simp: redirs_def)
  qed
qed

lemma parse_args_ok:
  "p \<le> length s \<Longrightarrow> \<forall>sp \<in> set args \<union> fst ` set rs. span_ok s sp \<Longrightarrow> parses s p (parse_args s args rs p)"
proof (induction s args rs p rule: parse_args.induct)
  case (1 s args rs p)
  obtain b p1 where b: "peek s p ''|)&;'' = (b, p1)" by fastforce
  obtain tok q eq p2 where t: "gettoken s p1 = (tok, q, eq, p2)" using prod_cases4 by blast
  have le: "p \<le> p1" "p1 \<le> p2" "p2 \<le> length s" "p1 \<le> length s"
    using peek_le [OF b] gettoken_bounds [OF t] "1.prems"(1) by auto
  show ?case
  proof (cases "\<not> b \<and> tok = CHR ''a'' \<and> Suc (length args) < MAXARGS")
    case True
    then have ok: "span_ok s (q, eq)" using gettoken_word t by simp
    have e: "parse_args s args rs p =
        (case parseredirs s rs p2 of Inl e \<Rightarrow> Inl e | Inr (rs, p) \<Rightarrow> parse_args s (args @ [(q, eq)]) rs p)"
      using True by (subst parse_args.simps) (simp add: b t)
    show ?thesis
    proof (cases "parseredirs s rs p2")
      case (Inl a)
      then show ?thesis using parseredirs_ok [of p2 s rs] "1.prems"(2) le by (simp add: e parses_def redirs_def)
    next
      case (Inr x)
      obtain rs' p3 where x: "x = (rs', p3)" by fastforce
      have r: "p2 \<le> p3" "p3 \<le> length s" "\<forall>sp \<in> fst ` set rs'. span_ok s sp"
        using parseredirs_ok [of p2 s rs] "1.prems"(2) le Inr x by (auto simp: redirs_def)
      have "parses s p3 (parse_args s (args @ [(q, eq)]) rs' p3)"
        by (rule "1.IH" [OF b [symmetric] _ t [symmetric] refl refl]) (use True r "1.prems"(2) ok Inr x in auto)
      then show ?thesis using Inr x r le by (auto simp: e intro: parses_mono)
    qed
  next
    case False
    then show ?thesis using le "1.prems" by (subst parse_args.simps) (auto simp: b t parses_def)
  qed
qed

lemma parse_back_ok:
  "p \<le> length s \<Longrightarrow> parse_back s c p = (c', p') \<Longrightarrow> p \<le> p' \<and> p' \<le> length s \<and> spans c' = spans c"
proof (induction s c p rule: parse_back.induct)
  case (1 s c p)
  obtain b p1 where b: "peek s p ''&'' = (b, p1)" by fastforce
  obtain tok q1 q2 p2 where t: "gettoken s p1 = (tok, q1, q2, p2)" using prod_cases4 by blast
  show ?case
  proof (cases b)
    case True
    have "parse_back s c p = parse_back s (BACK c) p2" using True by (subst parse_back.simps) (simp add: b t)
    then show ?thesis
      using "1.IH" [OF b [symmetric] True t [symmetric] refl refl] "1.prems"(2) peek_gettoken [OF b True t] by simp
  next
    case False
    then show ?thesis using "1.prems" peek_le [OF b] by (subst (asm) parse_back.simps) (auto simp: b)
  qed
qed

lemma parseline_step:
  assumes "parses s p (parsepipe f s p)" and line: "\<And>p'. p < p' \<Longrightarrow> p' \<le> length s \<Longrightarrow> parses s p' (parseline f s p')"
  shows "parses s p (parseline (Suc f) s p)"
  unfolding parseline.simps
proof (rule parses_bind [OF assms(1)])
  fix c p1
  assume p1: "p \<le> p1" "p1 \<le> length s" and c: "\<forall>sp \<in> spans c. span_ok s sp"
  obtain c2 p2 where b: "parse_back s c p1 = (c2, p2)" by fastforce
  obtain t p3 where t: "peek s p2 '';'' = (t, p3)" by fastforce
  obtain k q eq p4 where g: "gettoken s p3 = (k, q, eq, p4)" using prod_cases4 by blast
  note c2 = parse_back_ok [OF p1(2) b]
  show "parses s p (case (c, p1) of (cmd, p) \<Rightarrow> case parse_back s cmd p of (cmd, p) \<Rightarrow> case peek s p '';'' of (b, p) \<Rightarrow>
     if b then case gettoken s p of (_, _, _, p) \<Rightarrow> pbind (parseline f s p) (\<lambda>(cmd', p). Inr (listcmd cmd cmd', p)) else Inr (cmd, p))"
  proof (cases t)
    case True
    then have p4: "p < p4" "p4 \<le> length s" using peek_gettoken [OF t True g] c2 p1 by auto
    have "parses s p (pbind (parseline f s p4) (\<lambda>(cmd', p). Inr (LIST c2 cmd', p)))"
      using p4 line [OF p4] c2 c by (intro parses_bind_le [where p' = p4]) (auto simp: parses_def)
    then show ?thesis using True by (simp add: b t g)
  next
    case False
    then show ?thesis using peek_le [OF t] c2 p1 c by (simp add: b t parses_def)
  qed
qed

lemma parsepipe_step:
  assumes "parses s p (parseexec f s p)" and pipe': "\<And>p'. p < p' \<Longrightarrow> p' \<le> length s \<Longrightarrow> parses s p' (parsepipe f s p')"
  shows "parses s p (parsepipe (Suc f) s p)"
  unfolding parsepipe.simps
proof (rule parses_bind [OF assms(1)])
  fix c p1
  assume p1: "p \<le> p1" "p1 \<le> length s" and c: "\<forall>sp \<in> spans c. span_ok s sp"
  obtain t p3 where t: "peek s p1 ''|'' = (t, p3)" by fastforce
  obtain k q eq p4 where g: "gettoken s p3 = (k, q, eq, p4)" using prod_cases4 by blast
  show "parses s p (case (c, p1) of (cmd, p) \<Rightarrow> case peek s p ''|'' of (b, p) \<Rightarrow>
     if b then case gettoken s p of (_, _, _, p) \<Rightarrow> pbind (parsepipe f s p) (\<lambda>(cmd', p). Inr (pipecmd cmd cmd', p)) else Inr (cmd, p))"
  proof (cases t)
    case True
    then have p4: "p < p4" "p4 \<le> length s" using peek_gettoken [OF t True g] p1 by auto
    have "parses s p (pbind (parsepipe f s p4) (\<lambda>(cmd', p). Inr (PIPE c cmd', p)))"
      using p4 pipe' [OF p4] c by (intro parses_bind_le [where p' = p4]) (auto simp: parses_def)
    then show ?thesis using True by (simp add: t g)
  next
    case False
    then show ?thesis using peek_le [OF t] p1 c by (simp add: t parses_def)
  qed
qed

lemma parseexec_step:
  assumes "p \<le> length s" and block: "\<And>p'. p \<le> p' \<Longrightarrow> p' \<le> length s \<Longrightarrow> parses s p' (parseblock f s p')"
  shows "parses s p (parseexec (Suc f) s p)"
proof -
  obtain t p1 where t: "peek s p ''('' = (t, p1)" by fastforce
  have p1: "p \<le> p1" "p1 \<le> length s" using peek_le [OF t] assms(1) by auto
  have "redirs s p1 (parseredirs s [] p1)" using p1(2) by (intro parseredirs_ok) simp_all
  then have "parses s p (pbind (parseredirs s [] p1) (\<lambda>(rs, p). parse_args s [] rs p))"
  proof (cases "parseredirs s [] p1")
    case (Inr x)
    obtain rs p2 where x: "x = (rs, p2)" by fastforce
    assume "redirs s p1 (parseredirs s [] p1)"
    then have "p1 \<le> p2" "p2 \<le> length s" "\<forall>sp \<in> fst ` set rs. span_ok s sp" using Inr x by (auto simp: redirs_def)
    then have "parses s p2 (parse_args s [] rs p2)" by (intro parse_args_ok) simp_all
    then have "parses s p (parse_args s [] rs p2)" using p1(1) \<open>p1 \<le> p2\<close> by (rule parses_mono [OF _ order_trans])
    then show ?thesis by (simp add: Inr x)
  qed (simp add: redirs_def parses_def)
  then show ?thesis using parses_mono [OF block [OF p1] p1(1)] by (simp add: t)
qed

lemma parseblock_step:
  assumes line: "\<And>p'. p < p' \<Longrightarrow> p' \<le> length s \<Longrightarrow> parses s p' (parseline f s p')"
  shows "parses s p (parseblock (Suc f) s p)"
proof -
  obtain t p1 where t: "peek s p ''('' = (t, p1)" by fastforce
  obtain k q eq p2 where g: "gettoken s p1 = (k, q, eq, p2)" using prod_cases4 by blast
  show ?thesis
  proof (cases t)
    case True
    then have p2: "p < p2" "p2 \<le> length s" using peek_gettoken [OF t True g] by auto
    have "parses s p (pbind (parseline f s p2) (\<lambda>(cmd, p).
          case peek s p '')'' of (b, p) \<Rightarrow>
            if \<not> b then Inl (PPanic ''syntax - missing )'')
            else case gettoken s p of (_, _, _, p) \<Rightarrow>
              pbind (parseredirs s [] p) (\<lambda>(rs, p). Inr (redir cmd rs, p))))"
    proof (rule parses_bind_le [OF line [OF p2] less_imp_le [OF p2(1)]])
      fix c p3
      assume p3: "p \<le> p3" "p3 \<le> length s" and c: "\<forall>sp \<in> spans c. span_ok s sp"
      obtain u p4 where u: "peek s p3 '')'' = (u, p4)" by fastforce
      obtain k' q' eq' p5 where g': "gettoken s p4 = (k', q', eq', p5)" using prod_cases4 by blast
      have p5: "p \<le> p5" "p5 \<le> length s" using peek_le [OF u] gettoken_bounds [OF g'] p3 by auto
      have "redirs s p5 (parseredirs s [] p5)" using p5(2) by (intro parseredirs_ok) simp_all
      then have "parses s p (pbind (parseredirs s [] p5) (\<lambda>(rs, p). Inr (redir c rs, p)))"
        using p5 c by (cases "parseredirs s [] p5") (fastforce simp: redirs_def parses_def)+
      then show "parses s p (case (c, p3) of (cmd, p) \<Rightarrow> case peek s p '')'' of (b, p) \<Rightarrow>
            if \<not> b then Inl (PPanic ''syntax - missing )'')
            else case gettoken s p of (_, _, _, p) \<Rightarrow>
              pbind (parseredirs s [] p) (\<lambda>(rs, p). Inr (redir cmd rs, p)))"
        by (simp add: u g' parses_def [of _ _ "Inl _"])
    qed
    then show ?thesis using True by (simp add: t g)
  qed (simp add: t parses_def)
qed

text \<open>Four units of fuel for each character that is left, and four more, are enough.\<close>

lemma parser_ok:
  "p \<le> length s \<Longrightarrow>
     (4 * (length s - p) + 4 \<le> f \<longrightarrow> parses s p (parseline f s p)) \<and>
     (4 * (length s - p) + 3 \<le> f \<longrightarrow> parses s p (parsepipe f s p)) \<and>
     (4 * (length s - p) + 2 \<le> f \<longrightarrow> parses s p (parseexec f s p)) \<and>
     (4 * (length s - p) + 1 \<le> f \<longrightarrow> parses s p (parseblock f s p))"
proof (induction f arbitrary: p)
  case (Suc f)
  have "parses s p (parseline (Suc f) s p)" if f: "4 * (length s - p) + 4 \<le> Suc f"
    using Suc.IH [of p] Suc.IH Suc.prems f by (intro parseline_step) auto
  moreover have "parses s p (parsepipe (Suc f) s p)" if f: "4 * (length s - p) + 3 \<le> Suc f"
    using Suc.IH [of p] Suc.IH Suc.prems f by (intro parsepipe_step) auto
  moreover have "parses s p (parseexec (Suc f) s p)" if f: "4 * (length s - p) + 2 \<le> Suc f"
    using Suc.IH Suc.prems f by (intro parseexec_step) auto
  moreover have "parses s p (parseblock (Suc f) s p)" if f: "4 * (length s - p) + 1 \<le> Suc f"
    using Suc.IH f by (intro parseblock_step) auto
  ultimately show ?case by blast
qed simp

lemma parseline_ok: "parses s 0 (parseline (parse_fuel s) s 0)"
  using parser_ok [of 0 s "parse_fuel s"] by (simp add: parse_fuel_def)

lemma nulterminate_nth:
  "length (nulterminate c b) = length b \<and>
   (i < length b \<longrightarrow> nulterminate c b ! i = (if i \<in> snd ` spans c then CHR 0x00 else b ! i))"
proof (induction c b arbitrary: i rule: nulterminate.induct)
  case (1 args b)
  show ?case
  proof (induction args arbitrary: b)
    case (Cons a args)
    then show ?case by (cases a) (auto simp: nth_list_update)
  qed simp
next
  case (2 c q eq mode fd b)
  then show ?case by (cases "eq = i") auto
qed auto

lemma word_intact:
  assumes s: "CHR 0x00 \<notin> set s" and ok: "\<forall>sp \<in> spans c. span_ok s sp" and sp: "(q, eq) \<in> spans c"
  shows "cstr (nulterminate c (s @ [CHR 0x00])) q = take (eq - q) (drop q s)"
proof -
  let ?b = "nulterminate c (s @ [CHR 0x00])"
  have e: "q < eq" "eq \<le> length s" using ok sp by (auto simp: span_ok_def)
  have len: "length ?b = Suc (length s)" using nulterminate_nth [of c "s @ [CHR 0x00]" 0] by simp
  have nul: "?b ! eq = CHR 0x00" using nulterminate_nth [of c "s @ [CHR 0x00]" eq] sp e by (force simp: image_iff)
  have keep: "?b ! i = s ! i" if "q \<le> i" "i < eq" for i
  proof -
    have "plain (s ! i)" "i < length s" using ok sp that e by (auto simp: span_ok_def)
    then have "i \<notin> snd ` spans c" using ok by (fastforce simp: span_ok_def)
    then show ?thesis using nulterminate_nth [of c "s @ [CHR 0x00]" i] \<open>i < length s\<close> by (simp add: nth_append)
  qed
  have "drop q ?b = take (eq - q) (drop q s) @ CHR 0x00 # drop (Suc eq) ?b"
  proof (rule nth_equalityI)
    fix i assume "i < length (drop q ?b)"
    then show "drop q ?b ! i = (take (eq - q) (drop q s) @ CHR 0x00 # drop (Suc eq) ?b) ! i"
      using keep [of "q + i"] nul e len
      by (cases "i < eq - q"; cases "i = eq - q") (auto simp: nth_append nth_Cons' add.commute)
  qed (use e len in simp)
  moreover have "CHR 0x00 \<notin> set (take (eq - q) (drop q s))" using s by (meson in_set_dropD in_set_takeD)
  then have "takeWhile (\<lambda>c. c \<noteq> CHR 0x00) (take (eq - q) (drop q s) @ CHR 0x00 # r) = take (eq - q) (drop q s)" for r
    by (subst takeWhile_append2) auto
  ultimately show ?thesis unfolding cstr_def by simp
qed

end
