(* ===== verification/ShellSpec.thy ===== *)
theory ShellSpec
  imports Shell
begin

text \<open>
  What the shell of theory Shell is for: the parser inverts printing, and running a command gives
  each of its programs the descriptors that the command's redirections and pipes ask for.
\<close>

section \<open>Printing commands and parsing them back\<close>

datatype ast =
    AExec "string list"
  | ARedir ast string int int
  | APipe ast ast
  | AList ast ast
  | ABack ast

primrec ast_of :: "(span \<Rightarrow> string) \<Rightarrow> cmd \<Rightarrow> ast" where
  "ast_of g (EXEC args) = AExec (map g args)"
| "ast_of g (REDIR c sp mode fd) = ARedir (ast_of g c) (g sp) mode fd"
| "ast_of g (PIPE l r) = APipe (ast_of g l) (ast_of g r)"
| "ast_of g (LIST l r) = AList (ast_of g l) (ast_of g r)"
| "ast_of g (BACK c) = ABack (ast_of g c)"

definition rsym :: "int \<Rightarrow> string" where
  "rsym mode = (if mode = O_RDONLY then ''<'' else if mode = O_WRONLY OR O_CREATE OR O_TRUNC then ''>'' else ''>>'')"

definition word_text :: "string \<Rightarrow> string" where
  "word_text w = w @ '' ''"

definition redir_text :: "string \<times> int \<times> int \<Rightarrow> string" where
  "redir_text r = (case r of (w, mode, fd) \<Rightarrow> rsym mode @ word_text w)"

definition paren :: "bool \<Rightarrow> string \<Rightarrow> string" where
  "paren b s = (if b then ''('' @ s @ '')'' else s)"

text \<open>The text of a command at one of the levels of the grammar: 0 for \<open>parseline\<close>, 1 for the
  operands of \<open>;\<close>, 2 for \<open>parsepipe\<close> and 3 for \<open>parseexec\<close>.\<close>

primrec unparse :: "ast \<Rightarrow> nat \<Rightarrow> string" where
  "unparse (AExec ws) = (\<lambda>n. concat (map word_text ws))"
| "unparse (ARedir a w mode fd) = (\<lambda>n. unparse a 3 @ redir_text (w, mode, fd))"
| "unparse (APipe l r) = (\<lambda>n. paren (2 < n) (unparse l 3 @ ''|'' @ unparse r 2))"
| "unparse (ABack a) = (\<lambda>n. paren (1 < n) (unparse a 1 @ ''&''))"
| "unparse (AList l r) = (\<lambda>n. paren (0 < n) (unparse l 1 @ '';'' @ unparse r 0))"

definition word_ok :: "string \<Rightarrow> bool" where
  "word_ok w \<longleftrightarrow> w \<noteq> [] \<and> (\<forall>c \<in> set w. c \<noteq> CHR 0x00 \<and> c \<notin> set whitespace \<and> c \<notin> set symbols)"

definition redir_ok :: "string \<times> int \<times> int \<Rightarrow> bool" where
  "redir_ok r = (case r of (w, mode, fd) \<Rightarrow>
     word_ok w \<and> (mode, fd) \<in> {(O_RDONLY, 0), (O_WRONLY OR O_CREATE OR O_TRUNC, 1), (O_WRONLY OR O_CREATE, 1)})"

primrec ast_ok :: "ast \<Rightarrow> bool" where
  "ast_ok (AExec ws) \<longleftrightarrow> length ws < MAXARGS \<and> (\<forall>w \<in> set ws. word_ok w)"
| "ast_ok (ARedir a w mode fd) \<longleftrightarrow> ast_ok a \<and> redir_ok (w, mode, fd)"
| "ast_ok (APipe l r) \<longleftrightarrow> ast_ok l \<and> ast_ok r"
| "ast_ok (AList l r) \<longleftrightarrow> ast_ok l \<and> ast_ok r"
| "ast_ok (ABack a) \<longleftrightarrow> ast_ok a"

definition sub :: "string \<Rightarrow> span \<Rightarrow> string" where
  "sub s sp = (case sp of (q, eq) \<Rightarrow> take (eq - q) (drop q s))"

subsection \<open>Tokens of a text\<close>

text \<open>\<open>starts t cs\<close>: the text is empty or begins with one of the characters \<open>cs\<close>.\<close>

definition starts :: "string \<Rightarrow> char set \<Rightarrow> bool" where
  "starts t cs \<longleftrightarrow> t = [] \<or> hd t \<in> cs"

abbreviation black :: "char set" where "black \<equiv> {c. c \<notin> set whitespace \<and> c \<noteq> CHR 0x00}"

lemma starts_mono: "starts t cs \<Longrightarrow> cs \<subseteq> ds \<Longrightarrow> starts t ds"
  by (auto simp: starts_def)

lemma drop_Cons_nth: "drop p s = c # t \<Longrightarrow> p < length s \<and> s ! p = c \<and> drop (Suc p) s = t"
  by (metis drop_all drop_Suc list.sel(3) list.simps(3) nth_via_drop not_le tl_drop)

lemma drop_append_length: "drop p s = a @ b \<Longrightarrow> drop (p + length a) s = b"
  by (metis add.commute append_eq_conv_conj drop_drop)

lemma char_at_drop: "char_at s p = (case drop p s of [] \<Rightarrow> CHR 0x00 | c # _ \<Rightarrow> c)"
  by (cases "p < length s") (auto simp: char_at_def Cons_nth_drop_Suc [symmetric])

lemma skip_white_black: "starts (drop p s) black \<Longrightarrow> skip_white s p = p"
proof (cases "drop p s")
  case (Cons c t)
  assume "starts (drop p s) black"
  then show ?thesis using drop_Cons_nth [OF Cons] Cons strchr_white [of c]
    by (subst skip_white.simps) (auto simp: starts_def)
qed (subst skip_white.simps, simp)

lemma peek_text:
  assumes "drop p s = t" "starts t black" "CHR 0x00 \<notin> set toks"
  shows "peek s p toks = (t \<noteq> [] \<and> hd t \<in> set toks, p)"
  using skip_white_black [of p s] assms strchr_toks [OF assms(3)]
  by (cases t) (auto simp: peek_def char_at_drop starts_def)

lemma gettoken_single:
  assumes "drop p s = c # t" "c \<in> set singles" "starts t black"
  shows "gettoken s p = (c, p, Suc p, Suc p)"
proof -
  have "c \<in> black" using assms(2) by (auto simp: singles_def whitespace_def)
  then have "skip_white s p = p" using assms(1) by (intro skip_white_black) (simp add: starts_def)
  moreover have "skip_white s (Suc p) = Suc p" using drop_Cons_nth [OF assms(1)] assms(3) by (intro skip_white_black) simp
  ultimately show ?thesis using assms(1,2) by (simp add: gettoken_eq token_at_sym char_at_drop)
qed

lemma gettoken_end: "drop p s = [] \<Longrightarrow> gettoken s p = (CHR 0x00, p, p, p)"
  using skip_white_black [of p s] by (simp add: gettoken_eq token_at_NUL char_at_drop starts_def)

lemma skip_word_text:
  "drop p s = w @ t \<Longrightarrow> \<forall>c \<in> set w. plain c \<Longrightarrow> t \<noteq> [] \<Longrightarrow> \<not> plain (hd t) \<Longrightarrow> skip_word s p = p + length w"
proof (induction w arbitrary: p)
  case Nil
  then obtain c t' where "drop p s = c # t'" by (cases t) auto
  from drop_Cons_nth [OF this] show ?case using Nil by (subst skip_word.simps) (auto simp: plain_def hd_drop_conv_nth)
next
  case (Cons c w)
  then have d: "p < length s" "s ! p = c" "drop (Suc p) s = w @ t" using drop_Cons_nth [of p s c] by auto
  then show ?case using Cons by (subst skip_word.simps) (simp add: plain_def)
qed

lemma plain_iff: "c \<noteq> CHR 0x00 \<Longrightarrow> plain c \<longleftrightarrow> c \<notin> set whitespace \<and> c \<notin> set symbols"
  by (auto simp: plain_def strchr_None whitespace_def symbols_def)

lemma gettoken_text:
  assumes "drop p s = word_text w @ t" "word_ok w" "starts t black"
  shows "gettoken s p = (CHR ''a'', p, p + length w, p + length (word_text w)) \<and> sub s (p, p + length w) = w"
proof -
  obtain c w' where w: "w = c # w'" using assms(2) by (cases w) (auto simp: word_ok_def)
  have c: "c \<in> black" "c \<notin> set symbols" using assms(2) w by (auto simp: word_ok_def)
  have d: "drop p s = w @ CHR '' '' # t" using assms(1) by (simp add: word_text_def)
  have q: "skip_white s p = p" using d w c by (intro skip_white_black) (simp add: starts_def)
  have "skip_word s p = p + length w"
  proof (rule skip_word_text [OF d])
    show "\<forall>c \<in> set w. plain c" using assms(2) by (simp add: word_ok_def plain_iff)
    show "\<not> plain (hd (CHR '' '' # t))" by (simp add: plain_def whitespace_def)
  qed simp
  then have tok: "token_at s p = (CHR ''a'', p + length w)" using c w d by (simp add: token_at_word char_at_drop)
  have d2: "drop (p + length w) s = CHR '' '' # t" using d by (rule drop_append_length)
  then have "skip_white s (p + length w) = skip_white s (Suc (p + length w))"
    using drop_Cons_nth [OF d2] by (subst skip_white.simps) (simp add: whitespace_def)
  also have "\<dots> = Suc (p + length w)" using drop_Cons_nth [OF d2] assms(3) by (intro skip_white_black) simp
  finally show ?thesis using q tok d by (simp add: gettoken_eq word_text_def sub_def)
qed

subsection \<open>Redirections and words of a text\<close>

abbreviation redirs_text :: "(string \<times> int \<times> int) list \<Rightarrow> string" where
  "redirs_text rs \<equiv> concat (map redir_text rs)"

abbreviation words_text :: "string list \<Rightarrow> string" where
  "words_text ws \<equiv> concat (map word_text ws)"

definition redir_of :: "string \<Rightarrow> redirection \<Rightarrow> string \<times> int \<times> int" where
  "redir_of s r = (sub s (fst r), snd r)"

lemma redir_of_simp [simp]: "redir_of s (sp, x) = (sub s sp, x)"
  by (simp add: redir_of_def)

lemma redir_text_simp [simp]: "redir_text (w, mode, fd) = rsym mode @ word_text w"
  by (simp add: redir_text_def)

lemma starts_redirs:
  "starts t cs \<Longrightarrow> set ''<>'' \<subseteq> cs \<Longrightarrow> starts (redirs_text rs @ t) cs"
proof (cases rs)
  case (Cons r rs')
  assume "set ''<>'' \<subseteq> cs"
  then show ?thesis using Cons by (cases r) (auto simp: starts_def rsym_def)
qed simp

lemma flags_distinct: "O_WRONLY OR O_CREATE OR O_TRUNC \<noteq> O_RDONLY" "O_WRONLY OR O_CREATE \<noteq> O_RDONLY"
  "O_WRONLY OR O_CREATE \<noteq> O_WRONLY OR O_CREATE OR O_TRUNC"
  by (simp_all add: O_WRONLY_def O_CREATE_def O_TRUNC_def O_RDONLY_def)

lemma word_ok_hd: "word_ok w \<Longrightarrow> w \<noteq> [] \<and> hd w \<in> black \<and> hd w \<notin> set symbols"
  by (cases w) (auto simp: word_ok_def)

lemma gettoken_rsym:
  assumes "drop p s = rsym mode @ t" "t \<noteq> []" "hd t \<in> black" "hd t \<notin> set symbols"
  shows "gettoken s p = (if mode = O_RDONLY then CHR ''<'' else if mode = O_WRONLY OR O_CREATE OR O_TRUNC then CHR ''>'' else CHR ''+'',
    p, p + length (rsym mode), p + length (rsym mode))"
proof -
  have "hd (drop p s) \<in> black" "drop p s \<noteq> []" using assms(1) by (auto simp: rsym_def whitespace_def)
  then have q: "skip_white s p = p" by (intro skip_white_black) (simp add: starts_def)
  have "drop (p + length (rsym mode)) s = t" using assms(1) by (rule drop_append_length)
  then have e: "skip_white s (p + length (rsym mode)) = p + length (rsym mode)"
    using assms(2,3) by (intro skip_white_black) (simp add: starts_def)
  have d: "drop (Suc p) s = tl (rsym mode) @ t" using assms(1) by (simp add: drop_Suc tl_drop [symmetric] rsym_def)
  have t: "hd t \<noteq> CHR ''>''" using assms(4) by (auto simp: symbols_def)
  show ?thesis
    using q e assms(1,2) d t
    by (cases t) (simp_all add: gettoken_eq rsym_def char_at_drop token_at_sym singles_def)
qed

lemma parseredirs_text:
  assumes "drop p s = redirs_text rs @ t" "\<forall>r \<in> set rs. redir_ok r" "starts t (black - set ''<>'')"
  shows "\<exists>rs'. parseredirs s rs0 p = Inr (rs0 @ rs', p + length (redirs_text rs)) \<and> map (redir_of s) rs' = rs"
  using assms(1,2)
proof (induction rs arbitrary: rs0 p)
  case Nil
  then have "peek s p ''<>'' = (False, p)"
    using assms(3) by (subst peek_text [of _ _ t]) (auto simp: starts_def)
  then show ?case by (subst parseredirs.simps) simp
next
  case (Cons r rs)
  obtain w mode fd where r: "r = (w, mode, fd)" by (cases r) auto
  have ok: "word_ok w" "(mode, fd) \<in> {(O_RDONLY, 0), (O_WRONLY OR O_CREATE OR O_TRUNC, 1), (O_WRONLY OR O_CREATE, 1)}"
    using Cons.prems(2) r by (auto simp: redir_ok_def)
  let ?t = "redirs_text rs @ t" and ?p = "p + length (rsym mode)"
  have d: "drop p s = rsym mode @ word_text w @ ?t" using Cons.prems(1) r by simp
  have d2: "drop ?p s = word_text w @ ?t" using d by (rule drop_append_length)
  have st: "starts ?t black"
    using assms(3) by (intro starts_redirs starts_mono [OF assms(3)]) (auto simp: whitespace_def)
  have pk: "peek s p ''<>'' = (True, p)"
    using d by (subst peek_text [OF d]) (auto simp: rsym_def starts_def whitespace_def)
  have wt: "word_text w @ ?t \<noteq> []" "hd (word_text w @ ?t) = hd w" using word_ok_hd [OF ok(1)] by (auto simp: word_text_def)
  have g1: "gettoken s p = (if mode = O_RDONLY then CHR ''<'' else if mode = O_WRONLY OR O_CREATE OR O_TRUNC then CHR ''>'' else CHR ''+'', p, ?p, ?p)"
    using word_ok_hd [OF ok(1)] wt by (intro gettoken_rsym [OF d]) simp_all
  have g2: "gettoken s ?p = (CHR ''a'', ?p, ?p + length w, ?p + length (word_text w))" "sub s (?p, ?p + length w) = w"
    using gettoken_text [OF d2 ok(1) st] by auto
  have step: "parseredirs s rs0 p = parseredirs s (rs0 @ [((?p, ?p + length w), mode, fd)]) (?p + length (word_text w))"
    using ok(2) flags_distinct by (subst parseredirs.simps) (auto simp: pk g1 g2)
  have d3: "drop (?p + length (word_text w)) s = ?t" using d2 by (rule drop_append_length)
  obtain rs' where "parseredirs s (rs0 @ [((?p, ?p + length w), mode, fd)]) (?p + length (word_text w)) =
      Inr ((rs0 @ [((?p, ?p + length w), mode, fd)]) @ rs', ?p + length (word_text w) + length (redirs_text rs))"
    "map (redir_of s) rs' = rs"
    using Cons.IH [OF d3] Cons.prems(2) by (metis list.set_intros(2))
  then show ?case using step g2(2) r
    by (intro exI [of _ "((?p, ?p + length w), mode, fd) # rs'"]) simp
qed

definition aredir :: "ast \<Rightarrow> (string \<times> int \<times> int) list \<Rightarrow> ast" where
  "aredir a rs = foldl (\<lambda>a (w, mode, fd). ARedir a w mode fd) a rs"

lemma ast_of_redir: "ast_of (sub s) (redir c rs) = aredir (ast_of (sub s) c) (map (redir_of s) rs)"
  unfolding redir_def aredir_def by (induction rs arbitrary: c) (auto simp: redir_of_def)

lemma aredir_simps [simp]: "aredir a [] = a" "aredir (ARedir a w mode fd) rs = aredir a ((w, mode, fd) # rs)"
  by (simp_all add: aredir_def)

lemma parse_args_text:
  assumes "drop p s = words_text ws @ redirs_text rs @ t" "\<forall>w \<in> set ws. word_ok w" "\<forall>r \<in> set rs. redir_ok r"
    "starts t (set ''|)&;'')" "length args + length ws < MAXARGS"
  shows "\<exists>c. pbind (parseredirs s [] p) (\<lambda>(rs, p). parse_args s args rs p) =
      Inr (c, p + length (words_text ws @ redirs_text rs)) \<and>
    ast_of (sub s) c = aredir (AExec (map (sub s) args @ ws)) rs"
  using assms
proof (induction ws arbitrary: args p)
  case Nil
  have t: "starts t (black - set ''<>'')" by (rule starts_mono [OF assms(4)]) (auto simp: whitespace_def)
  let ?p = "p + length (redirs_text rs)"
  obtain rs' where rs': "parseredirs s [] p = Inr (rs', ?p)" "map (redir_of s) rs' = rs"
    using parseredirs_text [of p s rs t "[]"] Nil.prems(1,3) t by auto
  have d: "drop ?p s = t" using Nil.prems(1) by (intro drop_append_length) simp
  have pk: "peek s ?p ''|)&;'' = (t \<noteq> [], ?p)"
    using assms(4) starts_mono [OF assms(4), of black]
    by (subst peek_text [OF d]) (auto simp: starts_def whitespace_def)
  have "parse_args s args rs' ?p = Inr (redir (EXEC args) rs', ?p)"
    using gettoken_end [of ?p s] d by (subst parse_args.simps) (auto simp: pk)
  then show ?case using rs' by (simp add: ast_of_redir)
next
  case (Cons w ws)
  let ?t = "words_text ws @ redirs_text rs @ t" and ?p = "p + length (word_text w)"
  have w: "word_ok w" using Cons.prems(2) by simp
  note hd = word_ok_hd [OF w]
  have d: "drop p s = word_text w @ ?t" using Cons.prems(1) by simp
  have d2: "drop ?p s = ?t" using d by (rule drop_append_length)
  have sw: "starts (word_text w @ r) (black - set symbols)" for r
    using hd by (auto simp: starts_def word_text_def)
  have st: "starts ?t black"
  proof (cases ws)
    case Nil
    then show ?thesis using assms(4) by (auto intro!: starts_redirs starts_mono [OF assms(4)] simp: whitespace_def)
  next
    case (Cons v vs)
    then have "word_ok v" using Cons.prems(2) by simp
    from word_ok_hd [OF this] show ?thesis using Cons by (auto simp: starts_def word_text_def)
  qed
  obtain rs0 where "parseredirs s [] p = Inr (rs0, p)" "rs0 = []"
    using parseredirs_text [of p s "[]" "word_text w @ ?t" "[]"] d starts_mono [OF sw, of "black - set ''<>''"]
    by (auto simp: symbols_def)
  then have pr: "parseredirs s [] p = Inr ([], p)" by simp
  have pk: "peek s p ''|)&;'' = (False, p)"
    using hd starts_mono [OF sw, of black] by (subst peek_text [OF d]) (auto simp: word_text_def symbols_def)
  have g: "gettoken s p = (CHR ''a'', p, p + length w, ?p)" "sub s (p, p + length w) = w"
    using gettoken_text [OF d w st] by auto
  have "\<not> Suc (length args) \<ge> MAXARGS" using Cons.prems(5) by simp
  then have step: "pbind (parseredirs s [] p) (\<lambda>(rs, p). parse_args s args rs p) =
      pbind (parseredirs s [] ?p) (\<lambda>(rs, p'). parse_args s (args @ [(p, p + length w)]) rs p')"
    by (simp add: pr, subst parse_args.simps) (simp add: pk g split: sum.split)
  obtain c where "pbind (parseredirs s [] ?p) (\<lambda>(rs, p'). parse_args s (args @ [(p, p + length w)]) rs p') =
      Inr (c, ?p + length (words_text ws @ redirs_text rs))"
    "ast_of (sub s) c = aredir (AExec (map (sub s) (args @ [(p, p + length w)]) @ ws)) rs"
    using Cons.IH [OF d2, of "args @ [(p, p + length w)]"] Cons.prems(2-5) by auto
  then show ?case unfolding step using g(2) by simp
qed

subsection \<open>The levels of the grammar\<close>

text \<open>What the parsing functions do with the text of a command, unless they run out of fuel.\<close>

definition exec_at :: "string \<Rightarrow> ast \<Rightarrow> bool" where
  "exec_at s a \<longleftrightarrow> (\<forall>f p rs t.
     drop p s = unparse a 3 @ redirs_text rs @ t \<longrightarrow> (\<forall>r \<in> set rs. redir_ok r) \<longrightarrow> starts t (set ''|)&;'') \<longrightarrow>
     parseexec f s p \<noteq> Inl NoFuel \<longrightarrow>
     (\<exists>c. parseexec f s p = Inr (c, p + length (unparse a 3 @ redirs_text rs)) \<and> ast_of (sub s) c = aredir a rs))"

definition pipe_at :: "string \<Rightarrow> ast \<Rightarrow> bool" where
  "pipe_at s a \<longleftrightarrow> (\<forall>f p t.
     drop p s = unparse a 2 @ t \<longrightarrow> starts t (set '')&;'') \<longrightarrow> parsepipe f s p \<noteq> Inl NoFuel \<longrightarrow>
     (\<exists>c. parsepipe f s p = Inr (c, p + length (unparse a 2)) \<and> ast_of (sub s) c = a))"

definition back_at :: "string \<Rightarrow> ast \<Rightarrow> bool" where
  "back_at s a \<longleftrightarrow> (\<forall>f p t.
     drop p s = unparse a 1 @ t \<longrightarrow> starts t (set '')&;'') \<longrightarrow> parsepipe f s p \<noteq> Inl NoFuel \<longrightarrow>
     (\<exists>c0 p0 c. parsepipe f s p = Inr (c0, p0) \<and> parse_back s c0 p0 = parse_back s c (p + length (unparse a 1)) \<and>
       ast_of (sub s) c = a))"

definition line_at :: "string \<Rightarrow> ast \<Rightarrow> bool" where
  "line_at s a \<longleftrightarrow> (\<forall>f p t.
     drop p s = unparse a 0 @ t \<longrightarrow> starts t (set '')'') \<longrightarrow> parseline f s p \<noteq> Inl NoFuel \<longrightarrow>
     (\<exists>c. parseline f s p = Inr (c, p + length (unparse a 0)) \<and> ast_of (sub s) c = a))"

lemma starts_words: "\<forall>w \<in> set ws. word_ok w \<Longrightarrow> starts t cs \<Longrightarrow> black - set symbols \<subseteq> cs \<Longrightarrow> starts (words_text ws @ t) cs"
proof (cases ws)
  case (Cons w ws')
  assume "\<forall>w \<in> set ws. word_ok w" "black - set symbols \<subseteq> cs"
  then show ?thesis using Cons word_ok_hd [of w] by (auto simp: starts_def word_text_def)
qed simp

lemma starts_unparse: "ast_ok a \<Longrightarrow> starts t black \<Longrightarrow> starts (unparse a n @ t) black"
proof (induction a arbitrary: n t)
  case (AExec ws)
  then show ?case by (auto intro!: starts_words)
next
  case (ARedir a w mode fd)
  then show ?case using starts_redirs [of t black "[(w, mode, fd)]"] by (auto simp: whitespace_def)
next
  case (APipe l r)
  then show ?case by (auto simp: paren_def starts_def [of "_ # _"] whitespace_def)
next
  case (AList l r)
  then show ?case by (auto simp: paren_def starts_def [of "_ # _"] whitespace_def)
next
  case (ABack a)
  then show ?case by (auto simp: paren_def starts_def [of "_ # _"] whitespace_def)
qed

lemma starts_black: "starts t (set cs) \<Longrightarrow> set cs \<subseteq> set symbols \<Longrightarrow> starts t black"
  by (erule starts_mono) (auto simp: symbols_def whitespace_def)

lemma peek_starts:
  assumes "drop p s = t" "starts t (set cs)" "set cs \<subseteq> set symbols" "CHR 0x00 \<notin> set toks"
  shows "peek s p toks = (t \<noteq> [] \<and> hd t \<in> set toks, p)"
  using assms starts_black [OF assms(2,3)] by (intro peek_text) auto

lemma exec_at_words:
  assumes "ast_ok (AExec ws)"
  shows "exec_at s (AExec ws)"
  unfolding exec_at_def
proof (intro allI impI)
  fix f p rs t
  assume d: "drop p s = unparse (AExec ws) 3 @ redirs_text rs @ t" and rs: "\<forall>r \<in> set rs. redir_ok r"
    and t: "starts t (set ''|)&;'')" and f: "parseexec f s p \<noteq> Inl NoFuel"
  then obtain f' where f': "f = Suc f'" by (cases f) auto
  have st: "starts (words_text ws @ redirs_text rs @ t) (black - set ''('')"
    using assms t by (intro starts_words starts_redirs starts_mono [OF t]) (auto simp: whitespace_def symbols_def)
  have "peek s p ''('' = (False, p)"
    using st d by (subst peek_text [OF d]) (auto simp: starts_def)
  then show "\<exists>c. parseexec f s p = Inr (c, p + length (unparse (AExec ws) 3 @ redirs_text rs)) \<and>
      ast_of (sub s) c = aredir (AExec ws) rs"
    using parse_args_text [of p s ws rs t "[]"] d rs t assms by (simp add: f')
qed

lemma exec_at_redir:
  assumes "exec_at s a" "redir_ok (w, mode, fd)"
  shows "exec_at s (ARedir a w mode fd)"
  unfolding exec_at_def
proof (intro allI impI)
  fix f p rs t
  assume "drop p s = unparse (ARedir a w mode fd) 3 @ redirs_text rs @ t" "\<forall>r \<in> set rs. redir_ok r"
    "starts t (set ''|)&;'')" "parseexec f s p \<noteq> Inl NoFuel"
  then show "\<exists>c. parseexec f s p = Inr (c, p + length (unparse (ARedir a w mode fd) 3 @ redirs_text rs)) \<and>
      ast_of (sub s) c = aredir (ARedir a w mode fd) rs"
    using assms(1) [unfolded exec_at_def, rule_format, of p "(w, mode, fd) # rs" t f] assms(2)
    by (auto simp: add.assoc)
qed

lemma pipe_of_exec:
  assumes "exec_at s a" "unparse a 2 = unparse a 3"
  shows "pipe_at s a"
  unfolding pipe_at_def
proof (intro allI impI)
  fix f p t
  assume d: "drop p s = unparse a 2 @ t" and t: "starts t (set '')&;'')" and f: "parsepipe f s p \<noteq> Inl NoFuel"
  then obtain f' where f': "f = Suc f'" by (cases f) auto
  have "parseexec f' s p \<noteq> Inl NoFuel" using f f' by auto
  moreover have "starts t (set ''|)&;'')" by (rule starts_mono [OF t]) auto
  ultimately obtain c where c: "parseexec f' s p = Inr (c, p + length (unparse a 3))" "ast_of (sub s) c = a"
    using assms(1) [unfolded exec_at_def, rule_format, of p "[]" t f'] d assms(2) by auto
  have "drop (p + length (unparse a 3)) s = t" using d assms(2) by (intro drop_append_length) simp
  from peek_starts [OF this t] have "peek s (p + length (unparse a 3)) ''|'' = (False, p + length (unparse a 3))"
    using t by (auto simp: symbols_def starts_def)
  then show "\<exists>c. parsepipe f s p = Inr (c, p + length (unparse a 2)) \<and> ast_of (sub s) c = a"
    using c assms(2) by (simp add: f')
qed

lemma pipe_pipe:
  assumes "exec_at s l" "pipe_at s r" "ast_ok r"
  shows "pipe_at s (APipe l r)"
  unfolding pipe_at_def
proof (intro allI impI)
  fix f p t
  let ?p = "p + length (unparse l 3)"
  assume d: "drop p s = unparse (APipe l r) 2 @ t" and t: "starts t (set '')&;'')" and f: "parsepipe f s p \<noteq> Inl NoFuel"
  then obtain f' where f': "f = Suc f'" by (cases f) auto
  have d1: "drop p s = unparse l 3 @ CHR ''|'' # unparse r 2 @ t" using d by (simp add: paren_def)
  have fe: "parseexec f' s p \<noteq> Inl NoFuel" using f f' by auto
  obtain c where c: "parseexec f' s p = Inr (c, ?p)" "ast_of (sub s) c = l"
    using assms(1) [unfolded exec_at_def, rule_format, of p "[]" "CHR ''|'' # unparse r 2 @ t" f'] d1 fe by (auto simp: starts_def)
  have d2: "drop ?p s = CHR ''|'' # unparse r 2 @ t" using d1 by (rule drop_append_length)
  have pk: "peek s ?p ''|'' = (True, ?p)" by (subst peek_text [OF d2]) (auto simp: starts_def whitespace_def)
  have st: "starts (unparse r 2 @ t) black" by (rule starts_unparse [OF assms(3) starts_black [OF t]]) (simp add: symbols_def)
  have g: "gettoken s ?p = (CHR ''|'', ?p, Suc ?p, Suc ?p)" by (rule gettoken_single [OF d2 _ st]) (simp add: singles_def)
  have d3: "drop (Suc ?p) s = unparse r 2 @ t" using drop_Cons_nth [OF d2] by simp
  have "parsepipe f' s (Suc ?p) \<noteq> Inl NoFuel" using f by (auto simp: f' c pk g)
  then obtain c' where "parsepipe f' s (Suc ?p) = Inr (c', Suc ?p + length (unparse r 2))" "ast_of (sub s) c' = r"
    using assms(2) [unfolded pipe_at_def, rule_format, OF d3 t] by blast
  then show "\<exists>c. parsepipe f s p = Inr (c, p + length (unparse (APipe l r) 2)) \<and> ast_of (sub s) c = APipe l r"
    using c by (simp add: f' pk g paren_def)
qed

lemma back_of_pipe:
  assumes "pipe_at s a" "unparse a 1 = unparse a 2"
  shows "back_at s a"
  using assms(1) unfolding back_at_def pipe_at_def assms(2) by blast

lemma back_back:
  assumes "back_at s a"
  shows "back_at s (ABack a)"
  unfolding back_at_def
proof (intro allI impI)
  fix f p t
  let ?p = "p + length (unparse a 1)"
  assume d: "drop p s = unparse (ABack a) 1 @ t" and t: "starts t (set '')&;'')" and f: "parsepipe f s p \<noteq> Inl NoFuel"
  have d1: "drop p s = unparse a 1 @ CHR ''&'' # t" using d by (simp add: paren_def)
  obtain c0 p0 c where c: "parsepipe f s p = Inr (c0, p0)" "parse_back s c0 p0 = parse_back s c ?p" "ast_of (sub s) c = a"
    using assms [unfolded back_at_def, rule_format, OF d1 _ f] by (auto simp: starts_def)
  have d2: "drop ?p s = CHR ''&'' # t" using d1 by (rule drop_append_length)
  have pk: "peek s ?p ''&'' = (True, ?p)" by (subst peek_text [OF d2]) (auto simp: starts_def whitespace_def)
  have g: "gettoken s ?p = (CHR ''&'', ?p, Suc ?p, Suc ?p)"
    by (rule gettoken_single [OF d2 _ starts_black [OF t]]) (simp_all add: singles_def symbols_def)
  have "parse_back s c ?p = parse_back s (BACK c) (Suc ?p)" by (subst parse_back.simps) (simp add: pk g del: One_nat_def)
  then show "\<exists>c0 p0 c. parsepipe f s p = Inr (c0, p0) \<and>
      parse_back s c0 p0 = parse_back s c (p + length (unparse (ABack a) 1)) \<and> ast_of (sub s) c = ABack a"
    using c by (intro exI [of _ c0] exI [of _ p0] exI [of _ "BACK c"]) (simp add: paren_def)
qed

lemma parse_back_end:
  assumes "drop p s = t" "starts t (set '');'')"
  shows "parse_back s c p = (c, p)"
  using peek_starts [OF assms, of "''&''"] assms(2)
  by (subst parse_back.simps) (auto simp: symbols_def starts_def)

lemma line_of_back:
  assumes "back_at s a" "unparse a 0 = unparse a 1"
  shows "line_at s a"
  unfolding line_at_def
proof (intro allI impI)
  fix f p t
  let ?p = "p + length (unparse a 1)"
  assume d: "drop p s = unparse a 0 @ t" and t: "starts t (set '')'')" and f: "parseline f s p \<noteq> Inl NoFuel"
  then obtain f' where f': "f = Suc f'" by (cases f) auto
  have fp: "parsepipe f' s p \<noteq> Inl NoFuel" using f f' by auto
  have t2: "starts t (set '');'')" "starts t (set '')&;'')" using t by (auto simp: starts_def)
  obtain c0 p0 c where c: "parsepipe f' s p = Inr (c0, p0)" "parse_back s c0 p0 = parse_back s c ?p" "ast_of (sub s) c = a"
    using assms(1) [unfolded back_at_def, rule_format, OF _ t2(2) fp] d assms(2) by auto
  have d2: "drop ?p s = t" using d assms(2) by (intro drop_append_length) simp
  have "peek s ?p '';'' = (False, ?p)" using peek_starts [OF d2 t2(1), of "'';''"] t by (auto simp: symbols_def starts_def)
  then show "\<exists>c. parseline f s p = Inr (c, p + length (unparse a 0)) \<and> ast_of (sub s) c = a"
    using c parse_back_end [OF d2 t2(1)] assms(2) by (simp add: f')
qed

lemma line_list:
  assumes "back_at s l" "line_at s r" "ast_ok r"
  shows "line_at s (AList l r)"
  unfolding line_at_def
proof (intro allI impI)
  fix f p t
  let ?p = "p + length (unparse l 1)"
  assume d: "drop p s = unparse (AList l r) 0 @ t" and t: "starts t (set '')'')" and f: "parseline f s p \<noteq> Inl NoFuel"
  then obtain f' where f': "f = Suc f'" by (cases f) auto
  have d1: "drop p s = unparse l 1 @ CHR '';'' # unparse r 0 @ t" using d by (simp add: paren_def)
  have fp: "parsepipe f' s p \<noteq> Inl NoFuel" using f f' by auto
  obtain c0 p0 c where c: "parsepipe f' s p = Inr (c0, p0)" "parse_back s c0 p0 = parse_back s c ?p" "ast_of (sub s) c = l"
    using assms(1) [unfolded back_at_def, rule_format, OF d1 _ fp] by (auto simp: starts_def)
  have d2: "drop ?p s = CHR '';'' # unparse r 0 @ t" using d1 by (rule drop_append_length)
  have pb: "parse_back s c ?p = (c, ?p)" using parse_back_end [OF d2] by (simp add: starts_def)
  have pk: "peek s ?p '';'' = (True, ?p)" by (subst peek_text [OF d2]) (auto simp: starts_def whitespace_def)
  have st: "starts (unparse r 0 @ t) black" by (rule starts_unparse [OF assms(3) starts_black [OF t]]) (simp add: symbols_def)
  have g: "gettoken s ?p = (CHR '';'', ?p, Suc ?p, Suc ?p)" by (rule gettoken_single [OF d2 _ st]) (simp add: singles_def)
  have d3: "drop (Suc ?p) s = unparse r 0 @ t" using drop_Cons_nth [OF d2] by simp
  have "parseline f' s (Suc ?p) \<noteq> Inl NoFuel" using f by (auto simp: f' c pb pk g simp del: One_nat_def)
  then obtain c' where "parseline f' s (Suc ?p) = Inr (c', Suc ?p + length (unparse r 0))" "ast_of (sub s) c' = r"
    using assms(2) [unfolded line_at_def, rule_format, OF d3 t] by blast
  then show "\<exists>c. parseline f s p = Inr (c, p + length (unparse (AList l r) 0)) \<and> ast_of (sub s) c = AList l r"
    using c by (simp add: f' pb pk g paren_def del: One_nat_def)
qed

lemma exec_paren:
  assumes "line_at s a" "unparse a 3 = ''('' @ unparse a 0 @ '')''" "ast_ok a"
  shows "exec_at s a"
  unfolding exec_at_def
proof (intro allI impI)
  fix f p rs t
  let ?t = "redirs_text rs @ t" and ?p = "Suc p + length (unparse a 0)"
  assume d: "drop p s = unparse a 3 @ ?t" and rs: "\<forall>r \<in> set rs. redir_ok r"
    and t: "starts t (set ''|)&;'')" and f: "parseexec f s p \<noteq> Inl NoFuel"
  have d0: "drop p s = CHR ''('' # unparse a 0 @ CHR '')'' # ?t" using d assms(2) by simp
  have pk: "peek s p ''('' = (True, p)" by (subst peek_text [OF d0]) (auto simp: starts_def whitespace_def)
  obtain f1 where f1: "f = Suc f1" using f by (cases f) auto
  obtain f2 where f2: "f1 = Suc f2" using f f1 pk by (cases f1) auto
  have "starts (unparse a 0 @ CHR '')'' # ?t) black" by (rule starts_unparse [OF assms(3)]) (simp add: starts_def whitespace_def)
  from gettoken_single [OF d0 _ this] have g: "gettoken s p = (CHR ''('', p, Suc p, Suc p)" by (simp add: singles_def)
  have d1: "drop (Suc p) s = unparse a 0 @ CHR '')'' # ?t" using drop_Cons_nth [OF d0] by simp
  have "parseline f2 s (Suc p) \<noteq> Inl NoFuel" using f by (auto simp: f1 f2 pk g)
  then obtain c where c: "parseline f2 s (Suc p) = Inr (c, ?p)" "ast_of (sub s) c = a"
    using assms(1) [unfolded line_at_def, rule_format, OF d1] by (auto simp: starts_def)
  have d2: "drop ?p s = CHR '')'' # ?t" using d1 by (rule drop_append_length)
  have pk2: "peek s ?p '')'' = (True, ?p)" by (subst peek_text [OF d2]) (auto simp: starts_def whitespace_def)
  have st: "starts ?t black" by (rule starts_redirs [OF starts_black [OF t]]) (auto simp: symbols_def whitespace_def)
  from gettoken_single [OF d2 _ this] have g2: "gettoken s ?p = (CHR '')'', ?p, Suc ?p, Suc ?p)" by (simp add: singles_def)
  have d3: "drop (Suc ?p) s = ?t" using drop_Cons_nth [OF d2] by simp
  have "starts t (black - set ''<>'')" by (rule starts_mono [OF t]) (auto simp: whitespace_def)
  from parseredirs_text [OF d3 rs this, of "[]"]
  obtain rs' where rs': "parseredirs s [] (Suc ?p) = Inr (rs', Suc ?p + length (redirs_text rs))" "map (redir_of s) rs' = rs" by auto
  then show "\<exists>c. parseexec f s p = Inr (c, p + length (unparse a 3 @ redirs_text rs)) \<and> ast_of (sub s) c = aredir a rs"
    using c pk2 g2 by (simp add: f1 f2 pk g assms(2) ast_of_redir)
qed

lemma unparse_levels:
  assumes "ast_ok a"
  shows "exec_at s a \<and> pipe_at s a \<and> back_at s a \<and> line_at s a"
  using assms
proof (induction a)
  case (AExec ws)
  have e: "exec_at s (AExec ws)" using AExec by (rule exec_at_words)
  then have "pipe_at s (AExec ws)" by (rule pipe_of_exec) simp
  moreover from this have "back_at s (AExec ws)" by (rule back_of_pipe) simp
  moreover from this have "line_at s (AExec ws)" by (rule line_of_back) simp
  ultimately show ?case using e by blast
next
  case (ARedir a w mode fd)
  have e: "exec_at s (ARedir a w mode fd)" using ARedir by (intro exec_at_redir) auto
  then have "pipe_at s (ARedir a w mode fd)" by (rule pipe_of_exec) simp
  moreover from this have "back_at s (ARedir a w mode fd)" by (rule back_of_pipe) simp
  moreover from this have "line_at s (ARedir a w mode fd)" by (rule line_of_back) simp
  ultimately show ?case using e by blast
next
  case (APipe l r)
  have p: "pipe_at s (APipe l r)" using APipe by (intro pipe_pipe) auto
  then have b: "back_at s (APipe l r)" by (rule back_of_pipe) (simp add: paren_def)
  then have l: "line_at s (APipe l r)" by (rule line_of_back) (simp add: paren_def)
  then have "exec_at s (APipe l r)" by (rule exec_paren [OF _ _ APipe.prems]) (simp add: paren_def)
  then show ?case using p b l by blast
next
  case (AList l r)
  have l: "line_at s (AList l r)" using AList by (intro line_list) auto
  then have e: "exec_at s (AList l r)" by (rule exec_paren [OF _ _ AList.prems]) (simp add: paren_def)
  then have p: "pipe_at s (AList l r)" by (rule pipe_of_exec) (simp add: paren_def)
  then have "back_at s (AList l r)" by (rule back_of_pipe) (simp add: paren_def)
  then show ?case using p e l by blast
next
  case (ABack a)
  have b: "back_at s (ABack a)" using ABack by (intro back_back) auto
  then have l: "line_at s (ABack a)" by (rule line_of_back) (simp add: paren_def)
  then have e: "exec_at s (ABack a)" by (rule exec_paren [OF _ _ ABack.prems]) (simp add: paren_def)
  then have "pipe_at s (ABack a)" by (rule pipe_of_exec) (simp add: paren_def)
  then show ?case using b e l by blast
qed

lemma ast_of_cong: "(\<And>sp. sp \<in> spans c \<Longrightarrow> g sp = h sp) \<Longrightarrow> ast_of g c = ast_of h c"
  by (induction c) auto

lemma parsecmd_words:
  assumes "CHR 0x00 \<notin> set s" "parsecmd s = Inr (c, b)"
  shows "ast_of (\<lambda>(q, _). cstr b q) c = ast_of (sub s) c"
proof -
  have c: "\<forall>sp \<in> spans c. span_ok s sp" "b = nulterminate c (s @ [CHR 0x00])"
    using assms(2) parseline_ok [of s]
    by (cases "parseline (parse_fuel s) s 0"; auto simp: parsecmd_def parses_def split: prod.splits if_splits)+
  show ?thesis
    using word_intact [OF assms(1) c(1)] c(2) by (intro ast_of_cong) (auto simp: sub_def)
qed

lemma unparse_no_NUL: "ast_ok a \<Longrightarrow> CHR 0x00 \<notin> set (unparse a n)"
  by (induction a arbitrary: n) (auto simp: word_ok_def redir_ok_def word_text_def rsym_def paren_def)

lemma parsecmd_unparse:
  assumes "ast_ok a"
  shows "\<exists>c b. parsecmd (unparse a 0) = Inr (c, b) \<and> ast_of (\<lambda>(q, _). cstr b q) c = a"
proof -
  let ?s = "unparse a 0"
  have "parseline (parse_fuel ?s) ?s 0 \<noteq> Inl NoFuel" using parseline_ok [of ?s] by (auto simp: parses_def)
  then obtain c where c: "parseline (parse_fuel ?s) ?s 0 = Inr (c, length ?s)" "ast_of (sub ?s) c = a"
    using conjunct2 [OF conjunct2 [OF conjunct2 [OF unparse_levels [OF assms, of ?s]]], unfolded line_at_def, rule_format,
        of 0 "[]" "parse_fuel ?s"] by (auto simp: starts_def)
  have "peek ?s (length ?s) [] = (False, length ?s)" by (subst peek_text [of _ _ "[]"]) (auto simp: starts_def)
  then have "parsecmd ?s = Inr (c, nulterminate c (?s @ [CHR 0x00]))" using c by (simp add: parsecmd_def)
  then show ?thesis using parsecmd_words [OF unparse_no_NUL [OF assms]] c(2) by metis
qed

section \<open>Descriptors\<close>

text \<open>
  What the processes that a program forks get to \<open>exec\<close>. Each process has a table of descriptors,
  in which \<open>dup\<close>, \<open>open\<close> and \<open>pipe\<close> use the lowest free entries; \<open>fork\<close> gives the child a
  copy of the table and returns. \<open>can\<close> says which files can be opened in which mode. A pipe is named
  by the path of forks and pipes that led to its creation. The result lists, in the order of the
  forks, the arguments of each \<open>exec\<close> and the table of the process that makes it.
\<close>

datatype channel = Std nat | OFile string int | PipeR "nat list" | PipeW "nat list"

type_synonym fdtab = "channel option list"

definition ret_only :: "int \<Rightarrow> reply" where
  "ret_only r = (bytes_reply [])\<lparr>ret := r\<rparr>"

definition with_free :: "fdtab \<Rightarrow> (int \<Rightarrow> nat \<Rightarrow> 'a) \<Rightarrow> 'a \<Rightarrow> 'a" where
  "with_free T f g = (case find_index (\<lambda>x. x = None) T of None \<Rightarrow> g | Some n \<Rightarrow> f (int n) n)"

primrec execs :: "(string \<Rightarrow> int \<Rightarrow> bool) \<Rightarrow> uprog \<Rightarrow> nat list \<Rightarrow> fdtab \<Rightarrow> (string list \<times> fdtab) list" where
  "execs can (Exit c) = (\<lambda>u T. [])"
| "execs can OutOfFuel = (\<lambda>u T. [])"
| "execs can (Sys q k) = (\<lambda>u T.
     case q of
       SysFork \<Rightarrow> execs can (k (ret_only 0)) (0 # u) T @ execs can (k (ret_only 1)) (1 # u) T
     | SysExec path argv \<Rightarrow> [(argv, T)]
     | SysClose fd \<Rightarrow> execs can (k (ret_only 0)) u (T[nat fd := None])
     | SysDup fd \<Rightarrow>
         with_free T (\<lambda>r n. execs can (k (ret_only r)) u (T[n := T ! nat fd])) (execs can (k (ret_only (- 1))) u T)
     | SysOpen path mode \<Rightarrow>
         (if can path mode
          then with_free T (\<lambda>r n. execs can (k (ret_only r)) u (T[n := Some (OFile path mode)])) (execs can (k (ret_only (- 1))) u T)
          else execs can (k (ret_only (- 1))) u T)
     | SysPipe \<Rightarrow>
         with_free T (\<lambda>r n.
           with_free (T[n := Some (PipeR u)]) (\<lambda>r' n'.
               execs can (k ((ret_only 0)\<lparr>pfds := (r, r')\<rparr>)) (2 # u) (T[n := Some (PipeR u), n' := Some (PipeW u)]))
             (execs can (k (ret_only (- 1))) u T))
           (execs can (k (ret_only (- 1))) u T)
     | _ \<Rightarrow> execs can (k (ret_only 0)) u T)"

text \<open>The meaning of a command: with which descriptors each of its programs is to run.\<close>

primrec wired :: "(string \<Rightarrow> int \<Rightarrow> bool) \<Rightarrow> ast \<Rightarrow> nat list \<Rightarrow> fdtab \<Rightarrow> (string list \<times> fdtab) list" where
  "wired can (AExec ws) = (\<lambda>u T. if ws = [] then [] else [(ws, T)])"
| "wired can (ARedir a w mode fd) = (\<lambda>u T. if can w mode then wired can a u (T[nat fd := Some (OFile w mode)]) else [])"
| "wired can (APipe l r) =
     (\<lambda>u T. wired can l (0 # 2 # u) (T[1 := Some (PipeW u)]) @ wired can r (0 # 1 # 2 # u) (T[0 := Some (PipeR u)]))"
| "wired can (AList l r) = (\<lambda>u T. wired can l (0 # u) T @ wired can r (1 # u) T)"
| "wired can (ABack a) = (\<lambda>u T. wired can a (0 # u) T)"

text \<open>Descriptors 0, 1 and 2 are open and the others free, as \<open>main\<close> of the shell arranges.\<close>

definition std_tab :: "fdtab \<Rightarrow> bool" where
  "std_tab T \<longleftrightarrow> (\<exists>a b c. T = [Some a, Some b, Some c] @ replicate 13 None)"

lemma ret_only_simps [simp]: "ret (ret_only r) = r"
  by (simp add: ret_only_def bytes_reply_def)

lemma execs_call [simp]:
  "execs can (call (SysClose fd) k) u T = execs can k u (T[nat fd := None])"
  "execs can (call (SysWait b) k) u T = execs can k u T"
  "execs can (call (SysDup fd) k) u T = with_free T (\<lambda>r n. execs can k u (T[n := T ! nat fd])) (execs can k u T)"
  "execs can (call (SysExec path argv) k) u T = [(argv, T)]"
  by (simp_all add: call_def)

lemma execs_fprintf [simp]: "execs can (fprintf fd fmt as k) u T = execs can k u T"
proof -
  have "execs can (foldr (putc fd) s k) u T = execs can k u T" for s
    by (induction s) (simp_all add: putc_def call_def)
  then show ?thesis by (simp add: fprintf_def)
qed

lemma execs_fork1 [simp]: "execs can (fork1 k) u T = execs can (k 0) (0 # u) T @ execs can (k 1) (1 # u) T"
  by (simp add: fork1_def)

fun redir_fds :: "ast \<Rightarrow> bool" where
  "redir_fds (AExec ws) = True"
| "redir_fds (ARedir a w mode fd) \<longleftrightarrow> fd \<in> {0, 1} \<and> redir_fds a"
| "redir_fds (APipe l r) \<longleftrightarrow> redir_fds l \<and> redir_fds r"
| "redir_fds (AList l r) \<longleftrightarrow> redir_fds l \<and> redir_fds r"
| "redir_fds (ABack a) \<longleftrightarrow> redir_fds a"

lemma ast_ok_fds: "ast_ok a \<Longrightarrow> redir_fds a"
  by (induction a) (auto simp: redir_ok_def)

lemma replicate_13: "replicate 13 x = x # x # replicate 11 x"
  by (simp add: eval_nat_numeral)

lemma std_tab_update: "std_tab T \<Longrightarrow> i < 2 \<Longrightarrow> std_tab (T[i := Some x])"
  by (auto simp: std_tab_def less_2_cases_iff)

lemma runcmd_wired:
  assumes "std_tab T" "redir_fds (ast_of (\<lambda>(q, _). cstr b q) c)"
  shows "execs can (runcmd b c) u T = wired can (ast_of (\<lambda>(q, _). cstr b q) c) u T"
  using assms
proof (induction c arbitrary: u T)
  case (EXEC args)
  then show ?case by (auto split: list.split)
next
  case (REDIR c sp mode fd)
  obtain q eq where sp: "sp = (q, eq)" by fastforce
  let ?w = "cstr b q"
  have fd: "fd = 0 \<or> fd = 1" using REDIR.prems(2) by simp
  obtain a0 a1 a2 where T: "T = [Some a0, Some a1, Some a2] @ replicate 13 None" using REDIR.prems(1) by (auto simp: std_tab_def)
  have free: "with_free (T[nat fd := None]) f g = f fd (nat fd)" for f :: "int \<Rightarrow> nat \<Rightarrow> (string list \<times> fdtab) list" and g
    using fd by (auto simp: with_free_def T)
  have "std_tab (T[nat fd := Some (OFile ?w mode)])" using fd REDIR.prems(1) by (intro std_tab_update) auto
  from REDIR.IH [OF this] show ?case using fd REDIR.prems(2) by (auto simp: free sp)
next
  case (LIST l r)
  then show ?case by simp
next
  case (PIPE l r)
  obtain a0 a1 a2 where T: "T = [Some a0, Some a1, Some a2] @ replicate 13 None" using PIPE.prems(1) by (auto simp: std_tab_def)
  have L: "std_tab (T[1 := Some (PipeW u)])" and R: "std_tab (T[0 := Some (PipeR u)])"
    using PIPE.prems(1) by (auto intro: std_tab_update)
  let ?T = "Some a0 # Some a1 # Some a2 # Some (PipeR u) # Some (PipeW u) # replicate 11 None"
  have pipe: "with_free T f g = f 3 3" "with_free (T[3 := Some (PipeR u)]) f g = f 4 4"
    "T[3 := Some (PipeR u), 4 := Some (PipeW u)] = ?T" for f :: "int \<Rightarrow> nat \<Rightarrow> (string list \<times> fdtab) list" and g
    by (simp_all add: with_free_def T replicate_13) (simp_all add: eval_nat_numeral)
  have left: "execs can (call (SysClose 1) (call (SysDup 4) (call (SysClose 3) (call (SysClose 4) k)))) v ?T =
      execs can k v (T[1 := Some (PipeW u)])" for k v
    by (simp add: with_free_def T replicate_13)
  have right: "execs can (call (SysClose 0) (call (SysDup 3) (call (SysClose 3) (call (SysClose 4) k)))) v ?T =
      execs can k v (T[0 := Some (PipeR u)])" for k v
    by (simp add: with_free_def T replicate_13)
  have parent: "execs can (call (SysClose 3) (call (SysClose 4) (call (SysWait False) (call (SysWait False) (Exit 0))))) v ?T = []" for v
    by simp
  show ?case
    using PIPE.IH PIPE.prems(2) L R by (simp add: pipe left right parent del: execs_call)
next
  case (BACK c)
  then show ?case by simp
qed

section \<open>Properties\<close>

text \<open>C21: the parser ends on every line, with a command or with a syntax error: the recursion of
  \<open>parseline\<close>, \<open>parsepipe\<close>, \<open>parseexec\<close> and \<open>parseblock\<close> is never deeper than four calls for
  each character of the line, and four more.\<close>

theorem parsecmd_terminates: "parsecmd s \<noteq> Inl NoFuel"
  using parseline_ok [of s]
  by (cases "parseline (parse_fuel s) s 0") (auto simp: parsecmd_def parses_def split: prod.splits if_splits)

text \<open>C25: the parser inverts printing. The text of any command built from words without white space or
  symbols, at most nine to a simple command, with redirections, pipes, lists, background marks and
  parentheses where the grammar needs them, parses to that command; and after \<open>nulterminate\<close> every
  word read from the line is the word that was printed.\<close>

theorem parse_unparse:
  assumes "ast_ok a"
  shows "\<exists>c b. parsecmd (unparse a 0) = Inr (c, b) \<and> ast_of (\<lambda>(q, _). cstr b q) c = a"
  using assms by (rule parsecmd_unparse)

definition line_ex :: ast where
  "line_ex = AList (ABack (APipe (AExec [''cat'', ''f'']) (ARedir (AExec [''wc'']) ''out'' (O_WRONLY OR O_CREATE OR O_TRUNC) 1)))
     (ARedir (APipe (AExec [''ls'']) (AExec [''grep'', ''x''])) ''in'' O_RDONLY 0)"

lemma line_ex_ok: "ast_ok line_ex"
  by (simp add: line_ex_def redir_ok_def word_ok_def whitespace_def symbols_def MAXARGS_def)

theorem parse_unparse_witness:
  "unparse line_ex 0 = ''cat f |wc >out &;(ls |grep x )<in '' \<and>
   (\<exists>c b. parsecmd (unparse line_ex 0) = Inr (c, b) \<and> ast_of (\<lambda>(q, _). cstr b q) c = line_ex)"
  using parse_unparse [OF line_ex_ok]
  by (simp add: line_ex_def paren_def word_text_def rsym_def flags_distinct)

text \<open>C26: the shell wires up descriptors as the command says. When 0, 1 and 2 are open and the rest are
  free, running the text of a command makes exactly the \<open>exec\<close> calls of the command, each with its
  words and with the caller's descriptors changed only as its redirections and pipes say: no process
  keeps a pipe end open that is not its input or output.\<close>

theorem shell_wires_descriptors:
  assumes "ast_ok a" "std_tab T"
  shows "execs can (run_line (unparse a 0)) u T = wired can a u T"
proof -
  obtain c b where "parsecmd (unparse a 0) = Inr (c, b)" "ast_of (\<lambda>(q, _). cstr b q) c = a"
    using parsecmd_unparse [OF assms(1)] by blast
  then show ?thesis using runcmd_wired [OF assms(2)] ast_ok_fds [OF assms(1)] by (simp add: run_line_def)
qed

theorem shell_wires_descriptors_witness:
  "execs (\<lambda>_ _. True) (run_line ''cat f |wc >out &;(ls |grep x )<in '') [] ([Some (Std 0), Some (Std 1), Some (Std 2)] @ replicate 13 None) =
     [([''cat'', ''f''], [Some (Std 0), Some (PipeW [0, 0]), Some (Std 2)] @ replicate 13 None),
      ([''wc''], [Some (PipeR [0, 0]), Some (OFile ''out'' (O_WRONLY OR O_CREATE OR O_TRUNC)), Some (Std 2)] @ replicate 13 None),
      ([''ls''], [Some (OFile ''in'' O_RDONLY), Some (PipeW [1]), Some (Std 2)] @ replicate 13 None),
      ([''grep'', ''x''], [Some (PipeR [1]), Some (Std 1), Some (Std 2)] @ replicate 13 None)]"
proof -
  let ?T = "[Some (Std 0), Some (Std 1), Some (Std 2)] @ replicate 13 None"
  have "unparse line_ex 0 = ''cat f |wc >out &;(ls |grep x )<in ''"
    by (simp add: line_ex_def paren_def word_text_def rsym_def flags_distinct)
  moreover have "std_tab ?T" by (auto simp: std_tab_def)
  ultimately show ?thesis
    using shell_wires_descriptors [OF line_ex_ok, of ?T "\<lambda>_ _. True" "[]"] by (simp add: line_ex_def)
qed

end
