(* ===== verification/Spec2Isabelle.thy ===== *)
theory Spec2Isabelle
  imports Dirs Spinlock Wakeup Racetest Syscall DiskProtocol Umalloc Utils Grep ShellSpec
begin

text \<open>
  Verification of an xv6-riscv kernel with system-call tracing and a shared-counter experiment.
\<close>

end
